(* ===== verification/Opt_Prelude.thy ===== *)
theory Opt_Prelude
  imports Main "HOL-Library.AList"
begin

text \<open>
  Shared vocabulary of the development: how the JavaScript values, containers and
  exceptions the Optimystic sources use are represented, and the generic lemmas the
  component theories build on.

  \<^item> A fallible operation returns \<open>'e + 'a\<close>: \<open>Inl\<close> is the thrown error, \<open>Inr\<close> the
    result; \<open>ebind\<close> sequences two of them, \<open>efold\<close> is a loop that stops at the first throw.
  \<^item> A JavaScript \<open>Map\<close> or plain object used as a dictionary is an association list in
    insertion order with distinct keys: \<open>map_of\<close> reads, \<open>AList.update\<close> is \<open>set\<close> (it keeps
    the position of an existing key and appends a new one), \<open>AList.delete\<close> removes.
  \<^item> A \<open>Set\<close> built from an array is \<open>js_set\<close>: first occurrences, in order.
  \<^item> \<open>js_splice\<close> is \<open>Array.prototype.splice\<close> with its clamping rules.
\<close>

named_theorems js_simps \<open>characteristic equations of the JavaScript primitives\<close>
named_theorems opt_inv \<open>preservation of the component invariants by their operations\<close>

type_synonym block_id = string
type_synonym action_id = string
type_synonym collection_id = string

section \<open>Exceptions as sums\<close>

definition ebind :: "'e + 'a \<Rightarrow> ('a \<Rightarrow> 'e + 'b) \<Rightarrow> 'e + 'b" where
  "ebind r f = (case r of Inl e \<Rightarrow> Inl e | Inr a \<Rightarrow> f a)"

lemma ebind_simps [simp]:
  "ebind (Inl e) f = Inl e"
  "ebind (Inr a) f = f a"
  by (simp_all add: ebind_def)

lemma ebind_Inr_iff: "ebind r f = Inr b \<longleftrightarrow> (\<exists>a. r = Inr a \<and> f a = Inr b)"
  by (cases r) auto

lemma ebind_assoc: "ebind (ebind r f) g = ebind r (\<lambda>a. ebind (f a) g)"
  by (cases r) auto

fun efold :: "('a \<Rightarrow> 's \<Rightarrow> 'e + 's) \<Rightarrow> 'a list \<Rightarrow> 's \<Rightarrow> 'e + 's" where
  "efold f [] s = Inr s"
| "efold f (x # xs) s = ebind (f x s) (efold f xs)"

lemma efold_append: "efold f (xs @ ys) s = ebind (efold f xs s) (efold f ys)"
  by (induction xs arbitrary: s) (auto simp: ebind_assoc ebind_def split: sum.splits)

lemma efold_invariant:
  assumes "efold f xs s = Inr s'" and "P s"
    and "\<And>x s s'. x \<in> set xs \<Longrightarrow> P s \<Longrightarrow> f x s = Inr s' \<Longrightarrow> P s'"
  shows "P s'"
  using assms
proof (induction xs arbitrary: s)
  case (Cons x xs)
  from Cons.prems(1) obtain s1 where s1: "f x s = Inr s1" "efold f xs s1 = Inr s'"
    by (auto simp: ebind_Inr_iff)
  have "P s1" using Cons.prems(2,3) s1(1) by auto
  then show ?case using Cons.IH [OF s1(2)] Cons.prems(3) by auto
qed simp

section \<open>Array.prototype.splice\<close>

text \<open>
  \<open>xs.splice(start, deleteCount, ...items)\<close>: a negative start counts from the end, a start
  past the end is clamped to the length, and at most the rest of the array is removed.
\<close>

definition js_start :: "int \<Rightarrow> nat \<Rightarrow> nat" where
  "js_start i n = (if i < 0 then nat (int n + i) else min (nat i) n)"

definition js_splice :: "int \<Rightarrow> int \<Rightarrow> 'a list \<Rightarrow> 'a list \<Rightarrow> 'a list" where
  "js_splice i d vs xs =
     (let s = js_start i (length xs); k = min (nat d) (length xs - s)
      in take s xs @ vs @ drop (s + k) xs)"

definition js_slice :: "int \<Rightarrow> int \<Rightarrow> 'a list \<Rightarrow> 'a list" where
  \<comment> \<open>\<open>xs.slice(from, to)\<close>\<close>
  "js_slice i j xs =
     (let s = js_start i (length xs); e = js_start j (length xs)
      in take (e - s) (drop s xs))"

definition js_slice_from :: "int \<Rightarrow> 'a list \<Rightarrow> 'a list" where
  "js_slice_from i xs = drop (js_start i (length xs)) xs"

lemma js_splice_nat [js_simps, simp]:
  "js_splice (int i) (int d) vs xs = take i xs @ vs @ drop (i + d) xs"
  by (cases "i \<le> length xs")
     (auto simp: js_splice_def js_start_def Let_def min_def not_le intro: arg_cong2)

lemma js_splice_nonneg [js_simps]:
  assumes "0 \<le> i" and "0 \<le> d"
  shows "js_splice i d vs xs = take (nat i) xs @ vs @ drop (nat i + nat d) xs"
  using js_splice_nat [of "nat i" "nat d" vs xs] assms by simp

lemma js_splice_tail [js_simps, simp]:
  "n \<le> length xs \<Longrightarrow> js_splice (int (length xs) - int n) (int n) [] xs = take (length xs - n) xs"
  using js_splice_nat [of "length xs - n" n "[]" xs] by (simp add: of_nat_diff)

lemma js_splice_zero [js_simps, simp]: "js_splice 0 (int n) vs xs = vs @ drop n xs"
  using js_splice_nat [of 0 n vs xs] by simp

lemma js_slice_nat [js_simps, simp]: "js_slice 0 (int j) xs = take j xs"
  by (simp add: js_slice_def js_start_def Let_def min_def)

lemma js_slice_from_nat [js_simps, simp]: "js_slice_from (int i) xs = drop i xs"
  by (simp add: js_slice_from_def js_start_def min_def)

section \<open>Distinct lists: new Set(xs)\<close>

definition js_set :: "'a list \<Rightarrow> 'a list" where
  "js_set xs = rev (remdups (rev xs))"

lemma set_js_set [simp]: "set (js_set xs) = set xs"
  by (simp add: js_set_def)

lemma distinct_js_set [simp]: "distinct (js_set xs)"
  by (simp add: js_set_def)

lemma js_set_distinct [simp]: "distinct xs \<Longrightarrow> js_set xs = xs"
  by (simp add: js_set_def distinct_remdups_id)

section \<open>Dictionaries\<close>

lemma map_of_update [simp]: "map_of (AList.update k v al) = (map_of al)(k \<mapsto> v)"
  by (simp add: AList.update_conv')

lemma map_of_delete [simp]: "map_of (AList.delete k al) = (map_of al)(k := None)"
  by (simp add: AList.delete_conv')

lemma keys_update: "set (map fst (AList.update k v al)) = insert k (set (map fst al))"
  by (metis dom_map_of_conv_image_fst dom_fun_upd map_of_update option.discI set_map)

lemma map_of_eq_None_keys: "map_of al k = None \<longleftrightarrow> k \<notin> set (map fst al)"
  by (simp add: map_of_eq_None_iff)

end
