(* ===== verification/Key_Encoding.thy ===== *)
theory Key_Encoding
  imports Opt_Prelude "HOL-Library.Word"
begin

text \<open>
  The tuple framing of tree keys in
  \<open>packages/quereus-plugin-optimystic/src/schema/key-encoding.ts\<close>. A key is a JavaScript
  string, that is a list of UTF-16 code units; the trees order keys with the raw
  \<open>a < b ? -1 : a > b ? 1 : 0\<close> of \<open>collection-factory.ts\<close>. The lemmas show that the framing is
  uniquely decodable, that it carries the order of the tuples over to the order of the
  strings, and that the range \<open>[P, P + KEY_PREFIX_END)\<close> of an index scan holds exactly the
  tuples that extend \<open>P\<close>.
\<close>

section \<open>Strings and their order\<close>

type_synonym code_unit = "16 word"
type_synonym js_string = "code_unit list"

fun str_less :: "js_string \<Rightarrow> js_string \<Rightarrow> bool" where
  "str_less xs [] = False"
| "str_less [] (y # ys) = True"
| "str_less (x # xs) (y # ys) = (x < y \<or> x = y \<and> str_less xs ys)"

definition key_compare :: "js_string \<Rightarrow> js_string \<Rightarrow> int" where
  "key_compare a b = (if str_less a b then -1 else if str_less b a then 1 else 0)"

section \<open>Framing\<close>

definition NULL_TAG :: code_unit where "NULL_TAG = 0"
definition PRESENT_TAG :: code_unit where "PRESENT_TAG = 2"
definition TERMINATOR :: code_unit where "TERMINATOR = 0"
definition ESCAPE_HI :: code_unit where "ESCAPE_HI = 255"
definition KEY_PREFIX_END :: js_string where "KEY_PREFIX_END = [3]"

lemmas key_tags = NULL_TAG_def PRESENT_TAG_def TERMINATOR_def ESCAPE_HI_def

definition escapePayload :: "js_string \<Rightarrow> js_string" where
  "escapePayload payload =
     (if 0 \<notin> set payload then payload
      else concat (map (\<lambda>c. if c = 0 then [0, ESCAPE_HI] else [c]) payload))"

definition encodeKeyElement :: "js_string option \<Rightarrow> js_string" where
  "encodeKeyElement payload =
     (case payload of None \<Rightarrow> [NULL_TAG]
      | Some p \<Rightarrow> PRESENT_TAG # escapePayload p @ [TERMINATOR])"

fun encodeKeyTuple_loop :: "js_string \<Rightarrow> js_string option list \<Rightarrow> js_string" where
  "encodeKeyTuple_loop out [] = out"
| "encodeKeyTuple_loop out (p # ps) = encodeKeyTuple_loop (out @ encodeKeyElement p) ps"

definition encodeKeyTuple :: "js_string option list \<Rightarrow> js_string" where
  "encodeKeyTuple payloads = encodeKeyTuple_loop [] payloads"

record decoded_key_element =
  isNull :: bool
  payload :: js_string

fun readPayload :: "js_string \<Rightarrow> js_string \<Rightarrow> js_string \<times> js_string" where
  \<comment> \<open>the inner loop of \<open>splitKeyTuple\<close>: the payload read so far and the units left\<close>
  "readPayload acc [] = (acc, [])"
| "readPayload acc (c # cs) =
     (if c = TERMINATOR then
        (case cs of [] \<Rightarrow> (acc, [])
         | d # ds \<Rightarrow> if d = ESCAPE_HI then readPayload (acc @ [0]) ds else (acc, d # ds))
      else readPayload (acc @ [c]) cs)"

declare readPayload.simps(2) [simp del]

lemma readPayload_length: "length (snd (readPayload acc cs)) \<le> length cs"
proof (induction acc cs rule: readPayload.induct)
  case (2 acc c cs)
  then show ?case
    by (cases cs) (force simp: readPayload.simps(2) [of acc c])+
qed simp

lemma readPayload_shrinks: "(p, r) = readPayload [] cs \<Longrightarrow> length r < Suc (length cs)"
  by (metis le_imp_less_Suc readPayload_length snd_conv)

function splitKeyTuple :: "js_string \<Rightarrow> decoded_key_element list" where
  "splitKeyTuple [] = []"
| "splitKeyTuple (tag # rest) =
     (if tag = NULL_TAG then \<lparr>isNull = True, payload = []\<rparr> # splitKeyTuple rest
      else (case readPayload [] rest of
              (p, rest') \<Rightarrow> \<lparr>isNull = False, payload = p\<rparr> # splitKeyTuple rest'))"
  by pat_completeness auto
termination
  by (relation "measure length") (auto simp: le_imp_less_Suc intro: readPayload_shrinks)

section \<open>The specification: tuples and their order\<close>

definition decoded :: "js_string option \<Rightarrow> decoded_key_element" where
  "decoded e = (case e of None \<Rightarrow> \<lparr>isNull = True, payload = []\<rparr>
                | Some p \<Rightarrow> \<lparr>isNull = False, payload = p\<rparr>)"

fun elem_less :: "js_string option \<Rightarrow> js_string option \<Rightarrow> bool" where
  \<comment> \<open>SQL NULL first, then present values by payload\<close>
  "elem_less _ None = False"
| "elem_less None (Some _) = True"
| "elem_less (Some a) (Some b) = str_less a b"

fun tuple_less :: "js_string option list \<Rightarrow> js_string option list \<Rightarrow> bool" where
  "tuple_less ps [] = False"
| "tuple_less [] (q # qs) = True"
| "tuple_less (p # ps) (q # qs) = (elem_less p q \<or> p = q \<and> tuple_less ps qs)"

section \<open>Basic facts\<close>

lemma str_less_irrefl [simp]: "\<not> str_less xs xs"
  by (induction xs) auto

lemma str_less_append [simp]: "str_less (xs @ ys) (xs @ zs) = str_less ys zs"
  by (induction xs) auto

lemma str_less_prefix [simp]: "str_less xs (xs @ ys) = (ys \<noteq> [])"
  using str_less_append [of xs "[]" ys] by (cases ys) auto

lemma str_less_asym: "str_less xs ys \<Longrightarrow> \<not> str_less ys xs"
  by (induction xs ys rule: str_less.induct) auto

lemma str_less_linear: "str_less xs ys \<or> xs = ys \<or> str_less ys xs"
proof (induction xs ys rule: str_less.induct)
  case (1 xs)
  then show ?case by (cases xs) auto
qed auto

lemma str_between_prefix:
  assumes "\<not> str_less ys xs" and "str_less ys (xs @ [c])"
  shows "\<exists>t. ys = xs @ t \<and> (t = [] \<or> hd t < c)"
  using assms
proof (induction xs arbitrary: ys)
  case Nil
  then show ?case by (cases ys) auto
next
  case (Cons x xs)
  show ?case
  proof (cases ys)
    case Nil
    with Cons.prems show ?thesis by simp
  next
    case (Cons y ys')
    with Cons.prems have "y = x" "\<not> str_less ys' xs" "str_less ys' (xs @ [c])" by auto
    with Cons.IH [of ys'] show ?thesis using Cons by auto
  qed
qed

lemma escapePayload_simps [simp]:
  "escapePayload [] = []"
  "escapePayload (c # cs) = (if c = 0 then [0, ESCAPE_HI] else [c]) @ escapePayload cs"
proof -
  have "concat (map (\<lambda>c. if c = 0 then [0, ESCAPE_HI] else [c]) p) = p" if "0 \<notin> set p" for p :: js_string
    using that by (induction p) auto
  then have "escapePayload p = concat (map (\<lambda>c. if c = 0 then [0, ESCAPE_HI] else [c]) p)" for p
    by (simp add: escapePayload_def)
  then show "escapePayload [] = []"
    "escapePayload (c # cs) = (if c = 0 then [0, ESCAPE_HI] else [c]) @ escapePayload cs"
    by simp_all
qed

lemma encodeKeyTuple_loop_eq: "encodeKeyTuple_loop out ps = out @ concat (map encodeKeyElement ps)"
  by (induction ps arbitrary: out) auto

lemma encodeKeyTuple_simps [simp]:
  "encodeKeyTuple [] = []"
  "encodeKeyTuple (p # ps) = encodeKeyElement p @ encodeKeyTuple ps"
  "encodeKeyTuple (ps @ qs) = encodeKeyTuple ps @ encodeKeyTuple qs"
  by (simp_all add: encodeKeyTuple_def encodeKeyTuple_loop_eq)

text \<open>
  What may follow an element: nothing, or a string that does not start with the escape unit.
  Every tail of an encoded tuple is of this kind.
\<close>

definition boundary :: "js_string \<Rightarrow> bool" where
  "boundary r \<longleftrightarrow> r = [] \<or> hd r \<noteq> ESCAPE_HI \<and> hd r < 255"

lemma boundary_Nil [simp]: "boundary []"
  by (simp add: boundary_def)

lemma boundary_Cons: "boundary (c # r) \<longleftrightarrow> c < 255"
  by (auto simp: boundary_def ESCAPE_HI_def)

lemma boundary_encode [simp]: "boundary t \<Longrightarrow> boundary (encodeKeyTuple ps @ t)"
  by (cases ps) (auto simp: encodeKeyElement_def boundary_Cons key_tags split: option.splits)

lemma readPayload_escape:
  "boundary r \<Longrightarrow> readPayload acc (escapePayload p @ TERMINATOR # r) = (acc @ p, r)"
proof (induction p arbitrary: acc)
  case Nil
  then show ?case by (cases r) (auto simp: boundary_def readPayload.simps(2))
next
  case (Cons c cs)
  then show ?case by (auto simp: TERMINATOR_def readPayload.simps(2))
qed

lemma str_less_escape:
  assumes "boundary r" and "boundary s"
  shows "str_less (escapePayload a @ TERMINATOR # r) (escapePayload b @ TERMINATOR # s)
         = (if a = b then str_less r s else str_less a b)"
proof (induction a arbitrary: b)
  case Nil
  show ?case
  proof (cases b)
    case (Cons c cs)
    show ?thesis
    proof (cases "c = 0")
      case True
      have "str_less r (255 # escapePayload cs @ 0 # s)"
        using assms(1) by (cases r) (auto simp: boundary_Cons)
      with Cons True show ?thesis by (simp add: key_tags)
    next
      case False
      then have "0 < c" by (simp add: word_gt_0)
      with Cons False show ?thesis by (simp add: key_tags)
    qed
  qed simp
next
  case (Cons x xs)
  show ?case
  proof (cases b)
    case Nil
    have "\<not> str_less (255 # escapePayload xs @ 0 # r) s"
      using assms(2) by (cases s) (auto simp: boundary_Cons)
    moreover have "\<not> x < 0" by simp
    ultimately show ?thesis using Nil by (auto simp: key_tags)
  next
    case (Cons y ys)
    have "0 < y" if "y \<noteq> 0" using that by (simp add: word_gt_0)
    moreover have "\<not> x < 0" by simp
    ultimately show ?thesis
      using Cons Cons.IH [of ys] by (auto simp: ESCAPE_HI_def split: if_splits)
  qed
qed

lemma str_less_element:
  assumes "boundary r" and "boundary s"
  shows "str_less (encodeKeyElement p @ r) (encodeKeyElement q @ s)
         = (elem_less p q \<or> p = q \<and> str_less r s)"
proof -
  have "(0 :: code_unit) < 2" by simp
  then show ?thesis
    using str_less_escape [OF assms]
    by (cases p; cases q) (auto simp: encodeKeyElement_def key_tags)
qed

lemma encodeKeyElement_inj:
  assumes "boundary r" and "boundary s" and "encodeKeyElement p @ r = encodeKeyElement q @ s"
  shows "p = q \<and> r = s"
proof -
  have "\<not> elem_less p q" "\<not> elem_less q p"
    using str_less_element [OF assms(1,2), of p q] str_less_element [OF assms(2,1), of q p] assms(3)
    by auto
  then have "p = q"
    using str_less_linear by (cases p; cases q) auto
  with assms(3) show ?thesis by simp
qed

lemma encodeKeyTuple_prefix:
  assumes "boundary t" and "encodeKeyTuple qs = encodeKeyTuple ps @ t"
  shows "\<exists>rs. qs = ps @ rs \<and> t = encodeKeyTuple rs"
  using assms
proof (induction ps arbitrary: qs)
  case Nil
  then show ?case by simp
next
  case (Cons p ps)
  show ?case
  proof (cases qs)
    case Nil
    with Cons.prems show ?thesis by (simp add: encodeKeyElement_def split: option.splits)
  next
    case (Cons q qs')
    have b: "boundary (encodeKeyTuple qs')" using boundary_encode [of "[]" qs'] by simp
    have eq: "encodeKeyElement q @ encodeKeyTuple qs' = encodeKeyElement p @ encodeKeyTuple ps @ t"
      using Cons Cons.prems(2) by simp
    have "q = p \<and> encodeKeyTuple qs' = encodeKeyTuple ps @ t"
      by (rule encodeKeyElement_inj [OF b boundary_encode [OF Cons.prems(1)] eq])
    with Cons.IH [OF Cons.prems(1)] Cons show ?thesis by auto
  qed
qed

section \<open>Properties\<close>

text \<open>C29. Decoding an encoded tuple gives back exactly its elements: SQL NULLs and payloads,
  including payloads that contain the NUL unit.\<close>

theorem splitKeyTuple_encodeKeyTuple:
  "splitKeyTuple (encodeKeyTuple ps) = map decoded ps"
proof (induction ps)
  case (Cons p ps)
  have b: "boundary (encodeKeyTuple ps)" using boundary_encode [of "[]" ps] by simp
  show ?case
    using Cons.IH readPayload_escape [OF b, of "[]"]
    by (cases p) (simp_all add: encodeKeyElement_def decoded_def key_tags)
qed simp

text \<open>C30. The framing is order-preserving: comparing two encoded keys with the comparator of
  the trees is comparing the tuples element by element, NULL before any present value, present
  values by payload, a shorter tuple before its extensions. In particular two tuples have the
  same key only when they are equal.\<close>

theorem key_compare_encodeKeyTuple:
  "key_compare (encodeKeyTuple ps) (encodeKeyTuple qs)
   = (if tuple_less ps qs then -1 else if ps = qs then 0 else 1)"
proof -
  have less: "str_less (encodeKeyTuple ps) (encodeKeyTuple qs) = tuple_less ps qs" for ps qs
  proof (induction ps qs rule: tuple_less.induct)
    case (2 q qs)
    then show ?case by (cases q) (auto simp: encodeKeyElement_def)
  next
    case (3 p ps q qs)
    have "boundary (encodeKeyTuple rs)" for rs using boundary_encode [of "[]" rs] by simp
    from str_less_element [OF this this, of p _ q] 3 show ?case by simp
  qed simp
  have "ps = qs" if "\<not> tuple_less ps qs" "\<not> tuple_less qs ps"
  proof -
    have "encodeKeyTuple ps = encodeKeyTuple qs"
      using that str_less_linear less by blast
    then show ?thesis using encodeKeyTuple_prefix [of "[]" ps qs] encodeKeyTuple_prefix [of "[]" qs ps]
      by auto
  qed
  moreover have "\<not> tuple_less ps ps" using less [of ps ps] by simp
  ultimately show ?thesis by (auto simp: key_compare_def less dest: str_less_asym simp flip: less)
qed

text \<open>C31. The prefix range of an index scan is exact: the keys from \<open>P\<close> (inclusive) to
  \<open>P + KEY_PREFIX_END\<close> (exclusive) are the keys of the tuples that extend the prefix tuple, and
  no others.\<close>

theorem key_prefix_range_exact:
  "(\<not> str_less (encodeKeyTuple qs) (encodeKeyTuple ps)
    \<and> str_less (encodeKeyTuple qs) (encodeKeyTuple ps @ KEY_PREFIX_END))
   \<longleftrightarrow> (\<exists>rs. qs = ps @ rs)"
proof
  assume "\<not> str_less (encodeKeyTuple qs) (encodeKeyTuple ps)
    \<and> str_less (encodeKeyTuple qs) (encodeKeyTuple ps @ KEY_PREFIX_END)"
  then obtain t where t: "encodeKeyTuple qs = encodeKeyTuple ps @ t" "t = [] \<or> hd t < 3"
    using str_between_prefix by (fastforce simp: KEY_PREFIX_END_def)
  have "boundary t"
  proof (cases t)
    case (Cons c r)
    with t(2) have "c < 3" by simp
    then have "c < 255" by (rule less_trans) simp
    with Cons show ?thesis by (simp add: boundary_Cons)
  qed simp
  from encodeKeyTuple_prefix [OF this t(1)] show "\<exists>rs. qs = ps @ rs" by auto
next
  assume "\<exists>rs. qs = ps @ rs"
  then obtain rs where rs: "qs = ps @ rs" by blast
  have "str_less (encodeKeyTuple rs) [3]"
    by (cases rs) (auto simp: encodeKeyElement_def key_tags split: option.splits)
  moreover have "\<not> str_less (encodeKeyTuple ps @ encodeKeyTuple rs) (encodeKeyTuple ps)"
    using str_less_append [of "encodeKeyTuple ps" "encodeKeyTuple rs" "[]"] by simp
  ultimately show "\<not> str_less (encodeKeyTuple qs) (encodeKeyTuple ps)
    \<and> str_less (encodeKeyTuple qs) (encodeKeyTuple ps @ KEY_PREFIX_END)"
    by (simp add: rs KEY_PREFIX_END_def)
qed

end
