(* ===== verification/Block_Ops.thy ===== *)
theory Block_Ops
  imports Opt_Prelude
begin

text \<open>
  Blocks and block operations: \<open>packages/db-core/src/blocks\<close> and the block-level part of
  \<open>packages/db-core/src/transform/helpers.ts\<close>. A block is its header and its own fields; a
  field is an array or a single value of an abstract value type \<open>'v\<close> (block ids and entries).
  Values are immutable here, so \<open>structuredClone\<close> is the identity and an in-place mutation
  returns the new block. A header is never the target of an operation: the entities the
  sources use are \<open>entries\<close>, \<open>partitions\<close>, \<open>nodes\<close>, \<open>rootId\<close>, \<open>headId\<close>, \<open>tailId\<close>,
  \<open>priorId\<close> and \<open>nextId\<close>.
\<close>

section \<open>Blocks\<close>

datatype error =
    TypeErr string            \<comment> \<open>a property access on \<open>undefined\<close>, a \<open>splice\<close> of a non-array\<close>
  | MissingBlockErr block_id  \<comment> \<open>\<open>Error("Missing block (id)")\<close>\<close>
  | Err string                \<comment> \<open>any other \<open>new Error(...)\<close>, by the start of its message\<close>

record block_header =
  hdr_id :: block_id
  hdr_type :: string
  hdr_collectionId :: collection_id

datatype 'v field = FArr "'v list" | FVal 'v

record 'v block =
  header :: block_header
  attrs :: "string \<rightharpoonup> 'v field"

abbreviation block_id_of :: "'v block \<Rightarrow> block_id" where
  "block_id_of b \<equiv> hdr_id (header b)"

datatype 'v inserted = Many "'v list" | One 'v
  \<comment> \<open>\<open>Array.isArray(inserted)\<close> tells the two apart\<close>

record 'v operation =
  op_entity :: string
  op_index :: int
  op_deleteCount :: int
  op_inserted :: "'v inserted"

abbreviation splice_op :: "string \<Rightarrow> nat \<Rightarrow> nat \<Rightarrow> 'v list \<Rightarrow> 'v operation" where
  "splice_op e i d vs \<equiv>
     \<lparr>op_entity = e, op_index = int i, op_deleteCount = int d, op_inserted = Many vs\<rparr>"

abbreviation set_op :: "string \<Rightarrow> 'v \<Rightarrow> 'v operation" where
  "set_op e v \<equiv> \<lparr>op_entity = e, op_index = 0, op_deleteCount = 0, op_inserted = One v\<rparr>"

section \<open>Block types\<close>

type_synonym type_registry = "(string \<times> string) list"

definition registerBlockType :: "type_registry \<Rightarrow> string \<Rightarrow> string \<Rightarrow> error + string \<times> type_registry" where
  "registerBlockType blockTypes blockType name =
     (if map_of blockTypes blockType \<noteq> None then Inl (Err ''Block type already registered'')
      else Inr (blockType, AList.update blockType name blockTypes))"

section \<open>Applying operations\<close>

definition applyOperation :: "'v block \<Rightarrow> 'v operation \<Rightarrow> error + 'v block" where
  "applyOperation b op =
     (case op_inserted op of
        Many vs \<Rightarrow>
          (case attrs b (op_entity op) of
             Some (FArr xs) \<Rightarrow>
               Inr (b\<lparr>attrs := (attrs b)(op_entity op \<mapsto>
                        FArr (js_splice (op_index op) (op_deleteCount op) vs xs))\<rparr>)
           | _ \<Rightarrow> Inl (TypeErr (op_entity op)))
      | One v \<Rightarrow> Inr (b\<lparr>attrs := (attrs b)(op_entity op \<mapsto> FVal v)\<rparr>))"

definition applyOperations :: "'v block \<Rightarrow> 'v operation list \<Rightarrow> error + 'v block" where
  "applyOperations b ops = efold (\<lambda>op b. applyOperation b op) ops b"

definition withOperation :: "'v block \<Rightarrow> 'v operation \<Rightarrow> error + 'v block" where
  "withOperation b op =
     (case op_inserted op of
        Many vs \<Rightarrow>
          (case attrs b (op_entity op) of
             Some (FArr xs) \<Rightarrow>
               Inr (b\<lparr>attrs := (attrs b)(op_entity op \<mapsto>
                        FArr (js_slice 0 (op_index op) xs @ vs
                              @ js_slice_from (op_index op + op_deleteCount op) xs))\<rparr>)
           | _ \<Rightarrow> Inl (TypeErr (op_entity op)))
      | One v \<Rightarrow> Inr (b\<lparr>attrs := (attrs b)(op_entity op \<mapsto> FVal v)\<rparr>))"

section \<open>Lemmas\<close>

lemma applyOperations_simps [simp]:
  "applyOperations b [] = Inr b"
  "applyOperations b (op # ops) = ebind (applyOperation b op) (\<lambda>b. applyOperations b ops)"
  by (simp_all add: applyOperations_def)

lemma applyOperations_append:
  "applyOperations b (xs @ ys) = ebind (applyOperations b xs) (\<lambda>b. applyOperations b ys)"
  by (simp add: applyOperations_def efold_append)

lemma applyOperation_header:
  "applyOperation b op = Inr b' \<Longrightarrow> header b' = header b"
  by (auto simp: applyOperation_def split: inserted.splits option.splits field.splits)

lemma applyOperations_header:
  "applyOperations b ops = Inr b' \<Longrightarrow> header b' = header b"
  by (induction ops arbitrary: b) (auto simp: ebind_Inr_iff dest: applyOperation_header)

lemma applyOperation_splice [simp]:
  "attrs b e = Some (FArr xs) \<Longrightarrow>
   applyOperation b (splice_op e i d vs)
   = Inr (b\<lparr>attrs := (attrs b)(e \<mapsto> FArr (take i xs @ vs @ drop (i + d) xs))\<rparr>)"
  by (simp add: applyOperation_def)

lemma applyOperation_set [simp]:
  "applyOperation b (set_op e v) = Inr (b\<lparr>attrs := (attrs b)(e \<mapsto> FVal v)\<rparr>)"
  by (simp add: applyOperation_def)

lemma applyOperation_other_field:
  "applyOperation b op = Inr b' \<Longrightarrow> e \<noteq> op_entity op \<Longrightarrow> attrs b' e = attrs b e"
  by (auto simp: applyOperation_def split: inserted.splits option.splits field.splits)

section \<open>Properties\<close>

text \<open>The copying variant \<open>withOperation\<close> computes the same block as the in-place
  \<open>applyOperation\<close>, errors included, for every operation with a non-negative index and delete
  count.\<close>

theorem withOperation_eq_applyOperation:
  assumes "0 \<le> op_index op" and "0 \<le> op_deleteCount op"
  shows "withOperation b op = applyOperation b op"
proof -
  obtain i d where "op_index op = int i" "op_deleteCount op = int d"
    using assms by (metis nonneg_int_cases)
  moreover have "js_slice_from (int i + int d) xs = drop (i + d) xs" for xs :: "'a list"
    using js_slice_from_nat [of "i + d" xs] by simp
  ultimately show ?thesis
    by (auto simp: withOperation_def applyOperation_def split: inserted.splits option.splits field.splits)
qed

theorem withOperation_eq_applyOperation_witness:
  "withOperation \<lparr>header = \<lparr>hdr_id = ''a'', hdr_type = ''TL'', hdr_collectionId = ''c''\<rparr>,
                   attrs = [''entries'' \<mapsto> FArr [1, 2, 3 :: nat]]\<rparr>
      \<lparr>op_entity = ''entries'', op_index = 1, op_deleteCount = 1, op_inserted = Many [7, 8]\<rparr>
   = applyOperation \<lparr>header = \<lparr>hdr_id = ''a'', hdr_type = ''TL'', hdr_collectionId = ''c''\<rparr>,
                   attrs = [''entries'' \<mapsto> FArr [1, 2, 3 :: nat]]\<rparr>
      \<lparr>op_entity = ''entries'', op_index = 1, op_deleteCount = 1, op_inserted = Many [7, 8]\<rparr>"
  by (rule withOperation_eq_applyOperation) simp_all

end
