(* ===== verification/Transform_Ops.thy ===== *)
theory Transform_Ops
  imports Block_Ops
begin

text \<open>
  Sets of block mutations: \<open>packages/db-core/src/transform/struct.ts\<close> and the transform-level
  part of \<open>packages/db-core/src/transform/helpers.ts\<close>. The optional fields of \<open>Transforms\<close>
  default to empty in every reader (\<open>?? {}\<close>, \<open>?? []\<close>), so an absent field is the empty list.
\<close>

record 'v transforms =
  inserts :: "(block_id \<times> 'v block) list"
  updates :: "(block_id \<times> 'v operation list) list"
  deletes :: "block_id list"

record 'v transform =
  t_insert :: "'v block option"
  t_updates :: "'v operation list option"
  t_delete :: bool

definition emptyTransforms :: "'v transforms" where
  "emptyTransforms = \<lparr>inserts = [], updates = [], deletes = []\<rparr>"

definition blockIdsForTransforms :: "'v transforms \<Rightarrow> block_id list" where
  "blockIdsForTransforms t = js_set (map fst (inserts t) @ map fst (updates t) @ deletes t)"

definition isTransformsEmpty :: "'v transforms \<Rightarrow> bool" where
  "isTransformsEmpty t \<longleftrightarrow> length (inserts t) = 0 \<and> length (updates t) = 0 \<and> length (deletes t) = 0"

fun mergeUpdates :: "(block_id \<times> 'v operation list) list \<Rightarrow> (block_id \<times> 'v operation list) list
    \<Rightarrow> (block_id \<times> 'v operation list) list" where
  \<comment> \<open>the loop over \<open>Object.entries(b.updates)\<close>\<close>
  "mergeUpdates us [] = us"
| "mergeUpdates us ((i, ops) # rest) =
     mergeUpdates (AList.update i (case map_of us i of Some old \<Rightarrow> old @ ops | None \<Rightarrow> ops) us) rest"

definition mergeTransforms :: "'v transforms \<Rightarrow> 'v transforms \<Rightarrow> 'v transforms" where
  "mergeTransforms a b =
     \<lparr>inserts = fold (\<lambda>(i, blk). AList.update i blk) (inserts b) (inserts a),
      updates = mergeUpdates (updates a) (updates b),
      deletes = js_set (deletes a @ deletes b)\<rparr>"

definition concatTransforms :: "'v transforms list \<Rightarrow> 'v transforms" where
  "concatTransforms ts = foldl mergeTransforms emptyTransforms ts"

definition transformForBlockId :: "'v transforms \<Rightarrow> block_id \<Rightarrow> 'v transform" where
  "transformForBlockId t i =
     \<lparr>t_insert = map_of (inserts t) i, t_updates = map_of (updates t) i,
      t_delete = (i \<in> set (deletes t))\<rparr>"

definition transformsFromTransform :: "'v transform \<Rightarrow> block_id \<Rightarrow> 'v transforms" where
  "transformsFromTransform t i =
     \<lparr>inserts = (case t_insert t of Some b \<Rightarrow> [(i, b)] | None \<Rightarrow> []),
      updates = (case t_updates t of Some ops \<Rightarrow> [(i, ops)] | None \<Rightarrow> []),
      deletes = (if t_delete t then [i] else [])\<rparr>"

definition concatTransform :: "'v transforms \<Rightarrow> block_id \<Rightarrow> 'v transform \<Rightarrow> 'v transforms" where
  "concatTransform ts i t = mergeTransforms ts (transformsFromTransform t i)"

definition applyTransform :: "'v block option \<Rightarrow> 'v transform \<Rightarrow> error + 'v block option" where
  "applyTransform block t =
     (let block1 = (case t_insert t of Some b \<Rightarrow> Some b | None \<Rightarrow> block)
      in ebind (case (block1, t_updates t) of
                  (Some b, Some ops) \<Rightarrow> map_sum id Some (applyOperations b ops)
                | _ \<Rightarrow> Inr block1)
               (\<lambda>block2. if t_delete t then Inr None else Inr block2))"

section \<open>Lemmas\<close>

lemma map_of_mergeInserts [simp]:
  "map_of (fold (\<lambda>(i, blk). AList.update i blk) bs as) i
   = (case map_of (rev bs) i of Some b \<Rightarrow> Some b | None \<Rightarrow> map_of as i)"
  by (induction bs arbitrary: as) (auto simp: map_add_def split: option.splits)

lemma map_of_mergeUpdates:
  assumes "distinct (map fst bs)"
  shows "map_of (mergeUpdates us bs) i =
    (case map_of bs i of None \<Rightarrow> map_of us i
     | Some ops \<Rightarrow> Some (case map_of us i of Some old \<Rightarrow> old @ ops | None \<Rightarrow> ops))"
  using assms
proof (induction us bs rule: mergeUpdates.induct)
  case (2 us j ops rest)
  then have "j \<notin> fst ` set rest" "distinct (map fst rest)" by auto
  then have "map_of rest j = None" by (simp add: map_of_eq_None_iff)
  with 2 show ?case by (auto split: option.splits)
qed simp

definition transforms_dict :: "'v transforms \<Rightarrow> bool" where
  \<comment> \<open>\<open>inserts\<close> and \<open>updates\<close> are dictionaries: no key twice\<close>
  "transforms_dict t \<longleftrightarrow> distinct (map fst (inserts t)) \<and> distinct (map fst (updates t))"

lemma transformForBlockId_merge:
  assumes "transforms_dict b"
  shows "transformForBlockId (mergeTransforms a b) i =
    \<lparr>t_insert = (case map_of (inserts b) i of Some x \<Rightarrow> Some x | None \<Rightarrow> map_of (inserts a) i),
     t_updates = (case map_of (updates b) i of None \<Rightarrow> map_of (updates a) i
       | Some ops \<Rightarrow> Some (case map_of (updates a) i of Some old \<Rightarrow> old @ ops | None \<Rightarrow> ops)),
     t_delete = (i \<in> set (deletes a) \<or> i \<in> set (deletes b))\<rparr>"
proof -
  have "map_of (rev (inserts b)) = map_of (inserts b)"
    using assms by (intro map_of_inject_set [THEN iffD2]) (auto simp: transforms_dict_def rev_map [symmetric])
  then show ?thesis
    using assms by (simp add: transformForBlockId_def mergeTransforms_def map_of_mergeUpdates transforms_dict_def)
qed

definition seq_transform :: "'v transform \<Rightarrow> 'v transform \<Rightarrow> 'v transform" where
  \<comment> \<open>what merging does to one block when the second transform does not insert it\<close>
  "seq_transform s u =
     \<lparr>t_insert = t_insert s,
      t_updates = (case t_updates u of None \<Rightarrow> t_updates s
        | Some ops \<Rightarrow> Some (case t_updates s of Some old \<Rightarrow> old @ ops | None \<Rightarrow> ops)),
      t_delete = t_delete u\<rparr>"

lemma ebind_map_sum_Some: "ebind (map_sum id Some r) f = ebind r (\<lambda>x. f (Some x))"
  by (cases r) auto

lemma applyTransform_seq:
  assumes "\<not> t_delete s" and "t_insert u = None"
  shows "applyTransform blk (seq_transform s u) = ebind (applyTransform blk s) (\<lambda>b. applyTransform b u)"
proof -
  define base where "base = (case t_insert s of Some x \<Rightarrow> Some x | None \<Rightarrow> blk)"
  show ?thesis
  proof (cases base)
    case None
    then show ?thesis using assms
      by (simp add: applyTransform_def seq_transform_def base_def [symmetric] Let_def)
  next
    case (Some b)
    then show ?thesis using assms
      by (cases "t_updates s"; cases "t_updates u")
         (simp_all add: applyTransform_def seq_transform_def base_def [symmetric] Let_def
           ebind_map_sum_Some ebind_assoc applyOperations_append)
  qed
qed

section \<open>Properties\<close>

text \<open>C32. \<open>mergeTransforms a b\<close> is sequential composition block by block: for a block that \<open>a\<close>
  does not delete and \<open>b\<close> does not insert anew, applying the merged transform is applying \<open>a\<close>'s
  transform and then \<open>b\<close>'s, errors included.\<close>

theorem mergeTransforms_sequential:
  assumes "transforms_dict b" and "i \<notin> set (deletes a)" and "map_of (inserts b) i = None"
  shows "applyTransform blk (transformForBlockId (mergeTransforms a b) i)
    = ebind (applyTransform blk (transformForBlockId a i))
        (\<lambda>blk'. applyTransform blk' (transformForBlockId b i))"
proof -
  have "transformForBlockId (mergeTransforms a b) i
      = seq_transform (transformForBlockId a i) (transformForBlockId b i)"
    using assms by (simp add: transformForBlockId_merge) (auto simp: seq_transform_def transformForBlockId_def split: option.splits)
  moreover have "\<not> t_delete (transformForBlockId a i)" "t_insert (transformForBlockId b i) = None"
    using assms by (simp_all add: transformForBlockId_def)
  ultimately show ?thesis by (simp add: applyTransform_seq)
qed

theorem mergeTransforms_sequential_witness:
  "let h = \<lparr>hdr_id = ''x'', hdr_type = ''TL'', hdr_collectionId = ''c''\<rparr>;
       blk = \<lparr>header = h, attrs = [''entries'' \<mapsto> FArr [1 :: nat]]\<rparr>;
       a = \<lparr>inserts = [], updates = [(''x'', [splice_op ''entries'' 1 0 [2]])], deletes = []\<rparr>;
       b = \<lparr>inserts = [], updates = [(''x'', [splice_op ''entries'' 0 1 []])], deletes = []\<rparr>
   in transforms_dict b
      \<and> applyTransform (Some blk) (transformForBlockId (mergeTransforms a b) ''x'')
        = ebind (applyTransform (Some blk) (transformForBlockId a ''x''))
            (\<lambda>blk'. applyTransform blk' (transformForBlockId b ''x''))"
  unfolding Let_def
  by (intro conjI mergeTransforms_sequential) (simp_all add: transforms_dict_def)

text \<open>\<open>transformsFromTransform\<close> and \<open>transformForBlockId\<close> are inverse on one block, and the
  listed block ids are exactly the affected blocks, each once.\<close>

theorem transform_block_roundtrip:
  "transformForBlockId (transformsFromTransform t i) i = t
   \<and> distinct (blockIdsForTransforms ts)
   \<and> (j \<in> set (blockIdsForTransforms ts) \<longleftrightarrow>
        transformForBlockId ts j \<noteq> \<lparr>t_insert = None, t_updates = None, t_delete = False\<rparr>)"
proof (intro conjI)
  show "transformForBlockId (transformsFromTransform t i) i = t"
    by (cases t) (auto simp: transformForBlockId_def transformsFromTransform_def split: option.splits)
  show "distinct (blockIdsForTransforms ts)"
    by (simp add: blockIdsForTransforms_def)
  show "j \<in> set (blockIdsForTransforms ts) \<longleftrightarrow>
        transformForBlockId ts j \<noteq> \<lparr>t_insert = None, t_updates = None, t_delete = False\<rparr>"
    by (auto simp: blockIdsForTransforms_def transformForBlockId_def map_of_eq_None_iff)
qed

end
