(* ===== verification/Tracker_Store.thy ===== *)
theory Tracker_Store
  imports Transform_Ops
begin

text \<open>
  The change-collecting block stores: \<open>packages/db-core/src/transform/tracker.ts\<close>,
  \<open>atomic.ts\<close>, \<open>atomic-proxy.ts\<close> and \<open>applyTransformToStore\<close> of \<open>helpers.ts\<close>.

  A store operation that throws still leaves the state it had reached, so it returns
  \<open>error option \<times> 's\<close>. The locale \<open>block_store\<close> is the \<open>BlockStore\<close> interface with the laws
  its clients rely on; the tracker is shown to satisfy them, and \<open>Atomic\<close>, a tracker on top of
  a tracker, is shown to commit exactly what it let its user see.
\<close>

section \<open>Loops over a store that may throw\<close>

fun sloop :: "('a \<Rightarrow> 's \<Rightarrow> error option \<times> 's) \<Rightarrow> 'a list \<Rightarrow> 's \<Rightarrow> error option \<times> 's" where
  "sloop f [] s = (None, s)"
| "sloop f (x # xs) s =
     (case f x s of (Some e, s') \<Rightarrow> (Some e, s') | (None, s') \<Rightarrow> sloop f xs s')"

lemma sloop_pure [simp]: "sloop (\<lambda>x s. (None, f x s)) xs s = (None, fold f xs s)"
  by (induction xs arbitrary: s) auto

lemma sloop_append:
  "sloop f (xs @ ys) s = (case sloop f xs s of (None, s') \<Rightarrow> sloop f ys s' | (Some e, s') \<Rightarrow> (Some e, s'))"
  by (induction xs arbitrary: s) (auto split: prod.splits option.splits)

section \<open>The tracker\<close>

datatype read_purpose = Value | Navigation

record ('s, 'v) source_ops =
  src_tryGet :: "'s \<Rightarrow> block_id \<Rightarrow> read_purpose \<Rightarrow> (error + 'v block option) \<times> 's"
  src_getGeneration :: "'s \<Rightarrow> block_id \<Rightarrow> nat option"
    \<comment> \<open>\<open>None\<close>: the source has no \<open>getGeneration\<close> method\<close>

record 'v tracker =
  trk_transforms :: "'v transforms"
  trk_materialized :: "block_id \<rightharpoonup> 'v block \<times> nat"

definition new_tracker :: "'v transforms \<Rightarrow> 'v tracker" where
  "new_tracker t = \<lparr>trk_transforms = t, trk_materialized = Map.empty\<rparr>"

definition pending_ops :: "'v transforms \<Rightarrow> block_id \<Rightarrow> 'v operation list" where
  "pending_ops t i = (case map_of (updates t) i of Some ops \<Rightarrow> ops | None \<Rightarrow> [])"

definition tracker_load :: "('s, 'v) source_ops \<Rightarrow> 's \<Rightarrow> 'v tracker \<Rightarrow> block_id \<Rightarrow> read_purpose
    \<Rightarrow> (error + 'v block option) \<times> 's \<times> 'v tracker" where
  \<comment> \<open>the part of \<open>tryGet\<close> after the memo test: read the source, replay the updates, memoize\<close>
  "tracker_load S s t i p =
     (case src_tryGet S s i p of
        (Inl e, s') \<Rightarrow> (Inl e, s', t)
      | (Inr None, s') \<Rightarrow> (Inr None, s', t)
      | (Inr (Some b), s') \<Rightarrow>
          (let ops = pending_ops (trk_transforms t) i
           in if ops \<noteq> [] then
                (case applyOperations b ops of
                   Inl e \<Rightarrow> (Inl e, s', t)
                 | Inr b' \<Rightarrow>
                     (Inr (Some b'), s',
                      case src_getGeneration S s' i of
                        Some g \<Rightarrow> t\<lparr>trk_materialized := (trk_materialized t)(i \<mapsto> (b', g))\<rparr>
                      | None \<Rightarrow> t))
              else (Inr (Some b), s', t)))"

definition tracker_tryGet :: "('s, 'v) source_ops \<Rightarrow> 's \<Rightarrow> 'v tracker \<Rightarrow> block_id \<Rightarrow> read_purpose
    \<Rightarrow> (error + 'v block option) \<times> 's \<times> 'v tracker" where
  "tracker_tryGet S s t i p =
     (case map_of (inserts (trk_transforms t)) i of
        Some b \<Rightarrow> (Inr (Some b), s, t)
      | None \<Rightarrow>
          if i \<in> set (deletes (trk_transforms t)) then (Inr None, s, t)
          else (case trk_materialized t i of
                  Some (b, g) \<Rightarrow>
                    (if src_getGeneration S s i = None \<or> src_getGeneration S s i = Some g
                     then (Inr (Some b), s, t) else tracker_load S s t i p)
                | None \<Rightarrow> tracker_load S s t i p))"

definition tr_insert :: "'v block \<Rightarrow> 'v transforms \<Rightarrow> 'v transforms" where
  "tr_insert b t =
     t\<lparr>inserts := AList.update (block_id_of b) b (inserts t),
       deletes := remove1 (block_id_of b) (deletes t)\<rparr>"

definition tr_update :: "block_id \<Rightarrow> 'v operation \<Rightarrow> 'v transforms \<Rightarrow> error option \<times> 'v transforms" where
  "tr_update i op t =
     (case map_of (inserts t) i of
        Some b \<Rightarrow>
          (case applyOperation b op of
             Inl e \<Rightarrow> (Some e, t)
           | Inr b' \<Rightarrow> (None, t\<lparr>inserts := AList.update i b' (inserts t)\<rparr>))
      | None \<Rightarrow> (None, t\<lparr>updates := AList.update i (pending_ops t i @ [op]) (updates t)\<rparr>))"

definition tr_delete :: "block_id \<Rightarrow> 'v transforms \<Rightarrow> 'v transforms" where
  "tr_delete i t =
     t\<lparr>inserts := AList.delete i (inserts t), updates := AList.delete i (updates t),
       deletes := deletes t @ [i]\<rparr>"

definition tracker_insert :: "'v block \<Rightarrow> 'v tracker \<Rightarrow> 'v tracker" where
  "tracker_insert b t =
     \<lparr>trk_transforms = tr_insert b (trk_transforms t),
      trk_materialized = (trk_materialized t)(block_id_of b := None)\<rparr>"

definition tracker_update :: "block_id \<Rightarrow> 'v operation \<Rightarrow> 'v tracker \<Rightarrow> error option \<times> 'v tracker" where
  "tracker_update i op t =
     (case tr_update i op (trk_transforms t) of
        (Some e, tr) \<Rightarrow> (Some e, t)
      | (None, tr) \<Rightarrow>
          (if map_of (inserts (trk_transforms t)) i \<noteq> None then (None, t\<lparr>trk_transforms := tr\<rparr>)
           else (case trk_materialized t i of
                   None \<Rightarrow> (None, t\<lparr>trk_transforms := tr\<rparr>)
                 | Some (b, g) \<Rightarrow>
                     (case applyOperation b op of
                        Inl e \<Rightarrow> (Some e, t\<lparr>trk_transforms := tr\<rparr>)
                      | Inr b' \<Rightarrow>
                          (None, \<lparr>trk_transforms = tr,
                                  trk_materialized = (trk_materialized t)(i \<mapsto> (b', g))\<rparr>)))))"

definition tracker_delete :: "block_id \<Rightarrow> 'v tracker \<Rightarrow> 'v tracker" where
  "tracker_delete i t =
     \<lparr>trk_transforms = tr_delete i (trk_transforms t),
      trk_materialized = (trk_materialized t)(i := None)\<rparr>"

definition tracker_reset :: "'v transforms \<Rightarrow> 'v tracker \<Rightarrow> 'v transforms \<times> 'v tracker" where
  "tracker_reset new t = (trk_transforms t, \<lparr>trk_transforms = new, trk_materialized = Map.empty\<rparr>)"

definition transformedBlockIds :: "'v tracker \<Rightarrow> block_id list" where
  "transformedBlockIds t = blockIdsForTransforms (trk_transforms t)"

definition tracker_conflicts :: "block_id set \<Rightarrow> 'v tracker \<Rightarrow> block_id list" where
  "tracker_conflicts ids t = filter (\<lambda>i. i \<in> ids) (transformedBlockIds t)"

section \<open>Committing to a store\<close>

definition applyTransformToStore ::
    "(block_id \<Rightarrow> 's \<Rightarrow> 's) \<Rightarrow> ('v block \<Rightarrow> 's \<Rightarrow> 's)
     \<Rightarrow> (block_id \<Rightarrow> 'v operation \<Rightarrow> 's \<Rightarrow> error option \<times> 's)
     \<Rightarrow> 'v transforms \<Rightarrow> 's \<Rightarrow> error option \<times> 's" where
  "applyTransformToStore del ins upd t s =
     (let s1 = fold del (deletes t) s;
          s2 = fold ins (map snd (inserts t)) s1
      in sloop (\<lambda>(i, ops). sloop (upd i) ops) (updates t) s2)"

definition atomic_commit :: "'v tracker \<Rightarrow> 'v tracker \<Rightarrow> error option \<times> 'v tracker" where
  \<comment> \<open>\<open>Atomic.commit\<close>: the atomic's transforms, reset and applied to the store below it\<close>
  "atomic_commit atomic store =
     applyTransformToStore tracker_delete tracker_insert tracker_update
       (fst (tracker_reset emptyTransforms atomic)) store"

definition proxy_atomic :: "('v tracker \<Rightarrow> (error + 'r) \<times> 'v tracker) \<Rightarrow> 'v tracker
    \<Rightarrow> (error + 'r) \<times> 'v tracker" where
  \<comment> \<open>\<open>AtomicProxy.atomic\<close> for a top-level scope: the callback runs on a fresh \<open>Atomic\<close>\<close>
  "proxy_atomic fn base =
     (case fn (new_tracker emptyTransforms) of
        (Inl e, _) \<Rightarrow> (Inl e, base)
      | (Inr r, atomic) \<Rightarrow>
          (case atomic_commit atomic base of
             (Some e, base') \<Rightarrow> (Inl e, base')
           | (None, base') \<Rightarrow> (Inr r, base')))"

section \<open>What a reader sees\<close>

type_synonym 'v content = "block_id \<Rightarrow> error + 'v block option"

definition app_op :: "'v operation \<Rightarrow> error + 'v block option \<Rightarrow> error + 'v block option" where
  "app_op op r = ebind r (\<lambda>ob. case ob of None \<Rightarrow> Inr None | Some b \<Rightarrow> map_sum id Some (applyOperation b op))"

definition app_ops :: "'v operation list \<Rightarrow> error + 'v block option \<Rightarrow> error + 'v block option" where
  "app_ops ops r = ebind r (\<lambda>ob. case ob of None \<Rightarrow> Inr None | Some b \<Rightarrow> map_sum id Some (applyOperations b ops))"

definition tview :: "'v content \<Rightarrow> 'v transforms \<Rightarrow> 'v content" where
  \<comment> \<open>the block a read through the transforms returns, without any memo\<close>
  "tview src t i =
     (case map_of (inserts t) i of
        Some b \<Rightarrow> Inr (Some b)
      | None \<Rightarrow> if i \<in> set (deletes t) then Inr None else app_ops (pending_ops t i) (src i))"

lemma app_ops_Nil [simp]: "app_ops [] r = r"
  by (auto simp: app_ops_def ebind_def split: sum.splits option.splits)

lemma app_ops_snoc: "app_ops (ops @ [op]) r = app_op op (app_ops ops r)"
  by (auto simp: app_ops_def app_op_def applyOperations_append ebind_def split: sum.splits option.splits)

lemma app_ops_Cons: "app_ops (op # ops) r = app_ops ops (app_op op r)"
  by (auto simp: app_ops_def app_op_def ebind_def split: sum.splits option.splits)

lemma app_op_simps [simp]:
  "app_op op (Inl e) = Inl e"
  "app_op op (Inr None) = Inr None"
  "app_op op (Inr (Some b)) = map_sum id Some (applyOperation b op)"
  by (simp_all add: app_op_def)

lemma app_ops_simps [simp]:
  "app_ops ops (Inl e) = Inl e"
  "app_ops ops (Inr None) = Inr None"
  "app_ops ops (Inr (Some b)) = map_sum id Some (applyOperations b ops)"
  by (simp_all add: app_ops_def)

section \<open>The block store interface\<close>

locale block_store =
  fixes view :: "'s \<Rightarrow> 'v content"
    and ins :: "'v block \<Rightarrow> 's \<Rightarrow> 's"
    and upd :: "block_id \<Rightarrow> 'v operation \<Rightarrow> 's \<Rightarrow> error option \<times> 's"
    and del :: "block_id \<Rightarrow> 's \<Rightarrow> 's"
  assumes view_ins: "view (ins b s) = (view s)(block_id_of b := Inr (Some b))"
    and view_upd: "upd i op s = (None, s') \<Longrightarrow> view s' = (view s)(i := app_op op (view s i))"
    and view_del: "view (del i s) = (view s)(i := Inr None)"
begin

lemma view_fold_del: "view (fold del is s) i = (if i \<in> set is then Inr None else view s i)"
  by (induction "is" arbitrary: s) (auto simp: view_del)

lemma view_fold_ins:
  assumes "distinct (map fst xs)" and "\<forall>(i, b) \<in> set xs. block_id_of b = i"
  shows "view (fold ins (map snd xs) s) i
    = (case map_of xs i of Some b \<Rightarrow> Inr (Some b) | None \<Rightarrow> view s i)"
  using assms
proof (induction xs arbitrary: s)
  case (Cons x xs)
  obtain j b where x: "x = (j, b)" by (cases x)
  with Cons.prems have "map_of xs j = None" "block_id_of b = j" by (auto simp: map_of_eq_None_iff)
  moreover have "view (fold ins (map snd xs) (ins b s)) i
      = (case map_of xs i of Some b \<Rightarrow> Inr (Some b) | None \<Rightarrow> view (ins b s) i)"
    using Cons by simp
  ultimately show ?case
    using x by (cases "i = j") (simp_all add: view_ins split: option.split)
qed simp

lemma view_upd_loop:
  "sloop (upd i) ops s = (None, s') \<Longrightarrow> view s' = (view s)(i := app_ops ops (view s i))"
  by (induction ops arbitrary: s)
     (auto simp: app_ops_Cons view_upd split: prod.splits option.splits)

lemma view_upd_all:
  assumes "sloop (\<lambda>(i, ops). sloop (upd i) ops) us s = (None, s')" and "distinct (map fst us)"
  shows "view s' i = app_ops (case map_of us i of Some ops \<Rightarrow> ops | None \<Rightarrow> []) (view s i)"
  using assms
proof (induction us arbitrary: s)
  case (Cons u us)
  obtain j ops where u: "u = (j, ops)" by (cases u)
  from Cons.prems u obtain s1 where s1: "sloop (upd j) ops s = (None, s1)"
    "sloop (\<lambda>(i, ops). sloop (upd i) ops) us s1 = (None, s')"
    by (auto split: prod.splits option.splits)
  have "map_of us j = None" using Cons.prems(2) u by (simp add: map_of_eq_None_iff)
  then show ?case
    using Cons.IH [OF s1(2)] Cons.prems(2) view_upd_loop [OF s1(1)] u by auto
qed simp

text \<open>Applying a set of transforms to any block store.\<close>

lemma view_applyTransformToStore:
  assumes "applyTransformToStore del ins upd t s = (None, s')"
    and "transforms_dict t" and "\<forall>(i, b) \<in> set (inserts t). block_id_of b = i"
  shows "view s' i = app_ops (pending_ops t i)
    (case map_of (inserts t) i of Some b \<Rightarrow> Inr (Some b)
     | None \<Rightarrow> if i \<in> set (deletes t) then Inr None else view s i)"
proof -
  have d: "distinct (map fst (inserts t))" "distinct (map fst (updates t))"
    using assms(2) by (auto simp: transforms_dict_def)
  show ?thesis
    using view_upd_all [OF assms(1) [unfolded applyTransformToStore_def Let_def] d(2), of i]
    by (simp add: view_fold_ins [OF d(1) assms(3)] view_fold_del pending_ops_def split: option.splits)
qed

end

section \<open>The tracker is a block store\<close>

lemma tview_insert: "tview src (tr_insert b t) = (tview src t)(block_id_of b := Inr (Some b))"
proof
  fix i
  show "tview src (tr_insert b t) i = ((tview src t)(block_id_of b := Inr (Some b))) i"
    by (cases "i = block_id_of b")
       (simp_all add: tview_def tr_insert_def pending_ops_def in_set_remove1 split: option.split)
qed

lemma tview_update:
  assumes "tr_update i op t = (None, t')"
  shows "tview src t' = (tview src t)(i := app_op op (tview src t i))"
proof
  fix j
  show "tview src t' j = ((tview src t)(i := app_op op (tview src t i))) j"
  proof (cases "map_of (inserts t) i")
    case None
    with assms have "t' = t\<lparr>updates := AList.update i (pending_ops t i @ [op]) (updates t)\<rparr>"
      by (simp add: tr_update_def)
    with None show ?thesis
      by (cases "j = i") (simp_all add: tview_def pending_ops_def app_ops_snoc split: option.split)
  next
    case (Some b)
    with assms obtain b' where "applyOperation b op = Inr b'"
      "t' = t\<lparr>inserts := AList.update i b' (inserts t)\<rparr>"
      by (auto simp: tr_update_def split: sum.splits)
    with Some show ?thesis
      by (cases "j = i") (simp_all add: tview_def pending_ops_def split: option.split)
  qed
qed

lemma tview_delete: "tview src (tr_delete i t) = (tview src t)(i := Inr None)"
  by (rule ext) (simp add: tview_def tr_delete_def pending_ops_def split: option.split)

interpretation trs: block_store "tview src" tr_insert tr_update tr_delete for src
  by unfold_locales (auto simp: tview_insert tview_update tview_delete)

lemma tracker_update_transforms:
  "tracker_update i op t = (None, t') \<Longrightarrow> tr_update i op (trk_transforms t) = (None, trk_transforms t')"
  by (auto simp: tracker_update_def split: prod.splits option.splits sum.splits if_splits)

interpretation trk: block_store "\<lambda>t. tview src (trk_transforms t)"
  tracker_insert tracker_update tracker_delete for src
  by unfold_locales
     (auto simp: tracker_insert_def tracker_delete_def tview_insert tview_delete
       dest: tracker_update_transforms tview_update)

section \<open>Well-formed transforms\<close>

text \<open>
  What the callers of a tracker keep true: dictionaries have no key twice, an inserted block is
  filed under its own id, and an inserted id is neither deleted nor updated at the same time.
\<close>

definition transforms_wf :: "'v transforms \<Rightarrow> bool" where
  "transforms_wf t \<longleftrightarrow> transforms_dict t \<and> distinct (deletes t)
     \<and> (\<forall>(i, b) \<in> set (inserts t). block_id_of b = i)
     \<and> (\<forall>i b. map_of (inserts t) i = Some b \<longrightarrow> map_of (updates t) i = None \<and> i \<notin> set (deletes t))"

lemma transforms_wf_empty [opt_inv, simp]: "transforms_wf emptyTransforms"
  by (simp add: transforms_wf_def transforms_dict_def emptyTransforms_def)

lemma transforms_wf_insert [opt_inv]:
  assumes "transforms_wf t" and "map_of (updates t) (block_id_of b) = None"
  shows "transforms_wf (tr_insert b t)"
proof -
  have "\<forall>(i, c) \<in> set (AList.update (block_id_of b) b (inserts t)). block_id_of c = i"
  proof -
    have "distinct (map fst (inserts t))" using assms(1) by (simp add: transforms_wf_def transforms_dict_def)
    then have d: "distinct (map fst (AList.update (block_id_of b) b (inserts t)))" by (rule distinct_update)
    show ?thesis
    proof clarify
      fix i c assume "(i, c) \<in> set (AList.update (block_id_of b) b (inserts t))"
      with d have "map_of (AList.update (block_id_of b) b (inserts t)) i = Some c"
        by (rule map_of_is_SomeI)
      then show "block_id_of c = i"
        using assms(1) by (auto simp: transforms_wf_def split: if_splits dest: map_of_SomeD)
    qed
  qed
  then show ?thesis
    using assms by (auto simp: transforms_wf_def transforms_dict_def tr_insert_def
        distinct_update distinct_remove1 split: if_splits dest: notin_set_remove1)
qed

lemma transforms_wf_delete [opt_inv]:
  assumes "transforms_wf t" and "i \<notin> set (deletes t)"
  shows "transforms_wf (tr_delete i t)"
proof -
  have "set (AList.delete i (inserts t)) \<subseteq> set (inserts t)"
    by (auto simp: AList.delete_eq)
  with assms show ?thesis
    by (auto simp: transforms_wf_def transforms_dict_def tr_delete_def distinct_delete split: if_splits)
qed

lemma transforms_wf_update [opt_inv]:
  assumes "transforms_wf t" and "tr_update i op t = (None, t')"
  shows "transforms_wf t'"
proof (cases "map_of (inserts t) i")
  case None
  with assms show ?thesis
    by (auto simp: tr_update_def transforms_wf_def transforms_dict_def distinct_update split: if_splits) blast+
next
  case (Some b)
  with assms(2) obtain b' where b': "applyOperation b op = Inr b'"
    and t': "t' = t\<lparr>inserts := AList.update i b' (inserts t)\<rparr>"
    by (auto simp: tr_update_def split: sum.splits)
  have d: "distinct (map fst (inserts t))" using assms(1) by (simp add: transforms_wf_def transforms_dict_def)
  have hb: "block_id_of b' = i"
    using assms(1) Some applyOperation_header [OF b'] by (auto simp: transforms_wf_def dest: map_of_SomeD)
  have "block_id_of c = j" if "(j, c) \<in> set (AList.update i b' (inserts t))" for j c
  proof -
    have "map_of (AList.update i b' (inserts t)) j = Some c"
      using distinct_update [OF d] that by (rule map_of_is_SomeI)
    then show ?thesis using assms(1) hb by (auto simp: transforms_wf_def split: if_splits dest: map_of_SomeD)
  qed
  then show ?thesis
    using assms(1) Some d
    by (auto simp: t' transforms_wf_def transforms_dict_def distinct_update split: if_splits)
qed

section \<open>Scripts of store calls\<close>

datatype 'v store_call = SInsert "'v block" | SUpdate block_id "'v operation" | SDelete block_id

fun run_call :: "'v store_call \<Rightarrow> 'v tracker \<Rightarrow> error option \<times> 'v tracker" where
  "run_call (SInsert b) t = (None, tracker_insert b t)"
| "run_call (SUpdate i op) t = tracker_update i op t"
| "run_call (SDelete i) t = (None, tracker_delete i t)"

fun call_ok :: "'v store_call \<Rightarrow> 'v transforms \<Rightarrow> bool" where
  \<comment> \<open>a block is not created again while it has recorded updates, nor deleted twice\<close>
  "call_ok (SInsert b) t \<longleftrightarrow> map_of (updates t) (block_id_of b) = None"
| "call_ok (SUpdate i op) t \<longleftrightarrow> True"
| "call_ok (SDelete i) t \<longleftrightarrow> i \<notin> set (deletes t)"

fun calls_ok :: "'v store_call list \<Rightarrow> 'v tracker \<Rightarrow> bool" where
  "calls_ok [] t \<longleftrightarrow> True"
| "calls_ok (c # cs) t \<longleftrightarrow> call_ok c (trk_transforms t) \<and> calls_ok cs (snd (run_call c t))"

fun call_effect :: "'v store_call \<Rightarrow> 'v content \<Rightarrow> 'v content" where
  \<comment> \<open>what a call means for a reader\<close>
  "call_effect (SInsert b) f = f(block_id_of b := Inr (Some b))"
| "call_effect (SUpdate i op) f = f(i := app_op op (f i))"
| "call_effect (SDelete i) f = f(i := Inr None)"

lemma run_call_view:
  "run_call c t = (None, t') \<Longrightarrow> tview src (trk_transforms t') = call_effect c (tview src (trk_transforms t))"
  by (cases c) (auto simp: trk.view_ins trk.view_upd trk.view_del)

lemma run_call_wf:
  assumes "run_call c t = (None, t')" and "call_ok c (trk_transforms t)" and "transforms_wf (trk_transforms t)"
  shows "transforms_wf (trk_transforms t')"
  using assms
  by (cases c) (auto simp: tracker_insert_def tracker_delete_def dest: tracker_update_transforms
      intro: transforms_wf_insert transforms_wf_delete transforms_wf_update)

lemma run_calls_view_wf:
  assumes "sloop run_call cs t = (None, t')" and "calls_ok cs t" and "transforms_wf (trk_transforms t)"
  shows "transforms_wf (trk_transforms t')
    \<and> tview src (trk_transforms t') = fold call_effect cs (tview src (trk_transforms t))"
  using assms
proof (induction cs arbitrary: t)
  case (Cons c cs)
  from Cons.prems(1) obtain t1 where t1: "run_call c t = (None, t1)" "sloop run_call cs t1 = (None, t')"
    by (auto split: prod.splits option.splits)
  then show ?case
    using Cons.IH [OF t1(2)] Cons.prems(2,3) run_call_wf [OF t1(1)] run_call_view [OF t1(1), of src] by simp
qed simp

lemma tview_empty [simp]: "tview src emptyTransforms = src"
  by (rule ext) (simp add: tview_def emptyTransforms_def pending_ops_def)

lemma app_ops_tview_wf:
  assumes "transforms_wf t"
  shows "app_ops (pending_ops t i)
    (case map_of (inserts t) i of Some b \<Rightarrow> Inr (Some b)
     | None \<Rightarrow> if i \<in> set (deletes t) then Inr None else src i) = tview src t i"
proof (cases "map_of (inserts t) i")
  case (Some b)
  then have "pending_ops t i = []" using assms by (simp add: transforms_wf_def pending_ops_def)
  with Some show ?thesis by (simp add: tview_def)
qed (simp add: tview_def)

lemma atomic_commit_view:
  assumes "atomic_commit atomic store = (None, store')" and "transforms_wf (trk_transforms atomic)"
  shows "tview src (trk_transforms store') = tview (tview src (trk_transforms store)) (trk_transforms atomic)"
proof
  fix i
  have "transforms_dict (trk_transforms atomic)"
    and "\<forall>(i, b) \<in> set (inserts (trk_transforms atomic)). block_id_of b = i"
    using assms(2) by (simp_all add: transforms_wf_def)
  from trk.view_applyTransformToStore [OF assms(1) [unfolded atomic_commit_def tracker_reset_def fst_conv] this, of src i]
  show "tview src (trk_transforms store') i = tview (tview src (trk_transforms store)) (trk_transforms atomic) i"
    by (simp add: app_ops_tview_wf [OF assms(2)])
qed

section \<open>Properties\<close>

text \<open>C33. \<open>AtomicProxy.atomic\<close> is all or nothing, and transparent. When the callback throws,
  the store below is as before. When the callback makes any sequence of insert, update and delete
  calls that creates no block with recorded updates and deletes no block twice, and the commit
  succeeds, a reader of the store below sees every block exactly as if the calls had been made on
  that store directly.\<close>

theorem proxy_atomic_transparent:
  assumes fn: "fn = (\<lambda>t. case sloop run_call cs t of (Some e, t') \<Rightarrow> (Inl e, t') | (None, t') \<Rightarrow> (Inr r, t'))"
    and ok: "calls_ok cs (new_tracker emptyTransforms)"
    and run: "proxy_atomic fn base = (res, base')"
  shows "(\<forall>e. fst (fn (new_tracker emptyTransforms)) = Inl e \<longrightarrow> res = Inl e \<and> base' = base)
    \<and> (res = Inr r \<longrightarrow>
        tview src (trk_transforms base') = fold call_effect cs (tview src (trk_transforms base)))"
proof (intro conjI allI impI)
  fix e assume "fst (fn (new_tracker emptyTransforms)) = Inl e"
  then show "res = Inl e" "base' = base"
    using run by (auto simp: proxy_atomic_def split: prod.splits sum.splits)
next
  assume res: "res = Inr r"
  obtain atomic where a: "sloop run_call cs (new_tracker emptyTransforms) = (None, atomic)"
      and c: "atomic_commit atomic base = (None, base')"
    using run res fn
    by (auto simp: proxy_atomic_def split: prod.splits sum.splits option.splits)
  have "transforms_wf (trk_transforms atomic)"
    and v: "tview s (trk_transforms atomic) = fold call_effect cs s" for s
    using run_calls_view_wf [OF a ok] by (simp_all add: new_tracker_def)
  then show "tview src (trk_transforms base') = fold call_effect cs (tview src (trk_transforms base))"
    using atomic_commit_view [OF c] by simp
qed

theorem proxy_atomic_transparent_witness:
  "let blk = (\<lambda>i. \<lparr>header = \<lparr>hdr_id = i, hdr_type = ''TL'', hdr_collectionId = ''c''\<rparr>,
                   attrs = [''entries'' \<mapsto> FArr [1 :: nat]]\<rparr>);
       cs = [SInsert (blk ''a''), SUpdate ''b'' (splice_op ''entries'' 0 1 [5]), SDelete ''d''];
       fn = (\<lambda>t. case sloop run_call cs t of (Some e, t') \<Rightarrow> (Inl e, t') | (None, t') \<Rightarrow> (Inr (), t'));
       base = new_tracker (tr_insert (blk ''d'') emptyTransforms);
       out = proxy_atomic fn base
   in calls_ok cs (new_tracker emptyTransforms) \<and> fst out = Inr () \<and>
      tview (\<lambda>i. Inr (Some (blk i))) (trk_transforms (snd out))
      = fold call_effect cs (tview (\<lambda>i. Inr (Some (blk i))) (trk_transforms base))"
proof -
  define blk where "blk = (\<lambda>i. \<lparr>header = \<lparr>hdr_id = i, hdr_type = ''TL'', hdr_collectionId = ''c''\<rparr>,
                   attrs = [''entries'' \<mapsto> FArr [1 :: nat]]\<rparr>)"
  define cs where "cs = [SInsert (blk ''a''), SUpdate ''b'' (splice_op ''entries'' 0 1 [5]), SDelete ''d'']"
  define fn where "fn = (\<lambda>t. case sloop run_call cs t of (Some e, t') \<Rightarrow> (Inl e, t') | (None, t') \<Rightarrow> (Inr (), t'))"
  define base where "base = new_tracker (tr_insert (blk ''d'') emptyTransforms)"
  have ok: "calls_ok cs (new_tracker emptyTransforms)"
    by (simp add: cs_def blk_def new_tracker_def emptyTransforms_def tracker_insert_def tracker_update_def
        tr_insert_def tr_update_def pending_ops_def)
  moreover have res: "fst (proxy_atomic fn base) = Inr ()"
    by (simp add: proxy_atomic_def fn_def cs_def blk_def base_def new_tracker_def emptyTransforms_def
        tracker_insert_def tracker_update_def tracker_delete_def tr_insert_def tr_update_def tr_delete_def
        pending_ops_def atomic_commit_def tracker_reset_def applyTransformToStore_def)
  moreover have "tview (\<lambda>i. Inr (Some (blk i))) (trk_transforms (snd (proxy_atomic fn base)))
      = fold call_effect cs (tview (\<lambda>i. Inr (Some (blk i))) (trk_transforms base))"
    using proxy_atomic_transparent [OF fn_def ok prod.collapse [symmetric]] res by blast
  ultimately show ?thesis
    unfolding Let_def blk_def cs_def fn_def base_def by simp
qed

text \<open>What the note in \<open>tracker.ts\<close> warns of is real: after an update, creating the same
  block again leaves the old update recorded, so a reader sees the new block but committing the
  tracker's transforms yields the block with the stale update applied on top.\<close>

theorem tracker_stale_update_diverges:
  "\<exists>(src :: nat content) cs a base base'.
     sloop run_call cs (new_tracker emptyTransforms) = (None, a)
     \<and> atomic_commit a base = (None, base')
     \<and> tview (tview src (trk_transforms base)) (trk_transforms a) ''b''
         \<noteq> tview src (trk_transforms base') ''b''"
proof -
  define blk where "blk = \<lparr>header = \<lparr>hdr_id = ''b'', hdr_type = ''TL'', hdr_collectionId = ''c''\<rparr>,
                   attrs = [''entries'' \<mapsto> FArr [1 :: nat]]\<rparr>"
  define cs where "cs = [SUpdate ''b'' (splice_op ''entries'' 0 1 [5]), SInsert blk]"
  define a where "a = snd (sloop run_call cs (new_tracker emptyTransforms))"
  define out where "out = atomic_commit a (new_tracker emptyTransforms)"
  note defs = a_def cs_def blk_def new_tracker_def emptyTransforms_def tracker_insert_def tracker_update_def
      tr_insert_def tr_update_def pending_ops_def applyOperation_def js_splice_def js_start_def Let_def
  have "sloop run_call cs (new_tracker emptyTransforms) = (None, a)"
    by (simp add: defs)
  moreover have "atomic_commit a (new_tracker emptyTransforms) = (None, snd out)"
    by (simp add: defs out_def atomic_commit_def tracker_reset_def applyTransformToStore_def)
  moreover have "tview (tview (\<lambda>_. Inr None) emptyTransforms) (trk_transforms a) ''b'' = Inr (Some blk)"
    by (simp add: defs tview_def)
  moreover have "tview (\<lambda>_. Inr None) (trk_transforms (snd out)) ''b''
      = Inr (Some (blk\<lparr>attrs := [''entries'' \<mapsto> FArr [5]]\<rparr>))"
    by (simp add: defs out_def atomic_commit_def tracker_reset_def applyTransformToStore_def tview_def)
  moreover have "blk \<noteq> blk\<lparr>attrs := [''entries'' \<mapsto> FArr [5]]\<rparr>"
    by (simp add: blk_def fun_eq_iff)
  ultimately show ?thesis
    by (intro exI [of _ "\<lambda>_. Inr None"] exI [of _ cs] exI [of _ a]
        exI [of _ "new_tracker emptyTransforms"] exI [of _ "snd out"])
       (simp only: new_tracker_def tracker.select_convs sum.inject option.inject, simp)
qed

end
