(* ===== verification/Lru_Map.thy ===== *)
theory Lru_Map
  imports Opt_Prelude
begin

text \<open>
  The least-recently-used map of \<open>packages/db-core/src/utility/lru-map.ts\<close>. The JavaScript
  \<open>Map\<close> behind it is an association list in insertion order, oldest first; deleting a key and
  setting it again moves it to the end.
\<close>

record ('k, 'v) lru =
  lru_max :: nat
  lru_entries :: "('k \<times> 'v) list"

definition new_lru :: "nat \<Rightarrow> string + ('k, 'v) lru" where
  "new_lru n = (if n < 1 then Inl ''LruMap maxSize must be >= 1'' else Inr \<lparr>lru_max = n, lru_entries = []\<rparr>)"

definition lru_get :: "'k \<Rightarrow> ('k, 'v) lru \<Rightarrow> 'v option \<times> ('k, 'v) lru" where
  "lru_get k m =
     (case map_of (lru_entries m) k of
        Some v \<Rightarrow> (Some v, m\<lparr>lru_entries := AList.update k v (AList.delete k (lru_entries m))\<rparr>)
      | None \<Rightarrow> (None, m))"

definition lru_set :: "'k \<Rightarrow> 'v \<Rightarrow> ('k, 'v) lru \<Rightarrow> ('k, 'v) lru" where
  "lru_set k v m =
     (let es = (if map_of (lru_entries m) k \<noteq> None then AList.delete k (lru_entries m)
                else if length (lru_entries m) \<ge> lru_max m
                then AList.delete (fst (hd (lru_entries m))) (lru_entries m)
                else lru_entries m)
      in m\<lparr>lru_entries := AList.update k v es\<rparr>)"

definition lru_has :: "'k \<Rightarrow> ('k, 'v) lru \<Rightarrow> bool" where
  "lru_has k m \<longleftrightarrow> map_of (lru_entries m) k \<noteq> None"

definition lru_delete :: "'k \<Rightarrow> ('k, 'v) lru \<Rightarrow> ('k, 'v) lru" where
  "lru_delete k m = m\<lparr>lru_entries := AList.delete k (lru_entries m)\<rparr>"

definition lru_clear :: "('k, 'v) lru \<Rightarrow> ('k, 'v) lru" where
  "lru_clear m = m\<lparr>lru_entries := []\<rparr>"

definition lru_size :: "('k, 'v) lru \<Rightarrow> nat" where
  "lru_size m = length (lru_entries m)"

section \<open>Well-formed maps\<close>

definition lru_ok :: "('k, 'v) lru \<Rightarrow> bool" where
  "lru_ok m \<longleftrightarrow> 1 \<le> lru_max m \<and> distinct (map fst (lru_entries m)) \<and> length (lru_entries m) \<le> lru_max m"

lemma update_absent: "map_of al k = None \<Longrightarrow> AList.update k v al = al @ [(k, v)]"
  by (induction al) (auto split: if_splits)

lemma delete_filter: "AList.delete k al = filter (\<lambda>x. fst x \<noteq> k) al"
  by (auto simp: AList.delete_eq intro: filter_cong)

lemma refresh: "AList.update k v (AList.delete k al) = filter (\<lambda>x. fst x \<noteq> k) al @ [(k, v)]"
  by (induction al) auto

lemma delete_hd:
  assumes "distinct (map fst al)" and "al \<noteq> []"
  shows "AList.delete (fst (hd al)) al = tl al"
proof (cases al)
  case (Cons x xs)
  then have "fst x \<notin> set (map fst xs)" using assms(1) by simp
  then have "filter (\<lambda>y. fst y \<noteq> fst x) xs = xs" by (intro filter_True) (auto intro: rev_image_eqI)
  then show ?thesis using Cons by (simp add: delete_filter)
qed (use assms in simp)

lemma length_filter_key:
  assumes "distinct (map fst al)" and "map_of al k = Some v"
  shows "length (filter (\<lambda>x. fst x \<noteq> k) al) = length al - 1"
  using assms
proof (induction al)
  case (Cons x al)
  show ?case
  proof (cases "fst x = k")
    case True
    then have "filter (\<lambda>x. fst x \<noteq> k) al = al" using Cons.prems(1) by (intro filter_True) (auto intro: rev_image_eqI)
    then show ?thesis using True by simp
  next
    case False
    then have "map_of al k = Some v" using Cons.prems(2) by (cases x) auto
    then have "al \<noteq> []" by auto
    then show ?thesis using Cons False \<open>map_of al k = Some v\<close> by (cases al) auto
  qed
qed simp

lemma lru_get_entries:
  "lru_ok m \<Longrightarrow> map_of (lru_entries m) k = Some v \<Longrightarrow>
   lru_entries (snd (lru_get k m)) = filter (\<lambda>x. fst x \<noteq> k) (lru_entries m) @ [(k, v)]"
  by (simp add: lru_get_def refresh)

lemma lru_set_entries:
  assumes "lru_ok m"
  shows "lru_entries (lru_set k v m) =
    (if map_of (lru_entries m) k \<noteq> None then filter (\<lambda>x. fst x \<noteq> k) (lru_entries m)
     else if length (lru_entries m) = lru_max m then tl (lru_entries m) else lru_entries m) @ [(k, v)]"
proof (cases "map_of (lru_entries m) k")
  case (Some w)
  then show ?thesis by (simp add: lru_set_def refresh)
next
  case None
  show ?thesis
  proof (cases "length (lru_entries m) = lru_max m")
    case True
    then have ne: "lru_entries m \<noteq> []" using assms by (auto simp: lru_ok_def)
    have "map_of (tl (lru_entries m)) k = None"
      using None by (cases "lru_entries m") (auto split: if_splits)
    then show ?thesis
      using True None assms delete_hd [OF _ ne] by (simp add: lru_set_def lru_ok_def update_absent)
  next
    case False
    then show ?thesis using None assms by (simp add: lru_set_def lru_ok_def update_absent)
  qed
qed

lemma lru_ok_get [opt_inv]: "lru_ok m \<Longrightarrow> lru_ok (snd (lru_get k m))"
proof (cases "map_of (lru_entries m) k")
  case (Some v)
  assume ok: "lru_ok m"
  have "length (lru_entries m) \<noteq> 0" using Some by auto
  then show ?thesis
    using ok Some length_filter_key [of "lru_entries m" k v]
    by (auto simp: lru_ok_def lru_get_entries distinct_map_filter) (simp add: lru_get_def)+
qed (simp add: lru_get_def)

lemma lru_ok_set [opt_inv]:
  assumes "lru_ok m"
  shows "lru_ok (lru_set k v m)"
proof -
  have mx: "lru_max (lru_set k v m) = lru_max m" by (simp add: lru_set_def Let_def)
  have d: "distinct (map fst (lru_entries m))" "length (lru_entries m) \<le> lru_max m" "1 \<le> lru_max m"
    using assms by (simp_all add: lru_ok_def)
  show ?thesis
  proof (cases "map_of (lru_entries m) k")
    case (Some w)
    then have "length (lru_entries m) \<noteq> 0" by auto
    then show ?thesis
      using d mx Some length_filter_key [OF d(1) Some]
      by (auto simp: lru_ok_def lru_set_entries [OF assms] distinct_map_filter)
  next
    case None
    then have nk: "k \<notin> fst ` set (lru_entries m)" by (simp add: map_of_eq_None_iff)
    have "k \<notin> fst ` set (tl (lru_entries m))" "distinct (map fst (tl (lru_entries m)))"
      using nk d(1) by (cases "lru_entries m"; auto)+
    then show ?thesis
      using d mx None nk by (auto simp: lru_ok_def lru_set_entries [OF assms])
  qed
qed

section \<open>What the map remembers\<close>

text \<open>The full recency list, without any capacity: every key ever touched, newest last.\<close>

datatype ('k, 'v) lru_call = LSet 'k 'v | LGet 'k

definition last_n :: "nat \<Rightarrow> 'a list \<Rightarrow> 'a list" where
  "last_n n xs = drop (length xs - n) xs"

fun lru_run :: "('k, 'v) lru_call \<Rightarrow> ('k, 'v) lru \<Rightarrow> ('k, 'v) lru" where
  "lru_run (LSet k v) m = lru_set k v m"
| "lru_run (LGet k) m = snd (lru_get k m)"

fun recency :: "nat \<Rightarrow> ('k, 'v) lru_call \<Rightarrow> ('k \<times> 'v) list \<Rightarrow> ('k \<times> 'v) list" where
  "recency n (LSet k v) xs = filter (\<lambda>x. fst x \<noteq> k) xs @ [(k, v)]"
| "recency n (LGet k) xs =
     (case map_of (last_n n xs) k of
        Some v \<Rightarrow> filter (\<lambda>x. fst x \<noteq> k) xs @ [(k, v)] | None \<Rightarrow> xs)"

lemma last_n_snoc: "1 \<le> n \<Longrightarrow> last_n n (xs @ [x]) = last_n (n - 1) xs @ [x]"
  by (cases "n \<le> length xs") (auto simp: last_n_def Suc_diff_le)

lemma last_n_split: "xs = take (length xs - n) xs @ last_n n xs"
  by (simp add: last_n_def)

lemma length_last_n: "length (last_n n xs) = min n (length xs)"
  by (simp add: last_n_def)

lemma last_n_last_n:
  assumes "m \<le> n"
  shows "last_n m (last_n n xs) = last_n m xs"
proof -
  have "length xs - (length xs - n) - m + (length xs - n) = length xs - m" using assms by arith
  then show ?thesis by (simp add: last_n_def)
qed

lemma last_n_append: "n \<le> length ys \<Longrightarrow> last_n n (xs @ ys) = last_n n ys"
  by (simp add: last_n_def)

lemma last_n_filter_present:
  assumes "distinct (map fst xs)" and "map_of (last_n n xs) k = Some v"
  shows "last_n (n - 1) (filter (\<lambda>x. fst x \<noteq> k) xs) = filter (\<lambda>x. fst x \<noteq> k) (last_n n xs)"
proof -
  let ?P = "\<lambda>x. fst x \<noteq> k" and ?ys = "take (length xs - n) xs"
  have d: "distinct (map fst (last_n n xs))" using assms(1) by (simp add: last_n_def drop_map [symmetric])
  have len: "length (filter ?P (last_n n xs)) = length (last_n n xs) - 1" by (rule length_filter_key [OF d assms(2)])
  have ks: "k \<in> fst ` set (last_n n xs)" using map_of_SomeD [OF assms(2)] by (rule rev_image_eqI) simp
  have "distinct (map fst (?ys @ last_n n xs))" using assms(1) last_n_split [of xs n] by simp
  then have "filter ?P ?ys = ?ys" using ks by (intro filter_True) auto
  then have f: "filter ?P xs = ?ys @ filter ?P (last_n n xs)"
    using last_n_split [of xs n] by (metis filter_append)
  show ?thesis
  proof (cases "n \<le> length xs")
    case True
    then have "length (filter ?P (last_n n xs)) = n - 1" using len by (simp add: length_last_n)
    then show ?thesis by (simp add: f last_n_append) (simp add: last_n_def)
  next
    case False
    then have "last_n n xs = xs" by (simp add: last_n_def)
    then show ?thesis using len False by (simp add: last_n_def)
  qed
qed

lemma last_n_filter_absent:
  assumes "map_of (last_n n xs) k = None" and "m \<le> n"
  shows "last_n m (filter (\<lambda>x. fst x \<noteq> k) xs) = last_n m xs"
proof -
  let ?P = "\<lambda>x. fst x \<noteq> k"
  have "filter ?P (last_n n xs) = last_n n xs"
    using assms(1) by (intro filter_True) (auto simp: map_of_eq_None_iff intro: rev_image_eqI)
  then have f: "filter ?P xs = filter ?P (take (length xs - n) xs) @ last_n n xs"
    using last_n_split [of xs n] by (metis filter_append)
  show ?thesis
  proof (cases "n \<le> length xs")
    case True
    then have "m \<le> length (last_n n xs)" using assms(2) by (simp add: length_last_n)
    then have "last_n m (filter ?P xs) = last_n m (last_n n xs)" unfolding f by (rule last_n_append)
    then show ?thesis by (simp add: last_n_last_n assms(2))
  next
    case False
    then have "last_n n xs = xs" by (simp add: last_n_def)
    with \<open>filter ?P (last_n n xs) = last_n n xs\<close> show ?thesis by simp
  qed
qed

lemma lru_step_recency:
  assumes "1 \<le> n" and "distinct (map fst xs)" and "lru_max m = n" and "lru_entries m = last_n n xs"
  shows "lru_entries (lru_run c m) = last_n n (recency n c xs) \<and> distinct (map fst (recency n c xs))
    \<and> lru_max (lru_run c m) = n"
proof -
  have ok: "lru_ok m"
    using assms by (simp add: lru_ok_def last_n_def drop_map [symmetric])
  have dist: "distinct (map fst (filter (\<lambda>x. fst x \<noteq> k) xs @ [(k, v)]))" for k and v :: 'b
    using assms(2) by (auto simp: distinct_map_filter)
  have put: "last_n n (filter (\<lambda>x. fst x \<noteq> k) xs @ [(k, v)]) =
      (if map_of (last_n n xs) k \<noteq> None then filter (\<lambda>x. fst x \<noteq> k) (last_n n xs)
       else if length (last_n n xs) = n then tl (last_n n xs) else last_n n xs) @ [(k, v)]" for k and v :: 'b
  proof (cases "map_of (last_n n xs) k")
    case None
    have "last_n (n - 1) xs = (if length (last_n n xs) = n then tl (last_n n xs) else last_n n xs)"
      using assms(1) by (auto simp: last_n_def tl_drop drop_Suc [symmetric] Suc_diff_le)
    then show ?thesis using None assms(1) last_n_filter_absent [OF None, of "n - 1"] by (simp add: last_n_snoc)
  next
    case (Some w)
    then show ?thesis using assms(1) last_n_filter_present [OF assms(2) Some] by (simp add: last_n_snoc)
  qed
  show ?thesis
  proof (cases c)
    case (LSet k v)
    then show ?thesis
      using put dist assms lru_set_entries [OF ok, of k v] by (simp add: lru_set_def Let_def)
  next
    case (LGet k)
    then show ?thesis
      using put dist assms lru_get_entries [OF ok, of k]
      by (cases "map_of (last_n n xs) k") (auto simp: lru_get_def)
  qed
qed

section \<open>Properties\<close>

text \<open>The map keeps exactly the most recently used entries: after any sequence of \<open>set\<close> and
  \<open>get\<close> calls on a new map of capacity \<open>n\<close>, its entries are the last \<open>n\<close> of the list of all keys
  in order of their last use, with their latest values, and so never more than \<open>n\<close>.\<close>

theorem lru_keeps_most_recent:
  assumes "1 \<le> n" and "new_lru n = Inr m0"
  shows "lru_entries (fold lru_run cs m0) = last_n n (fold (recency n) cs [])
    \<and> lru_size (fold lru_run cs m0) \<le> n"
proof -
  have "lru_entries (fold lru_run cs m) = last_n n (fold (recency n) cs xs)"
    if "distinct (map fst xs)" "lru_max m = n" "lru_entries m = last_n n xs" for m :: "('a, 'b) lru" and xs
    using that
  proof (induction cs arbitrary: m xs)
    case (Cons c cs)
    note st = lru_step_recency [OF assms(1) Cons.prems]
    show ?case using Cons.IH [of "recency n c xs" "lru_run c m"] st by simp
  qed simp
  moreover have "lru_max m0 = n" "lru_entries m0 = []" using assms by (auto simp: new_lru_def split: if_splits)
  ultimately have e: "lru_entries (fold lru_run cs m0) = last_n n (fold (recency n) cs [])"
    by (simp add: last_n_def)
  then show ?thesis by (simp add: lru_size_def length_last_n)
qed

theorem lru_keeps_most_recent_witness:
  "lru_entries (fold lru_run [LSet ''a'' (1 :: nat), LSet ''b'' 2, LGet ''a'', LSet ''c'' 3]
      \<lparr>lru_max = 2, lru_entries = []\<rparr>) = [(''a'', 1), (''c'', 3)]"
  using lru_keeps_most_recent [of 2 "\<lparr>lru_max = 2, lru_entries = []\<rparr>"
      "[LSet ''a'' (1 :: nat), LSet ''b'' 2, LGet ''a'', LSet ''c'' 3]"]
  by (simp add: new_lru_def last_n_def)

end
