(* ===== verification/Cache_Source.thy ===== *)
theory Cache_Source
  imports Tracker_Store Lru_Map
begin

text \<open>
  Reads and their bookkeeping: \<open>packages/db-core/src/transaction/read-dependency-collector.ts\<close>
  and \<open>packages/db-core/src/transform/cache-source.ts\<close>, and the tracker's memo on top of the
  cache.

  The source below the cache is a function from block ids to blocks (\<open>cs_content\<close>), which other
  writers may change; the revision it reports for an id is the parameter \<open>readRev\<close>.
\<close>

section \<open>Read dependencies\<close>

type_synonym read_entry = "nat \<times> read_purpose"
type_synonym collector = "(block_id \<times> read_entry) list"

definition record_read :: "block_id \<Rightarrow> nat \<Rightarrow> read_purpose \<Rightarrow> collector \<Rightarrow> collector" where
  "record_read b revision purpose rs =
     (case map_of rs b of
        None \<Rightarrow> AList.update b (revision, purpose) rs
      | Some (r, p) \<Rightarrow>
          AList.update b (if revision > r then revision else r, if purpose = Value then Value else p) rs)"

definition markValue :: "block_id \<Rightarrow> collector \<Rightarrow> collector" where
  "markValue b rs = (case map_of rs b of None \<Rightarrow> rs | Some (r, p) \<Rightarrow> AList.update b (r, Value) rs)"

definition getReadDependencies :: "collector \<Rightarrow> (block_id \<times> nat) list" where
  "getReadDependencies rs = map (\<lambda>(b, r, p). (b, r)) (filter (\<lambda>(b, r, p). p = Value) rs)"

section \<open>The cache\<close>

record 'v cache_source =
  cs_content :: "block_id \<Rightarrow> 'v block option"
  cs_cache :: "(block_id, 'v block) lru"
  cs_generations :: "block_id \<Rightarrow> nat"
  cs_revisions :: "block_id \<rightharpoonup> nat"
  cs_collector :: collector

definition new_cache :: "(block_id \<Rightarrow> 'v block option) \<Rightarrow> nat \<Rightarrow> collector
    \<Rightarrow> (block_id \<times> 'v block \<times> nat) list \<Rightarrow> 'v cache_source" where
  "new_cache content maxSize coll seed =
     fold (\<lambda>(i, b, r) c. c\<lparr>cs_cache := lru_set i b (cs_cache c), cs_revisions := (cs_revisions c)(i \<mapsto> r)\<rparr>) seed
       \<lparr>cs_content = content, cs_cache = \<lparr>lru_max = maxSize, lru_entries = []\<rparr>,
        cs_generations = (\<lambda>_. 0), cs_revisions = Map.empty, cs_collector = coll\<rparr>"

definition bump :: "block_id \<Rightarrow> 'v cache_source \<Rightarrow> 'v cache_source" where
  "bump i c = c\<lparr>cs_generations := (cs_generations c)(i := cs_generations c i + 1)\<rparr>"

definition getGeneration :: "'v cache_source \<Rightarrow> block_id \<Rightarrow> nat" where
  "getGeneration c i = cs_generations c i"

definition cache_tryGet :: "(block_id \<Rightarrow> nat option) \<Rightarrow> block_id \<Rightarrow> read_purpose \<Rightarrow> 'v cache_source
    \<Rightarrow> 'v block option \<times> 'v cache_source" where
  "cache_tryGet readRev i p c =
     (case lru_get i (cs_cache c) of
        (Some b, lru') \<Rightarrow>
          (Some b, c\<lparr>cs_cache := lru',
             cs_collector := (case cs_revisions c i of Some r \<Rightarrow> record_read i r p (cs_collector c)
                              | None \<Rightarrow> cs_collector c)\<rparr>)
      | (None, lru') \<Rightarrow>
          (case cs_content c i of
             None \<Rightarrow> (None, c\<lparr>cs_cache := lru'\<rparr>)
           | Some b \<Rightarrow>
               (let r = (case readRev i of Some r \<Rightarrow> r | None \<Rightarrow> 0);
                    c1 = bump i (c\<lparr>cs_cache := lru_set i b lru'\<rparr>)
                in (Some b, c1\<lparr>cs_revisions := (cs_revisions c1)(i \<mapsto> r),
                               cs_collector := record_read i r p (cs_collector c1)\<rparr>))))"

definition cache_drop :: "block_id \<Rightarrow> 'v cache_source \<Rightarrow> 'v cache_source" where
  \<comment> \<open>delete the cached block and its revision, and bump\<close>
  "cache_drop i c = bump i (c\<lparr>cs_cache := lru_delete i (cs_cache c),
                              cs_revisions := (cs_revisions c)(i := None)\<rparr>)"

definition clear_ids :: "block_id list \<Rightarrow> 'v cache_source \<Rightarrow> 'v cache_source" where
  "clear_ids is c = fold cache_drop is c"

definition clear_all :: "'v cache_source \<Rightarrow> 'v cache_source" where
  "clear_all c =
     (let c1 = fold bump (map fst (lru_entries (cs_cache c))) c
      in c1\<lparr>cs_cache := lru_clear (cs_cache c1), cs_revisions := Map.empty\<rparr>)"

definition snapshotEntries :: "'v cache_source \<Rightarrow> (block_id \<times> 'v block \<times> nat) list" where
  "snapshotEntries c = map (\<lambda>(i, b). (i, b, case cs_revisions c i of Some r \<Rightarrow> r | None \<Rightarrow> 0))
     (lru_entries (cs_cache c))"

definition cache_put :: "nat \<Rightarrow> 'v block \<Rightarrow> 'v cache_source \<Rightarrow> 'v cache_source" where
  "cache_put revision b c =
     bump (block_id_of b) (c\<lparr>cs_cache := lru_set (block_id_of b) b (cs_cache c),
                             cs_revisions := (cs_revisions c)(block_id_of b \<mapsto> revision)\<rparr>)"

fun cache_ops :: "block_id \<Rightarrow> 'v operation list \<Rightarrow> 'v block \<Rightarrow> 'v cache_source \<Rightarrow> error option \<times> 'v cache_source" where
  \<comment> \<open>the operations of one block, applied to the cached object in place, one bump each\<close>
  "cache_ops i [] b c = (None, c)"
| "cache_ops i (op # ops) b c =
     (case applyOperation b op of
        Inl e \<Rightarrow> (Some e, c)
      | Inr b' \<Rightarrow> cache_ops i ops b'
          (bump i (c\<lparr>cs_cache := (cs_cache c)\<lparr>lru_entries := AList.update i b' (lru_entries (cs_cache c))\<rparr>\<rparr>)))"

definition cache_update :: "nat \<Rightarrow> block_id \<times> 'v operation list \<Rightarrow> 'v cache_source \<Rightarrow> error option \<times> 'v cache_source" where
  "cache_update revision u c =
     (case u of (i, ops) \<Rightarrow>
        (case lru_get i (cs_cache c) of
           (None, _) \<Rightarrow> (None, c)
         | (Some b, lru') \<Rightarrow>
             (case cache_ops i ops b (c\<lparr>cs_cache := lru'\<rparr>) of
                (Some e, c') \<Rightarrow> (Some e, c')
              | (None, c') \<Rightarrow> (None, c'\<lparr>cs_revisions := (cs_revisions c')(i \<mapsto> revision)\<rparr>))))"

definition transformCache :: "'v transforms \<Rightarrow> nat \<Rightarrow> 'v cache_source \<Rightarrow> error option \<times> 'v cache_source" where
  "transformCache t revision c =
     (let c1 = fold cache_drop (deletes t) c;
          c2 = fold (cache_put revision) (map snd (inserts t)) c1
      in sloop (cache_update revision) (updates t) c2)"

definition cache_ops_of :: "(block_id \<Rightarrow> nat option) \<Rightarrow> ('v cache_source, 'v) source_ops" where
  \<comment> \<open>the cache as the source of a tracker\<close>
  "cache_ops_of readRev =
     \<lparr>src_tryGet = (\<lambda>c i p. case cache_tryGet readRev i p c of (ob, c') \<Rightarrow> (Inr ob, c')),
      src_getGeneration = (\<lambda>c i. Some (getGeneration c i))\<rparr>"

section \<open>Coherence\<close>

definition coherent :: "'v cache_source \<Rightarrow> bool" where
  \<comment> \<open>what is cached is what the source holds\<close>
  "coherent c \<longleftrightarrow> lru_ok (cs_cache c)
     \<and> (\<forall>i b. map_of (lru_entries (cs_cache c)) i = Some b \<longrightarrow> cs_content c i = Some b)"

lemma lru_get_lookup:
  "map_of (lru_entries (snd (lru_get k m))) = map_of (lru_entries m)"
  "fst (lru_get k m) = map_of (lru_entries m) k"
  by (auto simp: lru_get_def fun_eq_iff split: option.splits)

lemma lru_get_hit:
  assumes "map_of (lru_entries m) k = Some v" and "lru_ok m"
  obtains m' where "lru_get k m = (Some v, m')" "map_of (lru_entries m') = map_of (lru_entries m)" "lru_ok m'"
  using assms lru_get_lookup [of k m] lru_ok_get [of m k] by (metis prod.collapse)

lemma lru_set_lookup:
  assumes "lru_ok m" and "map_of (lru_entries (lru_set k v m)) i = Some w"
  shows "i = k \<and> w = v \<or> i \<noteq> k \<and> map_of (lru_entries m) i = Some w"
  using assms(2)
  by (auto simp: lru_set_def Let_def split: if_splits)

lemma lru_set_has: "map_of (lru_entries (lru_set k v m)) k = Some v"
  by (simp add: lru_set_def Let_def)

lemma lru_ok_delete [opt_inv]: "lru_ok m \<Longrightarrow> lru_ok (lru_delete k m)"
  by (auto simp: lru_ok_def lru_delete_def delete_filter distinct_map_filter intro: le_trans [OF length_filter_le])

abbreviation cached :: "'v cache_source \<Rightarrow> block_id \<rightharpoonup> 'v block" where
  "cached c \<equiv> map_of (lru_entries (cs_cache c))"

lemma bump_simps [simp]:
  "cs_content (bump i c) = cs_content c" "cs_cache (bump i c) = cs_cache c"
  "cs_revisions (bump i c) = cs_revisions c" "cs_collector (bump i c) = cs_collector c"
  by (simp_all add: bump_def)

lemma cache_drop_simps [simp]:
  "cs_content (cache_drop i c) = cs_content c"
  "cached (cache_drop i c) = (cached c)(i := None)"
  "lru_ok (cs_cache c) \<Longrightarrow> lru_ok (cs_cache (cache_drop i c))"
  by (simp_all add: cache_drop_def lru_delete_def lru_ok_delete [unfolded lru_delete_def])

lemma fold_drop:
  "cs_content (fold cache_drop is c) = cs_content c"
  "cached (fold cache_drop is c) i = (if i \<in> set is then None else cached c i)"
  "lru_ok (cs_cache c) \<Longrightarrow> lru_ok (cs_cache (fold cache_drop is c))"
  by (induction "is" arbitrary: c) auto

lemma cache_put_simps [simp]:
  "cs_content (cache_put r b c) = cs_content c"
  "lru_ok (cs_cache c) \<Longrightarrow> lru_ok (cs_cache (cache_put r b c))"
  by (simp_all add: cache_put_def lru_ok_set)

lemma fold_put:
  assumes "lru_ok (cs_cache c)" and "distinct (map fst bs)" and "\<forall>(i, b) \<in> set bs. block_id_of b = i"
  shows "cs_content (fold (cache_put r) (map snd bs) c) = cs_content c
    \<and> lru_ok (cs_cache (fold (cache_put r) (map snd bs) c))
    \<and> (\<forall>i w. cached (fold (cache_put r) (map snd bs) c) i = Some w \<longrightarrow>
         map_of bs i = Some w \<or> map_of bs i = None \<and> cached c i = Some w)"
  using assms
proof (induction bs arbitrary: c)
  case (Cons x bs)
  obtain j b where x: "x = (j, b)" by (cases x)
  define c1 where "c1 = cache_put r b c"
  have bj: "block_id_of b = j" "j \<notin> fst ` set bs" using Cons.prems x by auto
  have ok1: "lru_ok (cs_cache c1)" "cs_content c1 = cs_content c" using Cons.prems(1) by (simp_all add: c1_def)
  have look: "i = j \<and> w = b \<or> i \<noteq> j \<and> cached c i = Some w" if "cached c1 i = Some w" for i w
    using that lru_set_lookup [OF Cons.prems(1), of j b i w] bj by (simp add: c1_def cache_put_def)
  have d: "distinct (map fst bs)" "\<forall>(i, b) \<in> set bs. block_id_of b = i" using Cons.prems by auto
  note ih = Cons.IH [OF ok1(1) d]
  have nj: "map_of bs j = None" using bj(2) by (simp add: map_of_eq_None_iff)
  have "map_of (x # bs) i = Some w \<or> map_of (x # bs) i = None \<and> cached c i = Some w"
    if w: "cached (fold (cache_put r) (map snd bs) c1) i = Some w" for i w
  proof -
    have "map_of bs i = Some w \<or> map_of bs i = None \<and> cached c1 i = Some w" using ih w by blast
    then show ?thesis using nj x look [of i w] by (cases "i = j"; simp; blast)
  qed
  then show ?case using ih ok1(2) x by (simp add: c1_def [symmetric])
qed simp

lemma cache_ops_result:
  assumes "lru_ok (cs_cache c)" and "cached c i = Some b"
  shows "case applyOperations b ops of
      Inl e \<Rightarrow> \<exists>c'. cache_ops i ops b c = (Some e, c')
    | Inr b' \<Rightarrow> \<exists>c'. cache_ops i ops b c = (None, c') \<and> lru_ok (cs_cache c')
        \<and> cached c' = (cached c)(i \<mapsto> b') \<and> cs_content c' = cs_content c"
  using assms
proof (induction ops arbitrary: b c)
  case Nil
  then show ?case by (auto simp: fun_eq_iff)
next
  case (Cons op ops)
  show ?case
  proof (cases "applyOperation b op")
    case (Inr b')
    define c1 where "c1 = bump i (c\<lparr>cs_cache := (cs_cache c)\<lparr>lru_entries := AList.update i b' (lru_entries (cs_cache c))\<rparr>\<rparr>)"
    have keys: "map fst (AList.update i b' (lru_entries (cs_cache c))) = map fst (lru_entries (cs_cache c))"
      using Cons.prems(2) by (induction "lru_entries (cs_cache c)" arbitrary: c) (auto simp: update_keys dest: map_of_SomeD intro: rev_image_eqI)
    then have "length (AList.update i b' (lru_entries (cs_cache c))) = length (lru_entries (cs_cache c))"
      by (metis length_map)
    with keys have ok1: "lru_ok (cs_cache c1)" using Cons.prems(1) by (simp add: c1_def lru_ok_def)
    have "cached c1 = (cached c)(i \<mapsto> b')" "cs_content c1 = cs_content c" by (simp_all add: c1_def)
    then show ?thesis
      using Cons.IH [OF ok1, of b'] Inr by (auto simp: c1_def [symmetric] fun_eq_iff split: sum.splits)
  qed simp
qed

lemma cache_update_result:
  assumes "lru_ok (cs_cache c)" and "\<And>b. cached c i = Some b \<Longrightarrow> \<exists>b'. applyOperations b ops = Inr b'"
  shows "\<exists>c'. cache_update r (i, ops) c = (None, c') \<and> lru_ok (cs_cache c') \<and> cs_content c' = cs_content c
    \<and> (\<forall>j. j \<noteq> i \<longrightarrow> cached c' j = cached c j)
    \<and> (case cached c i of None \<Rightarrow> cached c' i = None
       | Some b \<Rightarrow> \<exists>b'. applyOperations b ops = Inr b' \<and> cached c' i = Some b')"
proof (cases "cached c i")
  case None
  then show ?thesis using assms(1) lru_get_lookup(2) [of i "cs_cache c"]
    by (auto simp: cache_update_def split: prod.splits)
next
  case (Some b)
  then obtain b' where b': "applyOperations b ops = Inr b'" using assms(2) by blast
  obtain m where g: "lru_get i (cs_cache c) = (Some b, m)" "map_of (lru_entries m) = cached c" "lru_ok m"
    using Some assms(1) by (rule lru_get_hit)
  have c0: "lru_ok (cs_cache (c\<lparr>cs_cache := m\<rparr>))" "cached (c\<lparr>cs_cache := m\<rparr>) i = Some b"
    using g Some by simp_all
  obtain c' where "cache_ops i ops b (c\<lparr>cs_cache := m\<rparr>) = (None, c')" "lru_ok (cs_cache c')"
      "cached c' = (cached c)(i \<mapsto> b')" "cs_content c' = cs_content c"
    using cache_ops_result [OF c0, of ops] b' g(2) by auto
  then show ?thesis using Some b' g(1) by (simp add: cache_update_def)
qed

lemma cache_updates_result:
  assumes "lru_ok (cs_cache c)" and "distinct (map fst us)"
    and "\<And>i b ops. map_of us i = Some ops \<Longrightarrow> cached c i = Some b \<Longrightarrow> \<exists>b'. applyOperations b ops = Inr b'"
  shows "\<exists>c'. sloop (cache_update r) us c = (None, c') \<and> lru_ok (cs_cache c') \<and> cs_content c' = cs_content c
    \<and> (\<forall>i. case cached c i of None \<Rightarrow> cached c' i = None
         | Some b \<Rightarrow> (case map_of us i of None \<Rightarrow> cached c' i = Some b
             | Some ops \<Rightarrow> \<exists>b'. applyOperations b ops = Inr b' \<and> cached c' i = Some b'))"
  using assms
proof (induction us arbitrary: c)
  case (Cons u us)
  obtain j ops where u: "u = (j, ops)" by (cases u)
  have nj: "map_of us j = None" using Cons.prems(2) u by (simp add: map_of_eq_None_iff)
  obtain c1 where c1: "cache_update r (j, ops) c = (None, c1)" "lru_ok (cs_cache c1)" "cs_content c1 = cs_content c"
    "\<forall>i. i \<noteq> j \<longrightarrow> cached c1 i = cached c i"
    "case cached c j of None \<Rightarrow> cached c1 j = None | Some b \<Rightarrow> \<exists>b'. applyOperations b ops = Inr b' \<and> cached c1 j = Some b'"
    using cache_update_result [OF Cons.prems(1), of j ops r] Cons.prems(3) [of j ops] u by auto
  have pre: "\<exists>b'. applyOperations b ops' = Inr b'" if "map_of us i = Some ops'" "cached c1 i = Some b" for i b ops'
    using Cons.prems(3) [of i ops' b] that nj c1(4) u by (cases "i = j") auto
  have d: "distinct (map fst us)" using Cons.prems(2) by simp
  obtain c' where c': "sloop (cache_update r) us c1 = (None, c')" "lru_ok (cs_cache c')" "cs_content c' = cs_content c1"
    "\<forall>i. case cached c1 i of None \<Rightarrow> cached c' i = None
         | Some b \<Rightarrow> (case map_of us i of None \<Rightarrow> cached c' i = Some b
             | Some ops \<Rightarrow> \<exists>b'. applyOperations b ops = Inr b' \<and> cached c' i = Some b')"
    using Cons.IH [OF c1(2) d] pre by blast
  have "case cached c i of None \<Rightarrow> cached c' i = None
         | Some b \<Rightarrow> (case map_of (u # us) i of None \<Rightarrow> cached c' i = Some b
             | Some ops \<Rightarrow> \<exists>b'. applyOperations b ops = Inr b' \<and> cached c' i = Some b')" for i
    using c'(4) [rule_format, of i] c1(4,5) nj u by (cases "i = j") (auto split: option.splits)
  then show ?case using c' c1 u by auto
qed (auto split: option.splits)

lemma cache_tryGet_transparent_lemma:
  assumes "coherent c" and "cache_tryGet readRev i p c = (ob, c')"
  shows "ob = cs_content c i \<and> coherent c' \<and> cs_content c' = cs_content c"
proof -
  have ok: "lru_ok (cs_cache c)" and co: "\<And>i b. cached c i = Some b \<Longrightarrow> cs_content c i = Some b"
    using assms(1) by (auto simp: coherent_def)
  show ?thesis
  proof (cases "cached c i")
    case (Some b)
    then obtain m where "lru_get i (cs_cache c) = (Some b, m)" "map_of (lru_entries m) = cached c" "lru_ok m"
      using ok by (rule lru_get_hit)
    then show ?thesis
      using assms(2) co co [OF Some] by (auto simp: cache_tryGet_def coherent_def)
  next
    case None
    then have g: "lru_get i (cs_cache c) = (None, cs_cache c)" by (simp add: lru_get_def)
    show ?thesis
    proof (cases "cs_content c i")
      case None
      then show ?thesis using assms(2) g ok co by (auto simp: cache_tryGet_def coherent_def)
    next
      case (Some b)
      then show ?thesis
        using assms(2) g ok co lru_ok_set [OF ok, of i b]
        by (auto simp: cache_tryGet_def coherent_def Let_def dest!: lru_set_lookup [OF ok])
    qed
  qed
qed

lemma transformCache_coherent_lemma:
  assumes "coherent c" and "transforms_wf t"
    and "\<And>i. applyTransform (cs_content c i) (transformForBlockId t i) = Inr (f' i)"
  shows "\<exists>c'. transformCache t r c = (None, c') \<and> coherent (c'\<lparr>cs_content := f'\<rparr>)"
proof -
  define c1 where "c1 = fold cache_drop (deletes t) c"
  define c2 where "c2 = fold (cache_put r) (map snd (inserts t)) c1"
  have wf: "distinct (map fst (inserts t))" "distinct (map fst (updates t))"
    "\<forall>(i, b) \<in> set (inserts t). block_id_of b = i"
    "\<And>i b. map_of (inserts t) i = Some b \<Longrightarrow> map_of (updates t) i = None \<and> i \<notin> set (deletes t)"
    using assms(2) unfolding transforms_wf_def transforms_dict_def by (blast+)
  have c1: "cs_content c1 = cs_content c" "\<And>i. cached c1 i = (if i \<in> set (deletes t) then None else cached c i)"
    "lru_ok (cs_cache c1)"
    using assms(1) by (simp_all add: c1_def fold_drop coherent_def)
  have c2: "cs_content c2 = cs_content c" "lru_ok (cs_cache c2)"
    "\<And>i w. cached c2 i = Some w \<Longrightarrow> map_of (inserts t) i = Some w \<or> map_of (inserts t) i = None \<and> cached c1 i = Some w"
    using fold_put [OF c1(3) wf(1,3), of r] c1(1) by (simp_all add: c2_def)
  have base: "map_of (updates t) i = None \<and> f' i = Some b \<or> (\<exists>ops. map_of (updates t) i = Some ops \<and>
      (\<exists>b'. applyOperations b ops = Inr b' \<and> f' i = Some b'))" if b: "cached c2 i = Some b" for i b
    using c2(3) [OF b]
  proof
    assume ins: "map_of (inserts t) i = Some b"
    then show ?thesis using wf(4) [OF ins] assms(3) [of i]
      by (auto simp: applyTransform_def transformForBlockId_def)
  next
    assume ins: "map_of (inserts t) i = None \<and> cached c1 i = Some b"
    then have "i \<notin> set (deletes t)" "cs_content c i = Some b"
      using c1(2) assms(1) by (auto simp: coherent_def split: if_splits)
    then show ?thesis using ins assms(3) [of i]
      by (cases "map_of (updates t) i"; cases "applyOperations b (the (map_of (updates t) i))")
         (auto simp: applyTransform_def transformForBlockId_def)
  qed
  then have pre: "\<exists>b'. applyOperations b ops = Inr b'" if "map_of (updates t) i = Some ops" "cached c2 i = Some b" for i b ops
    using that by fastforce
  obtain c' where c': "sloop (cache_update r) (updates t) c2 = (None, c')" "lru_ok (cs_cache c')"
    "\<forall>i. case cached c2 i of None \<Rightarrow> cached c' i = None
         | Some b \<Rightarrow> (case map_of (updates t) i of None \<Rightarrow> cached c' i = Some b
             | Some ops \<Rightarrow> \<exists>b'. applyOperations b ops = Inr b' \<and> cached c' i = Some b')"
    using cache_updates_result [OF c2(2) wf(2), of r] pre by blast
  have "f' i = Some w" if "cached c' i = Some w" for i w
    using c'(3) [rule_format, of i] base [of i] that by (cases "cached c2 i") (auto split: option.splits)
  then show ?thesis
    using c' by (simp add: transformCache_def Let_def c1_def [symmetric] c2_def [symmetric] coherent_def)
qed

section \<open>The tracker's memo\<close>

definition memo_ok :: "'v cache_source \<Rightarrow> 'v tracker \<Rightarrow> bool" where
  \<comment> \<open>a memo of the current generation is the source's block with all recorded updates applied\<close>
  "memo_ok c t \<longleftrightarrow> (\<forall>i b g. trk_materialized t i = Some (b, g) \<longrightarrow> g \<le> getGeneration c i
     \<and> (g = getGeneration c i \<longrightarrow> app_ops (pending_ops (trk_transforms t) i) (Inr (cs_content c i)) = Inr (Some b)))"

inductive cache_step :: "(block_id \<Rightarrow> nat option) \<Rightarrow> 'v cache_source \<times> 'v tracker \<Rightarrow> 'v cache_source \<times> 'v tracker \<Rightarrow> bool"
  for readRev where
  read_step: "tracker_tryGet (cache_ops_of readRev) c t i p = (r, c', t') \<Longrightarrow> cache_step readRev (c, t) (c', t')"
| other_read_step: "cache_tryGet readRev i p c = (ob, c') \<Longrightarrow> cache_step readRev (c, t) (c', t)"
| insert_step: "cache_step readRev (c, t) (c, tracker_insert b t)"
| update_step: "tracker_update i op t = (None, t') \<Longrightarrow> cache_step readRev (c, t) (c, t')"
| delete_step: "cache_step readRev (c, t) (c, tracker_delete i t)"
| remote_step: \<comment> \<open>other writers change some blocks, and the collection clears their cache entries\<close>
    "\<forall>i. i \<notin> set ids \<longrightarrow> f i = cs_content c i \<Longrightarrow>
     cache_step readRev (c, t) (clear_ids ids (c\<lparr>cs_content := f\<rparr>), t)"
| commit_step: \<comment> \<open>the tracker's own commit: reset, then fold its transforms into the cache\<close>
    "tracker_reset emptyTransforms t = (tr, t') \<Longrightarrow> transforms_wf tr \<Longrightarrow>
     \<forall>i. applyTransform (cs_content c i) (transformForBlockId tr i) = Inr (f i) \<Longrightarrow>
     transformCache tr revision c = (x, c') \<Longrightarrow> cache_step readRev (c, t) (c'\<lparr>cs_content := f\<rparr>, t')"

lemma cache_tryGet_generation:
  assumes "cache_tryGet readRev i p c = (ob, c')"
  shows "getGeneration c j \<le> getGeneration c' j \<and> (j \<noteq> i \<longrightarrow> getGeneration c' j = getGeneration c j)"
  using assms by (auto simp: cache_tryGet_def getGeneration_def bump_def Let_def split: prod.splits option.splits)

lemma memo_ok_cache_read:
  assumes "memo_ok c t" and "coherent c" and "cache_tryGet readRev i p c = (ob, c')"
  shows "memo_ok c' t"
  unfolding memo_ok_def
proof (intro allI impI)
  fix j b g assume "trk_materialized t j = Some (b, g)"
  then have old: "g \<le> getGeneration c j"
    "g = getGeneration c j \<longrightarrow> app_ops (pending_ops (trk_transforms t) j) (Inr (cs_content c j)) = Inr (Some b)"
    using assms(1) by (auto simp: memo_ok_def)
  have "cs_content c' = cs_content c" using cache_tryGet_transparent_lemma [OF assms(2,3)] by simp
  then show "g \<le> getGeneration c' j \<and>
      (g = getGeneration c' j \<longrightarrow> app_ops (pending_ops (trk_transforms t) j) (Inr (cs_content c' j)) = Inr (Some b))"
    using old cache_tryGet_generation [OF assms(3), of j] by auto
qed

lemma tracker_read:
  assumes m: "memo_ok c t" and co: "coherent c"
    and r: "tracker_tryGet (cache_ops_of readRev) c t i p = (r, c', t')"
  shows "r = tview (\<lambda>j. Inr (cs_content c j)) (trk_transforms t) i
    \<and> memo_ok c' t' \<and> coherent c' \<and> cs_content c' = cs_content c \<and> trk_transforms t' = trk_transforms t"
proof -
  obtain ob c1 where g: "cache_tryGet readRev i p c = (ob, c1)" by (metis surj_pair)
  have tg: "ob = cs_content c i" "coherent c1" "cs_content c1 = cs_content c"
    using cache_tryGet_transparent_lemma [OF co g] by auto
  have m1: "memo_ok c1 t" by (rule memo_ok_cache_read [OF m co g])
  have load: "x = app_ops (pending_ops (trk_transforms t) i) (Inr (cs_content c i))
      \<and> memo_ok c2 t2 \<and> coherent c2 \<and> cs_content c2 = cs_content c \<and> trk_transforms t2 = trk_transforms t"
    if "tracker_load (cache_ops_of readRev) c t i p = (x, c2, t2)" for x c2 t2
  proof (cases ob)
    case None
    then have "cs_content c i = None" "cache_tryGet readRev i p c = (None, c1)" using tg(1) g by simp_all
    then show ?thesis using that tg(2,3) m1 by (auto simp: tracker_load_def cache_ops_of_def)
  next
    case (Some b)
    then have b: "cs_content c i = Some b" and g': "cache_tryGet readRev i p c = (Some b, c1)" using tg(1) g by simp_all
    show ?thesis
    proof (cases "pending_ops (trk_transforms t) i = []")
      case True
      then show ?thesis using that g' b tg(2,3) m1 by (auto simp: tracker_load_def cache_ops_of_def)
    next
      case False
      show ?thesis
      proof (cases "applyOperations b (pending_ops (trk_transforms t) i)")
        case (Inl e)
        then show ?thesis using that g' tg(2,3) m1 False b by (simp add: tracker_load_def cache_ops_of_def)
      next
        case (Inr b')
        then have "x = Inr (Some b')" "c2 = c1"
          "t2 = t\<lparr>trk_materialized := (trk_materialized t)(i \<mapsto> (b', getGeneration c1 i))\<rparr>"
          using that g' False by (auto simp: tracker_load_def cache_ops_of_def)
        then show ?thesis using m1 tg(2,3) b Inr by (auto simp: memo_ok_def)
      qed
    qed
  qed
  show ?thesis
  proof (cases "map_of (inserts (trk_transforms t)) i")
    case (Some b)
    then show ?thesis using r m co by (auto simp: tracker_tryGet_def tview_def)
  next
    case None
    show ?thesis
    proof (cases "i \<in> set (deletes (trk_transforms t))")
      case True
      then show ?thesis using r m co None by (auto simp: tracker_tryGet_def tview_def)
    next
      case False
      show ?thesis
      proof (cases "\<exists>b. trk_materialized t i = Some (b, getGeneration c i)")
        case True
        then obtain b where b: "trk_materialized t i = Some (b, getGeneration c i)" by blast
        then have "app_ops (pending_ops (trk_transforms t) i) (Inr (cs_content c i)) = Inr (Some b)"
          using m by (auto simp: memo_ok_def)
        then show ?thesis using r m co None False b by (auto simp: tracker_tryGet_def tview_def cache_ops_of_def)
      next
        case miss: False
        then have "tracker_tryGet (cache_ops_of readRev) c t i p = tracker_load (cache_ops_of readRev) c t i p"
          using None False by (auto simp: tracker_tryGet_def cache_ops_of_def split: option.splits prod.splits)
        then show ?thesis using load [of r c' t'] r None False by (simp add: tview_def)
      qed
    qed
  qed
qed

lemma generation_drop [simp]:
  "getGeneration (cache_drop j c) i = getGeneration c i + (if i = j then 1 else 0)"
  by (simp add: cache_drop_def bump_def getGeneration_def)

lemma clear_ids_facts:
  "cs_content (clear_ids is c) = cs_content c"
  "cached (clear_ids is c) i = (if i \<in> set is then None else cached c i)"
  "lru_ok (cs_cache c) \<Longrightarrow> lru_ok (cs_cache (clear_ids is c))"
  "getGeneration c i \<le> getGeneration (clear_ids is c) i"
  "i \<in> set is \<Longrightarrow> getGeneration c i < getGeneration (clear_ids is c) i"
  "i \<notin> set is \<Longrightarrow> getGeneration (clear_ids is c) i = getGeneration c i"
proof -
  have mono: "getGeneration c i \<le> getGeneration (fold cache_drop is c) i" for "is" and c :: "'a cache_source"
  proof (induction "is" arbitrary: c)
    case (Cons j js)
    then show ?case using Cons.IH [of "cache_drop j c"] by (simp split: if_splits)
  qed simp
  show "getGeneration c i \<le> getGeneration (clear_ids is c) i" by (simp add: clear_ids_def mono)
  show "i \<in> set is \<Longrightarrow> getGeneration c i < getGeneration (clear_ids is c) i"
  proof (induction "is" arbitrary: c)
    case (Cons j js)
    show ?case
    proof (cases "i = j")
      case True
      have "getGeneration c i < getGeneration (cache_drop i c) i" by simp
      then show ?thesis using mono [of "cache_drop j c" js] True by (simp add: clear_ids_def)
    next
      case False
      then have "getGeneration (cache_drop j c) i = getGeneration c i" by simp
      then show ?thesis using Cons.IH [of "cache_drop j c"] Cons.prems False by (simp add: clear_ids_def)
    qed
  qed simp
  show "i \<notin> set is \<Longrightarrow> getGeneration (clear_ids is c) i = getGeneration c i"
    unfolding clear_ids_def by (induction "is" arbitrary: c) auto
qed (simp_all add: clear_ids_def fold_drop)

lemma cache_step_invariant:
  assumes "cache_step readRev (c, t) (c', t')" and "memo_ok c t" and "coherent c"
  shows "memo_ok c' t' \<and> coherent c'"
  using assms
proof (induction "(c, t)" "(c', t')" rule: cache_step.induct)
  case (read_step i p r)
  then show ?case using tracker_read by blast
next
  case (other_read_step i p ob)
  then show ?case using memo_ok_cache_read cache_tryGet_transparent_lemma by blast
next
  case (insert_step b)
  then show ?case by (auto simp: memo_ok_def tracker_insert_def tr_insert_def pending_ops_def split: if_splits)
next
  case (update_step i op)
  have tr: "tr_update i op (trk_transforms t) = (None, trk_transforms t')"
    by (rule tracker_update_transforms [OF update_step(1)])
  show ?case
  proof (cases "map_of (inserts (trk_transforms t)) i")
    case (Some b)
    then obtain b' where "t' = t\<lparr>trk_transforms := (trk_transforms t)\<lparr>inserts := AList.update i b' (inserts (trk_transforms t))\<rparr>\<rparr>"
      using update_step(1) by (auto simp: tr_update_def tracker_update_def split: sum.splits)
    then have "pending_ops (trk_transforms t') = pending_ops (trk_transforms t)" "trk_materialized t' = trk_materialized t"
      by (simp_all add: pending_ops_def fun_eq_iff)
    then show ?thesis using update_step(2) assms(2,3) by (simp add: memo_ok_def)
  next
    case None
    then have p: "pending_ops (trk_transforms t') j = (if j = i then pending_ops (trk_transforms t) i @ [op]
        else pending_ops (trk_transforms t) j)" for j
    proof -
      have "trk_transforms t' = (trk_transforms t)\<lparr>updates :=
          AList.update i (pending_ops (trk_transforms t) i @ [op]) (updates (trk_transforms t))\<rparr>"
        using tr None by (simp add: tr_update_def)
      then show ?thesis by (simp add: pending_ops_def)
    qed
    show ?thesis
    proof (cases "trk_materialized t i")
      case None
      then have "trk_materialized t' = trk_materialized t"
        using update_step(1) \<open>map_of _ i = None\<close> by (auto simp: tracker_update_def tr_update_def)
      then show ?thesis using update_step(2) assms(2,3) p None by (auto simp: memo_ok_def)
    next
      case (Some bg)
      obtain b g where bg: "bg = (b, g)" by (cases bg)
      obtain b' where b': "applyOperation b op = Inr b'" "trk_materialized t' = (trk_materialized t)(i \<mapsto> (b', g))"
        using update_step(1) \<open>map_of _ i = None\<close> Some bg by (auto simp: tracker_update_def tr_update_def split: sum.splits)
      then show ?thesis
        using update_step(2) assms(2,3) p Some bg by (auto simp: memo_ok_def app_ops_snoc)
    qed
  qed
next
  case (delete_step i)
  then show ?case by (auto simp: memo_ok_def tracker_delete_def tr_delete_def pending_ops_def split: if_splits)
next
  case (remote_step ids f)
  let ?c = "clear_ids ids (c\<lparr>cs_content := f\<rparr>)"
  have gen: "getGeneration (c\<lparr>cs_content := f\<rparr>) j = getGeneration c j" for j by (simp add: getGeneration_def)
  have "memo_ok ?c t"
    unfolding memo_ok_def
  proof (intro allI impI)
    fix j b g assume "trk_materialized t j = Some (b, g)"
    then have old: "g \<le> getGeneration c j"
      "g = getGeneration c j \<longrightarrow> app_ops (pending_ops (trk_transforms t) j) (Inr (cs_content c j)) = Inr (Some b)"
      using assms(2) by (auto simp: memo_ok_def)
    show "g \<le> getGeneration ?c j \<and>
        (g = getGeneration ?c j \<longrightarrow> app_ops (pending_ops (trk_transforms t) j) (Inr (cs_content ?c j)) = Inr (Some b))"
      using old clear_ids_facts(4) [of "c\<lparr>cs_content := f\<rparr>" j ids] clear_ids_facts(5) [of j ids "c\<lparr>cs_content := f\<rparr>"]
        clear_ids_facts(6) [of j ids "c\<lparr>cs_content := f\<rparr>"] remote_step(1)
      by (cases "j \<in> set ids") (auto simp: gen clear_ids_facts(1))
  qed
  moreover have "coherent ?c"
    using remote_step(1) assms(3) by (auto simp: coherent_def clear_ids_facts split: if_splits)
  ultimately show ?case using remote_step(2,3) by simp
next
  case (commit_step tr f revision x c1)
  have "coherent (c1\<lparr>cs_content := f\<rparr>)"
    using transformCache_coherent_lemma [OF assms(3) commit_step(2), of f revision] commit_step(3,4) by simp
  moreover have "memo_ok c2 t'" for c2 using commit_step(1) by (auto simp: memo_ok_def tracker_reset_def)
  ultimately show ?case using commit_step by simp
qed

section \<open>Properties\<close>

text \<open>C36. The tracker's memo and the cache are invisible: along every sequence of reads, updates,
  inserts, deletes, the tracker's own commits and remote changes followed by clearing the changed
  ids, a read through the tracker over the cache returns exactly the source's current block with
  the tracker's recorded changes applied, and the cache only holds current blocks.\<close>

theorem tracker_over_cache_transparent:
  assumes "(cache_step readRev)\<^sup>*\<^sup>* (c0, new_tracker tr0) (c, t)" and "coherent c0"
    and "tracker_tryGet (cache_ops_of readRev) c t i p = (r, c', t')"
  shows "r = tview (\<lambda>j. Inr (cs_content c j)) (trk_transforms t) i \<and> coherent c \<and> cs_content c' = cs_content c"
proof -
  have "memo_ok (fst s) (snd s) \<and> coherent (fst s)"
    if "(cache_step readRev)\<^sup>*\<^sup>* (c0, new_tracker tr0) s" for s
    using that
  proof induction
    case base
    then show ?case using assms(2) by (simp add: memo_ok_def new_tracker_def)
  next
    case (step y z)
    then show ?case using cache_step_invariant by (metis prod.collapse)
  qed
  from this [OF assms(1)] have "memo_ok c t" "coherent c" by simp_all
  then show ?thesis using tracker_read assms(3) by blast
qed

definition plain_block :: "block_id \<Rightarrow> nat list \<Rightarrow> nat block" where
  "plain_block i xs = \<lparr>header = \<lparr>hdr_id = i, hdr_type = ''TL'', hdr_collectionId = ''c''\<rparr>,
     attrs = [''entries'' \<mapsto> FArr xs]\<rparr>"

definition warm_cache :: "nat cache_source" where
  "warm_cache = new_cache [''a'' \<mapsto> plain_block ''a'' [1], ''b'' \<mapsto> plain_block ''b'' [2]] 2 [] [(''a'', plain_block ''a'' [1], 5)]"

lemma warm_cache_coherent: "coherent warm_cache"
  by (simp add: coherent_def warm_cache_def new_cache_def lru_ok_def lru_set_def)

theorem tracker_over_cache_transparent_witness:
  "\<exists>t r c' t'. tracker_update ''a'' (splice_op ''entries'' 0 0 [7]) (new_tracker emptyTransforms) = (None, t)
     \<and> tracker_tryGet (cache_ops_of (\<lambda>_. None)) warm_cache t ''a'' Value = (r, c', t')
     \<and> r = tview (\<lambda>j. Inr (cs_content warm_cache j)) (trk_transforms t) ''a''"
proof -
  obtain t where t: "tracker_update ''a'' (splice_op ''entries'' 0 0 [7 :: nat]) (new_tracker emptyTransforms) = (None, t)"
    by (simp add: tracker_update_def tr_update_def new_tracker_def emptyTransforms_def)
  obtain r c' t' where r: "tracker_tryGet (cache_ops_of (\<lambda>_. None)) warm_cache t ''a'' Value = (r, c', t')"
    by (metis surj_pair)
  have "(cache_step (\<lambda>_. None))\<^sup>*\<^sup>* (warm_cache, new_tracker emptyTransforms) (warm_cache, t)"
    by (rule r_into_rtranclp) (rule update_step [OF t])
  from tracker_over_cache_transparent [OF this warm_cache_coherent r] show ?thesis using t r by blast
qed

text \<open>Folding a commit into the cache keeps it coherent: when well-formed transforms apply to
  the source's blocks without error, \<open>transformCache\<close> does not throw and every block it leaves in
  the cache is exactly the committed one.\<close>

theorem transformCache_coherent:
  assumes "coherent c" and "transforms_wf t"
    and "\<forall>i. applyTransform (cs_content c i) (transformForBlockId t i) = Inr (f' i)"
  shows "\<exists>c'. transformCache t revision c = (None, c') \<and> coherent (c'\<lparr>cs_content := f'\<rparr>)"
  using transformCache_coherent_lemma [OF assms(1,2)] assms(3) by blast

theorem transformCache_coherent_witness:
  "\<exists>c'. transformCache (tr_delete ''a'' emptyTransforms) 6 warm_cache = (None, c')
     \<and> coherent (c'\<lparr>cs_content := [''b'' \<mapsto> plain_block ''b'' [2]]\<rparr>)"
  by (rule transformCache_coherent [OF warm_cache_coherent])
     (simp_all add: emptyTransforms_def tr_delete_def transforms_wf_def transforms_dict_def
       applyTransform_def transformForBlockId_def warm_cache_def new_cache_def)

lemma map_of_record_read:
  "map_of (record_read b r p rs) j =
     (if j = b then Some (case map_of rs b of None \<Rightarrow> (r, p)
        | Some (r', p') \<Rightarrow> (max r r', if p = Value then Value else p')) else map_of rs j)"
  by (auto simp: record_read_def max_def split: option.splits)

definition reads_of :: "block_id \<Rightarrow> (block_id \<times> nat \<times> read_purpose) list \<Rightarrow> (nat \<times> read_purpose) list" where
  "reads_of b xs = map snd (filter (\<lambda>x. fst x = b) xs)"

definition record_reads :: "(block_id \<times> nat \<times> read_purpose) list \<Rightarrow> collector" where
  "record_reads xs = fold (\<lambda>(b, r, p). record_read b r p) xs []"

lemma record_reads_snoc: "record_reads (xs @ [(b, r, p)]) = record_read b r p (record_reads xs)"
  by (simp add: record_reads_def)

lemma reads_of_snoc: "reads_of c (xs @ [(b, r, p)]) = reads_of c xs @ (if b = c then [(r, p)] else [])"
  by (simp add: reads_of_def)

lemma map_of_record_reads:
  "map_of (record_reads xs) b =
     (let ys = reads_of b xs
      in if ys = [] then None
         else Some (Max (fst ` set ys), if Value \<in> snd ` set ys then Value else snd (hd ys)))"
proof (induction xs rule: rev_induct)
  case Nil
  then show ?case by (simp add: record_reads_def reads_of_def)
next
  case (snoc x xs)
  obtain c r p where x: "x = (c, r, p)" by (cases x) auto
  show ?case
  proof (cases "c = b")
    case False
    then show ?thesis using snoc by (simp add: x record_reads_snoc map_of_record_read reads_of_snoc)
  next
    case True
    show ?thesis
    proof (cases "reads_of b xs = []")
      case True
      then show ?thesis using snoc \<open>c = b\<close> by (simp add: x record_reads_snoc map_of_record_read reads_of_snoc)
    next
      case False
      then have "fst ` set (reads_of b xs) \<noteq> {}" by simp
      then have "Max (insert r (fst ` set (reads_of b xs))) = max r (Max (fst ` set (reads_of b xs)))"
        by (simp add: Max_insert)
      then show ?thesis using snoc \<open>c = b\<close> False
        by (simp add: x record_reads_snoc map_of_record_read reads_of_snoc Let_def hd_append)
    qed
  qed
qed

lemma distinct_record_read: "distinct (map fst rs) \<Longrightarrow> distinct (map fst (record_read b r p rs))"
  by (auto simp: record_read_def distinct_update split: option.split)

lemma distinct_record_reads: "distinct (map fst (record_reads xs))"
proof (induction xs rule: rev_induct)
  case Nil
  then show ?case by (simp add: record_reads_def)
next
  case (snoc x xs)
  then show ?case by (cases x) (simp add: record_reads_snoc distinct_record_read)
qed

lemma getReadDependencies_iff:
  assumes "distinct (map fst rs)"
  shows "(b, r) \<in> set (getReadDependencies rs) \<longleftrightarrow> map_of rs b = Some (r, Value)"
  using assms by (force simp: getReadDependencies_def map_of_eq_Some_iff)

lemma distinct_getReadDependencies:
  "distinct (map fst rs) \<Longrightarrow> distinct (map fst (getReadDependencies rs))"
  by (induction rs) (force simp: getReadDependencies_def split: prod.splits)+

text \<open>The read set a transaction reports is exact and does not depend on the order of its reads:
  after any sequence of recorded reads, a block is a dependency if and only if some read of it was
  for its value, the revision reported is the largest one recorded for the block by any of its reads,
  and no block is reported twice.\<close>

theorem read_dependencies_exact:
  "distinct (map fst (getReadDependencies (record_reads xs)))
   \<and> ((b, r) \<in> set (getReadDependencies (record_reads xs)) \<longleftrightarrow>
       (\<exists>q. (b, q, Value) \<in> set xs) \<and> r = Max {q. \<exists>p. (b, q, p) \<in> set xs})"
proof -
  have fst_eq: "fst ` set (reads_of b xs) = {q. \<exists>p. (b, q, p) \<in> set xs}"
    by (force simp: reads_of_def)
  have snd_eq: "Value \<in> snd ` set (reads_of b xs) \<longleftrightarrow> (\<exists>q. (b, q, Value) \<in> set xs)"
    by (force simp: reads_of_def)
  have hd_in: "Value \<in> snd ` set (reads_of b xs)"
    if "reads_of b xs \<noteq> []" "snd (hd (reads_of b xs)) = Value"
    using that(2) imageI [OF hd_in_set [OF that(1)], of snd] by simp
  have "map_of (record_reads xs) b = Some (r, Value) \<longleftrightarrow>
      Value \<in> snd ` set (reads_of b xs) \<and> r = Max (fst ` set (reads_of b xs))"
    using hd_in by (cases "reads_of b xs = []") (auto simp: map_of_record_reads Let_def simp del: list.set_sel)
  then show ?thesis
    using getReadDependencies_iff [OF distinct_record_reads] distinct_getReadDependencies [OF distinct_record_reads]
      fst_eq snd_eq by simp
qed

end
