(* ===== verification/Raw_Storage.thy ===== *)
theory Raw_Storage
  imports Transform_Ops
begin

text \<open>
  The raw block store of a peer: \<open>packages/db-p2p/src/storage/struct.ts\<close>, \<open>helpers.ts\<close>
  (\<open>mergeRanges\<close>), \<open>raw-store-codec.ts\<close>, \<open>memory-store-driver.ts\<close> and \<open>kv-raw-storage.ts\<close>.

  A revision range is a JavaScript array \<open>[start, end?]\<close>. Its missing end has three concrete
  forms that the code tells apart: the one-element array (\<open>RNone\<close>), an explicit \<open>undefined\<close>
  (\<open>RUndef\<close>), which is what \<open>mergeRanges\<close> assigns, and \<open>null\<close> (\<open>RNull\<close>), which is what JSON
  turns an explicit \<open>undefined\<close> into. Comparisons with \<open>null\<close> read it as 0.

  The memory driver keeps its five stores under the string keys \<open>blockId:rev\<close> and
  \<open>blockId:actionId\<close>; \<open>block_state\<close> is the part of a store that belongs to one block, which is
  what the block storage above works on, and \<open>mem_repr\<close> relates the two.
\<close>

section \<open>Metadata\<close>

datatype range_end = REnd nat | RNone | RUndef | RNull

type_synonym revision_range = "nat \<times> range_end"

record action_rev =
  ar_actionId :: action_id
  ar_rev :: nat

record block_metadata =
  ranges :: "revision_range list"
  latest :: "action_rev option"

fun end_undefined :: "range_end \<Rightarrow> bool" where
  \<comment> \<open>\<open>range[1] === undefined\<close>\<close>
  "end_undefined RNone = True"
| "end_undefined RUndef = True"
| "end_undefined _ = False"

fun end_num :: "range_end \<Rightarrow> nat" where
  \<comment> \<open>the number an end that is not \<open>undefined\<close> compares as\<close>
  "end_num (REnd n) = n"
| "end_num _ = 0"

section \<open>mergeRanges\<close>

fun mergeRanges_loop :: "revision_range list \<Rightarrow> revision_range list \<Rightarrow> revision_range list" where
  \<comment> \<open>the first argument is \<open>merged\<close>, newest first\<close>
  "mergeRanges_loop merged [] = rev merged"
| "mergeRanges_loop [] (r # rest) = mergeRanges_loop [r] rest"
| "mergeRanges_loop ((ls, le) # merged) ((rs, re) # rest) =
     (if end_undefined le then mergeRanges_loop ((ls, le) # merged) rest
      else if rs \<le> end_num le then
        (if end_undefined re then mergeRanges_loop ((ls, RUndef) # merged) rest
         else mergeRanges_loop ((ls, REnd (max (end_num le) (end_num re))) # merged) rest)
      else mergeRanges_loop ((rs, re) # (ls, le) # merged) rest)"

definition mergeRanges :: "revision_range list \<Rightarrow> revision_range list" where
  "mergeRanges rs = (if length rs \<le> 1 then rs else mergeRanges_loop [] (sort_key fst rs))"

definition inRanges :: "nat \<Rightarrow> revision_range list \<Rightarrow> bool" where
  "inRanges r rs \<longleftrightarrow> (\<exists>(s, e) \<in> set rs. s \<le> r \<and> (end_undefined e \<or> r < end_num e))"

fun rangeFloorOf :: "nat \<Rightarrow> revision_range list \<Rightarrow> nat" where
  "rangeFloorOf r [] = r"
| "rangeFloorOf r ((s, e) # rest) =
     (if s \<le> r \<and> (end_undefined e \<or> r < end_num e) then s else rangeFloorOf r rest)"

section \<open>The JSON codec on metadata\<close>

fun json_range :: "revision_range \<Rightarrow> revision_range" where
  "json_range (s, RUndef) = (s, RNull)"
| "json_range r = r"

definition decode_encode_meta :: "block_metadata \<Rightarrow> block_metadata" where
  \<comment> \<open>\<open>decodeJson(encodeJson(metadata))\<close>\<close>
  "decode_encode_meta m = m\<lparr>ranges := map json_range (ranges m)\<rparr>"

section \<open>The memory driver\<close>

record 'v mem_driver =
  md_metadata :: "(block_id \<times> block_metadata) list"
  md_revisions :: "(string \<times> action_id) list"
  md_pending :: "(string \<times> 'v transform) list"
  md_transactions :: "(string \<times> 'v transform) list"
  md_materialized :: "(string \<times> 'v block) list"

fun nat_str :: "nat \<Rightarrow> string" where
  \<comment> \<open>the decimal numeral of a template literal\<close>
  "nat_str n = (if n < 10 then [char_of (48 + n)] else nat_str (n div 10) @ [char_of (48 + n mod 10)])"

definition revisionKey :: "block_id \<Rightarrow> nat \<Rightarrow> string" where
  "revisionKey b r = b @ '':'' @ nat_str r"

definition actionKey :: "block_id \<Rightarrow> action_id \<Rightarrow> string" where
  "actionKey b a = b @ '':'' @ a"

definition rangeRevisions :: "'v mem_driver \<Rightarrow> block_id \<Rightarrow> nat \<Rightarrow> nat \<Rightarrow> bool \<Rightarrow> (nat \<times> action_id) list" where
  "rangeRevisions m b lo hi reverse =
     (let results = List.map_filter
            (\<lambda>r. map_option (Pair r) (map_of (md_revisions m) (revisionKey b r))) [lo..<Suc hi]
      in if reverse then rev results else results)"

fun starts_with :: "string \<Rightarrow> string \<Rightarrow> bool" where
  "starts_with [] k = True"
| "starts_with (p # ps) [] = False"
| "starts_with (p # ps) (c # k) \<longleftrightarrow> p = c \<and> starts_with ps k"

definition listPendingActionIds :: "'v mem_driver \<Rightarrow> block_id \<Rightarrow> action_id list" where
  "listPendingActionIds m b =
     (let prefix = b @ '':''
      in map (drop (length prefix)) (filter (starts_with prefix) (map fst (md_pending m))))"

definition promote :: "'v mem_driver \<Rightarrow> block_id \<Rightarrow> action_id \<Rightarrow> error + 'v mem_driver" where
  "promote m b a =
     (let key = actionKey b a
      in case map_of (md_pending m) key of
           None \<Rightarrow> Inl (Err ''Pending action not found'')
         | Some v \<Rightarrow> Inr (m\<lparr>md_transactions := AList.update key v (md_transactions m),
                            md_pending := AList.delete key (md_pending m)\<rparr>))"

section \<open>KvRawStorage over the driver\<close>

definition getMetadata :: "'v mem_driver \<Rightarrow> block_id \<Rightarrow> block_metadata option" where
  "getMetadata m b = map_option decode_encode_meta (map_of (md_metadata m) b)"

definition saveMetadata :: "block_id \<Rightarrow> block_metadata \<Rightarrow> 'v mem_driver \<Rightarrow> 'v mem_driver" where
  "saveMetadata b meta m = m\<lparr>md_metadata := AList.update b meta (md_metadata m)\<rparr>"

definition getRevision :: "'v mem_driver \<Rightarrow> block_id \<Rightarrow> nat \<Rightarrow> action_id option" where
  "getRevision m b r = map_of (md_revisions m) (revisionKey b r)"

definition saveRevision :: "block_id \<Rightarrow> nat \<Rightarrow> action_id \<Rightarrow> 'v mem_driver \<Rightarrow> 'v mem_driver" where
  "saveRevision b r a m = m\<lparr>md_revisions := AList.update (revisionKey b r) a (md_revisions m)\<rparr>"

definition listRevisions :: "'v mem_driver \<Rightarrow> block_id \<Rightarrow> nat \<Rightarrow> nat \<Rightarrow> action_rev list" where
  "listRevisions m b startRev endRev =
     (let ascending = startRev \<le> endRev;
          lo = (if ascending then startRev else endRev);
          hi = (if ascending then endRev else startRev)
      in map (\<lambda>(r, a). \<lparr>ar_actionId = a, ar_rev = r\<rparr>) (rangeRevisions m b lo hi (\<not> ascending)))"

definition getPendingTransaction :: "'v mem_driver \<Rightarrow> block_id \<Rightarrow> action_id \<Rightarrow> 'v transform option" where
  "getPendingTransaction m b a = map_of (md_pending m) (actionKey b a)"

definition savePendingTransaction :: "block_id \<Rightarrow> action_id \<Rightarrow> 'v transform \<Rightarrow> 'v mem_driver \<Rightarrow> 'v mem_driver" where
  "savePendingTransaction b a t m = m\<lparr>md_pending := AList.update (actionKey b a) t (md_pending m)\<rparr>"

definition deletePendingTransaction :: "block_id \<Rightarrow> action_id \<Rightarrow> 'v mem_driver \<Rightarrow> 'v mem_driver" where
  "deletePendingTransaction b a m = m\<lparr>md_pending := AList.delete (actionKey b a) (md_pending m)\<rparr>"

definition getTransaction :: "'v mem_driver \<Rightarrow> block_id \<Rightarrow> action_id \<Rightarrow> 'v transform option" where
  "getTransaction m b a = map_of (md_transactions m) (actionKey b a)"

definition saveTransaction :: "block_id \<Rightarrow> action_id \<Rightarrow> 'v transform \<Rightarrow> 'v mem_driver \<Rightarrow> 'v mem_driver" where
  "saveTransaction b a t m = m\<lparr>md_transactions := AList.update (actionKey b a) t (md_transactions m)\<rparr>"

definition getMaterializedBlock :: "'v mem_driver \<Rightarrow> block_id \<Rightarrow> action_id \<Rightarrow> 'v block option" where
  "getMaterializedBlock m b a = map_of (md_materialized m) (actionKey b a)"

definition saveMaterializedBlock :: "block_id \<Rightarrow> action_id \<Rightarrow> 'v block option \<Rightarrow> 'v mem_driver \<Rightarrow> 'v mem_driver" where
  "saveMaterializedBlock b a ob m =
     (case ob of
        Some blk \<Rightarrow> m\<lparr>md_materialized := AList.update (actionKey b a) blk (md_materialized m)\<rparr>
      | None \<Rightarrow> m\<lparr>md_materialized := AList.delete (actionKey b a) (md_materialized m)\<rparr>)"

definition listBlockIds :: "'v mem_driver \<Rightarrow> block_id list" where
  "listBlockIds m = map fst (md_metadata m)"

section \<open>One block's part of the store\<close>

record 'v block_state =
  bs_meta :: "block_metadata option"
  bs_revisions :: "(nat \<times> action_id) list"
  bs_pending :: "(action_id \<times> 'v transform) list"
  bs_transactions :: "action_id \<rightharpoonup> 'v transform"
  bs_materialized :: "action_id \<rightharpoonup> 'v block"

definition empty_block_state :: "'v block_state" where
  "empty_block_state = \<lparr>bs_meta = None, bs_revisions = [], bs_pending = [],
     bs_transactions = Map.empty, bs_materialized = Map.empty\<rparr>"

definition bs_saveMetadata :: "block_metadata \<Rightarrow> 'v block_state \<Rightarrow> 'v block_state" where
  "bs_saveMetadata meta s = s\<lparr>bs_meta := Some (decode_encode_meta meta)\<rparr>"

definition bs_saveRevision :: "nat \<Rightarrow> action_id \<Rightarrow> 'v block_state \<Rightarrow> 'v block_state" where
  "bs_saveRevision r a s = s\<lparr>bs_revisions := AList.update r a (bs_revisions s)\<rparr>"

definition bs_listRevisions :: "'v block_state \<Rightarrow> nat \<Rightarrow> nat \<Rightarrow> action_rev list" where
  "bs_listRevisions s startRev endRev =
     (let pick = List.map_filter (\<lambda>r. map_option (\<lambda>a. \<lparr>ar_actionId = a, ar_rev = r\<rparr>) (map_of (bs_revisions s) r))
      in if startRev \<le> endRev then pick [startRev..<Suc endRev] else rev (pick [endRev..<Suc startRev]))"

definition bs_savePending :: "action_id \<Rightarrow> 'v transform \<Rightarrow> 'v block_state \<Rightarrow> 'v block_state" where
  "bs_savePending a t s = s\<lparr>bs_pending := AList.update a t (bs_pending s)\<rparr>"

definition bs_deletePending :: "action_id \<Rightarrow> 'v block_state \<Rightarrow> 'v block_state" where
  "bs_deletePending a s = s\<lparr>bs_pending := AList.delete a (bs_pending s)\<rparr>"

definition bs_saveTransaction :: "action_id \<Rightarrow> 'v transform \<Rightarrow> 'v block_state \<Rightarrow> 'v block_state" where
  "bs_saveTransaction a t s = s\<lparr>bs_transactions := (bs_transactions s)(a \<mapsto> t)\<rparr>"

definition bs_saveMaterialized :: "action_id \<Rightarrow> 'v block option \<Rightarrow> 'v block_state \<Rightarrow> 'v block_state" where
  "bs_saveMaterialized a ob s = s\<lparr>bs_materialized := (bs_materialized s)(a := ob)\<rparr>"

definition bs_promote :: "action_id \<Rightarrow> 'v block_state \<Rightarrow> error + 'v block_state" where
  "bs_promote a s =
     (case map_of (bs_pending s) a of
        None \<Rightarrow> Inl (Err ''Pending action not found'')
      | Some t \<Rightarrow> Inr (bs_deletePending a (bs_saveTransaction a t s)))"

section \<open>Lemmas on ranges\<close>

definition covers :: "revision_range \<Rightarrow> nat \<Rightarrow> bool" where
  "covers x r \<longleftrightarrow> fst x \<le> r \<and> (end_undefined (snd x) \<or> r < end_num (snd x))"

lemma inRanges_covers: "inRanges r rs \<longleftrightarrow> (\<exists>x \<in> set rs. covers x r)"
  by (simp add: inRanges_def covers_def case_prod_beta)

lemma inRanges_simps [simp]:
  "inRanges r [] \<longleftrightarrow> False"
  "inRanges r (x # xs) \<longleftrightarrow> covers x r \<or> inRanges r xs"
  "inRanges r (xs @ ys) \<longleftrightarrow> inRanges r xs \<or> inRanges r ys"
  "inRanges r (rev xs) \<longleftrightarrow> inRanges r xs"
  by (auto simp: inRanges_covers)

lemma end_undefined_num [simp]: "end_undefined e \<Longrightarrow> end_num e = 0"
  by (cases e) auto

lemma mergeRanges_loop_covers:
  assumes "sorted (map fst xs)" and "\<forall>x \<in> set xs. acc \<noteq> [] \<longrightarrow> fst (hd acc) \<le> fst x"
  shows "inRanges r (mergeRanges_loop acc xs) \<longleftrightarrow> inRanges r acc \<or> inRanges r xs"
  using assms
proof (induction acc xs rule: mergeRanges_loop.induct)
  case (3 ls le merged rs re rest)
  then have le: "ls \<le> rs" "\<forall>x \<in> set rest. rs \<le> fst x" by auto
  consider "end_undefined le" | "\<not> end_undefined le" "rs \<le> end_num le" "end_undefined re"
    | "\<not> end_undefined le" "rs \<le> end_num le" "\<not> end_undefined re"
    | "\<not> end_undefined le" "\<not> rs \<le> end_num le" by blast
  then show ?case
  proof cases
    case 1
    then show ?thesis using 3(1) 3(5,6) le by (auto simp: covers_def inRanges_covers)
  next
    case 2
    then show ?thesis using 3(2) 3(5,6) le by (auto simp: covers_def)
  next
    case a: 3
    then show ?thesis using 3(3) 3(5,6) le by (auto simp: covers_def)
  next
    case 4
    then show ?thesis using 3(4) 3(5,6) le by auto
  qed
qed auto

definition separated :: "revision_range \<Rightarrow> revision_range \<Rightarrow> bool" where
  \<comment> \<open>the first range ends, and strictly before the second starts\<close>
  "separated x y \<longleftrightarrow> \<not> end_undefined (snd x) \<and> end_num (snd x) < fst y"

lemma mergeRanges_loop_separated:
  assumes "sorted (map fst xs)" and "\<forall>x \<in> set xs. acc \<noteq> [] \<longrightarrow> fst (hd acc) \<le> fst x"
    and "sorted_wrt separated (rev acc)"
  shows "sorted_wrt separated (mergeRanges_loop acc xs)"
  using assms
proof (induction acc xs rule: mergeRanges_loop.induct)
  case (3 ls le merged rs re rest)
  then have le: "ls \<le> rs" "\<forall>x \<in> set rest. rs \<le> fst x" by auto
  have sep: "separated x (ls, e)" if "x \<in> set merged" for x e
    using 3(7) that by (auto simp: sorted_wrt_append separated_def)
  have sep2: "separated x (rs, e)" if "x \<in> set merged" for x e
    using sep [OF that, of e] le by (auto simp: separated_def)
  show ?case
    using 3 le sep sep2 by (auto simp: sorted_wrt_append separated_def)
qed auto

lemma rangeFloorOf_le: "rangeFloorOf r rs \<le> r"
  by (induction r rs rule: rangeFloorOf.induct) auto

lemma rangeFloorOf_covers: "inRanges r rs \<Longrightarrow> \<exists>x \<in> set rs. covers x r \<and> rangeFloorOf r rs = fst x"
  by (induction r rs rule: rangeFloorOf.induct) (auto simp: covers_def)

lemma covers_json: "covers (json_range x) r \<longleftrightarrow> covers x r \<and> snd x \<noteq> RUndef"
  by (cases x rule: json_range.cases) (auto simp: covers_def)

section \<open>Properties of the ranges\<close>

text \<open>\<open>mergeRanges\<close> neither loses nor invents coverage: a revision is in the merged ranges
  exactly when it was in one of the given ones; and the merged ranges are in order with a gap
  after each, only the last one being open-ended.\<close>

theorem mergeRanges_exact:
  "inRanges r (mergeRanges rs) = inRanges r rs
   \<and> sorted_wrt (\<lambda>x y. \<not> end_undefined (snd x) \<and> end_num (snd x) < fst y) (mergeRanges rs)"
proof (cases "length rs \<le> 1")
  case True
  then show ?thesis by (cases rs) (auto simp: mergeRanges_def)
next
  case False
  have "inRanges r (mergeRanges_loop [] (sort_key fst rs)) = inRanges r (sort_key fst rs)"
    using mergeRanges_loop_covers [of "sort_key fst rs" "[]" r] by simp
  moreover have "sorted_wrt separated (mergeRanges_loop [] (sort_key fst rs))"
    by (rule mergeRanges_loop_separated) auto
  ultimately show ?thesis
    using False unfolding separated_def [abs_def] by (simp add: mergeRanges_def inRanges_covers)
qed

text \<open>What the codec's comment claims of open-ended ranges fails for the form \<open>mergeRanges\<close>
  itself produces: when a restored closed range meets the open-ended one, the merged range covers
  everything from its start in memory, and nothing at all once saved and read back.\<close>

theorem merged_open_range_lost_by_codec:
  "a < e \<and> s \<le> e \<and> a \<le> s \<longrightarrow>
   (\<exists>m. m = decode_encode_meta \<lparr>ranges = mergeRanges [(a, REnd e), (s, RNone)], latest = l\<rparr>
      \<and> (\<forall>r \<ge> a. inRanges r (mergeRanges [(a, REnd e), (s, RNone)]))
      \<and> (\<forall>r. \<not> inRanges r (ranges m)))"
proof -
  have "mergeRanges [(a, REnd e), (s, RNone)] = [(a, RUndef)]" if "a < e" "s \<le> e" "a \<le> s"
    using that by (simp add: mergeRanges_def)
  then show ?thesis
    by (auto simp: decode_encode_meta_def covers_def)
qed

theorem merged_open_range_lost_by_codec_witness:
  "\<exists>m. m = decode_encode_meta \<lparr>ranges = mergeRanges [(3, REnd 5), (5, RNone)], latest = None\<rparr>
      \<and> (\<forall>r \<ge> 3. inRanges r (mergeRanges [(3, REnd 5), (5, RNone)]))
      \<and> (\<forall>r. \<not> inRanges r (ranges m))"
  using merged_open_range_lost_by_codec [of 3 5 5 None] by simp

section \<open>The memory driver represents one block state per block\<close>

lemma starts_with_iff: "starts_with p k \<longleftrightarrow> (\<exists>r. k = p @ r)"
  by (induction p k rule: starts_with.induct) auto

lemma colon_free_key_eq:
  "CHR '':'' \<notin> set b \<Longrightarrow> CHR '':'' \<notin> set b' \<Longrightarrow> b @ '':'' @ x = b' @ '':'' @ y \<longleftrightarrow> b = b' \<and> x = y"
proof (induction b arbitrary: b')
  case Nil
  then show ?case by (cases b') auto
next
  case (Cons c b)
  then show ?case by (cases b') auto
qed

lemma actionKey_inject [simp]: "actionKey b a = actionKey b a' \<longleftrightarrow> a = a'"
  by (simp add: actionKey_def)

lemma char_of_digit: "m < 10 \<Longrightarrow> n < 10 \<Longrightarrow> (char_of (48 + m) :: char) = char_of (48 + n) \<longleftrightarrow> m = (n :: nat)"
  by (auto simp: char_of_eq_iff take_bit_eq_mod dest: arg_cong [of _ _ of_char])

declare nat_str.simps [simp del]

lemma nat_str_inject: "nat_str m = nat_str n \<Longrightarrow> m = n"
proof (induction m arbitrary: n rule: nat_str.induct)
  case (1 m)
  have ne: "nat_str k \<noteq> []" for k by (subst nat_str.simps) simp
  show ?case
  proof (cases "m < 10")
    case True
    then show ?thesis using "1.prems" ne [of "n div 10"]
      by (subst (asm) (1 2) nat_str.simps) (auto simp: char_of_digit split: if_splits)
  next
    case False
    then have "\<not> n < 10" using "1.prems" ne [of "m div 10"]
      by (subst (asm) (1 2) nat_str.simps) (auto split: if_splits)
    with False "1.prems" have "nat_str (m div 10) = nat_str (n div 10)" "m mod 10 = n mod 10"
      by (subst (asm) (1 2) nat_str.simps; simp add: char_of_digit)+
    with "1.IH" [OF False] show ?thesis by (metis div_mod_decomp)
  qed
qed

lemma revisionKey_inject [simp]: "revisionKey b r = revisionKey b r' \<longleftrightarrow> r = r'"
  by (auto simp: revisionKey_def dest: nat_str_inject)

lemma other_keys:
  assumes "CHR '':'' \<notin> set b" and "CHR '':'' \<notin> set b'" and "b \<noteq> b'"
  shows "actionKey b a \<noteq> actionKey b' a'" and "revisionKey b r \<noteq> revisionKey b' r'"
  using colon_free_key_eq [OF assms(1,2)] assms(3) by (simp_all add: actionKey_def revisionKey_def)

definition pend_of :: "block_id \<Rightarrow> (string \<times> 'v) list \<Rightarrow> (action_id \<times> 'v) list" where
  \<comment> \<open>the pending entries a driver lists for a block, with their values\<close>
  "pend_of b xs = map (\<lambda>(k, t). (drop (length b + 1) k, t)) (filter (\<lambda>(k, t). starts_with (b @ '':'') k) xs)"

lemma pend_of_simps [simp]:
  "pend_of b [] = []"
  "pend_of b ((actionKey b a, t) # xs) = (a, t) # pend_of b xs"
  by (simp_all add: pend_of_def starts_with_iff actionKey_def)

lemma pend_of_other: "\<nexists>a. k = actionKey b a \<Longrightarrow> pend_of b ((k, t) # xs) = pend_of b xs"
  by (auto simp: pend_of_def starts_with_iff actionKey_def)

lemma pend_of_keys: "map fst (pend_of b (md_pending m)) = listPendingActionIds m b"
  by (simp add: pend_of_def listPendingActionIds_def filter_map comp_def split_def)

lemma map_of_pend_of: "map_of (pend_of b xs) a = map_of xs (actionKey b a)"
proof (induction xs)
  case (Cons x xs)
  obtain k t where x: "x = (k, t)" by (cases x)
  show ?case
    using Cons x by (cases "\<exists>a'. k = actionKey b a'") (auto simp: pend_of_other)
qed simp

lemma pend_of_update [simp]:
  "pend_of b (AList.update (actionKey b a) t xs) = AList.update a t (pend_of b xs)"
proof (induction xs)
  case (Cons x xs)
  obtain k t where x: "x = (k, t)" by (cases x)
  show ?case
    using Cons x by (cases "\<exists>a'. k = actionKey b a'") (auto simp: pend_of_other)
qed simp

lemma pend_of_update_other:
  "\<forall>a'. k \<noteq> actionKey b a' \<Longrightarrow> pend_of b (AList.update k t xs) = pend_of b xs"
proof (induction xs)
  case (Cons x xs)
  obtain k' t' where x: "x = (k', t')" by (cases x)
  show ?case
    using Cons x by (cases "\<exists>a'. k' = actionKey b a'") (auto simp: pend_of_other)
qed (simp add: pend_of_other)

lemma pend_of_delete [simp]:
  "pend_of b (AList.delete (actionKey b a) xs) = AList.delete a (pend_of b xs)"
proof (induction xs)
  case (Cons x xs)
  obtain k t where x: "x = (k, t)" by (cases x)
  show ?case
    using Cons x by (cases "\<exists>a'. k = actionKey b a'") (auto simp: pend_of_other)
qed simp

lemma pend_of_delete_other:
  "\<forall>a'. k \<noteq> actionKey b a' \<Longrightarrow> pend_of b (AList.delete k xs) = pend_of b xs"
proof (induction xs)
  case (Cons x xs)
  obtain k' t' where x: "x = (k', t')" by (cases x)
  show ?case
    using Cons x by (cases "\<exists>a'. k' = actionKey b a'") (auto simp: pend_of_other)
qed simp

definition mem_repr :: "'v mem_driver \<Rightarrow> block_id \<Rightarrow> 'v block_state \<Rightarrow> bool" where
  "mem_repr m b s \<longleftrightarrow>
     getMetadata m b = bs_meta s
     \<and> getRevision m b = map_of (bs_revisions s)
     \<and> pend_of b (md_pending m) = bs_pending s
     \<and> getTransaction m b = bs_transactions s
     \<and> getMaterializedBlock m b = bs_materialized s"

section \<open>The raw storage interface\<close>

datatype 'v raw_call =
    RSaveMetadata block_metadata
  | RSaveRevision nat action_id
  | RSavePending action_id "'v transform"
  | RDeletePending action_id
  | RSaveTransaction action_id "'v transform"
  | RSaveMaterialized action_id "'v block option"
  | RPromote action_id

fun mem_call :: "block_id \<Rightarrow> 'v raw_call \<Rightarrow> 'v mem_driver \<Rightarrow> error + 'v mem_driver" where
  "mem_call b (RSaveMetadata meta) m = Inr (saveMetadata b meta m)"
| "mem_call b (RSaveRevision r a) m = Inr (saveRevision b r a m)"
| "mem_call b (RSavePending a t) m = Inr (savePendingTransaction b a t m)"
| "mem_call b (RDeletePending a) m = Inr (deletePendingTransaction b a m)"
| "mem_call b (RSaveTransaction a t) m = Inr (saveTransaction b a t m)"
| "mem_call b (RSaveMaterialized a ob) m = Inr (saveMaterializedBlock b a ob m)"
| "mem_call b (RPromote a) m = promote m b a"

fun bs_call :: "'v raw_call \<Rightarrow> 'v block_state \<Rightarrow> error + 'v block_state" where
  "bs_call (RSaveMetadata meta) s = Inr (bs_saveMetadata meta s)"
| "bs_call (RSaveRevision r a) s = Inr (bs_saveRevision r a s)"
| "bs_call (RSavePending a t) s = Inr (bs_savePending a t s)"
| "bs_call (RDeletePending a) s = Inr (bs_deletePending a s)"
| "bs_call (RSaveTransaction a t) s = Inr (bs_saveTransaction a t s)"
| "bs_call (RSaveMaterialized a ob) s = Inr (bs_saveMaterialized a ob s)"
| "bs_call (RPromote a) s = bs_promote a s"

fun bs_calls :: "(block_id \<times> 'v raw_call) list \<Rightarrow> (block_id \<Rightarrow> 'v block_state) \<Rightarrow> error + (block_id \<Rightarrow> 'v block_state)" where
  "bs_calls [] f = Inr f"
| "bs_calls ((b, c) # cs) f = ebind (bs_call c (f b)) (\<lambda>s. bs_calls cs (f(b := s)))"

text \<open>
  The contract of \<open>IRawStorage\<close>: on block ids a backend accepts, each call has the effect of the
  corresponding call on that block's own state, throws exactly when that one throws, and leaves
  every other block alone.
\<close>

locale raw_storage =
  fixes ok :: "block_id \<Rightarrow> bool"
    and repr :: "'m \<Rightarrow> block_id \<Rightarrow> 'v block_state \<Rightarrow> bool"
    and call :: "block_id \<Rightarrow> 'v raw_call \<Rightarrow> 'm \<Rightarrow> error + 'm"
  assumes call_same: "ok b \<Longrightarrow> repr m b s \<Longrightarrow>
      (case bs_call c s of Inl e \<Rightarrow> call b c m = Inl e | Inr s' \<Rightarrow> \<exists>m'. call b c m = Inr m' \<and> repr m' b s')"
    and call_other: "ok b \<Longrightarrow> ok b' \<Longrightarrow> b \<noteq> b' \<Longrightarrow> repr m b' s \<Longrightarrow> call b c m = Inr m' \<Longrightarrow> repr m' b' s"
begin

lemma calls_refine:
  assumes "\<forall>(b, c) \<in> set cs. ok b" and "\<forall>b. ok b \<longrightarrow> repr m b (f b)"
  shows "case bs_calls cs f of
      Inl e \<Rightarrow> efold (\<lambda>(b, c). call b c) cs m = Inl e
    | Inr f' \<Rightarrow> \<exists>m'. efold (\<lambda>(b, c). call b c) cs m = Inr m' \<and> (\<forall>b. ok b \<longrightarrow> repr m' b (f' b))"
  using assms
proof (induction cs arbitrary: m f)
  case (Cons x cs)
  obtain b c where x: "x = (b, c)" by (cases x)
  with Cons.prems have okb: "ok b" by auto
  show ?case
  proof (cases "bs_call c (f b)")
    case (Inl e)
    then show ?thesis using call_same [OF okb, of m "f b" c] Cons.prems x okb by auto
  next
    case (Inr s')
    then obtain m' where m': "call b c m = Inr m'" "repr m' b s'"
      using call_same [OF okb, of m "f b" c] Cons.prems okb by auto
    have "\<forall>b'. ok b' \<longrightarrow> repr m' b' ((f(b := s')) b')"
      using call_other [OF okb] m' Cons.prems(2) by auto
    then show ?thesis
      using Cons.IH [of m' "f(b := s')"] Cons.prems(1) x m' Inr by (auto split: sum.splits simp del: fun_upd_apply)
  qed
qed simp

end

lemmas mem_defs = mem_repr_def getMetadata_def saveMetadata_def getRevision_def saveRevision_def
  getPendingTransaction_def savePendingTransaction_def deletePendingTransaction_def getTransaction_def
  saveTransaction_def getMaterializedBlock_def saveMaterializedBlock_def promote_def

lemmas bs_defs = bs_saveMetadata_def bs_saveRevision_def bs_savePending_def bs_deletePending_def
  bs_saveTransaction_def bs_saveMaterialized_def bs_promote_def

lemma mem_call_same:
  assumes "mem_repr m b s"
  shows "case bs_call c s of Inl e \<Rightarrow> mem_call b c m = Inl e
    | Inr s' \<Rightarrow> \<exists>m'. mem_call b c m = Inr m' \<and> mem_repr m' b s'"
proof (cases c)
  case (RPromote a)
  have "map_of (bs_pending s) a = map_of (md_pending m) (actionKey b a)"
    using assms map_of_pend_of by (metis mem_repr_def)
  then show ?thesis
    using assms RPromote
    by (cases "map_of (md_pending m) (actionKey b a)") (simp_all add: mem_defs bs_defs fun_eq_iff Let_def)
qed (use assms in \<open>auto simp: mem_defs bs_defs fun_eq_iff split: option.splits\<close>)

lemma mem_call_other:
  assumes "CHR '':'' \<notin> set b" "CHR '':'' \<notin> set b'" "b \<noteq> b'" "mem_repr m b' s" "mem_call b c m = Inr m'"
  shows "mem_repr m' b' s"
  using assms(4,5) other_keys [OF assms(1-3)] other_keys [OF assms(2,1) assms(3) [symmetric]] assms(3)
  by (cases c) (auto simp: mem_defs pend_of_update_other pend_of_delete_other Let_def fun_eq_iff split: option.splits)

interpretation mem: raw_storage "\<lambda>b. CHR '':'' \<notin> set b" mem_repr mem_call
  by unfold_locales (simp_all add: mem_call_same mem_call_other)

section \<open>Properties of the memory driver\<close>

lemma bs_listRevisions_repr:
  assumes "mem_repr m b s"
  shows "listRevisions m b i j = bs_listRevisions s i j"
proof -
  have "getRevision m b = map_of (bs_revisions s)" using assms by (simp add: mem_repr_def)
  then have "map_of (md_revisions m) (revisionKey b r) = map_of (bs_revisions s) r" for r
    by (metis getRevision_def)
  then show ?thesis
    by (simp add: listRevisions_def rangeRevisions_def bs_listRevisions_def Let_def rev_map
        map_filter_def comp_def filter_map option.map_comp)
       (simp add: option.map_sel)
qed

lemma mem_repr_empty: "mem_repr \<lparr>md_metadata = [], md_revisions = [], md_pending = [],
    md_transactions = [], md_materialized = []\<rparr> b empty_block_state"
  by (simp add: mem_defs empty_block_state_def fun_eq_iff)

text \<open>C34. The memory driver under the key/value kernel is a faithful raw store for block ids
  without a colon: after any sequence of calls from an empty store, it has thrown exactly when the
  per-block stores have, and otherwise every block's metadata, revisions, pending actions (in
  order), committed actions and materializations read back as that block's own state holds them.\<close>

theorem mem_driver_refines_block_states:
  assumes "\<forall>(b, c) \<in> set cs. CHR '':'' \<notin> set b"
    and "m0 = \<lparr>md_metadata = [], md_revisions = [], md_pending = [], md_transactions = [], md_materialized = []\<rparr>"
  shows "case bs_calls cs (\<lambda>_. empty_block_state) of
      Inl e \<Rightarrow> efold (\<lambda>(b, c). mem_call b c) cs m0 = Inl e
    | Inr f \<Rightarrow> \<exists>m. efold (\<lambda>(b, c). mem_call b c) cs m0 = Inr m \<and>
        (\<forall>b. CHR '':'' \<notin> set b \<longrightarrow>
           getMetadata m b = bs_meta (f b)
           \<and> (\<forall>i j. listRevisions m b i j = bs_listRevisions (f b) i j)
           \<and> listPendingActionIds m b = map fst (bs_pending (f b))
           \<and> (\<forall>a. getPendingTransaction m b a = map_of (bs_pending (f b)) a
                \<and> getTransaction m b a = bs_transactions (f b) a
                \<and> getMaterializedBlock m b a = bs_materialized (f b) a))"
proof -
  have repr: "getMetadata m b = bs_meta s \<and> (\<forall>i j. listRevisions m b i j = bs_listRevisions s i j)
      \<and> listPendingActionIds m b = map fst (bs_pending s)
      \<and> (\<forall>a. getPendingTransaction m b a = map_of (bs_pending s) a
           \<and> getTransaction m b a = bs_transactions s a
           \<and> getMaterializedBlock m b a = bs_materialized s a)" if "mem_repr m b s" for m b and s :: "'a block_state"
    using bs_listRevisions_repr [OF that] that map_of_pend_of [of b "md_pending m"] pend_of_keys [of b m]
    by (simp add: mem_repr_def getPendingTransaction_def)
  have "\<forall>b. CHR '':'' \<notin> set b \<longrightarrow> mem_repr m0 b empty_block_state"
    by (simp add: assms(2) mem_repr_empty)
  note ref = mem.calls_refine [OF assms(1) this]
  show ?thesis
  proof (cases "bs_calls cs (\<lambda>_. empty_block_state :: 'a block_state)")
    case (Inl e)
    with ref show ?thesis by simp
  next
    case (Inr f)
    with ref obtain m where m: "efold (\<lambda>(b, c). mem_call b c) cs m0 = Inr m"
      "\<forall>b. CHR '':'' \<notin> set b \<longrightarrow> mem_repr m b (f b)" by auto
    show ?thesis
      unfolding Inr sum.case using m(1) repr m(2) by (intro exI [of _ m] conjI allI impI) (simp_all del: fun_upd_apply)
  qed
qed

theorem mem_driver_refines_block_states_witness:
  "\<exists>m f. bs_calls [(''a'', RSavePending ''t'' \<lparr>t_insert = None, t_updates = None, t_delete = True\<rparr>),
                   (''b'', RSaveRevision 1 ''u''), (''a'', RPromote ''t'')]
            (\<lambda>_. empty_block_state :: nat block_state) = Inr f
     \<and> efold (\<lambda>(b, c). mem_call b c) [(''a'', RSavePending ''t'' \<lparr>t_insert = None, t_updates = None, t_delete = True\<rparr>),
                   (''b'', RSaveRevision 1 ''u''), (''a'', RPromote ''t'')]
         \<lparr>md_metadata = [], md_revisions = [], md_pending = [], md_transactions = [], md_materialized = []\<rparr> = Inr m
     \<and> getTransaction m ''a'' ''t'' = bs_transactions (f ''a'') ''t''
     \<and> bs_transactions (f ''a'') ''t'' \<noteq> None
     \<and> listPendingActionIds m ''a'' = []"
proof -
  define cs :: "(block_id \<times> nat raw_call) list" where
    "cs = [(''a'', RSavePending ''t'' \<lparr>t_insert = None, t_updates = None, t_delete = True\<rparr>),
                   (''b'', RSaveRevision 1 ''u''), (''a'', RPromote ''t'')]"
  obtain f where f: "bs_calls cs (\<lambda>_. empty_block_state) = Inr f" "bs_transactions (f ''a'') ''t'' \<noteq> None"
      "bs_pending (f ''a'') = []"
    by (simp add: cs_def bs_defs empty_block_state_def)
  have "\<forall>(b, c) \<in> set cs. CHR '':'' \<notin> set b" by (simp add: cs_def)
  from mem_driver_refines_block_states [OF this refl] f show ?thesis
    unfolding cs_def by auto
qed

text \<open>Without that restriction blocks interfere: a pending action of block \<open>a:b\<close> is listed as
  a pending action of block \<open>a\<close>, which never had one.\<close>

theorem mem_driver_colon_collision:
  "\<exists>m :: nat mem_driver.
     m = savePendingTransaction ''a:b'' ''t'' \<lparr>t_insert = None, t_updates = None, t_delete = True\<rparr>
           \<lparr>md_metadata = [], md_revisions = [], md_pending = [], md_transactions = [], md_materialized = []\<rparr>
     \<and> listPendingActionIds m ''a'' = [''b:t'']"
  by (simp add: savePendingTransaction_def listPendingActionIds_def actionKey_def)

end
