(* ===== verification/Block_Storage.thy ===== *)
theory Block_Storage
  imports Raw_Storage
begin

text \<open>
  The versioned storage of one block: \<open>packages/db-p2p/src/storage/block-storage.ts\<close>. Every
  method is a function of the block's part of the raw store (\<open>block_state\<close>); a method that may
  throw returns \<open>(error + result) \<times> state\<close>, because what was written before the throw stays.
  The methods run under the block's latches, so each is one step.

  \<open>restoreCallback\<close> and the hash of a replica without revision are parameters of the storage. The
  forward probe of \<open>recover\<close> is bounded by the number of recorded revisions, which is enough: it
  visits a different recorded revision in each round but the last.
\<close>

section \<open>Configuration and archives\<close>

record 'v archive_revision =
  av_rev :: nat
  av_actionId :: action_id
  av_transform :: "'v transform"
  av_block :: "'v block option"

record 'v block_archive =
  arch_revisions :: "'v archive_revision list"
  arch_range :: revision_range

record 'v block_storage =
  st_restore :: "(nat \<Rightarrow> error + 'v block_archive option) option"
  st_interval :: nat
  st_hash :: "'v block \<Rightarrow> action_id"

abbreviation no_meta :: block_metadata where
  "no_meta \<equiv> \<lparr>ranges = [], latest = None\<rparr>"

section \<open>Reading\<close>

definition getLatest :: "'v block_state \<Rightarrow> action_rev option" where
  "getLatest s = Option.bind (bs_meta s) latest"

definition isRetainedRev :: "'v block_storage \<Rightarrow> nat \<Rightarrow> nat \<Rightarrow> nat \<Rightarrow> bool" where
  "isRetainedRev C r latestRev rangeFloor \<longleftrightarrow> r = latestRev \<or> r = rangeFloor \<or> r mod st_interval C = 0"

definition restoreBlock :: "'v block_storage \<Rightarrow> nat \<Rightarrow> error + 'v block_archive option" where
  "restoreBlock C r = (case st_restore C of None \<Rightarrow> Inr None | Some f \<Rightarrow> f r)"

definition saveRestoredRevision :: "'v archive_revision \<Rightarrow> 'v block_state \<Rightarrow> 'v block_state" where
  "saveRestoredRevision v s =
     (let s1 = bs_saveTransaction (av_actionId v) (av_transform v)
                 (bs_saveRevision (av_rev v) (av_actionId v) s)
      in case av_block v of Some b \<Rightarrow> bs_saveMaterialized (av_actionId v) (Some b) s1 | None \<Rightarrow> s1)"

definition saveRestored :: "'v block_archive \<Rightarrow> 'v block_state \<Rightarrow> 'v block_state" where
  "saveRestored ar s = fold saveRestoredRevision (arch_revisions ar) s"

definition ensureRevision :: "'v block_storage \<Rightarrow> block_metadata \<Rightarrow> nat \<Rightarrow> 'v block_state
    \<Rightarrow> (error + unit) \<times> 'v block_state" where
  "ensureRevision C meta r s =
     (if inRanges r (ranges meta) then (Inr (), s)
      else case bs_meta s of
             None \<Rightarrow> (Inl (Err ''metadata disappeared unexpectedly''), s)
           | Some currentMeta \<Rightarrow>
               if inRanges r (ranges currentMeta) then (Inr (), s)
               else (case restoreBlock C r of
                       Inl e \<Rightarrow> (Inl e, s)
                     | Inr None \<Rightarrow> (Inl (Err ''not found during restore attempt''), s)
                     | Inr (Some restored) \<Rightarrow>
                         (Inr (), bs_saveMetadata
                            (currentMeta\<lparr>ranges := mergeRanges (arch_range restored # ranges currentMeta)\<rparr>)
                            (saveRestored restored s))))"

fun findMaterialized :: "'v block_state \<Rightarrow> action_rev list \<Rightarrow> action_rev list
    \<Rightarrow> ('v block \<times> action_rev) option \<times> action_rev list" where
  \<comment> \<open>the descending walk: the first materialized revision, and the ones passed over (oldest first)\<close>
  "findMaterialized s [] actions = (None, actions)"
| "findMaterialized s (ar # rest) actions =
     (case bs_materialized s (ar_actionId ar) of
        Some b \<Rightarrow> (Some (b, ar), actions)
      | None \<Rightarrow> findMaterialized s rest (ar # actions))"

fun replay :: "'v block_state \<Rightarrow> action_rev list \<Rightarrow> 'v block option \<Rightarrow> error + 'v block option" where
  \<comment> \<open>the loop that applies the passed-over transforms, oldest first\<close>
  "replay s [] b = Inr b"
| "replay s (ar # rest) b =
     (case bs_transactions s (ar_actionId ar) of
        None \<Rightarrow> Inl (Err ''Missing action'')
      | Some t \<Rightarrow> ebind (applyTransform b t) (replay s rest))"

definition materializeBlock :: "'v block_storage \<Rightarrow> block_metadata \<Rightarrow> nat \<Rightarrow> 'v block_state
    \<Rightarrow> (error + ('v block \<times> action_rev) option) \<times> 'v block_state" where
  "materializeBlock C meta targetRev s =
     (case findMaterialized s (bs_listRevisions s targetRev 1) [] of
        (None, _) \<Rightarrow> (Inl (Err ''Failed to find materialized block''), s)
      | (Some (b, materializedRev), actions) \<Rightarrow>
          (case replay s actions (Some b) of
             Inl e \<Rightarrow> (Inl e, s)
           | Inr None \<Rightarrow> (Inr None, s)
           | Inr (Some blk) \<Rightarrow>
               if actions \<noteq> [] then
                 (let newest = last actions;
                      retentionMeta = (case bs_meta s of Some m \<Rightarrow> m | None \<Rightarrow> meta);
                      cacheRev = ar_rev newest;
                      latestRev = (case latest retentionMeta of Some l \<Rightarrow> ar_rev l | None \<Rightarrow> cacheRev);
                      floor = rangeFloorOf cacheRev (ranges retentionMeta)
                  in (Inr (Some (blk, newest)),
                      if isRetainedRev C cacheRev latestRev floor
                      then bs_saveMaterialized (ar_actionId newest) (Some blk) s else s))
               else (Inr (Some (blk, materializedRev)), s)))"

definition getBlock :: "'v block_storage \<Rightarrow> nat option \<Rightarrow> 'v block_state
    \<Rightarrow> (error + ('v block \<times> action_rev) option) \<times> 'v block_state" where
  "getBlock C orev s =
     (case bs_meta s of
        None \<Rightarrow> (Inr None, s)
      | Some meta \<Rightarrow>
          (case latest meta of
             None \<Rightarrow>
               (case orev of
                  None \<Rightarrow> (Inr None, s)
                | Some r \<Rightarrow>
                    (case ensureRevision C meta r s of
                       (Inl e, s') \<Rightarrow> (Inr None, s')
                     | (Inr _, s') \<Rightarrow> materializeBlock C meta r s'))
           | Some l \<Rightarrow>
               (let targetRev = (case orev of Some r \<Rightarrow> r | None \<Rightarrow> ar_rev l)
                in case ensureRevision C meta targetRev s of
                     (Inl e, s') \<Rightarrow> (Inl e, s')
                   | (Inr _, s') \<Rightarrow> materializeBlock C meta targetRev s')))"

section \<open>Writing\<close>

definition st_savePendingTransaction :: "action_id \<Rightarrow> 'v transform \<Rightarrow> 'v block_state \<Rightarrow> 'v block_state" where
  "st_savePendingTransaction a t s =
     bs_savePending a t (if bs_meta s = None then bs_saveMetadata no_meta s else s)"

definition pruneSupersededMaterialization :: "'v block_storage \<Rightarrow> action_rev \<Rightarrow> 'v block_state \<Rightarrow> 'v block_state" where
  "pruneSupersededMaterialization C prior s =
     (case bs_meta s of
        None \<Rightarrow> s
      | Some meta \<Rightarrow>
          (case latest meta of
             None \<Rightarrow> s
           | Some l \<Rightarrow>
               if isRetainedRev C (ar_rev prior) (ar_rev l) (rangeFloorOf (ar_rev l) (ranges meta)) then s
               else bs_saveMaterialized (ar_actionId prior) None s))"

definition setLatest :: "action_rev \<Rightarrow> 'v block_state \<Rightarrow> (error + unit) \<times> 'v block_state" where
  "setLatest l s =
     (case bs_meta s of
        None \<Rightarrow> (Inl (Err ''Block not found''), s)
      | Some meta \<Rightarrow>
          (let start = (case latest meta of Some p \<Rightarrow> ar_rev p | None \<Rightarrow> ar_rev l)
           in (Inr (), bs_saveMetadata \<lparr>ranges = mergeRanges ((start, RNone) # ranges meta), latest = Some l\<rparr> s)))"

fun recover_probe :: "nat \<Rightarrow> 'v block_state \<Rightarrow> nat \<Rightarrow> nat \<times> action_id option \<Rightarrow> nat \<times> action_id option" where
  \<comment> \<open>the loop over \<open>next\<close>: the state is \<open>(maxRev, maxActionId)\<close>\<close>
  "recover_probe 0 s nxt mx = mx"
| "recover_probe (Suc fuel) s nxt mx =
     (case map_of (bs_revisions s) nxt of
        None \<Rightarrow> mx
      | Some a \<Rightarrow>
          (case bs_transactions s a of
             None \<Rightarrow> mx
           | Some _ \<Rightarrow> recover_probe fuel s (Suc nxt) (nxt, Some a)))"

definition recover :: "'v block_state \<Rightarrow> (bool \<times> action_rev option) \<times> 'v block_state" where
  "recover s =
     (case bs_meta s of
        None \<Rightarrow> ((False, None), s)
      | Some meta \<Rightarrow>
          (let currentRev = (case latest meta of Some l \<Rightarrow> ar_rev l | None \<Rightarrow> 0);
               (maxRev, maxActionId) = recover_probe (Suc (length (bs_revisions s))) s (Suc currentRev)
                                         (currentRev, map_option ar_actionId (latest meta))
           in case maxActionId of
                Some a \<Rightarrow>
                  if maxRev > currentRev then
                    (let advanced = \<lparr>ar_actionId = a, ar_rev = maxRev\<rparr>
                     in ((True, Some advanced),
                         bs_saveMetadata \<lparr>ranges = mergeRanges ((Suc currentRev, RNone) # ranges meta),
                                          latest = Some advanced\<rparr> s))
                  else ((False, latest meta), s)
              | None \<Rightarrow> ((False, latest meta), s)))"

definition saveForward_write :: "'v archive_revision \<Rightarrow> 'v block_state \<Rightarrow> action_rev \<times> 'v block_state" where
  \<comment> \<open>the part of \<open>saveForwardRevision\<close> after the monotonic guard\<close>
  "saveForward_write v s =
     (let s1 = saveRestored \<lparr>arch_revisions = [v], arch_range = (av_rev v, REnd (Suc (av_rev v)))\<rparr> s;
          s2 = bs_deletePending (av_actionId v) s1;
          meta = (case bs_meta s of Some m \<Rightarrow> m | None \<Rightarrow> no_meta);
          start = (case latest meta of Some l \<Rightarrow> ar_rev l | None \<Rightarrow> av_rev v);
          new = \<lparr>ar_actionId = av_actionId v, ar_rev = av_rev v\<rparr>
      in (new, bs_saveMetadata \<lparr>ranges = mergeRanges ((start, RNone) # ranges meta), latest = Some new\<rparr> s2))"

definition saveForwardRevision :: "'v archive_revision \<Rightarrow> 'v block_state \<Rightarrow> action_rev \<times> 'v block_state" where
  "saveForwardRevision v s =
     (case getLatest s of
        Some l \<Rightarrow> if ar_rev l \<ge> av_rev v then (l, s) else saveForward_write v s
      | None \<Rightarrow> saveForward_write v s)"

definition saveReplica :: "'v block_storage \<Rightarrow> 'v block \<Rightarrow> action_rev option \<Rightarrow> 'v block_state
    \<Rightarrow> action_rev \<times> 'v block_state" where
  "saveReplica C b source s =
     saveForwardRevision
       \<lparr>av_rev = (case source of Some l \<Rightarrow> ar_rev l | None \<Rightarrow> 1),
        av_actionId = (case source of Some l \<Rightarrow> ar_actionId l | None \<Rightarrow> st_hash C b),
        av_transform = \<lparr>t_insert = Some b, t_updates = None, t_delete = False\<rparr>,
        av_block = Some b\<rparr> s"

definition saveDeletion :: "action_rev \<Rightarrow> 'v block_state \<Rightarrow> action_rev \<times> 'v block_state" where
  "saveDeletion source s =
     saveForwardRevision
       \<lparr>av_rev = ar_rev source, av_actionId = ar_actionId source,
        av_transform = \<lparr>t_insert = None, t_updates = None, t_delete = True\<rparr>, av_block = None\<rparr> s"

section \<open>The history of a block\<close>

text \<open>
  \<open>picks s is\<close> are the revisions recorded at the given numbers; \<open>ref_read s lo r\<close> is the
  content of revision \<open>r\<close> by definition: the materialization at the floor with every later
  committed transform up to \<open>r\<close> applied. \<open>hist_ok\<close> says that what is stored agrees with it.
\<close>

definition picks :: "'v block_state \<Rightarrow> nat list \<Rightarrow> action_rev list" where
  "picks s is = List.map_filter (\<lambda>r. map_option (\<lambda>a. \<lparr>ar_actionId = a, ar_rev = r\<rparr>) (map_of (bs_revisions s) r)) is"

fun ref_list :: "'v block_state \<Rightarrow> action_rev list \<Rightarrow> error + 'v block option" where
  "ref_list s [] = Inl (Err ''no revision'')"
| "ref_list s (f # rest) =
     (case bs_materialized s (ar_actionId f) of
        None \<Rightarrow> Inl (Err ''floor not materialized'')
      | Some b \<Rightarrow> replay s rest (Some b))"

definition ref_read :: "'v block_state \<Rightarrow> nat \<Rightarrow> nat \<Rightarrow> error + 'v block option" where
  "ref_read s lo r = ref_list s (picks s [lo..<Suc r])"

definition hist_ok :: "'v block_state \<Rightarrow> nat \<Rightarrow> nat \<Rightarrow> bool" where
  "hist_ok s lo tip \<longleftrightarrow>
     1 \<le> lo \<and> lo \<le> tip
     \<and> (\<exists>a b. map_of (bs_revisions s) lo = Some a \<and> bs_materialized s a = Some b)
     \<and> (\<forall>r \<in> {lo..tip}. \<forall>r' \<in> {lo..tip}. \<forall>a. map_of (bs_revisions s) r = Some a
            \<and> map_of (bs_revisions s) r' = Some a \<longrightarrow> r = r')
     \<and> (\<forall>r \<in> {lo<..tip}. \<forall>a. map_of (bs_revisions s) r = Some a \<longrightarrow>
            bs_transactions s a \<noteq> None
            \<and> (\<exists>c. ref_read s lo r = Inr c \<and> (\<forall>b. bs_materialized s a = Some b \<longrightarrow> c = Some b)))"

declare upt_Suc [simp del]

lemma picks_simps [simp]:
  "picks s [] = []"
  "picks s (i # is) = (case map_of (bs_revisions s) i of
     Some a \<Rightarrow> \<lparr>ar_actionId = a, ar_rev = i\<rparr> # picks s is | None \<Rightarrow> picks s is)"
  "picks s (is @ js) = picks s is @ picks s js"
  by (auto simp: picks_def map_filter_simps map_filter_def split: option.splits)

lemma picks_cong:
  "\<forall>i \<in> set is. map_of (bs_revisions s') i = map_of (bs_revisions s) i \<Longrightarrow> picks s' is = picks s is"
  by (induction "is") (auto split: option.splits)

lemma set_picks: "ar \<in> set (picks s is) \<longleftrightarrow> ar_rev ar \<in> set is \<and> map_of (bs_revisions s) (ar_rev ar) = Some (ar_actionId ar)"
  by (induction "is") (auto split: option.splits)

lemma picks_upto_cons:
  "map_of (bs_revisions s) i = Some a \<Longrightarrow> i \<le> j \<Longrightarrow>
   picks s [i..<Suc j] = \<lparr>ar_actionId = a, ar_rev = i\<rparr> # picks s [Suc i..<Suc j]"
  by (simp add: upt_conv_Cons)

lemma picks_split: "i \<le> j \<Longrightarrow> j \<le> k \<Longrightarrow> picks s [i..<k] = picks s [i..<j] @ picks s [j..<k]"
  by (metis le_add_diff_inverse picks_simps(3) upt_add_eq_append)

lemma bs_listRevisions_desc:
  "1 \<le> t \<Longrightarrow> bs_listRevisions s t 1 = rev (picks s [1..<Suc t])"
  by (cases "t = 1") (auto simp: bs_listRevisions_def picks_def [symmetric] Let_def upt_Suc split: option.splits)

lemma replay_append: "replay s (xs @ ys) b = ebind (replay s xs b) (replay s ys)"
  by (induction xs arbitrary: b) (auto simp: ebind_def split: option.splits sum.splits)

lemma ref_list_append:
  "xs \<noteq> [] \<Longrightarrow> ref_list s (xs @ ys) = ebind (ref_list s xs) (replay s ys)"
  by (cases xs) (auto simp: replay_append split: option.splits)

lemma findMaterialized_rev:
  assumes "\<exists>x \<in> set xs. bs_materialized s (ar_actionId x) \<noteq> None"
  shows "\<exists>pre ar b suf. xs = pre @ ar # suf \<and> bs_materialized s (ar_actionId ar) = Some b
    \<and> findMaterialized s (rev xs @ ys) acc = (Some (b, ar), suf @ acc)"
  using assms
proof (induction xs arbitrary: acc rule: rev_induct)
  case (snoc x xs)
  show ?case
  proof (cases "bs_materialized s (ar_actionId x)")
    case None
    then have "\<exists>x \<in> set xs. bs_materialized s (ar_actionId x) \<noteq> None" using snoc.prems by auto
    from snoc.IH [OF this, of "x # acc"] obtain pre ar b suf where
      "xs = pre @ ar # suf" "bs_materialized s (ar_actionId ar) = Some b"
      "findMaterialized s (rev xs @ ys) (x # acc) = (Some (b, ar), suf @ x # acc)" by blast
    then show ?thesis using None
      by (intro exI [of _ pre] exI [of _ ar] exI [of _ b] exI [of _ "suf @ [x]"]) simp
  next
    case (Some b)
    then show ?thesis by (intro exI [of _ xs] exI [of _ x] exI [of _ b] exI [of _ "[]"]) simp
  qed
qed simp

lemma replay_cong:
  "\<forall>x \<in> set xs. bs_transactions s' (ar_actionId x) = bs_transactions s (ar_actionId x) \<Longrightarrow>
   replay s' xs b = replay s xs b"
proof (induction xs arbitrary: b)
  case (Cons x xs)
  then have "replay s' xs = replay s xs" by (intro ext) auto
  with Cons.prems show ?case by (simp split: option.splits)
qed simp

lemma ref_read_eq:
  "map_of (bs_revisions s) lo = Some a \<Longrightarrow> bs_materialized s a = Some b \<Longrightarrow> lo \<le> r \<Longrightarrow>
   ref_read s lo r = replay s (picks s [Suc lo..<Suc r]) (Some b)"
  by (simp add: ref_read_def picks_upto_cons)

lemma ref_read_cong:
  assumes "\<And>r'. lo \<le> r' \<Longrightarrow> r' \<le> r \<Longrightarrow> map_of (bs_revisions s') r' = map_of (bs_revisions s) r'"
    and "map_of (bs_revisions s) lo = Some a" and "bs_materialized s' a = bs_materialized s a"
    and "\<And>r' a'. lo < r' \<Longrightarrow> r' \<le> r \<Longrightarrow> map_of (bs_revisions s) r' = Some a' \<Longrightarrow>
           bs_transactions s' a' = bs_transactions s a'"
    and "lo \<le> r"
  shows "ref_read s' lo r = ref_read s lo r"
proof -
  have "replay s' (picks s [Suc lo..<Suc r]) b = replay s (picks s [Suc lo..<Suc r]) b" for b
    by (rule replay_cong) (use assms(4) in \<open>auto simp: set_picks less_Suc_eq_le Suc_le_eq\<close>)
  moreover have "picks s' [lo..<Suc r] = picks s [lo..<Suc r]"
    by (rule picks_cong) (use assms(1) in auto)
  ultimately show ?thesis
    using assms by (cases "bs_materialized s a") (simp_all add: ref_read_def picks_upto_cons)
qed

lemma hist_ok_floor:
  assumes "hist_ok s lo tip"
  obtains a b where "map_of (bs_revisions s) lo = Some a" "bs_materialized s a = Some b"
  using assms by (auto simp: hist_ok_def)

lemma hist_ok_inj:
  assumes "hist_ok s lo tip" "map_of (bs_revisions s) r = Some a" "map_of (bs_revisions s) r' = Some a"
    "lo \<le> r" "r \<le> tip" "lo \<le> r'" "r' \<le> tip"
  shows "r = r'"
  using assms unfolding hist_ok_def by (metis atLeastAtMost_iff)

lemma hist_ok_rev:
  assumes "hist_ok s lo tip" "map_of (bs_revisions s) r = Some a" "lo < r" "r \<le> tip"
  shows "bs_transactions s a \<noteq> None"
    and "\<exists>c. ref_read s lo r = Inr c \<and> (\<forall>b. bs_materialized s a = Some b \<longrightarrow> c = Some b)"
  using assms unfolding hist_ok_def by (metis greaterThanAtMost_iff)+

lemma hist_ok_mono: "hist_ok s lo tip \<Longrightarrow> lo \<le> t \<Longrightarrow> t \<le> tip \<Longrightarrow> hist_ok s lo t"
  unfolding hist_ok_def by (auto; fastforce)

lemma ref_read_total:
  assumes "hist_ok s lo tip" and "lo \<le> t" and "t \<le> tip"
  shows "\<exists>c. ref_read s lo t = Inr c"
  using assms(2,3)
proof (induction t rule: dec_induct)
  case base
  then show ?case using assms(1)
    by (metis hist_ok_floor order_refl ref_read_eq picks_simps(1) replay.simps(1) upt_rec less_irrefl)
next
  case (step t)
  obtain a b where ab: "map_of (bs_revisions s) lo = Some a" "bs_materialized s a = Some b"
    using assms(1) by (rule hist_ok_floor)
  show ?case
  proof (cases "map_of (bs_revisions s) (Suc t)")
    case None
    then have "picks s [Suc lo..<Suc (Suc t)] = picks s [Suc lo..<Suc t]"
      using step by (simp add: upt_Suc)
    then show ?thesis using step ref_read_eq [OF ab] by (simp)
  next
    case (Some c)
    then show ?thesis using hist_ok_rev(2) [OF assms(1) Some] step by auto
  qed
qed

lemma materializeBlock_history:
  assumes h: "hist_ok s lo tip" and t: "lo \<le> t" "t \<le> tip"
  shows "\<exists>r s'. materializeBlock C meta t s = (Inr r, s') \<and> ref_read s lo t = Inr (map_option fst r)
    \<and> (\<forall>blk ar. r = Some (blk, ar) \<longrightarrow> ar = last (picks s [lo..<Suc t]))
    \<and> (s' = s \<or> (\<exists>blk ar. r = Some (blk, ar) \<and> ar \<in> set (picks s [Suc lo..<Suc t])
         \<and> s' = bs_saveMaterialized (ar_actionId ar) (Some blk) s))"
proof -
  obtain a b where ab: "map_of (bs_revisions s) lo = Some a" "bs_materialized s a = Some b"
    using h by (rule hist_ok_floor)
  define xs where "xs = picks s [lo..<Suc t]"
  have xs: "xs = \<lparr>ar_actionId = a, ar_rev = lo\<rparr> # picks s [Suc lo..<Suc t]"
    using picks_upto_cons [OF ab(1) t(1)] by (simp add: xs_def)
  have lo1: "1 \<le> lo" using h by (simp add: hist_ok_def)
  have "\<exists>x \<in> set xs. bs_materialized s (ar_actionId x) \<noteq> None" by (simp add: xs ab)
  from findMaterialized_rev [OF this, of "rev (picks s [1..<lo])" "[]"] obtain pre ar c suf where
    d: "xs = pre @ ar # suf" and m: "bs_materialized s (ar_actionId ar) = Some c"
    and f: "findMaterialized s (rev xs @ rev (picks s [1..<lo])) [] = (Some (c, ar), suf)" by auto
  have walk: "bs_listRevisions s t 1 = rev xs @ rev (picks s [1..<lo])"
    using bs_listRevisions_desc [of t s] lo1 t picks_split [of 1 lo "Suc t" s] by (simp add: xs_def)
  have pre: "ref_list s (pre @ [ar]) = Inr (Some c)"
  proof (cases pre)
    case Nil
    then show ?thesis using d m by simp
  next
    case (Cons p ps)
    then have ar: "ar \<in> set (picks s [Suc lo..<Suc t])" using d xs by auto
    then have r: "lo < ar_rev ar" "ar_rev ar \<le> t" "map_of (bs_revisions s) (ar_rev ar) = Some (ar_actionId ar)"
      by (auto simp: set_picks)
    have "pre @ [ar] = picks s [lo..<Suc (ar_rev ar)]"
    proof -
      have "xs = picks s [lo..<ar_rev ar] @ ar # picks s [Suc (ar_rev ar)..<Suc t]"
        using picks_split [of lo "ar_rev ar" "Suc t" s] r picks_upto_cons [OF r(3,2)]
        by (simp add: xs_def)
      moreover have "ar \<notin> set (picks s [Suc (ar_rev ar)..<Suc t])" "ar \<notin> set (picks s [lo..<ar_rev ar])"
        by (auto simp: set_picks)
      ultimately have "pre = picks s [lo..<ar_rev ar]"
        using d by (metis append_Cons_eq_iff)
      then show ?thesis using r picks_split [of lo "ar_rev ar" "Suc (ar_rev ar)" s]
          picks_upto_cons [OF r(3) order_refl] by simp
    qed
    then show ?thesis
      using hist_ok_rev(2) [OF h r(3) r(1)] r(2) t(2) m by (auto simp: ref_read_def)
  qed
  have rr: "ref_read s lo t = replay s suf (Some c)"
    using ref_list_append [of "pre @ [ar]" s suf] pre d by (simp add: ref_read_def xs_def [symmetric])
  obtain o' where o': "replay s suf (Some c) = Inr o'"
    using ref_read_total [OF h t] rr by auto
  have lst: "last xs = (if suf = [] then ar else last suf)" using d by simp
  have suf: "set suf \<subseteq> set (picks s [Suc lo..<Suc t])" using d xs by (cases pre) auto
  show ?thesis
    unfolding materializeBlock_def walk f xs_def [symmetric] rr
    using o' lst set_mp [OF suf last_in_set] by (cases o') (auto simp: Let_def)
qed

lemma hist_ok_materialize:
  \<comment> \<open>storing the true content of a held revision above the floor changes no read\<close>
  assumes h: "hist_ok s lo tip" and r: "map_of (bs_revisions s) r = Some a" "lo < r" "r \<le> tip"
    and ob: "\<And>b. ob = Some b \<Longrightarrow> ref_read s lo r = Inr (Some b)"
  defines "s' \<equiv> bs_saveMaterialized a ob s"
  shows "hist_ok s' lo tip \<and> (\<forall>t \<in> {lo..tip}. ref_read s' lo t = ref_read s lo t)"
proof -
  obtain a0 b0 where ab: "map_of (bs_revisions s) lo = Some a0" "bs_materialized s a0 = Some b0"
    using h by (rule hist_ok_floor)
  have ne: "a0 \<noteq> a" using hist_ok_inj [OF h ab(1)] r h by (fastforce simp: hist_ok_def)
  have reads: "ref_read s' lo t = ref_read s lo t" if "lo \<le> t" for t
    using ref_read_cong [OF _ ab(1), of t s'] ne that by (simp add: s'_def bs_saveMaterialized_def)
  have key: "bs_transactions s a' \<noteq> None
      \<and> (\<exists>c. ref_read s lo r' = Inr c \<and> (\<forall>b. bs_materialized s' a' = Some b \<longrightarrow> c = Some b))"
    if r': "map_of (bs_revisions s) r' = Some a'" "lo < r'" "r' \<le> tip" for r' a'
  proof (cases "a' = a")
    case True
    then have "r' = r" using hist_ok_inj [OF h, of r' a r] r' r by simp
    then show ?thesis using hist_ok_rev [OF h r'] ob True
      by (auto simp: s'_def bs_saveMaterialized_def)
  next
    case False
    then show ?thesis using hist_ok_rev [OF h r'] by (simp add: s'_def bs_saveMaterialized_def)
  qed
  have same: "bs_revisions s' = bs_revisions s" "bs_transactions s' = bs_transactions s"
    "bs_materialized s' a0 = Some b0"
    using ne ab by (simp_all add: s'_def bs_saveMaterialized_def)
  have "hist_ok s' lo tip"
    unfolding hist_ok_def same
    using h same ab key reads hist_ok_inj [OF h]
    by (intro conjI ballI allI impI) (auto simp: hist_ok_def)
  then show ?thesis using reads by simp
qed

lemma picks_none: "\<forall>i \<in> set is. map_of (bs_revisions s) i = None \<Longrightarrow> picks s is = []"
  by (induction "is") auto

lemma ref_read_above:
  assumes "\<forall>r > tip. map_of (bs_revisions s) r = None" and "lo \<le> tip" and "tip \<le> t"
  shows "ref_read s lo t = ref_read s lo tip" "picks s [lo..<Suc t] = picks s [lo..<Suc tip]"
proof -
  have "picks s [Suc tip..<Suc t] = []" by (rule picks_none) (use assms in auto)
  then show "picks s [lo..<Suc t] = picks s [lo..<Suc tip]"
    using picks_split [of lo "Suc tip" "Suc t" s] assms by simp
  then show "ref_read s lo t = ref_read s lo tip" by (simp add: ref_read_def)
qed

lemma hist_ok_extend:
  assumes h: "hist_ok s lo tip" and n: "\<forall>r > tip. map_of (bs_revisions s) r = None" and "tip \<le> t"
  shows "hist_ok s lo t"
proof -
  have le: "r \<le> tip" if "map_of (bs_revisions s) r = Some a" for r a
    using n that by (metis not_le option.discI)
  obtain a0 b0 where ab: "map_of (bs_revisions s) lo = Some a0" "bs_materialized s a0 = Some b0"
    using h by (rule hist_ok_floor)
  have "1 \<le> lo" "lo \<le> t" using h assms(3) by (simp_all add: hist_ok_def)
  then show ?thesis
    unfolding hist_ok_def
    using ab le hist_ok_inj [OF h] hist_ok_rev [OF h]
    by (intro conjI ballI allI impI) auto
qed

section \<open>Properties of reads and pruning\<close>

lemma getBlock_history:
  assumes h: "hist_ok s lo tip" and n: "\<forall>r > tip. map_of (bs_revisions s) r = None"
    and m: "bs_meta s = Some meta" "latest meta \<noteq> None" and t: "lo \<le> t" "inRanges t (ranges meta)"
  shows "\<exists>r s'. getBlock C (Some t) s = (Inr r, s')
    \<and> ref_read s lo t = Inr (map_option fst r)
    \<and> (\<forall>blk ar. r = Some (blk, ar) \<longrightarrow> ar = last (picks s [lo..<Suc t]))
    \<and> hist_ok s' lo tip \<and> bs_meta s' = bs_meta s \<and> bs_revisions s' = bs_revisions s
    \<and> bs_pending s' = bs_pending s \<and> bs_transactions s' = bs_transactions s
    \<and> (\<forall>a. a \<notin> snd ` set (bs_revisions s) \<longrightarrow> bs_materialized s' a = bs_materialized s a)
    \<and> (\<forall>t' \<ge> lo. ref_read s' lo t' = ref_read s lo t')"
proof -
  have h': "hist_ok s lo (max tip t)" using hist_ok_extend [OF h n] by simp
  obtain r s' where r: "materializeBlock C meta t s = (Inr r, s')" "ref_read s lo t = Inr (map_option fst r)"
    "\<forall>blk ar. r = Some (blk, ar) \<longrightarrow> ar = last (picks s [lo..<Suc t])"
    "s' = s \<or> (\<exists>blk ar. r = Some (blk, ar) \<and> ar \<in> set (picks s [Suc lo..<Suc t])
         \<and> s' = bs_saveMaterialized (ar_actionId ar) (Some blk) s)"
    using materializeBlock_history [OF h' t(1), of C meta] by auto
  have "getBlock C (Some t) s = (Inr r, s')"
    using m t r(1) by (auto simp: getBlock_def ensureRevision_def Let_def)
  moreover have "hist_ok s' lo (max tip t) \<and> bs_meta s' = bs_meta s \<and> bs_revisions s' = bs_revisions s
    \<and> bs_pending s' = bs_pending s \<and> bs_transactions s' = bs_transactions s
    \<and> (\<forall>a. a \<notin> snd ` set (bs_revisions s) \<longrightarrow> bs_materialized s' a = bs_materialized s a)
    \<and> (\<forall>t' \<in> {lo..max tip t}. ref_read s' lo t' = ref_read s lo t')"
    using r(4)
  proof
    assume "\<exists>blk ar. r = Some (blk, ar) \<and> ar \<in> set (picks s [Suc lo..<Suc t])
         \<and> s' = bs_saveMaterialized (ar_actionId ar) (Some blk) s"
    then obtain blk ar where a: "r = Some (blk, ar)" "ar \<in> set (picks s [Suc lo..<Suc t])"
      and s': "s' = bs_saveMaterialized (ar_actionId ar) (Some blk) s" by blast
    then have ar: "map_of (bs_revisions s) (ar_rev ar) = Some (ar_actionId ar)" "lo < ar_rev ar" "ar_rev ar \<le> t"
      by (auto simp: set_picks)
    have ll: "ar = last (picks s [lo..<Suc t])" using r(3) a(1) by simp
    have "picks s [Suc (ar_rev ar)..<Suc t] = []"
    proof (rule ccontr)
      assume ne: "picks s [Suc (ar_rev ar)..<Suc t] \<noteq> []"
      then have "last (picks s [lo..<Suc t]) \<in> set (picks s [Suc (ar_rev ar)..<Suc t])"
        using picks_split [of lo "Suc (ar_rev ar)" "Suc t" s] ar by simp
      with ll show False by (auto simp: set_picks)
    qed
    then have "ref_read s lo t = ref_read s lo (ar_rev ar)"
      using picks_split [of lo "Suc (ar_rev ar)" "Suc t" s] ar by (simp add: ref_read_def)
    then have "ref_read s lo (ar_rev ar) = Inr (Some blk)" using r(2) a(1) by simp
    moreover have "ar_actionId ar \<in> snd ` set (bs_revisions s)"
      using map_of_SomeD [OF ar(1)] by (rule rev_image_eqI) simp
    ultimately show ?thesis
      using hist_ok_materialize [OF h' ar(1,2), of "Some blk"] ar(3)
      by (auto simp: s' bs_saveMaterialized_def)
  qed (use h' in simp)
  moreover from this have "ref_read s' lo t' = ref_read s lo t'" if "lo \<le> t'" for t'
    using ref_read_above(1) [of "max tip t" s lo t'] ref_read_above(1) [of "max tip t" s' lo t'] n that t(1)
    by (cases "t' \<le> max tip t") (auto simp: le_max_iff_disj)
  ultimately show ?thesis
    using r(2,3) hist_ok_mono [of s' lo "max tip t" tip] h [unfolded hist_ok_def, THEN conjunct2, THEN conjunct1]
    by (intro exI [of _ r] exI [of _ s']) auto
qed

lemma getBlock_determined:
  \<comment> \<open>the answer depends only on what \<open>ref_read\<close> and the recorded revisions say\<close>
  assumes "hist_ok s lo tip" "\<forall>r > tip. map_of (bs_revisions s) r = None"
    "bs_meta s = Some meta" "latest meta \<noteq> None" "lo \<le> t" "inRanges t (ranges meta)"
    and "hist_ok s' lo tip" "bs_revisions s' = bs_revisions s" "bs_meta s' = bs_meta s"
    and "ref_read s' lo t = ref_read s lo t"
  shows "fst (getBlock C (Some t) s') = fst (getBlock C (Some t) s)"
proof -
  obtain r where r: "fst (getBlock C (Some t) s) = Inr r" "ref_read s lo t = Inr (map_option fst r)"
    "\<forall>blk ar. r = Some (blk, ar) \<longrightarrow> ar = last (picks s [lo..<Suc t])"
    using getBlock_history [OF assms(1-6), of C] by auto
  obtain r' where r': "fst (getBlock C (Some t) s') = Inr r'" "ref_read s' lo t = Inr (map_option fst r')"
    "\<forall>blk ar. r' = Some (blk, ar) \<longrightarrow> ar = last (picks s' [lo..<Suc t])"
    using getBlock_history [OF assms(7), of meta t C] assms(2-6,8,9) by auto
  have "map_option fst r' = map_option fst r" using r(2) r'(2) assms(10) by simp
  moreover have "picks s' = picks s" by (rule ext) (simp add: picks_def assms(8))
  ultimately show ?thesis using r r' by (cases r; cases r') auto
qed

lemma prune_history:
  assumes h: "hist_ok s lo tip"
    and m: "bs_meta s = Some meta" "latest meta = Some l" "rangeFloorOf (ar_rev l) (ranges meta) = lo"
    and p: "map_of (bs_revisions s) (ar_rev prior) = Some (ar_actionId prior)" "lo \<le> ar_rev prior" "ar_rev prior \<le> tip"
  shows "hist_ok (pruneSupersededMaterialization C prior s) lo tip
    \<and> (\<forall>t \<ge> lo. t \<le> tip \<longrightarrow> ref_read (pruneSupersededMaterialization C prior s) lo t = ref_read s lo t)
    \<and> bs_revisions (pruneSupersededMaterialization C prior s) = bs_revisions s
    \<and> bs_meta (pruneSupersededMaterialization C prior s) = bs_meta s"
proof (cases "ar_rev prior = lo \<or> isRetainedRev C (ar_rev prior) (ar_rev l) lo")
  case True
  then show ?thesis using h m by (auto simp: pruneSupersededMaterialization_def isRetainedRev_def)
next
  case False
  then show ?thesis
    using hist_ok_materialize [OF h p(1) _ p(3), of None] p(2) m
    by (auto simp: pruneSupersededMaterialization_def bs_saveMaterialized_def)
qed

text \<open>C10. A read at any revision from the floor of the held history upwards succeeds and is
  answered with the content that replaying every committed transform from the floor gives, tagged
  with the newest recorded revision not above the requested one; and since a read may cache what it
  computed, every later read still answers as before.\<close>

theorem getBlock_serves_history:
  assumes "hist_ok s lo tip" and "\<forall>r > tip. map_of (bs_revisions s) r = None"
    and "bs_meta s = Some meta" and "latest meta \<noteq> None" and "lo \<le> t" and "inRanges t (ranges meta)"
  shows "(\<exists>r. fst (getBlock C (Some t) s) = Inr r \<and> ref_read s lo t = Inr (map_option fst r)
      \<and> (\<forall>blk ar. r = Some (blk, ar) \<longrightarrow>
           map_of (bs_revisions s) (ar_rev ar) = Some (ar_actionId ar) \<and> ar_rev ar \<le> t
           \<and> (\<forall>i. ar_rev ar < i \<and> i \<le> t \<longrightarrow> map_of (bs_revisions s) i = None)))
    \<and> (lo \<le> t' \<and> inRanges t' (ranges meta) \<longrightarrow>
        fst (getBlock C (Some t') (snd (getBlock C (Some t) s))) = fst (getBlock C (Some t') s))"
proof -
  obtain r s' where g: "getBlock C (Some t) s = (Inr r, s')" "ref_read s lo t = Inr (map_option fst r)"
    "\<forall>blk ar. r = Some (blk, ar) \<longrightarrow> ar = last (picks s [lo..<Suc t])"
    "hist_ok s' lo tip" "bs_meta s' = bs_meta s" "bs_revisions s' = bs_revisions s"
    "\<forall>t' \<ge> lo. ref_read s' lo t' = ref_read s lo t'"
    using getBlock_history [OF assms, of C] by blast
  obtain a where "map_of (bs_revisions s) lo = Some a" using assms(1) by (rule hist_ok_floor)
  then have ne: "picks s [lo..<Suc t] \<noteq> []" using picks_upto_cons [of s lo a t] assms(5) by simp
  have "map_of (bs_revisions s) (ar_rev ar) = Some (ar_actionId ar) \<and> ar_rev ar \<le> t
           \<and> (\<forall>i. ar_rev ar < i \<and> i \<le> t \<longrightarrow> map_of (bs_revisions s) i = None)"
    if ar: "ar = last (picks s [lo..<Suc t])" for ar
  proof -
    have mem: "ar_rev ar \<in> {lo..t}" "map_of (bs_revisions s) (ar_rev ar) = Some (ar_actionId ar)"
      using last_in_set [OF ne] ar by (auto simp: set_picks)
    have "map_of (bs_revisions s) i = None" if i: "ar_rev ar < i" "i \<le> t" for i
    proof (rule ccontr)
      assume "map_of (bs_revisions s) i \<noteq> None"
      then have "picks s [i..<Suc t] \<noteq> []" using picks_upto_cons [of s i _ t] i by auto
      then have "last (picks s [lo..<Suc t]) \<in> set (picks s [i..<Suc t])"
        using picks_split [of lo i "Suc t" s] mem i by auto
      with ar i show False by (auto simp: set_picks)
    qed
    with mem show ?thesis by simp
  qed
  moreover have "fst (getBlock C (Some t') s') = fst (getBlock C (Some t') s)"
    if "lo \<le> t'" "inRanges t' (ranges meta)"
    using getBlock_determined [OF assms(1-4) that g(4,6,5), of C] g(7) that by simp
  ultimately show ?thesis using g by auto
qed

section \<open>A block with three revisions\<close>

definition sample_block :: "nat list \<Rightarrow> nat block" where
  "sample_block xs = \<lparr>header = \<lparr>hdr_id = ''k'', hdr_type = ''TL'', hdr_collectionId = ''c''\<rparr>,
     attrs = [''entries'' \<mapsto> FArr xs]\<rparr>"

definition sample_state :: "nat block_state" where
  \<comment> \<open>inserted at revision 1, updated at 2 and 4, a further update pending\<close>
  "sample_state =
     \<lparr>bs_meta = Some \<lparr>ranges = [(1, RNone)], latest = Some \<lparr>ar_actionId = ''t4'', ar_rev = 4\<rparr>\<rparr>,
      bs_revisions = [(1, ''t1''), (2, ''t2''), (4, ''t4'')],
      bs_pending = [(''t6'', \<lparr>t_insert = None, t_updates = Some [splice_op ''entries'' 0 0 [9]], t_delete = False\<rparr>)],
      bs_transactions =
        [''t1'' \<mapsto> \<lparr>t_insert = Some (sample_block [7]), t_updates = None, t_delete = False\<rparr>,
         ''t2'' \<mapsto> \<lparr>t_insert = None, t_updates = Some [splice_op ''entries'' 1 0 [8]], t_delete = False\<rparr>,
         ''t4'' \<mapsto> \<lparr>t_insert = None, t_updates = Some [splice_op ''entries'' 0 1 []], t_delete = False\<rparr>],
      bs_materialized = [''t1'' \<mapsto> sample_block [7], ''t2'' \<mapsto> sample_block [7, 8], ''t4'' \<mapsto> sample_block [8]]\<rparr>"

definition sample_storage :: "nat block_storage" where
  "sample_storage = \<lparr>st_restore = None, st_interval = 32, st_hash = (\<lambda>_. ''h'')\<rparr>"

lemma sample_reads:
  "ref_read sample_state 1 1 = Inr (Some (sample_block [7]))"
  "ref_read sample_state 1 2 = Inr (Some (sample_block [7, 8]))"
  "ref_read sample_state 1 3 = Inr (Some (sample_block [7, 8]))"
  "ref_read sample_state 1 4 = Inr (Some (sample_block [8]))"
  by (simp_all add: ref_read_def sample_state_def upt_rec applyTransform_def sample_block_def
      applyOperation_def js_splice_def js_start_def fun_eq_iff)

lemma sample_hist_ok: "hist_ok sample_state 1 4"
proof -
  have revs: "map_of (bs_revisions sample_state) r = Some a \<longleftrightarrow>
      r = 1 \<and> a = ''t1'' \<or> r = 2 \<and> a = ''t2'' \<or> r = 4 \<and> a = ''t4''" for r a
    by (auto simp: sample_state_def)
  have mats: "bs_materialized sample_state ''t1'' = Some (sample_block [7])"
    "bs_materialized sample_state ''t2'' = Some (sample_block [7, 8])"
    "bs_materialized sample_state ''t4'' = Some (sample_block [8])"
    "bs_transactions sample_state ''t2'' \<noteq> None" "bs_transactions sample_state ''t4'' \<noteq> None"
    by (simp_all add: sample_state_def)
  show ?thesis
    unfolding hist_ok_def revs
  proof (intro conjI ballI allI impI)
    fix r :: nat and a
    assume "r = 1 \<and> a = ''t1'' \<or> r = 2 \<and> a = ''t2'' \<or> r = 4 \<and> a = ''t4''" and "r \<in> {1<..4}"
    then have "r = 2 \<and> a = ''t2'' \<or> r = 4 \<and> a = ''t4''" by auto
    then show "bs_transactions sample_state a \<noteq> None"
      "\<exists>c. ref_read sample_state 1 r = Inr c \<and> (\<forall>b. bs_materialized sample_state a = Some b \<longrightarrow> c = Some b)"
      using mats sample_reads by auto
  qed (use mats in auto)
qed

lemma sample_above: "\<forall>r > 4. map_of (bs_revisions sample_state) r = None"
  by (auto simp: sample_state_def)

lemma sample_meta:
  "bs_meta sample_state = Some \<lparr>ranges = [(1, RNone)], latest = Some \<lparr>ar_actionId = ''t4'', ar_rev = 4\<rparr>\<rparr>"
  "map_of (bs_revisions sample_state) 2 = Some ''t2''"
  by (simp_all add: sample_state_def)

theorem getBlock_serves_history_witness:
  "\<exists>r. fst (getBlock sample_storage (Some 3) sample_state) = Inr r \<and> map_option fst r = Some (sample_block [7, 8])"
proof -
  obtain r where "fst (getBlock sample_storage (Some 3) sample_state) = Inr r"
    "ref_read sample_state 1 3 = Inr (map_option fst r)"
    using getBlock_serves_history [OF sample_hist_ok sample_above sample_meta(1), of 3 sample_storage 1]
    by (auto simp: covers_def)
  then show ?thesis using sample_reads(3) by simp
qed

text \<open>C9. Checkpoint pruning loses nothing: after the superseded prior materialization is dropped,
  every read of every held revision gives exactly the answer it gave before.\<close>

theorem prune_keeps_every_revision:
  assumes "hist_ok s lo tip" and "\<forall>r > tip. map_of (bs_revisions s) r = None"
    and "bs_meta s = Some meta" and "latest meta = Some l" and "rangeFloorOf (ar_rev l) (ranges meta) = lo"
    and "map_of (bs_revisions s) (ar_rev prior) = Some (ar_actionId prior)"
    and "lo \<le> ar_rev prior" and "ar_rev prior \<le> tip"
    and "lo \<le> t" and "inRanges t (ranges meta)"
  shows "fst (getBlock C (Some t) (pruneSupersededMaterialization C prior s)) = fst (getBlock C (Some t) s)"
proof -
  let ?s' = "pruneSupersededMaterialization C prior s"
  note p = prune_history [OF assms(1,3-8), of C]
  have "ref_read ?s' lo t = ref_read s lo t"
  proof (cases "t \<le> tip")
    case True
    then show ?thesis using p assms(9) by blast
  next
    case False
    then show ?thesis
      using p ref_read_above(1) [of tip s lo t] ref_read_above(1) [of tip ?s' lo t] assms(1,2)
      by (auto simp: hist_ok_def [of s])
  qed
  then show ?thesis
    using getBlock_determined [OF assms(1-3) _ assms(9,10)] p assms(4) by simp
qed

theorem prune_keeps_every_revision_witness:
  "let s' = pruneSupersededMaterialization sample_storage \<lparr>ar_actionId = ''t2'', ar_rev = 2\<rparr> sample_state
   in bs_materialized s' ''t2'' = None
      \<and> fst (getBlock sample_storage (Some 2) s') = fst (getBlock sample_storage (Some 2) sample_state)"
  using prune_keeps_every_revision [OF sample_hist_ok sample_above sample_meta(1),
      of "\<lparr>ar_actionId = ''t4'', ar_rev = 4\<rparr>" "\<lparr>ar_actionId = ''t2'', ar_rev = 2\<rparr>" 2 sample_storage] sample_meta
  by (simp add: Let_def covers_def pruneSupersededMaterialization_def isRetainedRev_def
      sample_storage_def bs_saveMaterialized_def)

section \<open>Crash recovery\<close>

definition promoted_at :: "'v block_state \<Rightarrow> nat \<Rightarrow> bool" where
  \<comment> \<open>the revision is recorded and its action is in the committed log\<close>
  "promoted_at s r \<longleftrightarrow> (\<exists>a. map_of (bs_revisions s) r = Some a \<and> bs_transactions s a \<noteq> None)"

definition latest_rev :: "'v block_state \<Rightarrow> nat" where
  "latest_rev s = (case getLatest s of Some l \<Rightarrow> ar_rev l | None \<Rightarrow> 0)"

lemma recover_probe_run:
  assumes "\<forall>i < k. promoted_at s (nxt + i)" and "\<not> promoted_at s (nxt + k)" and "k < fuel"
  shows "recover_probe fuel s nxt mx =
    (if k = 0 then mx else (nxt + k - 1, map_of (bs_revisions s) (nxt + k - 1)))"
  using assms
proof (induction k arbitrary: fuel nxt mx)
  case 0
  then show ?case by (cases fuel) (auto simp: promoted_at_def split: option.splits)
next
  case (Suc k)
  from Suc.prems(1) have "promoted_at s nxt" by (metis add_0_right zero_less_Suc)
  then obtain a t where a: "map_of (bs_revisions s) nxt = Some a" "bs_transactions s a = Some t"
    by (auto simp: promoted_at_def)
  obtain f where f: "fuel = Suc f" using Suc.prems(3) by (cases fuel) auto
  have p: "\<forall>i < k. promoted_at s (Suc nxt + i)" "\<not> promoted_at s (Suc nxt + k)"
    using Suc.prems(1,2) by auto
  have "k < f" using Suc.prems(3) f by simp
  from Suc.IH [OF p this] a f show ?case by simp
qed

lemma promoted_run_bounded:
  "\<exists>k \<le> length (bs_revisions s). (\<forall>i < k. promoted_at s (nxt + i)) \<and> \<not> promoted_at s (nxt + k)"
proof -
  have "\<exists>k \<le> length (bs_revisions s). \<not> promoted_at s (nxt + k)"
  proof (rule ccontr)
    assume "\<not> ?thesis"
    then have "(\<lambda>k. nxt + k) ` {..length (bs_revisions s)} \<subseteq> fst ` set (bs_revisions s)"
      by (fastforce simp: promoted_at_def dest: map_of_SomeD intro: rev_image_eqI)
    then have "card ((\<lambda>k. nxt + k) ` {..length (bs_revisions s)}) \<le> card (fst ` set (bs_revisions s))"
      by (intro card_mono) auto
    also have "\<dots> \<le> length (bs_revisions s)"
      by (metis card_length length_map set_map)
    finally show False by (simp add: card_image)
  qed
  then obtain k where "k \<le> length (bs_revisions s)" "\<not> promoted_at s (nxt + k)" by blast
  then show ?thesis
    using LeastI [of "\<lambda>k. \<not> promoted_at s (nxt + k)" k] Least_le [of "\<lambda>k. \<not> promoted_at s (nxt + k)" k]
      not_less_Least [of _ "\<lambda>k. \<not> promoted_at s (nxt + k)"]
    by (intro exI [of _ "LEAST k. \<not> promoted_at s (nxt + k)"]) auto
qed

lemma decode_encode_latest [simp]: "latest (decode_encode_meta m) = latest m"
  by (simp add: decode_encode_meta_def)

lemma recover_result:
  assumes "bs_meta s = Some meta" and "recover s = ((b, l'), s')"
  shows "\<exists>k. (\<forall>i < k. promoted_at s (Suc (latest_rev s) + i)) \<and> \<not> promoted_at s (Suc (latest_rev s) + k)
    \<and> (if k = 0 then b = False \<and> l' = latest meta \<and> s' = s
       else \<exists>a. map_of (bs_revisions s) (latest_rev s + k) = Some a \<and> b
         \<and> l' = Some \<lparr>ar_actionId = a, ar_rev = latest_rev s + k\<rparr>
         \<and> s' = bs_saveMetadata \<lparr>ranges = mergeRanges ((Suc (latest_rev s), RNone) # ranges meta), latest = l'\<rparr> s)"
proof -
  obtain k where k: "k \<le> length (bs_revisions s)" "\<forall>i < k. promoted_at s (Suc (latest_rev s) + i)"
      "\<not> promoted_at s (Suc (latest_rev s) + k)"
    using promoted_run_bounded by blast
  have cur: "latest_rev s = (case latest meta of Some l \<Rightarrow> ar_rev l | None \<Rightarrow> 0)"
    using assms(1) by (simp add: latest_rev_def getLatest_def)
  note run = recover_probe_run [OF k(2,3), of "Suc (length (bs_revisions s))"]
  show ?thesis
  proof (cases "k = 0")
    case True
    then show ?thesis
      using assms run k cur
      by (intro exI [of _ k]) (auto simp: recover_def Let_def split: option.splits)
  next
    case False
    then have "promoted_at s (Suc (latest_rev s) + (k - 1))"
      by (intro k(2) [rule_format]) simp
    moreover have "Suc (latest_rev s) + (k - 1) = latest_rev s + k" using False by simp
    ultimately obtain a where a: "map_of (bs_revisions s) (latest_rev s + k) = Some a"
      by (auto simp: promoted_at_def)
    show ?thesis
      using assms run k cur False a
      by (intro exI [of _ k]) (auto simp: recover_def Let_def split: option.splits)
  qed
qed

text \<open>C35. \<open>recover\<close> advances \<open>latest\<close> to exactly the end of the unbroken run of recorded and
  promoted revisions above it, never backwards, and doing it again changes nothing.\<close>

theorem recover_contiguous_idempotent:
  assumes "bs_meta s = Some meta" and "recover s = ((b, l'), s')"
  shows "latest_rev s \<le> latest_rev s' \<and> getLatest s' = l'
    \<and> (\<forall>r. latest_rev s < r \<and> r \<le> latest_rev s' \<longrightarrow> promoted_at s r)
    \<and> \<not> promoted_at s (Suc (latest_rev s'))
    \<and> (b \<longleftrightarrow> latest_rev s < latest_rev s')
    \<and> recover s' = ((False, l'), s')"
proof -
  obtain k where k: "\<forall>i < k. promoted_at s (Suc (latest_rev s) + i)" "\<not> promoted_at s (Suc (latest_rev s) + k)"
    and r: "if k = 0 then b = False \<and> l' = latest meta \<and> s' = s
       else \<exists>a. map_of (bs_revisions s) (latest_rev s + k) = Some a \<and> b
         \<and> l' = Some \<lparr>ar_actionId = a, ar_rev = latest_rev s + k\<rparr>
         \<and> s' = bs_saveMetadata \<lparr>ranges = mergeRanges ((Suc (latest_rev s), RNone) # ranges meta), latest = l'\<rparr> s"
    using recover_result [OF assms] by blast
  have lr: "latest_rev s' = latest_rev s + k" "getLatest s' = l'"
    using r assms(1) by (auto simp: latest_rev_def getLatest_def bs_saveMetadata_def split: if_splits)
  have pr: "promoted_at s' = promoted_at s"
    using r by (auto simp: promoted_at_def fun_eq_iff bs_saveMetadata_def split: if_splits)
  obtain meta' where m': "bs_meta s' = Some meta'" "latest meta' = l'"
    using r assms(1) lr(2) by (auto simp: bs_saveMetadata_def getLatest_def split: if_splits)
  have run: "promoted_at s r" if "latest_rev s < r" "r \<le> latest_rev s + k" for r
    using k(1) [rule_format, of "r - Suc (latest_rev s)"] that by simp
  have "recover s' = ((False, l'), s')"
  proof -
    obtain b2 l2 s2 where r2: "recover s' = ((b2, l2), s2)" by (metis surj_pair)
    from recover_result [OF m'(1) r2] lr(1) k(2) pr m'(2) show ?thesis
      using r2 by (metis add_Suc add_0_right neq0_conv)
  qed
  then show ?thesis using lr run k(2) r by (auto split: if_splits)
qed

definition crashed_state :: "nat block_state" where
  \<comment> \<open>revision 2 was recorded and promoted, and the process died before \<open>setLatest\<close>\<close>
  "crashed_state = sample_state\<lparr>bs_meta := Some \<lparr>ranges = [(1, RNone)],
     latest = Some \<lparr>ar_actionId = ''t1'', ar_rev = 1\<rparr>\<rparr>\<rparr>"

theorem recover_contiguous_idempotent_witness:
  "latest_rev crashed_state = 1 \<and> latest_rev (snd (recover crashed_state)) = 2
   \<and> snd (recover (snd (recover crashed_state))) = snd (recover crashed_state)"
proof -
  obtain b l' s' where r: "recover crashed_state = ((b, l'), s')" by (metis surj_pair)
  have m: "bs_meta crashed_state = Some \<lparr>ranges = [(1, RNone)], latest = Some \<lparr>ar_actionId = ''t1'', ar_rev = 1\<rparr>\<rparr>"
    by (simp add: crashed_state_def)
  have e: "latest_rev crashed_state = 1" "latest_rev (snd (recover crashed_state)) = 2"
    by (simp_all add: crashed_state_def sample_state_def latest_rev_def getLatest_def recover_def
        bs_saveMetadata_def decode_encode_meta_def Let_def)
  show ?thesis using recover_contiguous_idempotent [OF m r] r e by simp
qed

text \<open>After a crash between promoting the next revision and \<open>setLatest\<close>, \<open>recover\<close> leaves
  the block exactly as the lost \<open>setLatest\<close> would have: same metadata, same coverage.\<close>

theorem recover_redoes_setLatest:
  assumes "bs_meta s = Some meta"
    and "latest meta = None \<or> (\<exists>e p. ranges meta = [(e, RNone)] \<and> latest meta = Some p \<and> e \<le> ar_rev p)"
    and "map_of (bs_revisions s) (Suc (latest_rev s)) = Some a" and "bs_transactions s a \<noteq> None"
    and "map_of (bs_revisions s) (Suc (Suc (latest_rev s))) = None"
  shows "snd (recover s) = snd (setLatest \<lparr>ar_actionId = a, ar_rev = Suc (latest_rev s)\<rparr> s)"
proof -
  obtain b l' s' where r: "recover s = ((b, l'), s')" by (metis surj_pair)
  obtain k where k: "\<forall>i < k. promoted_at s (Suc (latest_rev s) + i)" "\<not> promoted_at s (Suc (latest_rev s) + k)"
    and res: "if k = 0 then b = False \<and> l' = latest meta \<and> s' = s
       else \<exists>a. map_of (bs_revisions s) (latest_rev s + k) = Some a \<and> b
         \<and> l' = Some \<lparr>ar_actionId = a, ar_rev = latest_rev s + k\<rparr>
         \<and> s' = bs_saveMetadata \<lparr>ranges = mergeRanges ((Suc (latest_rev s), RNone) # ranges meta), latest = l'\<rparr> s"
    using recover_result [OF assms(1) r] by blast
  have p: "promoted_at s (Suc (latest_rev s))" "\<not> promoted_at s (Suc (Suc (latest_rev s)))"
    using assms(3-5) by (auto simp: promoted_at_def)
  have "k \<noteq> 0" using k(2) p(1) by (cases k) auto
  moreover have "\<not> 1 < k" using k(1) [rule_format, of 1] p(2) by auto
  ultimately have k1: "k = 1" by simp
  define l where "l = \<lparr>ar_actionId = a, ar_rev = Suc (latest_rev s)\<rparr>"
  have s': "s' = bs_saveMetadata \<lparr>ranges = mergeRanges ((Suc (latest_rev s), RNone) # ranges meta), latest = Some l\<rparr> s"
    using res k1 assms(3) by (simp add: l_def)
  have cur: "latest_rev s = (case latest meta of Some p \<Rightarrow> ar_rev p | None \<Rightarrow> 0)"
    using assms(1) by (simp add: latest_rev_def getLatest_def)
  have "mergeRanges ((Suc (latest_rev s), RNone) # ranges meta)
      = mergeRanges ((case latest meta of Some p \<Rightarrow> ar_rev p | None \<Rightarrow> ar_rev l, RNone) # ranges meta)"
    using assms(2)
  proof
    assume "\<exists>e p. ranges meta = [(e, RNone)] \<and> latest meta = Some p \<and> e \<le> ar_rev p"
    then obtain e q where "ranges meta = [(e, RNone)]" "latest meta = Some q" "e \<le> ar_rev q" by blast
    then show ?thesis
      using cur by (cases "e = ar_rev q") (simp_all add: mergeRanges_def)
  qed (simp add: l_def cur)
  then show ?thesis
    using r s' assms(1) unfolding l_def [symmetric] by (simp add: setLatest_def Let_def)
qed

theorem recover_redoes_setLatest_witness:
  "snd (recover crashed_state) = snd (setLatest \<lparr>ar_actionId = ''t2'', ar_rev = 2\<rparr> crashed_state)
   \<and> snd (recover crashed_state) \<noteq> crashed_state"
proof -
  have m: "bs_meta crashed_state = Some \<lparr>ranges = [(1, RNone)], latest = Some \<lparr>ar_actionId = ''t1'', ar_rev = 1\<rparr>\<rparr>"
    by (simp add: crashed_state_def)
  have l: "latest_rev crashed_state = 1" by (simp add: crashed_state_def latest_rev_def getLatest_def)
  have "snd (recover crashed_state) = snd (setLatest \<lparr>ar_actionId = ''t2'', ar_rev = Suc (latest_rev crashed_state)\<rparr> crashed_state)"
    by (rule recover_redoes_setLatest [OF m]) (simp_all add: l, simp_all add: crashed_state_def sample_state_def)
  moreover have "getLatest (snd (setLatest \<lparr>ar_actionId = ''t2'', ar_rev = 2\<rparr> crashed_state)) \<noteq> getLatest crashed_state"
    by (simp add: m setLatest_def getLatest_def bs_saveMetadata_def)
  ultimately show ?thesis using l by (metis One_nat_def numeral_2_eq_2)
qed

section \<open>Forward writes\<close>

definition inv_P :: "'v block_state \<Rightarrow> bool" where
  \<comment> \<open>no action is both pending and committed on a block\<close>
  "inv_P s \<longleftrightarrow> (\<forall>a. map_of (bs_pending s) a \<noteq> None \<longrightarrow> bs_transactions s a = None)"

lemma saveRestored_single_simps [simp]:
  "bs_pending (saveRestored \<lparr>arch_revisions = [v], arch_range = rg\<rparr> s) = bs_pending s"
  "bs_transactions (saveRestored \<lparr>arch_revisions = [v], arch_range = rg\<rparr> s)
     = (bs_transactions s)(av_actionId v \<mapsto> av_transform v)"
  by (simp_all add: saveRestored_def saveRestoredRevision_def bs_defs Let_def split: option.splits)

lemma saveForwardRevision_facts:
  assumes "saveForwardRevision v s = (l, s')"
  shows "latest_rev s \<le> latest_rev s'" "getLatest s' = Some l" "inv_P s \<Longrightarrow> inv_P s'"
    "av_rev v \<le> ar_rev l"
  using assms
  by (auto simp: saveForwardRevision_def saveForward_write_def Let_def latest_rev_def getLatest_def
      bs_saveMetadata_def bs_deletePending_def inv_P_def split: option.splits if_splits)

lemma saveForwardRevision_none: "getLatest s' \<noteq> None" if "saveForwardRevision v s = (l, s')"
  using saveForwardRevision_facts(2) [OF that] by simp

end
