(* ===== verification/Storage_Repo.thy ===== *)
theory Storage_Repo
  imports Block_Storage
begin

text \<open>
  The block repository of a peer: \<open>packages/db-p2p/src/storage/storage-repo.ts\<close>, with
  \<open>highestStaleAt\<close> and \<open>isConflictFailure\<close> of \<open>packages/db-core/src/network/stale-failure.ts\<close>
  and \<open>groupBy\<close> of \<open>packages/db-core/src/utility/groupby.ts\<close>.

  The repository holds one \<open>block_state\<close> per block. Latches make every commit, promotion and
  replica write of a block exclusive, so each request is one step here; what a request wrote before
  it threw stays written. The parallel loops of \<open>get\<close>, \<open>pend\<close> and \<open>cancel\<close> touch distinct
  blocks and are run in list order. Change listeners are numbers, and a request returns the events
  it delivers to them. Revisions are positive.
\<close>

section \<open>Failures\<close>

datatype repo_error = MissingBaseRevision block_id nat | Other error

record stale_at =
  sa_blockId :: block_id
  sa_rev :: nat

fun highestStaleAt_loop :: "stale_at option \<Rightarrow> stale_at option list \<Rightarrow> stale_at option" where
  "highestStaleAt_loop best [] = best"
| "highestStaleAt_loop best (None # cs) = highestStaleAt_loop best cs"
| "highestStaleAt_loop best (Some c # cs) =
     highestStaleAt_loop (case best of None \<Rightarrow> Some c
                          | Some b \<Rightarrow> if sa_rev c > sa_rev b then Some c else Some b) cs"

definition highestStaleAt :: "stale_at option list \<Rightarrow> stale_at option" where
  "highestStaleAt cs = highestStaleAt_loop None cs"

definition isConflictFailure :: "bool option \<Rightarrow> 'a list option \<Rightarrow> 'b list option \<Rightarrow> bool" where
  \<comment> \<open>of the fields \<open>conflict\<close>, \<open>missing\<close> and \<open>pending\<close> of a failure\<close>
  "isConflictFailure conflict missing pending =
     (case conflict of Some c \<Rightarrow> c
      | None \<Rightarrow> (case missing of Some (_ # _) \<Rightarrow> True | _ \<Rightarrow> False)
                \<or> (case pending of Some (_ # _) \<Rightarrow> True | _ \<Rightarrow> False))"

section \<open>Grouping\<close>

fun groupBy_loop :: "('a \<Rightarrow> 'k) \<Rightarrow> ('k \<times> 'a list) list \<Rightarrow> 'a list \<Rightarrow> ('k \<times> 'a list) list" where
  "groupBy_loop key acc [] = acc"
| "groupBy_loop key acc (x # xs) =
     groupBy_loop key
       (AList.update (key x) ((case map_of acc (key x) of Some ys \<Rightarrow> ys | None \<Rightarrow> []) @ [x]) acc) xs"

definition groupBy :: "'a list \<Rightarrow> ('a \<Rightarrow> 'k) \<Rightarrow> ('k \<times> 'a list) list" where
  "groupBy xs key = groupBy_loop key [] xs"

record 'v action_transform =
  at_actionId :: action_id
  at_rev :: nat
  at_transform :: "'v transform"

record 'v action_transforms =
  ats_actionId :: action_id
  ats_rev :: nat
  ats_transforms :: "'v transforms"

definition perBlockActionTransformsToPerAction ::
    "(block_id \<times> 'v action_transform list) list \<Rightarrow> 'v action_transforms list" where
  "perBlockActionTransformsToPerAction missing =
     (let missingFlat = concat (map (\<lambda>(b, ts). map (Pair b) ts) missing);
          missingByActionId = groupBy missingFlat (\<lambda>(b, t). at_actionId t)
      in map (\<lambda>(a, items).
                \<lparr>ats_actionId = a, ats_rev = at_rev (snd (hd items)),
                 ats_transforms = foldl (\<lambda>acc (b, t). concatTransform acc b (at_transform t)) emptyTransforms items\<rparr>)
           missingByActionId)"

section \<open>The repository and its listeners\<close>

record 'v repo =
  rp_blocks :: "block_id \<Rightarrow> 'v block_state"
  rp_listeners :: "(collection_id \<times> nat list) list"
  rp_any :: "nat list"

record change_event =
  ce_collectionId :: collection_id
  ce_blockIds :: "block_id list"
  ce_actionId :: action_id
  ce_rev :: nat
  ce_tailId :: "block_id option"

definition set_add :: "'a \<Rightarrow> 'a list \<Rightarrow> 'a list" where
  \<comment> \<open>\<open>Set.prototype.add\<close>\<close>
  "set_add x xs = (if x \<in> set xs then xs else xs @ [x])"

definition onCollectionChange :: "collection_id \<Rightarrow> nat \<Rightarrow> 'v repo \<Rightarrow> 'v repo" where
  "onCollectionChange c l R =
     (let ls = (case map_of (rp_listeners R) c of Some ls \<Rightarrow> ls | None \<Rightarrow> [])
      in R\<lparr>rp_listeners := AList.update c (set_add l ls) (rp_listeners R)\<rparr>)"

definition offCollectionChange :: "collection_id \<Rightarrow> nat \<Rightarrow> 'v repo \<Rightarrow> 'v repo" where
  \<comment> \<open>the unsubscribe function the subscription returned\<close>
  "offCollectionChange c l R =
     (case map_of (rp_listeners R) c of
        None \<Rightarrow> R
      | Some ls \<Rightarrow>
          (let ls' = removeAll l ls
           in if ls' = [] then R\<lparr>rp_listeners := AList.delete c (rp_listeners R)\<rparr>
              else R\<lparr>rp_listeners := AList.update c ls' (rp_listeners R)\<rparr>))"

definition onAnyCollectionChange :: "nat \<Rightarrow> 'v repo \<Rightarrow> 'v repo" where
  "onAnyCollectionChange l R = R\<lparr>rp_any := set_add l (rp_any R)\<rparr>"

definition emitCollectionChanges :: "(collection_id \<times> block_id list) list \<Rightarrow> action_id \<Rightarrow> nat
    \<Rightarrow> block_id option \<Rightarrow> 'v repo \<Rightarrow> (nat \<times> change_event) list" where
  "emitCollectionChanges collectionBlocks a r tailId R =
     concat (map (\<lambda>(c, bs).
       (let ls = (case map_of (rp_listeners R) c of Some ls \<Rightarrow> ls | None \<Rightarrow> []);
            event = \<lparr>ce_collectionId = c, ce_blockIds = bs, ce_actionId = a, ce_rev = r, ce_tailId = tailId\<rparr>
        in map (\<lambda>l. (l, event)) ls @ map (\<lambda>l. (l, event)) (rp_any R))) collectionBlocks)"

record promotion =
  pm_collectionId :: collection_id
  pm_blockId :: block_id
  pm_actionId :: action_id
  pm_rev :: nat

definition add_landing :: "collection_id \<Rightarrow> block_id \<Rightarrow> (collection_id \<times> block_id list) list
    \<Rightarrow> (collection_id \<times> block_id list) list" where
  "add_landing c b m = AList.update c ((case map_of m c of Some bs \<Rightarrow> bs | None \<Rightarrow> []) @ [b]) m"

definition emitPromotions :: "promotion list \<Rightarrow> 'v repo \<Rightarrow> (nat \<times> change_event) list" where
  "emitPromotions ps R =
     concat (map (\<lambda>((a, r), items).
        emitCollectionChanges (fold (\<lambda>p. add_landing (pm_collectionId p) (pm_blockId p)) items []) a r None R)
      (groupBy ps (\<lambda>p. (pm_actionId p, pm_rev p))))"

section \<open>Committing one block\<close>

definition refuseMissingBase :: "block_id \<Rightarrow> action_id \<Rightarrow> nat \<Rightarrow> 'v block_state
    \<Rightarrow> (repo_error + 'r) \<times> 'v block_state" where
  "refuseMissingBase b a r s = (Inl (MissingBaseRevision b r), bs_deletePending a s)"

definition readCommitBase :: "'v block_storage \<Rightarrow> block_id \<Rightarrow> action_id \<Rightarrow> nat \<Rightarrow> action_rev option
    \<Rightarrow> 'v block_state \<Rightarrow> (repo_error + 'v block option) \<times> 'v block_state" where
  "readCommitBase C b a r l s =
     (case l of
        None \<Rightarrow> (Inr None, s)
      | Some l' \<Rightarrow>
          (case getBlock C (Some (ar_rev l')) s of
             (Inl e, s') \<Rightarrow> refuseMissingBase b a r s'
           | (Inr res, s') \<Rightarrow> (Inr (map_option fst res), s')))"

definition internalCommit_write :: "'v block_storage \<Rightarrow> action_id \<Rightarrow> nat \<Rightarrow> action_rev option
    \<Rightarrow> 'v block option \<Rightarrow> 'v block_state \<Rightarrow> (repo_error + unit) \<times> 'v block_state" where
  \<comment> \<open>the durable writes of \<open>internalCommit\<close>, in their order\<close>
  "internalCommit_write C a r l newBlock s =
     (let s1 = (case newBlock of Some blk \<Rightarrow> bs_saveMaterialized a (Some blk) s | None \<Rightarrow> s);
          s2 = bs_saveRevision r a s1
      in case bs_promote a s2 of
           Inl e \<Rightarrow> (Inl (Other e), s2)
         | Inr s3 \<Rightarrow>
             (case setLatest \<lparr>ar_actionId = a, ar_rev = r\<rparr> s3 of
                (Inl e, s4) \<Rightarrow> (Inl (Other e), s4)
              | (Inr _, s4) \<Rightarrow>
                  (Inr (), case l of Some l' \<Rightarrow> pruneSupersededMaterialization C l' s4 | None \<Rightarrow> s4)))"

definition internalCommit :: "'v block_storage \<Rightarrow> block_id \<Rightarrow> action_id \<Rightarrow> nat \<Rightarrow> 'v block_state
    \<Rightarrow> (repo_error + collection_id option) \<times> 'v block_state" where
  "internalCommit C b a r s =
     (case map_of (bs_pending s) a of
        None \<Rightarrow> (Inl (Other (Err ''Consistency Error'')), s)
      | Some t \<Rightarrow>
          (let l = getLatest s
           in case readCommitBase C b a r l s of
                (Inl e, s1) \<Rightarrow> (Inl e, s1)
              | (Inr priorBlock, s1) \<Rightarrow>
                  (case applyTransform priorBlock t of
                     Inl e \<Rightarrow> (Inl (Other e), s1)
                   | Inr newBlock \<Rightarrow>
                       if newBlock = None \<and> l = None then refuseMissingBase b a r s1
                       else (case internalCommit_write C a r l newBlock s1 of
                               (Inl e, s2) \<Rightarrow> (Inl e, s2)
                             | (Inr _, s2) \<Rightarrow>
                                 (Inr (case newBlock of
                                         Some blk \<Rightarrow> Some (hdr_collectionId (header blk))
                                       | None \<Rightarrow> map_option (\<lambda>blk. hdr_collectionId (header blk)) priorBlock),
                                  s2)))))"

section \<open>get\<close>

record action_context =
  cx_committed :: "action_rev list"
  cx_rev :: nat
  cx_actionId :: "action_id option"

record 'v get_result =
  gr_block :: "'v block option"
  gr_latest :: "action_rev option"
  gr_pendings :: "action_id list option"
  gr_materializedRev :: "nat option"
  gr_unavailable :: bool

definition unavailable_result :: "'v get_result" where
  \<comment> \<open>\<open>state: {}, unavailable: 'unmaterializable'\<close>\<close>
  "unavailable_result = \<lparr>gr_block = None, gr_latest = None, gr_pendings = None,
     gr_materializedRev = None, gr_unavailable = True\<rparr>"

definition ahead_of :: "action_rev option \<Rightarrow> action_rev list \<Rightarrow> action_rev list" where
  "ahead_of l committed = (case l of None \<Rightarrow> committed
     | Some l' \<Rightarrow> filter (\<lambda>c. ar_rev c > ar_rev l') committed)"

fun promote_loop :: "'v block_storage \<Rightarrow> block_id \<Rightarrow> action_rev list \<Rightarrow> promotion list \<Rightarrow> 'v block_state
    \<Rightarrow> (repo_error + unit) \<times> promotion list \<times> 'v block_state" where
  "promote_loop C b [] ps s = (Inr (), ps, s)"
| "promote_loop C b (c # cs) ps s =
     (if map_of (bs_pending s) (ar_actionId c) = None then promote_loop C b cs ps s
      else case internalCommit C b (ar_actionId c) (ar_rev c) s of
             (Inl e, s') \<Rightarrow> (Inl e, ps, s')
           | (Inr oc, s') \<Rightarrow>
               promote_loop C b cs
                 (case oc of
                    Some coll \<Rightarrow> ps @ [\<lparr>pm_collectionId = coll, pm_blockId = b,
                                      pm_actionId = ar_actionId c, pm_rev = ar_rev c\<rparr>]
                  | None \<Rightarrow> ps) s')"

definition promote_context :: "'v block_storage \<Rightarrow> block_id \<Rightarrow> action_context option \<Rightarrow> 'v block_state
    \<Rightarrow> (repo_error + bool) \<times> promotion list \<times> 'v block_state" where
  \<comment> \<open>the read-driven promotion; the flag is \<open>unavailable\<close>\<close>
  "promote_context C b ctx s =
     (case ctx of
        None \<Rightarrow> (Inr False, [], s)
      | Some cx \<Rightarrow>
          (let missing = ahead_of (getLatest s) (cx_committed cx)
           in if missing = [] then (Inr False, [], s)
              else case promote_loop C b (sort_key ar_rev missing) [] s of
                     (Inr _, ps, s') \<Rightarrow> (Inr False, ps, s')
                   | (Inl (MissingBaseRevision _ _), ps, s') \<Rightarrow> (Inr True, ps, s')
                   | (Inl (Other e), ps, s') \<Rightarrow> (Inl (Other e), ps, s')))"

definition get_one :: "'v block_storage \<Rightarrow> block_id \<Rightarrow> action_context option \<Rightarrow> 'v block_state
    \<Rightarrow> (repo_error + 'v get_result) \<times> promotion list \<times> 'v block_state" where
  "get_one C b ctx s =
     (case promote_context C b ctx s of
        (Inl e, ps, s1) \<Rightarrow> (Inl e, ps, s1)
      | (Inr unavailable, ps, s1) \<Rightarrow>
          (case getBlock C (map_option cx_rev ctx) s1 of
             (Inl e, s2) \<Rightarrow> (Inr unavailable_result, ps, s2)
           | (Inr blockRev, s2) \<Rightarrow>
               (case Option.bind ctx cx_actionId of
                  Some a \<Rightarrow>
                    (case map_of (bs_pending s2) a of
                       None \<Rightarrow>
                         if unavailable then (Inr unavailable_result, ps, s2)
                         else (Inl (Other (Err ''Pending action not found'')), ps, s2)
                     | Some t \<Rightarrow>
                         (case applyTransform (map_option fst blockRev) t of
                            Inl e \<Rightarrow> (Inl (Other e), ps, s2)
                          | Inr blk \<Rightarrow>
                              (Inr \<lparr>gr_block = blk, gr_latest = getLatest s2, gr_pendings = Some [a],
                                    gr_materializedRev = map_option (\<lambda>br. ar_rev (snd br)) blockRev,
                                    gr_unavailable = (blk = None \<and> (unavailable \<or> blockRev = None))\<rparr>, ps, s2)))
                | None \<Rightarrow>
                    (case blockRev of
                       None \<Rightarrow>
                         (Inr \<lparr>gr_block = None, gr_latest = None, gr_pendings = None,
                               gr_materializedRev = None, gr_unavailable = unavailable\<rparr>, ps, s2)
                     | Some (blk, ar) \<Rightarrow>
                         (Inr \<lparr>gr_block = Some blk, gr_latest = getLatest s2,
                               gr_pendings = Some (map fst (bs_pending s2)),
                               gr_materializedRev = Some (ar_rev ar), gr_unavailable = False\<rparr>, ps, s2)))))"

fun get_all :: "(block_id \<Rightarrow> 'v block_storage) \<Rightarrow> action_context option \<Rightarrow> block_id list
    \<Rightarrow> (block_id \<Rightarrow> 'v block_state)
    \<Rightarrow> (repo_error + (block_id \<times> 'v get_result) list) \<times> promotion list \<times> (block_id \<Rightarrow> 'v block_state)" where
  \<comment> \<open>every block is processed even when another one's promise rejects\<close>
  "get_all C ctx [] f = (Inr [], [], f)"
| "get_all C ctx (b # bs) f =
     (case get_one (C b) b ctx (f b) of
        (r, ps, s) \<Rightarrow>
          (case get_all C ctx bs (f(b := s)) of
             (rs, ps', f') \<Rightarrow> (ebind r (\<lambda>x. map_sum id (Cons (b, x)) rs), ps @ ps', f')))"

definition repo_get :: "(block_id \<Rightarrow> 'v block_storage) \<Rightarrow> block_id list \<Rightarrow> action_context option \<Rightarrow> 'v repo
    \<Rightarrow> (repo_error + (block_id \<times> 'v get_result) list) \<times> (nat \<times> change_event) list \<times> 'v repo" where
  "repo_get C blockIds ctx R =
     (case get_all C ctx (js_set blockIds) (rp_blocks R) of
        (Inl e, ps, f) \<Rightarrow> (Inl e, [], R\<lparr>rp_blocks := f\<rparr>)
      | (Inr rs, ps, f) \<Rightarrow> (Inr rs, emitPromotions ps R, R\<lparr>rp_blocks := f\<rparr>))"

section \<open>pend and cancel\<close>

datatype policy = Pol_c | Pol_f | Pol_r

record validation_result =
  vr_valid :: bool
  vr_reason :: "string option"

record ('v, 'x) pend_request =
  pr_actionId :: action_id
  pr_rev :: "nat option"
  pr_transforms :: "'v transforms"
  pr_policy :: policy
  pr_transaction :: "'x option"
  pr_operationsHash :: "string option"

datatype 'v pend_result =
    PendInvalid string
  | PendStale "'v action_transforms list" "stale_at option"
  | PendConflict "(block_id \<times> action_id) list"
  | PendConflictFull "(block_id \<times> action_id \<times> 'v transform option) list"
  | PendSuccess "(block_id \<times> action_id) list" "block_id list"

definition pend_missing :: "block_id \<Rightarrow> 'v block_state \<Rightarrow> action_rev list \<Rightarrow> error + 'v action_transforms list" where
  "pend_missing b s ars =
     efold (\<lambda>ar acc. case bs_transactions s (ar_actionId ar) of
              None \<Rightarrow> Inl (Err ''Missing action'')
            | Some t \<Rightarrow> Inr (acc @ [\<lparr>ats_actionId = ar_actionId ar, ats_rev = ar_rev ar,
                                    ats_transforms = transformsFromTransform t b\<rparr>])) ars []"

fun pend_scan :: "(block_id \<Rightarrow> 'v block_state) \<Rightarrow> ('v, 'x) pend_request \<Rightarrow> block_id list
    \<Rightarrow> (block_id \<times> action_id) list \<times> 'v action_transforms list \<times> stale_at option
    \<Rightarrow> error + (block_id \<times> action_id) list \<times> 'v action_transforms list \<times> stale_at option" where
  "pend_scan f rq [] acc = Inr acc"
| "pend_scan f rq (b # bs) (pendings, missing, staleAt) =
     (let s = f b;
          t = transformForBlockId (pr_transforms rq) b;
          pendings' = pendings @ map (\<lambda>(a, _). (b, a)) (bs_pending s);
          askedRev = (case pr_rev rq of Some r \<Rightarrow> r | None \<Rightarrow> 0)
      in case getLatest s of
           Some l \<Rightarrow>
             if (pr_rev rq \<noteq> None \<or> t_insert t \<noteq> None) \<and> ar_rev l \<ge> askedRev then
               (let staleAt' = (if pr_rev rq \<noteq> None
                                then highestStaleAt [staleAt, Some \<lparr>sa_blockId = b, sa_rev = ar_rev l\<rparr>]
                                else staleAt)
                in ebind (pend_missing b s (bs_listRevisions s askedRev (ar_rev l)))
                     (\<lambda>m. pend_scan f rq bs (pendings', missing @ m, staleAt')))
             else pend_scan f rq bs (pendings', missing, staleAt)
         | None \<Rightarrow> pend_scan f rq bs (pendings', missing, staleAt))"

definition repo_pend :: "('x \<Rightarrow> string \<Rightarrow> validation_result) option \<Rightarrow> ('v, 'x) pend_request
    \<Rightarrow> (block_id \<Rightarrow> 'v block_state) \<Rightarrow> (error + 'v pend_result) \<times> (block_id \<Rightarrow> 'v block_state)" where
  "repo_pend validatePend rq f =
     (let invalid = (case (validatePend, pr_transaction rq, pr_operationsHash rq) of
            (Some v, Some tx, Some h) \<Rightarrow>
              (if h = [] \<or> vr_valid (v tx h) then None
               else Some (case vr_reason (v tx h) of Some w \<Rightarrow> w | None \<Rightarrow> ''Transaction validation failed''))
          | _ \<Rightarrow> None);
          blockIds = blockIdsForTransforms (pr_transforms rq)
      in case invalid of
           Some w \<Rightarrow> (Inr (PendInvalid w), f)
         | None \<Rightarrow>
             (case pend_scan f rq blockIds ([], [], None) of
                Inl e \<Rightarrow> (Inl e, f)
              | Inr (pendings, missing, staleAt) \<Rightarrow>
                  if missing \<noteq> [] then (Inr (PendStale missing staleAt), f)
                  else if pendings \<noteq> [] \<and> pr_policy rq = Pol_f then (Inr (PendConflict pendings), f)
                  else if pendings \<noteq> [] \<and> pr_policy rq = Pol_r then
                    (Inr (PendConflictFull (map (\<lambda>(b, a).
                        (b, a, case map_of (bs_pending (f b)) a of
                                 Some t \<Rightarrow> Some t | None \<Rightarrow> bs_transactions (f b) a)) pendings)), f)
                  else (Inr (PendSuccess pendings blockIds),
                        fold (\<lambda>b f. f(b := st_savePendingTransaction (pr_actionId rq)
                                 (transformForBlockId (pr_transforms rq) b) (f b))) blockIds f)))"

definition repo_cancel :: "block_id list \<Rightarrow> action_id \<Rightarrow> (block_id \<Rightarrow> 'v block_state) \<Rightarrow> (block_id \<Rightarrow> 'v block_state)" where
  "repo_cancel bs a f = fold (\<lambda>b f. f(b := bs_deletePending a (f b))) bs f"

section \<open>commit\<close>

record commit_request =
  cr_blockIds :: "block_id list"
  cr_actionId :: action_id
  cr_rev :: nat
  cr_tailId :: block_id

datatype 'v commit_result =
    CommitSuccess
  | CommitStale "'v action_transforms list" "stale_at option"
  | CommitFailed repo_error

definition missed_transforms :: "'v block_state \<Rightarrow> action_rev list \<Rightarrow> error + 'v action_transform list" where
  "missed_transforms s ars =
     efold (\<lambda>ar acc. case bs_transactions s (ar_actionId ar) of
              None \<Rightarrow> Inl (Err ''Missing action'')
            | Some t \<Rightarrow> Inr (acc @ [\<lparr>at_actionId = ar_actionId ar, at_rev = ar_rev ar, at_transform = t\<rparr>])) ars []"

fun commit_partition :: "(block_id \<Rightarrow> 'v block_state) \<Rightarrow> commit_request \<Rightarrow> block_id list
    \<Rightarrow> block_id list \<times> (block_id \<times> 'v action_transform list) list \<times> stale_at option
    \<Rightarrow> error + block_id list \<times> (block_id \<times> 'v action_transform list) list \<times> stale_at option" where
  "commit_partition f rq [] acc = Inr acc"
| "commit_partition f rq (b # bs) (toCommit, missed, staleAt) =
     (case getLatest (f b) of
        Some l \<Rightarrow>
          if ar_rev l \<ge> cr_rev rq then
            (if ar_rev l = cr_rev rq \<and> ar_actionId l = cr_actionId rq
             then commit_partition f rq bs (toCommit, missed, staleAt)
             else ebind (missed_transforms (f b) (bs_listRevisions (f b) (cr_rev rq) (ar_rev l)))
                    (\<lambda>ts. commit_partition f rq bs
                       (toCommit, missed @ [(b, ts)],
                        highestStaleAt [staleAt, Some \<lparr>sa_blockId = b, sa_rev = ar_rev l\<rparr>])))
          else commit_partition f rq bs (toCommit @ [b], missed, staleAt)
      | None \<Rightarrow> commit_partition f rq bs (toCommit @ [b], missed, staleAt))"

fun commit_check :: "commit_request \<Rightarrow> block_id list \<Rightarrow> block_id list \<times> block_id list
    \<Rightarrow> (block_id \<Rightarrow> 'v block_state) \<Rightarrow> (block_id list \<times> block_id list) \<times> (block_id \<Rightarrow> 'v block_state)" where
  \<comment> \<open>the loop that fills \<open>missingPends\<close> and \<open>recovered\<close>\<close>
  "commit_check rq [] acc f = (acc, f)"
| "commit_check rq (b # bs) (missingPends, recovered) f =
     (if map_of (bs_pending (f b)) (cr_actionId rq) \<noteq> None
      then commit_check rq bs (missingPends, recovered) f
      else if bs_transactions (f b) (cr_actionId rq) = None
      then commit_check rq bs (missingPends @ [b], recovered) f
      else case recover (f b) of
             ((_, l), s) \<Rightarrow>
               (if (case l of Some l' \<Rightarrow> ar_rev l' \<ge> cr_rev rq | None \<Rightarrow> False)
                then commit_check rq bs (missingPends, set_add b recovered) (f(b := s))
                else commit_check rq bs (missingPends @ [b], recovered) (f(b := s))))"

definition dropUnpromotablePendings :: "block_id list \<Rightarrow> action_id \<Rightarrow> (block_id \<Rightarrow> 'v block_state)
    \<Rightarrow> (block_id \<Rightarrow> 'v block_state)" where
  "dropUnpromotablePendings bs a f = fold (\<lambda>b f. f(b := bs_deletePending a (f b))) bs f"

fun commit_recovered :: "(block_id \<Rightarrow> 'v block_storage) \<Rightarrow> nat \<Rightarrow> block_id list
    \<Rightarrow> (collection_id \<times> block_id list) list \<Rightarrow> (block_id \<Rightarrow> 'v block_state)
    \<Rightarrow> (error + (collection_id \<times> block_id list) list) \<times> (block_id \<Rightarrow> 'v block_state)" where
  \<comment> \<open>the collections of the recovered blocks\<close>
  "commit_recovered C r [] landed f = (Inr landed, f)"
| "commit_recovered C r (b # bs) landed f =
     (case getBlock (C b) (Some r) (f b) of
        (Inl e, s) \<Rightarrow> (Inl e, f(b := s))
      | (Inr (Some (blk, _)), s) \<Rightarrow>
          commit_recovered C r bs (add_landing (hdr_collectionId (header blk)) b landed) (f(b := s))
      | (Inr None, s) \<Rightarrow>
          (case getBlock (C b) (Some (r - 1)) s of
             (Inl e, s') \<Rightarrow> (Inl e, f(b := s'))
           | (Inr (Some (blk, _)), s') \<Rightarrow>
               commit_recovered C r bs (add_landing (hdr_collectionId (header blk)) b landed) (f(b := s'))
           | (Inr None, s') \<Rightarrow> commit_recovered C r bs landed (f(b := s'))))"

fun commit_loop :: "(block_id \<Rightarrow> 'v block_storage) \<Rightarrow> commit_request \<Rightarrow> block_id list
    \<Rightarrow> (collection_id \<times> block_id list) list \<Rightarrow> (block_id \<Rightarrow> 'v block_state)
    \<Rightarrow> repo_error option \<times> (collection_id \<times> block_id list) list \<times> (block_id \<Rightarrow> 'v block_state)" where
  "commit_loop C rq [] landed f = (None, landed, f)"
| "commit_loop C rq (b # bs) landed f =
     (case internalCommit (C b) b (cr_actionId rq) (cr_rev rq) (f b) of
        (Inl e, s) \<Rightarrow> (Some e, landed, f(b := s))
      | (Inr oc, s) \<Rightarrow>
          commit_loop C rq bs (case oc of Some c \<Rightarrow> add_landing c b landed | None \<Rightarrow> landed) (f(b := s)))"

definition commit_apply :: "(block_id \<Rightarrow> 'v block_storage) \<Rightarrow> commit_request \<Rightarrow> block_id list \<Rightarrow> block_id list
    \<Rightarrow> (block_id \<Rightarrow> 'v block_state)
    \<Rightarrow> (error + 'v commit_result) \<times> (collection_id \<times> block_id list) list \<times> (block_id \<Rightarrow> 'v block_state)" where
  \<comment> \<open>the part after the missing-pend check\<close>
  "commit_apply C rq toCommit recovered f =
     (case commit_recovered C (cr_rev rq) (filter (\<lambda>b. b \<in> set recovered) toCommit) [] f of
        (Inl e, f1) \<Rightarrow> (Inl e, [], f1)
      | (Inr landed, f1) \<Rightarrow>
          (case commit_loop C rq (filter (\<lambda>b. b \<notin> set recovered) toCommit) landed f1 of
             (None, landed', f2) \<Rightarrow> (Inr CommitSuccess, landed', f2)
           | (Some (MissingBaseRevision b r), landed', f2) \<Rightarrow>
               (Inr (CommitFailed (MissingBaseRevision b r)), landed',
                dropUnpromotablePendings toCommit (cr_actionId rq) f2)
           | (Some (Other e), landed', f2) \<Rightarrow> (Inr (CommitFailed (Other e)), landed', f2)))"

definition commit_blocks :: "(block_id \<Rightarrow> 'v block_storage) \<Rightarrow> commit_request \<Rightarrow> (block_id \<Rightarrow> 'v block_state)
    \<Rightarrow> (error + 'v commit_result) \<times> (collection_id \<times> block_id list) list \<times> (block_id \<Rightarrow> 'v block_state)" where
  \<comment> \<open>the critical section\<close>
  "commit_blocks C rq f =
     (case commit_partition f rq (cr_blockIds rq) ([], [], None) of
        Inl e \<Rightarrow> (Inl e, [], f)
      | Inr (toCommit, missed, staleAt) \<Rightarrow>
          if missed \<noteq> [] then
            (Inr (CommitStale (perBlockActionTransformsToPerAction missed) staleAt), [], f)
          else (case commit_check rq toCommit ([], []) f of
                  ((missingPends, recovered), f1) \<Rightarrow>
                    if missingPends \<noteq> [] then
                      (Inl (Err ''Pending action not found for block(s)''), [],
                       dropUnpromotablePendings toCommit (cr_actionId rq) f1)
                    else commit_apply C rq toCommit recovered f1))"

definition repo_commit :: "(block_id \<Rightarrow> 'v block_storage) \<Rightarrow> commit_request \<Rightarrow> 'v repo
    \<Rightarrow> (error + 'v commit_result) \<times> (nat \<times> change_event) list \<times> 'v repo" where
  "repo_commit C rq R =
     (case commit_blocks C rq (rp_blocks R) of
        (Inl e, landed, f) \<Rightarrow> (Inl e, [], R\<lparr>rp_blocks := f\<rparr>)
      | (Inr res, landed, f) \<Rightarrow>
          (Inr res,
           (case res of
              CommitStale _ _ \<Rightarrow> []
            | _ \<Rightarrow> emitCollectionChanges landed (cr_actionId rq) (cr_rev rq) (Some (cr_tailId rq)) R),
           R\<lparr>rp_blocks := f\<rparr>))"

section \<open>Recovery and replication\<close>

definition recoverBlock :: "block_id \<Rightarrow> 'v repo \<Rightarrow> 'v repo" where
  "recoverBlock b R = R\<lparr>rp_blocks := (rp_blocks R)(b := snd (recover (rp_blocks R b)))\<rparr>"

definition saveReplicatedBlock :: "(block_id \<Rightarrow> 'v block_storage) \<Rightarrow> block_id \<Rightarrow> 'v block \<Rightarrow> action_rev option
    \<Rightarrow> 'v repo \<Rightarrow> (nat \<times> change_event) list \<times> 'v repo" where
  "saveReplicatedBlock C b blk source R =
     (let s = rp_blocks R b;
          priorLatest = getLatest s;
          (effective, s') = saveReplica (C b) blk source s;
          advanced = (case priorLatest of None \<Rightarrow> True | Some l \<Rightarrow> ar_rev effective > ar_rev l)
      in (if advanced
          then emitCollectionChanges [(hdr_collectionId (header blk), [b])] (ar_actionId effective)
                 (ar_rev effective) None R
          else [],
          R\<lparr>rp_blocks := (rp_blocks R)(b := s')\<rparr>))"

section \<open>A commit extends the history\<close>

definition block_ok :: "'v block_state \<Rightarrow> nat \<Rightarrow> action_rev \<Rightarrow> bool" where
  \<comment> \<open>a block with committed revisions from \<open>lo\<close> to \<open>latest\<close>, all of them readable\<close>
  "block_ok s lo l \<longleftrightarrow>
     bs_meta s = Some \<lparr>ranges = [(lo, RNone)], latest = Some l\<rparr>
     \<and> hist_ok s lo (ar_rev l)
     \<and> map_of (bs_revisions s) (ar_rev l) = Some (ar_actionId l)
     \<and> (\<forall>r > ar_rev l. map_of (bs_revisions s) r = None)"

definition fresh_action :: "action_id \<Rightarrow> 'v block_state \<Rightarrow> bool" where
  "fresh_action a s \<longleftrightarrow> a \<notin> snd ` set (bs_revisions s) \<and> bs_materialized s a = None"

lemma setLatest_ok:
  assumes "bs_meta s = Some \<lparr>ranges = [(lo, RNone)], latest = Some l\<rparr>" and "lo \<le> ar_rev l"
  shows "setLatest l' s = (Inr (), s\<lparr>bs_meta := Some \<lparr>ranges = [(lo, RNone)], latest = Some l'\<rparr>\<rparr>)"
proof -
  have "mergeRanges [(ar_rev l, RNone), (lo, RNone)] = [(lo, RNone)]"
    using assms(2) by (cases "lo = ar_rev l") (simp_all add: mergeRanges_def)
  then show ?thesis
    using assms(1) by (simp add: setLatest_def Let_def bs_saveMetadata_def decode_encode_meta_def)
qed

lemma internalCommit_write_state:
  assumes "bs_meta s = Some \<lparr>ranges = [(lo, RNone)], latest = Some l\<rparr>" and "lo \<le> ar_rev l"
    and "map_of (bs_pending s) a = Some t"
  shows "internalCommit_write C a r (Some l) nb s = (Inr (), pruneSupersededMaterialization C l
     \<lparr>bs_meta = Some \<lparr>ranges = [(lo, RNone)], latest = Some \<lparr>ar_actionId = a, ar_rev = r\<rparr>\<rparr>,
      bs_revisions = AList.update r a (bs_revisions s),
      bs_pending = AList.delete a (bs_pending s),
      bs_transactions = (bs_transactions s)(a \<mapsto> t),
      bs_materialized = (case nb of Some b \<Rightarrow> (bs_materialized s)(a \<mapsto> b) | None \<Rightarrow> bs_materialized s)\<rparr>)"
proof -
  define s1 where "s1 = (case nb of Some b \<Rightarrow> bs_saveMaterialized a (Some b) s | None \<Rightarrow> s)"
  define s3 where "s3 = bs_deletePending a (bs_saveTransaction a t (bs_saveRevision r a s1))"
  have p: "bs_promote a (bs_saveRevision r a s1) = Inr s3"
    using assms(3) by (simp add: s1_def s3_def bs_promote_def bs_saveRevision_def bs_saveMaterialized_def split: option.splits)
  have m: "bs_meta s3 = Some \<lparr>ranges = [(lo, RNone)], latest = Some l\<rparr>"
    using assms(1) by (simp add: s1_def s3_def bs_defs split: option.splits)
  have "s3\<lparr>bs_meta := M\<rparr> = \<lparr>bs_meta = M, bs_revisions = AList.update r a (bs_revisions s),
      bs_pending = AList.delete a (bs_pending s), bs_transactions = (bs_transactions s)(a \<mapsto> t),
      bs_materialized = (case nb of Some b \<Rightarrow> (bs_materialized s)(a \<mapsto> b) | None \<Rightarrow> bs_materialized s)\<rparr>" for M
    by (cases s; cases nb) (simp_all add: s3_def s1_def bs_saveMaterialized_def bs_saveRevision_def
        bs_saveTransaction_def bs_deletePending_def)
  then show ?thesis
    using p setLatest_ok [OF m assms(2)] unfolding internalCommit_write_def Let_def s1_def [symmetric]
    by simp
qed

lemma map_of_update_action:
  assumes "a \<notin> snd ` set al"
  shows "map_of (AList.update r a al) r' = Some a \<longleftrightarrow> r' = r"
  using assms by (auto dest: map_of_SomeD intro: rev_image_eqI)

lemma hist_ok_append:
  assumes h: "hist_ok s lo tip" and above: "\<forall>i > tip. map_of (bs_revisions s) i = None"
    and r: "tip < r" and fresh: "fresh_action a s"
    and rev: "bs_revisions s' = AList.update r a (bs_revisions s)"
    and tr: "bs_transactions s' = (bs_transactions s)(a \<mapsto> t)"
    and mt: "bs_materialized s' = (case nb of Some b \<Rightarrow> (bs_materialized s)(a \<mapsto> b) | None \<Rightarrow> bs_materialized s)"
    and base: "ref_read s lo tip = Inr prior" "applyTransform prior t = Inr nb"
  shows "hist_ok s' lo r \<and> ref_read s' lo r = Inr nb \<and> (\<forall>i. lo \<le> i \<and> i < r \<longrightarrow> ref_read s' lo i = ref_read s lo i)"
proof -
  obtain a0 b0 where ab: "map_of (bs_revisions s) lo = Some a0" "bs_materialized s a0 = Some b0"
    using h by (rule hist_ok_floor)
  have lo: "1 \<le> lo" "lo \<le> tip" using h by (simp_all add: hist_ok_def)
  have old: "map_of (bs_revisions s') i = map_of (bs_revisions s) i" if "i \<noteq> r" for i
    using that by (simp add: rev)
  have new: "map_of (bs_revisions s') r = Some a" by (simp add: rev)
  have ne: "c \<noteq> a" if "map_of (bs_revisions s) i = Some c" for i c
    using fresh map_of_SomeD [OF that] by (auto simp: fresh_action_def intro: rev_image_eqI)
  have mold: "bs_materialized s' c = bs_materialized s c" if "c \<noteq> a" for c
    using that by (simp add: mt split: option.splits)
  have mnew: "bs_materialized s' a = nb"
    using fresh by (simp add: mt fresh_action_def split: option.splits)
  have reads: "ref_read s' lo i = ref_read s lo i" if "lo \<le> i" "i < r" for i
    by (rule ref_read_cong [OF _ ab(1)]) (use that old ne mold ab tr in auto)
  have "picks s' [lo..<Suc r] = picks s' [lo..<Suc (r - 1)] @ [\<lparr>ar_actionId = a, ar_rev = r\<rparr>]"
    using picks_split [of lo r "Suc r" s'] picks_upto_cons [OF new order_refl] lo r by simp
  moreover have "picks s' [lo..<Suc (r - 1)] \<noteq> []"
    using picks_upto_cons [of s' lo a0 "r - 1"] old [of lo] ab(1) lo r by simp
  ultimately have "ref_read s' lo r = ebind (ref_read s' lo (r - 1)) (replay s' [\<lparr>ar_actionId = a, ar_rev = r\<rparr>])"
    using ref_list_append by (simp add: ref_read_def)
  moreover have "ref_read s' lo (r - 1) = Inr prior"
    using reads [of "r - 1"] ref_read_above(1) [OF above lo(2), of "r - 1"] base(1) lo r by simp
  ultimately have rr: "ref_read s' lo r = Inr nb"
    using base(2) by (simp add: tr)
  have "hist_ok s' lo r"
    unfolding hist_ok_def
  proof (intro conjI ballI allI impI)
    show "\<exists>c b. map_of (bs_revisions s') lo = Some c \<and> bs_materialized s' c = Some b"
      using ab ne [OF ab(1)] mold old [of lo] lo r by auto
  next
    fix i j c assume ij: "i \<in> {lo..r}" "j \<in> {lo..r}"
      and c: "map_of (bs_revisions s') i = Some c \<and> map_of (bs_revisions s') j = Some c"
    have le: "k \<le> tip" if "k \<noteq> r" "map_of (bs_revisions s') k = Some c" for k
      using above old [OF that(1)] that(2) by (metis not_le option.discI)
    show "i = j"
    proof (cases "i = r \<or> j = r")
      case True
      then show ?thesis using c new old ne by (metis option.inject)
    next
      case False
      then show ?thesis using hist_ok_inj [OF h, of i c j] c old le ij by simp
    qed
  next
    fix i c assume i: "i \<in> {lo<..r}" and c: "map_of (bs_revisions s') i = Some c"
    have cs: "i = r \<and> c = a \<or> i \<noteq> r \<and> i \<le> tip \<and> map_of (bs_revisions s) i = Some c"
      using c new old [of i] above by (metis not_le option.discI option.inject)
    show "bs_transactions s' c \<noteq> None"
      using cs hist_ok_rev(1) [OF h, of i c] i by (auto simp: tr)
    show "\<exists>x. ref_read s' lo i = Inr x \<and> (\<forall>b. bs_materialized s' c = Some b \<longrightarrow> x = Some b)"
      using cs
    proof
      assume "i \<noteq> r \<and> i \<le> tip \<and> map_of (bs_revisions s) i = Some c"
      then show ?thesis
        using hist_ok_rev(2) [OF h, of i c] reads [of i] mold [OF ne, of i c] i r by auto
    qed (use rr mnew in auto)
  qed (use lo r in auto)
  with rr reads show ?thesis by simp
qed

lemma covers_open [simp]: "covers (lo, RNone) t \<longleftrightarrow> lo \<le> t"
  by (simp add: covers_def)

lemma getBlock_ok:
  assumes "block_ok s lo l" and "lo \<le> t"
  shows "\<exists>x s'. getBlock C (Some t) s = (Inr x, s') \<and> ref_read s lo t = Inr (map_option fst x)
    \<and> (\<forall>blk ar. x = Some (blk, ar) \<longrightarrow> ar = last (picks s [lo..<Suc t]))
    \<and> block_ok s' lo l \<and> bs_pending s' = bs_pending s \<and> bs_revisions s' = bs_revisions s
    \<and> bs_transactions s' = bs_transactions s
    \<and> (\<forall>a. a \<notin> snd ` set (bs_revisions s) \<longrightarrow> bs_materialized s' a = bs_materialized s a)
    \<and> (\<forall>t' \<ge> lo. ref_read s' lo t' = ref_read s lo t')"
proof -
  have b: "hist_ok s lo (ar_rev l)" "\<forall>r > ar_rev l. map_of (bs_revisions s) r = None"
    "bs_meta s = Some \<lparr>ranges = [(lo, RNone)], latest = Some l\<rparr>"
    using assms(1) by (auto simp: block_ok_def)
  from getBlock_history [OF b, of t C] assms obtain x s' where
    "getBlock C (Some t) s = (Inr x, s')" "ref_read s lo t = Inr (map_option fst x)"
    "\<forall>blk ar. x = Some (blk, ar) \<longrightarrow> ar = last (picks s [lo..<Suc t])"
    "hist_ok s' lo (ar_rev l)" "bs_meta s' = bs_meta s" "bs_revisions s' = bs_revisions s"
    "bs_pending s' = bs_pending s" "bs_transactions s' = bs_transactions s"
    "\<forall>a. a \<notin> snd ` set (bs_revisions s) \<longrightarrow> bs_materialized s' a = bs_materialized s a"
    "\<forall>t' \<ge> lo. ref_read s' lo t' = ref_read s lo t'" by auto
  then show ?thesis using assms(1) by (auto simp: block_ok_def)
qed

lemma getBlock_agree:
  assumes "block_ok s lo l" "block_ok s' lo l'" "lo \<le> t"
    and "ref_read s' lo t = ref_read s lo t" "picks s' [lo..<Suc t] = picks s [lo..<Suc t]"
  shows "fst (getBlock C (Some t) s') = fst (getBlock C (Some t) s)"
proof -
  obtain x where x: "fst (getBlock C (Some t) s) = Inr x" "ref_read s lo t = Inr (map_option fst x)"
    "\<forall>blk ar. x = Some (blk, ar) \<longrightarrow> ar = last (picks s [lo..<Suc t])"
    using getBlock_ok [OF assms(1,3), of C] by auto
  obtain x' where x': "fst (getBlock C (Some t) s') = Inr x'" "ref_read s' lo t = Inr (map_option fst x')"
    "\<forall>blk ar. x' = Some (blk, ar) \<longrightarrow> ar = last (picks s' [lo..<Suc t])"
    using getBlock_ok [OF assms(2,3), of C] by auto
  have "map_option fst x' = map_option fst x" using x(2) x'(2) assms(4) by simp
  then show ?thesis using x x' assms(5) by (cases x; cases x') auto
qed

lemma internalCommit_extends:
  assumes ok: "block_ok s lo l" and p: "map_of (bs_pending s) a = Some t" and fr: "fresh_action a s"
    and r: "ar_rev l < r" and base: "ref_read s lo (ar_rev l) = Inr prior" and nb: "applyTransform prior t = Inr nb"
  shows "\<exists>c s'. internalCommit C b a r s = (Inr c, s') \<and> block_ok s' lo \<lparr>ar_actionId = a, ar_rev = r\<rparr>
    \<and> map_of (bs_pending s') a = None \<and> ref_read s' lo r = Inr nb
    \<and> (\<forall>i. lo \<le> i \<and> i < r \<longrightarrow> ref_read s' lo i = ref_read s lo i \<and> picks s' [lo..<Suc i] = picks s [lo..<Suc i])"
proof -
  let ?l = "\<lparr>ar_actionId = a, ar_rev = r\<rparr>"
  have lo: "lo \<le> ar_rev l" using ok by (simp add: block_ok_def hist_ok_def)
  obtain x s1 where g: "getBlock C (Some (ar_rev l)) s = (Inr x, s1)" "ref_read s lo (ar_rev l) = Inr (map_option fst x)"
    "block_ok s1 lo l" "bs_pending s1 = bs_pending s" "bs_revisions s1 = bs_revisions s"
    "bs_materialized s1 a = bs_materialized s a" "\<forall>t' \<ge> lo. ref_read s1 lo t' = ref_read s lo t'"
    using getBlock_ok [OF ok lo, of C] fr by (auto simp: fresh_action_def)
  have x: "map_option fst x = prior" using g(2) base by simp
  have fr1: "fresh_action a s1" using fr g by (simp add: fresh_action_def)
  have m1: "bs_meta s1 = Some \<lparr>ranges = [(lo, RNone)], latest = Some l\<rparr>" using g(3) by (simp add: block_ok_def)
  define s2 where "s2 = \<lparr>bs_meta = Some \<lparr>ranges = [(lo, RNone)], latest = Some ?l\<rparr>,
      bs_revisions = AList.update r a (bs_revisions s1), bs_pending = AList.delete a (bs_pending s1),
      bs_transactions = (bs_transactions s1)(a \<mapsto> t),
      bs_materialized = (case nb of Some b \<Rightarrow> (bs_materialized s1)(a \<mapsto> b) | None \<Rightarrow> bs_materialized s1)\<rparr>"
  have w: "internalCommit_write C a r (Some l) nb s1 = (Inr (), pruneSupersededMaterialization C l s2)"
    using internalCommit_write_state [OF m1 lo, of a t] p g(4) by (simp add: s2_def)
  have h2: "hist_ok s2 lo r" "ref_read s2 lo r = Inr nb"
    and reads: "\<And>i. lo \<le> i \<Longrightarrow> i < r \<Longrightarrow> ref_read s2 lo i = ref_read s1 lo i"
    using hist_ok_append [of s1 lo "ar_rev l" r a s2 t nb prior] g fr1 r base nb lo
    by (auto simp: s2_def block_ok_def)
  define s3 where "s3 = pruneSupersededMaterialization C l s2"
  have latest2: "bs_meta s2 = Some \<lparr>ranges = [(lo, RNone)], latest = Some ?l\<rparr>" by (simp add: s2_def)
  have fl: "rangeFloorOf (ar_rev ?l) [(lo, RNone)] = lo" using lo r by simp
  have pl: "map_of (bs_revisions s2) (ar_rev l) = Some (ar_actionId l)"
    using g(3) r by (simp add: s2_def block_ok_def)
  have pr: "hist_ok s3 lo r" "\<And>i. lo \<le> i \<Longrightarrow> i \<le> r \<Longrightarrow> ref_read s3 lo i = ref_read s2 lo i"
    "bs_revisions s3 = bs_revisions s2" "bs_meta s3 = bs_meta s2"
    using prune_history [OF h2(1) latest2, of ?l l C] fl pl lo r by (auto simp: s3_def)
  have pend3: "bs_pending s3 = bs_pending s2"
    by (simp add: s3_def pruneSupersededMaterialization_def bs_saveMaterialized_def split: option.splits)
  have ok3: "block_ok s3 lo ?l"
    using pr g(3) r by (auto simp: block_ok_def s2_def)
  have "picks s3 [lo..<Suc i] = picks s [lo..<Suc i]" if "i < r" for i
  proof -
    have "\<forall>j \<in> set [lo..<Suc i]. map_of (bs_revisions s3) j = map_of (bs_revisions s) j"
      using that pr(3) g(5) by (auto simp: s2_def)
    then show ?thesis by (rule picks_cong)
  qed
  moreover have "internalCommit C b a r s = (Inr (case nb of Some blk \<Rightarrow> Some (hdr_collectionId (header blk))
      | None \<Rightarrow> map_option (\<lambda>blk. hdr_collectionId (header blk)) prior), s3)"
    using p g(1) ok nb x w by (simp add: internalCommit_def getLatest_def block_ok_def readCommitBase_def s3_def)
  ultimately show ?thesis
    using ok3 h2 reads pr g(7) lo r pend3 by (auto simp: s2_def)
qed

lemma internalCommit_opens:
  assumes "bs_meta s = Some no_meta" and "bs_revisions s = []" and "bs_materialized s a = None"
    and "map_of (bs_pending s) a = Some t" and "applyTransform None t = Inr (Some blk)" and "1 \<le> r"
  shows "\<exists>s'. internalCommit C b a r s = (Inr (Some (hdr_collectionId (header blk))), s')
    \<and> block_ok s' r \<lparr>ar_actionId = a, ar_rev = r\<rparr> \<and> map_of (bs_pending s') a = None
    \<and> ref_read s' r r = Inr (Some blk)"
proof -
  define s' where "s' = \<lparr>bs_meta = Some \<lparr>ranges = [(r, RNone)], latest = Some \<lparr>ar_actionId = a, ar_rev = r\<rparr>\<rparr>,
      bs_revisions = [(r, a)], bs_pending = AList.delete a (bs_pending s),
      bs_transactions = (bs_transactions s)(a \<mapsto> t), bs_materialized = (bs_materialized s)(a \<mapsto> blk)\<rparr>"
  have "internalCommit C b a r s = (Inr (Some (hdr_collectionId (header blk))), s')"
    using assms by (cases s)
      (simp add: internalCommit_def getLatest_def readCommitBase_def internalCommit_write_def Let_def
        bs_defs setLatest_def mergeRanges_def decode_encode_meta_def s'_def)
  moreover have "ref_read s' r r = Inr (Some blk)"
    by (simp add: ref_read_def s'_def upt_Suc)
  moreover have "hist_ok s' r r"
    using assms(6) by (auto simp: hist_ok_def s'_def)
  ultimately show ?thesis by (auto simp: block_ok_def s'_def)
qed

section \<open>Properties of a commit on one block\<close>


lemma sample_block_ok: "block_ok sample_state 1 \<lparr>ar_actionId = ''t4'', ar_rev = 4\<rparr>"
  using sample_hist_ok sample_above sample_meta(1) by (simp add: block_ok_def) (simp add: sample_state_def)


section \<open>The partition of a commit batch\<close>

definition done_block :: "(block_id \<Rightarrow> 'v block_state) \<Rightarrow> commit_request \<Rightarrow> block_id \<Rightarrow> bool" where
  "done_block f rq b \<longleftrightarrow> getLatest (f b) = Some \<lparr>ar_actionId = cr_actionId rq, ar_rev = cr_rev rq\<rparr>"

definition stale_block :: "(block_id \<Rightarrow> 'v block_state) \<Rightarrow> commit_request \<Rightarrow> block_id \<Rightarrow> bool" where
  "stale_block f rq b \<longleftrightarrow> (\<exists>l. getLatest (f b) = Some l \<and> cr_rev rq \<le> ar_rev l) \<and> \<not> done_block f rq b"

lemma latest_rev_Some: "getLatest s = Some l \<Longrightarrow> latest_rev s = ar_rev l"
  by (simp add: latest_rev_def)

lemma action_rev_eq: "l = \<lparr>ar_actionId = a, ar_rev = r\<rparr> \<longleftrightarrow> ar_rev l = r \<and> ar_actionId l = a" for l :: action_rev
  by (cases l) auto

lemma highestStaleAt_pair:
  "highestStaleAt [x, Some c] = Some (case x of None \<Rightarrow> c | Some b \<Rightarrow> if sa_rev c > sa_rev b then c else b)"
  by (cases x) (auto simp: highestStaleAt_def)

lemma highestStaleAt_fold:
  assumes "foldl (\<lambda>x c. highestStaleAt [x, Some c]) best cs = res"
  shows "(best \<noteq> None \<or> cs \<noteq> [] \<longrightarrow> res \<noteq> None)
    \<and> (\<forall>x. res = Some x \<longrightarrow> (best = Some x \<or> x \<in> set cs) \<and> (\<forall>y. best = Some y \<or> y \<in> set cs \<longrightarrow> sa_rev y \<le> sa_rev x))"
  using assms
proof (induction cs arbitrary: best)
  case (Cons c cs)
  show ?case
    using Cons.IH [of "highestStaleAt [best, Some c]"] Cons.prems
    by (cases best) (auto simp: highestStaleAt_pair split: if_splits; force)+
qed auto

lemma commit_partition_result:
  assumes "commit_partition f rq bs (tc, ms, sa) = Inr (tc', ms', sa')"
  shows "tc' = tc @ filter (\<lambda>b. \<not> stale_block f rq b \<and> \<not> done_block f rq b) bs
    \<and> map fst ms' = map fst ms @ filter (stale_block f rq) bs
    \<and> sa' = foldl (\<lambda>x c. highestStaleAt [x, Some c]) sa
        (map (\<lambda>b. \<lparr>sa_blockId = b, sa_rev = latest_rev (f b)\<rparr>) (filter (stale_block f rq) bs))"
  using assms
proof (induction bs arbitrary: tc ms sa)
  case (Cons b bs)
  consider (new) "\<not> stale_block f rq b" "\<not> done_block f rq b"
    | (fin) "done_block f rq b" | (stale) l where "stale_block f rq b" "getLatest (f b) = Some l" "cr_rev rq \<le> ar_rev l"
    by (auto simp: stale_block_def)
  then show ?case
  proof cases
    case new
    then have "commit_partition f rq (b # bs) (tc, ms, sa) = commit_partition f rq bs (tc @ [b], ms, sa)"
      by (auto simp: stale_block_def split: option.splits)
    with Cons.prems have "commit_partition f rq bs (tc @ [b], ms, sa) = Inr (tc', ms', sa')" by (simp only:)
    from Cons.IH [OF this] show ?thesis using new by simp
  next
    case fin
    then have "\<not> stale_block f rq b" by (simp add: stale_block_def)
    moreover have "commit_partition f rq (b # bs) (tc, ms, sa) = commit_partition f rq bs (tc, ms, sa)"
      using fin by (simp add: done_block_def)
    ultimately show ?thesis using Cons.IH [of tc ms sa] Cons.prems fin by simp
  next
    case stale
    have nd: "\<not> done_block f rq b" using stale by (simp add: stale_block_def)
    then have ne: "\<not> (ar_rev l = cr_rev rq \<and> ar_actionId l = cr_actionId rq)"
      using stale(2) by (auto simp: done_block_def action_rev_eq)
    obtain ts where ts: "commit_partition f rq bs (tc, ms @ [(b, ts)],
        highestStaleAt [sa, Some \<lparr>sa_blockId = b, sa_rev = latest_rev (f b)\<rparr>]) = Inr (tc', ms', sa')"
      using Cons.prems stale(2,3) ne latest_rev_Some [OF stale(2)] by (auto simp: ebind_Inr_iff)
    from Cons.IH [OF ts] show ?thesis using stale(1) nd by simp
  qed
qed auto

text \<open>C4. A commit that lost the race writes nothing: when some block of the batch already holds a
  revision at or past the requested one under another action, no block changes, no event is
  delivered, the result is a stale failure (or the report of a corrupt log), and the reported
  \<open>staleAt\<close> is the highest revision any of the lost blocks holds.\<close>

theorem stale_commit_writes_nothing:
  assumes "b \<in> set (cr_blockIds rq)" and "getLatest (rp_blocks R b) = Some l" and "cr_rev rq \<le> ar_rev l"
    and "l \<noteq> \<lparr>ar_actionId = cr_actionId rq, ar_rev = cr_rev rq\<rparr>"
  shows "\<exists>res. repo_commit C rq R = (res, [], R)
    \<and> (res = Inl (Err ''Missing action'')
       \<or> (\<exists>missing sa. res = Inr (CommitStale missing (Some sa))
            \<and> sa_blockId sa \<in> set (cr_blockIds rq) \<and> sa_rev sa = latest_rev (rp_blocks R (sa_blockId sa))
            \<and> ar_rev l \<le> sa_rev sa))"
proof -
  let ?f = "rp_blocks R"
  have st: "stale_block ?f rq b" using assms by (auto simp: stale_block_def done_block_def)
  have err: "e = Err ''Missing action''" if "commit_partition ?f rq bs acc = Inl e" for bs acc e
    using that
  proof (induction bs arbitrary: acc)
    case (Cons c bs)
    have mt: "missed_transforms s ars = Inl e \<Longrightarrow> e = Err ''Missing action''" for s :: "'a block_state" and ars
    proof -
      have "efold (\<lambda>ar acc. case bs_transactions s (ar_actionId ar) of None \<Rightarrow> Inl (Err ''Missing action'')
            | Some t \<Rightarrow> Inr (acc @ [\<lparr>at_actionId = ar_actionId ar, at_rev = ar_rev ar, at_transform = t\<rparr>])) ars acc
         = Inl e \<Longrightarrow> e = Err ''Missing action''" for acc
        by (induction ars arbitrary: acc) (auto split: option.splits)
      then show "missed_transforms s ars = Inl e \<Longrightarrow> e = Err ''Missing action''" by (simp add: missed_transforms_def)
    qed
    obtain tc ms sa where acc: "acc = (tc, ms, sa)" by (cases acc)
    show ?case using Cons mt by (auto simp: acc ebind_def split: option.splits if_splits sum.splits)
  qed simp
  show ?thesis
  proof (cases "commit_partition ?f rq (cr_blockIds rq) ([], [], None)")
    case (Inl e)
    with err show ?thesis by (auto simp: repo_commit_def commit_blocks_def)
  next
    case (Inr res)
    obtain tc ms sa where res: "res = (tc, ms, sa)" by (cases res)
    note part = commit_partition_result [OF Inr [unfolded res]]
    have "filter (stale_block ?f rq) (cr_blockIds rq) \<noteq> []" using st assms(1) by (auto simp: filter_empty_conv)
    moreover define cs where "cs = map (\<lambda>b. \<lparr>sa_blockId = b, sa_rev = latest_rev (?f b)\<rparr>) (filter (stale_block ?f rq) (cr_blockIds rq))"
    ultimately have hs: "foldl (\<lambda>x c. highestStaleAt [x, Some c]) None cs = sa" "cs \<noteq> []" using part by auto
    then obtain x where sa: "sa = Some x" using highestStaleAt_fold [OF hs(1)] by auto
    have "x \<in> set cs" and mx: "\<And>y. y \<in> set cs \<Longrightarrow> sa_rev y \<le> sa_rev x"
      using highestStaleAt_fold [OF hs(1)] sa by auto
    moreover have "latest_rev (?f b) \<le> sa_rev x"
      using mx [of "\<lparr>sa_blockId = b, sa_rev = latest_rev (?f b)\<rparr>"] st assms(1) by (simp add: cs_def)
    ultimately have x: "sa = Some x" "sa_blockId x \<in> set (cr_blockIds rq)"
      "sa_rev x = latest_rev (?f (sa_blockId x))" "latest_rev (?f b) \<le> sa_rev x"
      using sa by (auto simp: cs_def)
    have "ms \<noteq> []" using part hs(2) by (auto simp: cs_def)
    then have "repo_commit C rq R = (Inr (CommitStale (perBlockActionTransformsToPerAction ms) (Some x)), [], R)"
      by (simp add: repo_commit_def commit_blocks_def Inr res x(1))
    then show ?thesis using x st assms(1) latest_rev_Some [OF assms(2)] by auto
  qed
qed

definition sample_repo :: "nat repo" where
  "sample_repo = \<lparr>rp_blocks = (\<lambda>b. if b = ''k'' then sample_state else empty_block_state),
     rp_listeners = [(''c'', [1])], rp_any = [2]\<rparr>"

theorem stale_commit_writes_nothing_witness:
  "\<exists>res. repo_commit (\<lambda>_. sample_storage)
      \<lparr>cr_blockIds = [''k''], cr_actionId = ''t6'', cr_rev = 3, cr_tailId = ''k''\<rparr> sample_repo = (res, [], sample_repo)"
  using stale_commit_writes_nothing [of "''k''"
      "\<lparr>cr_blockIds = [''k''], cr_actionId = ''t6'', cr_rev = 3, cr_tailId = ''k''\<rparr>" sample_repo
      "\<lparr>ar_actionId = ''t4'', ar_rev = 4\<rparr>" "\<lambda>_. sample_storage"] sample_meta(1)
  by (auto simp: sample_repo_def getLatest_def)

section \<open>Retries\<close>

lemma internalCommit_latest:
  assumes "internalCommit C b a r s = (Inr c, s')"
  shows "getLatest s' = Some \<lparr>ar_actionId = a, ar_rev = r\<rparr>"
proof -
  have pr: "getLatest (pruneSupersededMaterialization C l s) = getLatest s" for l and s :: "'a block_state"
    by (simp add: pruneSupersededMaterialization_def getLatest_def bs_saveMaterialized_def split: option.splits)
  have w: "getLatest s' = Some \<lparr>ar_actionId = a, ar_rev = r\<rparr>"
    if "internalCommit_write C a r l nb s = (Inr u, s')" for l nb u and s s' :: "'a block_state"
    using that pr
    by (auto simp: internalCommit_write_def setLatest_def Let_def bs_saveMetadata_def getLatest_def
        split: sum.splits option.splits prod.splits)
  show ?thesis
    using assms w by (auto simp: internalCommit_def Let_def refuseMissingBase_def
        split: option.splits sum.splits prod.splits if_splits)
qed

lemma commit_loop_latest:
  assumes "commit_loop C rq bs landed f = (None, landed', f')"
  shows "(\<forall>b \<in> set bs. done_block f' rq b) \<and> (\<forall>b. b \<notin> set bs \<longrightarrow> f' b = f b)"
  using assms
proof (induction bs arbitrary: landed f)
  case (Cons b bs)
  from Cons.prems obtain c s where c: "internalCommit (C b) b (cr_actionId rq) (cr_rev rq) (f b) = (Inr c, s)"
    and loop: "commit_loop C rq bs (case c of Some c \<Rightarrow> add_landing c b landed | None \<Rightarrow> landed) (f(b := s)) = (None, landed', f')"
    by (auto split: prod.splits sum.splits)
  have ih: "(\<forall>b \<in> set bs. done_block f' rq b) \<and> (\<forall>b'. b' \<notin> set bs \<longrightarrow> f' b' = (f(b := s)) b')"
    using Cons.IH [OF loop] .
  then have "done_block f' rq b"
    using internalCommit_latest [OF c] by (cases "b \<in> set bs") (simp_all add: done_block_def)
  then show ?case using ih by auto
qed simp

lemma commit_partition_done:
  "\<forall>b \<in> set bs. done_block f rq b \<Longrightarrow> commit_partition f rq bs acc = Inr acc"
  by (induction bs arbitrary: acc) (auto simp: done_block_def)

section \<open>What every request keeps\<close>

text \<open>
  \<open>grows q s s'\<close>: the latest revision does not go back, and, if \<open>q\<close> holds, the pending and committed records
  stay disjoint. The second part needs a storage without a restore callback; \<open>q\<close> says whether it is asked for.
\<close>

definition grows :: "bool \<Rightarrow> 'v block_state \<Rightarrow> 'v block_state \<Rightarrow> bool" where
  "grows q s s' \<longleftrightarrow> latest_rev s \<le> latest_rev s' \<and> (q \<longrightarrow> inv_P s \<longrightarrow> inv_P s')"

lemma grows_refl [simp, intro]: "grows q s s"
  by (simp add: grows_def)

lemma grows_trans: "grows q s s' \<Longrightarrow> grows q s' s'' \<Longrightarrow> grows q s s''"
  by (auto simp: grows_def)

lemma grows_same:
  "getLatest s' = getLatest s \<Longrightarrow> bs_pending s' = bs_pending s \<Longrightarrow> (q \<Longrightarrow> bs_transactions s' = bs_transactions s) \<Longrightarrow> grows q s s'"
  by (simp add: grows_def latest_rev_def inv_P_def)

lemma grows_deletePending [simp, intro]: "grows q s (bs_deletePending a s)"
  by (simp add: grows_def latest_rev_def getLatest_def inv_P_def bs_deletePending_def)

lemma materializeBlock_same:
  "materializeBlock C meta t s = (r, s') \<Longrightarrow>
   getLatest s' = getLatest s \<and> bs_pending s' = bs_pending s \<and> bs_transactions s' = bs_transactions s"
  by (auto simp: materializeBlock_def Let_def getLatest_def bs_saveMaterialized_def
      split: prod.splits option.splits sum.splits if_splits)

lemma saveRestored_same: "bs_meta (saveRestored ar s) = bs_meta s" "bs_pending (saveRestored ar s) = bs_pending s"
proof -
  have "bs_meta (fold saveRestoredRevision vs s) = bs_meta s \<and> bs_pending (fold saveRestoredRevision vs s) = bs_pending s" for vs
    by (induction vs arbitrary: s) (auto simp: saveRestoredRevision_def Let_def bs_saveTransaction_def bs_saveRevision_def bs_saveMaterialized_def split: option.splits)
  then show "bs_meta (saveRestored ar s) = bs_meta s" "bs_pending (saveRestored ar s) = bs_pending s"
    by (simp_all add: saveRestored_def)
qed

lemma getBlock_same:
  assumes "getBlock C t s = (r, s')" and "q \<longrightarrow> st_restore C = None"
  shows "getLatest s' = getLatest s \<and> bs_pending s' = bs_pending s \<and> (q \<longrightarrow> bs_transactions s' = bs_transactions s)"
proof -
  have ens: "getLatest s1 = getLatest s \<and> bs_pending s1 = bs_pending s \<and> (q \<longrightarrow> bs_transactions s1 = bs_transactions s)"
    if "ensureRevision C meta r s = (x, s1)" for meta r x s1
    using that assms(2) saveRestored_same
    by (auto simp: ensureRevision_def restoreBlock_def getLatest_def bs_saveMetadata_def decode_encode_meta_def split: if_splits option.splits sum.splits)
  show ?thesis
    using assms(1) by (auto simp: getBlock_def Let_def split: option.splits prod.splits sum.splits
        dest!: ens dest: materializeBlock_same)
qed

lemma prune_same:
  "getLatest (pruneSupersededMaterialization C l s) = getLatest s"
  "bs_pending (pruneSupersededMaterialization C l s) = bs_pending s"
  "bs_transactions (pruneSupersededMaterialization C l s) = bs_transactions s"
  by (simp_all add: pruneSupersededMaterialization_def getLatest_def bs_saveMaterialized_def split: option.splits)

lemma internalCommit_write_grows:
  assumes "internalCommit_write C a r l nb s = (x, s')" and "latest_rev s \<le> r"
  shows "grows q s s'"
proof -
  define s2 where "s2 = bs_saveRevision r a (case nb of Some blk \<Rightarrow> bs_saveMaterialized a (Some blk) s | None \<Rightarrow> s)"
  have s2: "getLatest s2 = getLatest s" "bs_pending s2 = bs_pending s" "bs_transactions s2 = bs_transactions s"
    by (simp_all add: s2_def getLatest_def bs_saveRevision_def bs_saveMaterialized_def split: option.splits)
  have g2: "grows q s s2" by (rule grows_same [OF s2])
  show ?thesis
  proof (cases "bs_promote a s2")
    case (Inl e)
    then show ?thesis using assms(1) g2 by (simp add: internalCommit_write_def s2_def [symmetric] Let_def)
  next
    case (Inr s3)
    then have p: "getLatest s3 = getLatest s2" "inv_P s2 \<longrightarrow> inv_P s3"
      by (auto simp: bs_promote_def getLatest_def bs_deletePending_def bs_saveTransaction_def inv_P_def
          split: option.splits)
    show ?thesis
    proof (cases "bs_meta s3")
      case None
      then show ?thesis using assms(1) Inr p g2 s2
        by (auto simp: internalCommit_write_def s2_def [symmetric] Let_def setLatest_def grows_def latest_rev_def)
    next
      case (Some meta)
      then obtain s4 where s4: "setLatest \<lparr>ar_actionId = a, ar_rev = r\<rparr> s3 = (Inr (), s4)"
        "latest_rev s4 = r" "bs_pending s4 = bs_pending s3" "bs_transactions s4 = bs_transactions s3"
        by (simp add: setLatest_def Let_def latest_rev_def getLatest_def bs_saveMetadata_def)
      have "latest_rev s' = r \<and> bs_pending s' = bs_pending s3 \<and> bs_transactions s' = bs_transactions s3"
        using assms(1) Inr s4
        by (auto simp: internalCommit_write_def s2_def [symmetric] Let_def prune_same latest_rev_def split: option.splits)
      then show ?thesis using assms(2) p(2) g2 by (auto simp: grows_def inv_P_def)
    qed
  qed
qed

lemma internalCommit_grows:
  assumes "internalCommit C b a r s = (x, s')" and "q \<longrightarrow> st_restore C = None" and "latest_rev s \<le> r"
  shows "grows q s s'"
proof (cases "map_of (bs_pending s) a")
  case None
  then show ?thesis using assms(1) by (simp add: internalCommit_def)
next
  case (Some t)
  obtain y s1 where base: "readCommitBase C b a r (getLatest s) s = (y, s1)" by (metis surj_pair)
  have g1: "grows q s s1 \<and> latest_rev s1 = latest_rev s"
  proof (cases "getLatest s")
    case (Some l)
    obtain z s0 where z: "getBlock C (Some (ar_rev l)) s = (z, s0)" by (metis surj_pair)
    note same = getBlock_same [OF z assms(2)]
    have "s1 = s0 \<or> s1 = bs_deletePending a s0"
      using base Some z by (auto simp: readCommitBase_def refuseMissingBase_def split: sum.splits)
    moreover have "grows q s s0" using same by (simp add: grows_same)
    moreover have "latest_rev (bs_deletePending a s0) = latest_rev s0"
      by (simp add: latest_rev_def getLatest_def bs_deletePending_def)
    ultimately show ?thesis using same grows_trans [OF _ grows_deletePending] by (auto simp: latest_rev_def)
  qed (use base in \<open>simp add: readCommitBase_def\<close>)
  have "grows q s1 s'"
    using assms(1,3) Some base g1 internalCommit_write_grows [of C a r _ _ s1]
    by (auto simp: internalCommit_def refuseMissingBase_def Let_def split: sum.splits prod.splits if_splits)
  with g1 show ?thesis using grows_trans by blast
qed

lemma recover_grows:
  assumes "recover s = (x, s')"
  shows "grows q s s'"
proof (cases "bs_meta s")
  case None
  then show ?thesis using assms by (simp add: recover_def)
next
  case (Some meta)
  obtain b l' where x: "x = (b, l')" by (cases x)
  from recover_result [OF Some] assms x obtain k where
    "if k = 0 then b = False \<and> l' = latest meta \<and> s' = s
     else \<exists>a. map_of (bs_revisions s) (latest_rev s + k) = Some a \<and> b
       \<and> l' = Some \<lparr>ar_actionId = a, ar_rev = latest_rev s + k\<rparr>
       \<and> s' = bs_saveMetadata \<lparr>ranges = mergeRanges ((Suc (latest_rev s), RNone) # ranges meta), latest = l'\<rparr> s"
    by metis
  then show ?thesis
    by (cases "k = 0") (auto simp: grows_def latest_rev_def [of s'] getLatest_def bs_saveMetadata_def inv_P_def)
qed

lemma saveForwardRevision_grows: "saveForwardRevision v s = (l, s') \<Longrightarrow> grows q s s'"
  using saveForwardRevision_facts by (auto simp: grows_def)

lemma promote_loop_grows:
  assumes "promote_loop C b cs ps s = (x, ps', s')" and "q \<longrightarrow> st_restore C = None"
    and "sorted (map ar_rev cs)" and "\<forall>c \<in> set cs. latest_rev s \<le> ar_rev c"
  shows "grows q s s'"
  using assms
proof (induction cs arbitrary: ps s)
  case (Cons c cs)
  show ?case
  proof (cases "map_of (bs_pending s) (ar_actionId c)")
    case None
    then show ?thesis using Cons by simp
  next
    case (Some t)
    obtain y s1 where ic: "internalCommit C b (ar_actionId c) (ar_rev c) s = (y, s1)" by (metis surj_pair)
    have g: "grows q s s1" using internalCommit_grows [OF ic] Cons.prems(2,4) by simp
    show ?thesis
    proof (cases y)
      case (Inl e)
      then show ?thesis using Cons.prems(1) Some ic g by simp
    next
      case (Inr oc)
      have "latest_rev s1 = ar_rev c" using internalCommit_latest [OF ic [unfolded Inr]] by (simp add: latest_rev_def)
      then have "grows q s1 s'" using Cons.IH Cons.prems Some ic Inr by simp
      with g show ?thesis by (rule grows_trans)
    qed
  qed
qed simp

lemma get_one_grows:
  assumes "get_one C b ctx s = (x, ps, s')" and "q \<longrightarrow> st_restore C = None"
  shows "grows q s s'"
proof -
  obtain y ps1 s1 where pc: "promote_context C b ctx s = (y, ps1, s1)" by (metis surj_pair)
  have "grows q s s1"
  proof (cases ctx)
    case (Some cx)
    define missing where "missing = ahead_of (getLatest s) (cx_committed cx)"
    have "\<forall>c \<in> set (sort_key ar_rev missing). latest_rev s \<le> ar_rev c"
      by (auto simp: missing_def ahead_of_def latest_rev_def split: option.splits)
    moreover obtain z ps2 s2 where pl: "promote_loop C b (sort_key ar_rev missing) [] s = (z, ps2, s2)" by (metis surj_pair)
    ultimately have "grows q s s2" using promote_loop_grows [OF pl assms(2)] by simp
    moreover have "s1 = s \<or> s1 = s2"
      using pc pl Some by (auto simp: promote_context_def missing_def Let_def split: if_splits sum.splits repo_error.splits)
    ultimately show ?thesis by auto
  qed (use pc in \<open>simp add: promote_context_def\<close>)
  moreover have "grows q s1 s'"
  proof (cases y)
    case (Inl e)
    then show ?thesis using assms(1) pc by (simp add: get_one_def)
  next
    case (Inr u)
    obtain r s2 where gb: "getBlock C (map_option cx_rev ctx) s1 = (r, s2)" by (metis surj_pair)
    have "s' = s2"
      using assms(1) pc Inr gb
      by (auto simp: get_one_def split: sum.splits option.splits prod.splits if_splits)
    then show ?thesis using getBlock_same [OF gb assms(2)] grows_same by blast
  qed
  ultimately show ?thesis by (rule grows_trans)
qed

definition all_grow :: "bool \<Rightarrow> (block_id \<Rightarrow> 'v block_state) \<Rightarrow> (block_id \<Rightarrow> 'v block_state) \<Rightarrow> bool" where
  "all_grow q f f' \<longleftrightarrow> (\<forall>b. grows q (f b) (f' b))"

lemma all_grow_refl [simp, intro]: "all_grow q f f"
  by (simp add: all_grow_def)

lemma all_grow_trans: "all_grow q f g \<Longrightarrow> all_grow q g h \<Longrightarrow> all_grow q f h"
  unfolding all_grow_def by (blast intro: grows_trans)

lemma all_grow_upd: "grows q (f b) s \<Longrightarrow> all_grow q f (f(b := s))"
  by (simp add: all_grow_def)

lemma all_grow_fold:
  "(\<And>f b. b \<in> set bs \<Longrightarrow> all_grow q f (op b f)) \<Longrightarrow> all_grow q f (fold op bs f)"
proof (induction bs arbitrary: f)
  case (Cons b bs)
  then have "all_grow q f (op b f)" "all_grow q (op b f) (fold op bs (op b f))" by auto
  then show ?case using all_grow_trans by simp
qed simp

lemma drop_grows: "all_grow q f (dropUnpromotablePendings bs a f)" "all_grow q f (repo_cancel bs a f)"
  unfolding dropUnpromotablePendings_def repo_cancel_def by (intro all_grow_fold all_grow_upd; simp)+

lemma get_all_grows:
  assumes "get_all C ctx bs f = (x, ps, f')" and "q \<longrightarrow> (\<forall>b. st_restore (C b) = None)"
  shows "all_grow q f f'"
  using assms
proof (induction bs arbitrary: f x ps f')
  case (Cons b bs)
  obtain r ps1 s where g1: "get_one (C b) b ctx (f b) = (r, ps1, s)" by (metis surj_pair)
  obtain rs ps2 f2 where g2: "get_all C ctx bs (f(b := s)) = (rs, ps2, f2)" by (metis surj_pair)
  have "f' = f2" using Cons.prems(1) g1 g2 by simp
  moreover have "all_grow q f (f(b := s))"
    by (rule all_grow_upd) (rule get_one_grows [OF g1], use Cons.prems(2) in blast)
  ultimately show ?case
    using Cons.IH [OF g2 Cons.prems(2)] all_grow_trans by blast
qed simp

lemma commit_check_grows:
  assumes "commit_check rq bs (mp, rc) f = ((mp', rc'), f')"
  shows "all_grow q f f' \<and> set mp \<subseteq> set mp' \<and> set rc \<subseteq> set rc'
    \<and> (\<forall>b. f' b = f b \<or> b \<in> set mp' \<or> b \<in> set rc')"
  using assms
proof (induction bs arbitrary: mp rc f)
  case (Cons b bs)
  obtain u l s where r: "recover (f b) = ((u, l), s)" by (metis surj_pair)
  have g: "all_grow q f (f(b := s))" using recover_grows [OF r] by (rule all_grow_upd)
  consider "map_of (bs_pending (f b)) (cr_actionId rq) \<noteq> None"
    | "map_of (bs_pending (f b)) (cr_actionId rq) = None" "bs_transactions (f b) (cr_actionId rq) = None"
    | "map_of (bs_pending (f b)) (cr_actionId rq) = None" "bs_transactions (f b) (cr_actionId rq) \<noteq> None" by blast
  then show ?case
  proof cases
    case 1
    then show ?thesis using Cons by auto
  next
    case 2
    then show ?thesis using Cons.IH [of "mp @ [b]" rc f] Cons.prems by auto
  next
    case 3
    define ok where "ok = (case l of Some l' \<Rightarrow> ar_rev l' \<ge> cr_rev rq | None \<Rightarrow> False)"
    have step: "commit_check rq bs (if ok then mp else mp @ [b], if ok then set_add b rc else rc) (f(b := s)) = ((mp', rc'), f')"
      using Cons.prems 3 r by (auto simp: ok_def split: if_splits)
    note ih = Cons.IH [OF step]
    have "b \<in> set mp' \<or> b \<in> set rc'" using ih by (cases ok) (auto simp: set_add_def split: if_splits)
    moreover have "set mp \<subseteq> set mp'" "set rc \<subseteq> set rc'" using ih by (auto simp: set_add_def split: if_splits)
    moreover have "all_grow q f f'" using ih g all_grow_trans by blast
    ultimately show ?thesis using ih by (auto split: if_splits)
  qed
qed simp

lemma commit_recovered_same:
  assumes "commit_recovered C r bs landed f = (x, f')" and "q \<longrightarrow> (\<forall>b. st_restore (C b) = None)"
  shows "\<forall>b. grows q (f b) (f' b) \<and> getLatest (f' b) = getLatest (f b)"
  using assms
proof (induction bs arbitrary: landed f)
  case (Cons b bs)
  define same where "same = (\<lambda>(s :: 'a block_state) s'. grows q s s' \<and> getLatest s' = getLatest s)"
  have gb: "same s s'" if "getBlock (C b) t s = (y, s')" for t s y s'
    using getBlock_same [OF that, of q] Cons.prems(2) grows_same [of s' s q] by (auto simp: same_def)
  have tr: "same s s''" if "same s s'" "same s' s''" for s s' s''
    using that grows_trans by (auto simp: same_def)
  obtain y1 s1 where g1: "getBlock (C b) (Some r) (f b) = (y1, s1)" by (metis surj_pair)
  obtain y2 s2 where g2: "getBlock (C b) (Some (r - 1)) s1 = (y2, s2)" by (metis surj_pair)
  have s12: "same (f b) s1" "same (f b) s2" using gb g1 g2 tr by blast+
  have ih: "\<forall>b'. same ((f(b := s)) b') (f' b')"
    if "commit_recovered C r bs landed' (f(b := s)) = (x, f')" for s landed'
    using Cons.IH [OF that Cons.prems(2)] by (simp add: same_def)
  have "\<exists>s. same (f b) s \<and> (f' = f(b := s) \<or> (\<exists>landed'. commit_recovered C r bs landed' (f(b := s)) = (x, f')))"
    using Cons.prems(1) g1 g2 s12
    by (auto split: sum.splits option.splits prod.splits)
  then obtain s where s: "same (f b) s" "f' = f(b := s) \<or> (\<forall>b'. same ((f(b := s)) b') (f' b'))"
    using ih by blast
  from s(2) have "same (f b') (f' b')" for b'
  proof
    assume "f' = f(b := s)"
    then show ?thesis using s(1) by (simp add: same_def)
  next
    assume "\<forall>b'. same ((f(b := s)) b') (f' b')"
    then have "same ((f(b := s)) b') (f' b')" ..
    then show ?thesis using tr [OF s(1)] by (cases "b' = b") auto
  qed
  then show ?case by (simp add: same_def)
qed simp

lemma commit_loop_grows:
  assumes "commit_loop C rq bs landed f = (x, landed', f')" and "q \<longrightarrow> (\<forall>b. st_restore (C b) = None)"
    and "\<forall>b \<in> set bs. latest_rev (f b) \<le> cr_rev rq"
  shows "all_grow q f f'"
  using assms
proof (induction bs arbitrary: landed f)
  case (Cons b bs)
  obtain y s where ic: "internalCommit (C b) b (cr_actionId rq) (cr_rev rq) (f b) = (y, s)" by (metis surj_pair)
  have g: "all_grow q f (f(b := s))"
    using internalCommit_grows [OF ic] Cons.prems(2,3) by (intro all_grow_upd) simp
  show ?case
  proof (cases y)
    case (Inl e)
    then show ?thesis using Cons.prems(1) ic g by simp
  next
    case (Inr oc)
    have "latest_rev s = cr_rev rq" using internalCommit_latest [OF ic [unfolded Inr]] by (simp add: latest_rev_def)
    then have "\<forall>c \<in> set bs. latest_rev ((f(b := s)) c) \<le> cr_rev rq" using Cons.prems(3) by simp
    moreover have "commit_loop C rq bs (case oc of Some c \<Rightarrow> add_landing c b landed | None \<Rightarrow> landed) (f(b := s)) = (x, landed', f')"
      using Cons.prems(1) ic Inr by simp
    ultimately have "all_grow q (f(b := s)) f'" using Cons.IH Cons.prems(2) by blast
    with g show ?thesis by (rule all_grow_trans)
  qed
qed simp

lemma commit_apply_grows:
  assumes "commit_apply C rq tc rc f = (x, landed, f')" and "q \<longrightarrow> (\<forall>b. st_restore (C b) = None)"
    and "\<forall>b \<in> set tc. b \<notin> set rc \<longrightarrow> latest_rev (f b) \<le> cr_rev rq"
  shows "all_grow q f f'"
proof -
  obtain y f1 where r: "commit_recovered C (cr_rev rq) (filter (\<lambda>b. b \<in> set rc) tc) [] f = (y, f1)" by (metis surj_pair)
  note same = commit_recovered_same [OF r assms(2)]
  then have g1: "all_grow q f f1" by (simp add: all_grow_def)
  show ?thesis
  proof (cases y)
    case (Inl e)
    then show ?thesis using assms(1) r g1 by (simp add: commit_apply_def)
  next
    case (Inr ld)
    obtain e ld2 f2 where l: "commit_loop C rq (filter (\<lambda>b. b \<notin> set rc) tc) ld f1 = (e, ld2, f2)" by (metis surj_pair)
    have "all_grow q f1 f2"
      by (rule commit_loop_grows [OF l assms(2)]) (use same assms(3) in \<open>auto simp: latest_rev_def\<close>)
    moreover have "f' = f2 \<or> f' = dropUnpromotablePendings tc (cr_actionId rq) f2"
      using assms(1) r Inr l by (auto simp: commit_apply_def split: option.splits repo_error.splits)
    ultimately show ?thesis using g1 drop_grows(1) all_grow_trans by metis
  qed
qed

lemma commit_blocks_grows:
  assumes "commit_blocks C rq f = (x, landed, f')" and "q \<longrightarrow> (\<forall>b. st_restore (C b) = None)"
  shows "all_grow q f f'"
proof (cases "commit_partition f rq (cr_blockIds rq) ([], [], None)")
  case (Inl e)
  then show ?thesis using assms(1) by (simp add: commit_blocks_def)
next
  case (Inr res)
  obtain tc ms sa where res: "res = (tc, ms, sa)" by (cases res)
  obtain mp rc f1 where c: "commit_check rq tc ([], []) f = ((mp, rc), f1)" by (metis surj_pair)
  note chk = commit_check_grows [OF c]
  have tc: "latest_rev (f b) \<le> cr_rev rq" if "b \<in> set tc" for b
    using that commit_partition_result [OF Inr [unfolded res]]
    by (auto simp: stale_block_def latest_rev_def split: option.splits)
  consider "ms \<noteq> []" | "ms = []" "mp \<noteq> []" | "ms = []" "mp = []" by blast
  then show ?thesis
  proof cases
    case 1
    then show ?thesis using assms(1) Inr res by (simp add: commit_blocks_def)
  next
    case 2
    then have "f' = dropUnpromotablePendings tc (cr_actionId rq) f1"
      using assms(1) Inr res c by (simp add: commit_blocks_def)
    then show ?thesis using chk drop_grows(1) all_grow_trans by metis
  next
    case 3
    then have "commit_apply C rq tc rc f1 = (x, landed, f')"
      using assms(1) Inr res c by (simp add: commit_blocks_def)
    moreover have "\<forall>b \<in> set tc. b \<notin> set rc \<longrightarrow> latest_rev (f1 b) \<le> cr_rev rq"
      using chk 3 tc by force
    ultimately have "all_grow q f1 f'" using commit_apply_grows assms(2) by blast
    then show ?thesis using chk all_grow_trans by blast
  qed
qed

lemma st_savePending_same:
  "bs_transactions (st_savePendingTransaction a t s) = bs_transactions s"
  "latest_rev (st_savePendingTransaction a t s) = latest_rev s"
  by (simp_all add: st_savePendingTransaction_def bs_savePending_def bs_saveMetadata_def latest_rev_def getLatest_def decode_encode_meta_def)

lemma st_savePending_inv_P: "inv_P (st_savePendingTransaction a t s) \<longleftrightarrow> inv_P s \<and> bs_transactions s a = None"
  by (auto simp: inv_P_def st_savePendingTransaction_def bs_savePending_def bs_saveMetadata_def)

lemma pend_writes:
  fixes f :: "block_id \<Rightarrow> 'v block_state"
  defines "op \<equiv> \<lambda>rq b f. f(b := st_savePendingTransaction (pr_actionId rq) (transformForBlockId (pr_transforms rq) b) (f b))"
  shows "latest_rev (fold (op rq) bs f b) = latest_rev (f b)"
    and "inv_P (fold (op rq) bs f b) \<longleftrightarrow> inv_P (f b) \<and> (b \<in> set bs \<longrightarrow> bs_transactions (f b) (pr_actionId rq) = None)"
proof -
  show "latest_rev (fold (op rq) bs f b) = latest_rev (f b)"
    by (induction bs arbitrary: f) (simp_all add: op_def st_savePending_same)
  show "inv_P (fold (op rq) bs f b) \<longleftrightarrow> inv_P (f b) \<and> (b \<in> set bs \<longrightarrow> bs_transactions (f b) (pr_actionId rq) = None)"
    by (induction bs arbitrary: f) (auto simp: op_def st_savePending_same st_savePending_inv_P)
qed

lemma pend_result:
  assumes "repo_pend v rq f = (x, f')"
  shows "latest_rev (f' b) = latest_rev (f b)"
    and "x = Inr (PendSuccess ps ids) \<Longrightarrow> inv_P (f' b) \<longleftrightarrow> inv_P (f b) \<and> (b \<in> set ids \<longrightarrow> bs_transactions (f b) (pr_actionId rq) = None)"
  using assms by (auto simp: repo_pend_def Let_def pend_writes split: option.splits sum.splits prod.splits if_splits)

section \<open>The repository as a state machine\<close>

inductive repo_step :: "(block_id \<Rightarrow> 'v block_storage) \<Rightarrow> bool \<Rightarrow> 'v repo \<Rightarrow> 'v repo \<Rightarrow> bool" for C pends where
  \<comment> \<open>the requests; \<open>pends\<close> says whether pends are among them\<close>
  step_get: "repo_get C bs ctx R = (x, events, R') \<Longrightarrow> repo_step C pends R R'"
| step_pend: "pends \<Longrightarrow> repo_pend v (rq :: ('v, string) pend_request) (rp_blocks R) = (x, f) \<Longrightarrow> repo_step C pends R (R\<lparr>rp_blocks := f\<rparr>)"
| step_cancel: "repo_step C pends R (R\<lparr>rp_blocks := repo_cancel bs a (rp_blocks R)\<rparr>)"
| step_commit: "repo_commit C rq R = (x, events, R') \<Longrightarrow> repo_step C pends R R'"
| step_recover: "repo_step C pends R (recoverBlock b R)"
| step_replicate: "saveReplicatedBlock C b blk src R = (events, R') \<Longrightarrow> repo_step C pends R R'"
| step_delete: "repo_step C pends R (R\<lparr>rp_blocks := (rp_blocks R)(b := snd (saveDeletion src (rp_blocks R b)))\<rparr>)"

lemma repo_step_grows:
  assumes "repo_step C pends R R'" and "q \<longrightarrow> \<not> pends" and "q \<longrightarrow> (\<forall>b. st_restore (C b) = None)"
  shows "all_grow q (rp_blocks R) (rp_blocks R')"
  using assms
proof (induction rule: repo_step.induct)
  case (step_get bs ctx R x events R')
  obtain y ps f where g: "get_all C ctx (js_set bs) (rp_blocks R) = (y, ps, f)" by (metis surj_pair)
  then have "rp_blocks R' = f" using step_get(1) by (auto simp: repo_get_def split: sum.splits)
  then show ?case using get_all_grows [OF g step_get(3)] by simp
next
  case (step_pend v rq R x f)
  then have "\<not> q" by blast
  then show ?case using pend_result(1) [OF step_pend(2)] by (simp add: all_grow_def grows_def)
next
  case (step_cancel R bs a)
  then show ?case by (simp add: drop_grows)
next
  case (step_commit rq R x events R')
  obtain y ld f where c: "commit_blocks C rq (rp_blocks R) = (y, ld, f)" by (metis surj_pair)
  then have "rp_blocks R' = f" using step_commit(1) by (auto simp: repo_commit_def split: sum.splits)
  then show ?case using commit_blocks_grows [OF c step_commit(3)] by simp
next
  case (step_recover R b)
  have "grows q (rp_blocks R b) (snd (recover (rp_blocks R b)))" by (rule recover_grows) (rule prod.collapse [symmetric])
  then show ?case by (simp add: recoverBlock_def all_grow_def)
next
  case (step_replicate b blk src R events R')
  obtain l s where s: "saveReplica (C b) blk src (rp_blocks R b) = (l, s)" by (metis surj_pair)
  then have "grows q (rp_blocks R b) s" by (auto simp: saveReplica_def intro: saveForwardRevision_grows)
  moreover have "rp_blocks R' = (rp_blocks R)(b := s)"
    using step_replicate(1) s by (auto simp: saveReplicatedBlock_def Let_def)
  ultimately show ?case by (simp add: all_grow_def)
next
  case (step_delete R b src)
  obtain l s where s: "saveDeletion src (rp_blocks R b) = (l, s)" by (metis surj_pair)
  then have "grows q (rp_blocks R b) s" by (auto simp: saveDeletion_def intro: saveForwardRevision_grows)
  then show ?case using s by (simp add: all_grow_def)
qed

text \<open>C2. Whatever sequence of reads, pends, cancels, commits, recoveries, replica and deletion writes a repository executes, and
  whatever its restore callbacks return, no block's latest revision ever goes back. A block never comes to hold an action both as
  pending and as committed by a sequence of requests other than pends, in a repository without restore callbacks; a successful
  pend keeps it so exactly on the blocks where its action is not committed yet, which the code does not test.\<close>

theorem repo_latest_monotone_and_invariant_P:
  assumes "(repo_step C pends)\<^sup>*\<^sup>* R R'"
  shows "latest_rev (rp_blocks R b) \<le> latest_rev (rp_blocks R' b)
    \<and> (\<not> pends \<and> (\<forall>b. st_restore (C b) = None) \<and> inv_P (rp_blocks R b) \<longrightarrow> inv_P (rp_blocks R' b))
    \<and> (repo_pend v rq (rp_blocks R') = (Inr (PendSuccess ps ids), f) \<longrightarrow>
         (inv_P (f b) \<longleftrightarrow> inv_P (rp_blocks R' b) \<and> (b \<in> set ids \<longrightarrow> bs_transactions (rp_blocks R' b) (pr_actionId rq) = None)))"
proof -
  have "all_grow q (rp_blocks R) (rp_blocks R')" if "q \<longrightarrow> \<not> pends \<and> (\<forall>b. st_restore (C b) = None)" for q
    using assms that by induction (auto intro: all_grow_trans repo_step_grows)
  note g = this [of False] this [of "\<not> pends \<and> (\<forall>b. st_restore (C b) = None)"]
  show ?thesis
  proof (intro conjI impI)
    show "latest_rev (rp_blocks R b) \<le> latest_rev (rp_blocks R' b)" using g(1) by (simp add: all_grow_def grows_def)
    show "inv_P (rp_blocks R' b)" if "\<not> pends \<and> (\<forall>b. st_restore (C b) = None) \<and> inv_P (rp_blocks R b)"
      using g(2) that by (simp add: all_grow_def grows_def)
    show "inv_P (f b) \<longleftrightarrow> inv_P (rp_blocks R' b) \<and> (b \<in> set ids \<longrightarrow> bs_transactions (rp_blocks R' b) (pr_actionId rq) = None)"
      if "repo_pend v rq (rp_blocks R') = (Inr (PendSuccess ps ids), f)"
      by (rule pend_result(2) [OF that refl])
  qed
qed

definition sample_repo_pend :: "action_id \<Rightarrow> (nat, string) pend_request" where
  "sample_repo_pend a = \<lparr>pr_actionId = a, pr_rev = None, pr_transforms = \<lparr>inserts = [], updates = [(''k'', [])], deletes = []\<rparr>, pr_policy = Pol_c,
     pr_transaction = None, pr_operationsHash = None\<rparr>"

theorem repo_latest_monotone_and_invariant_P_witness:
  "\<exists>R' f. (repo_step (\<lambda>_. sample_storage) False)\<^sup>*\<^sup>* sample_repo R' \<and> R' \<noteq> sample_repo
     \<and> 4 \<le> latest_rev (rp_blocks R' ''k'') \<and> inv_P (rp_blocks R' ''k'')
     \<and> snd (repo_pend None (sample_repo_pend ''t4'') (rp_blocks R')) = f \<and> \<not> inv_P (f ''k'')"
proof -
  let ?R' = "sample_repo\<lparr>rp_blocks := repo_cancel [''k''] ''t6'' (rp_blocks sample_repo)\<rparr>"
  have st: "(repo_step (\<lambda>_. sample_storage) False)\<^sup>*\<^sup>* sample_repo ?R'" by (rule r_into_rtranclp) (rule step_cancel)
  have "bs_pending (rp_blocks ?R' ''k'') \<noteq> bs_pending (rp_blocks sample_repo ''k'')"
    by (simp add: sample_repo_def repo_cancel_def bs_deletePending_def sample_state_def)
  then have ne: "?R' \<noteq> sample_repo" by metis
  have l: "latest_rev (rp_blocks sample_repo ''k'') = 4" "inv_P (rp_blocks sample_repo ''k'')"
    by (auto simp: sample_repo_def sample_state_def latest_rev_def getLatest_def inv_P_def)
  have "case fst (repo_pend None (sample_repo_pend ''t4'') (rp_blocks ?R')) of Inr (PendSuccess ps ids) \<Rightarrow> ids = [''k''] | _ \<Rightarrow> False"
    by code_simp
  then obtain ps f where p: "repo_pend None (sample_repo_pend ''t4'') (rp_blocks ?R') = (Inr (PendSuccess ps [''k'']), f)"
    by (cases "repo_pend None (sample_repo_pend ''t4'') (rp_blocks ?R')") (auto split: sum.splits pend_result.splits)
  have "bs_transactions (rp_blocks ?R' ''k'') ''t4'' \<noteq> None"
    by (simp add: sample_repo_def repo_cancel_def bs_deletePending_def sample_state_def)
  then show ?thesis
    using repo_latest_monotone_and_invariant_P [OF st, of "''k''" None "sample_repo_pend ''t4''" ps "[''k'']" f] st ne l p
    by (intro exI [of _ ?R'] exI [of _ f]) (simp add: sample_storage_def sample_repo_pend_def)
qed

section \<open>Retries of a commit\<close>

definition lost_setLatest :: "commit_request \<Rightarrow> 'v block_state \<Rightarrow> bool" where
  \<comment> \<open>a crash left the action promoted, without its pending record\<close>
  "lost_setLatest rq s \<longleftrightarrow> map_of (bs_pending s) (cr_actionId rq) = None \<and> bs_transactions s (cr_actionId rq) \<noteq> None"

lemma recover_facts:
  assumes "recover s = ((u, l), s')"
  shows "bs_pending s' = bs_pending s" and "bs_transactions s' = bs_transactions s" and "getLatest s' = l"
proof -
  have "bs_pending s' = bs_pending s \<and> bs_transactions s' = bs_transactions s \<and> getLatest s' = l"
  proof (cases "bs_meta s")
    case None
    then show ?thesis using assms by (simp add: recover_def getLatest_def)
  next
    case (Some meta)
    from recover_result [OF Some assms] show ?thesis
      by (auto simp: bs_saveMetadata_def getLatest_def Some split: if_splits)
  qed
  then show "bs_pending s' = bs_pending s" "bs_transactions s' = bs_transactions s" "getLatest s' = l" by simp_all
qed

lemma commit_check_recovered:
  assumes "commit_check rq bs ([], rc) f = (([], rc'), f')"
    and "\<forall>b. if b \<in> set rc then lost_setLatest rq (f0 b) \<and> lost_setLatest rq (f b) \<and> cr_rev rq \<le> latest_rev (f b) \<and> getLatest (f b) \<noteq> None else f b = f0 b"
  shows "(\<forall>b. if b \<in> set rc' then lost_setLatest rq (f0 b) \<and> lost_setLatest rq (f' b) \<and> cr_rev rq \<le> latest_rev (f' b) \<and> getLatest (f' b) \<noteq> None else f' b = f0 b)
    \<and> set rc' \<subseteq> set rc \<union> set bs"
  using assms
proof (induction bs arbitrary: rc f)
  case (Cons b bs)
  note failed = commit_check_grows [of rq bs "[b]" _ _ "[]"]
  have pend: "?case" if "map_of (bs_pending (f b)) (cr_actionId rq) \<noteq> None"
    using Cons.IH [of rc f] Cons.prems that by auto
  have lost: "?case" if nopend: "map_of (bs_pending (f b)) (cr_actionId rq) = None"
  proof -
    obtain u l s where r: "recover (f b) = ((u, l), s)" by (metis surj_pair)
    have t: "bs_transactions (f b) (cr_actionId rq) \<noteq> None" using Cons.prems(1) nopend failed by (auto split: if_splits)
    have l: "case l of Some l' \<Rightarrow> ar_rev l' \<ge> cr_rev rq | None \<Rightarrow> False" using Cons.prems(1) nopend t r failed by (auto split: if_splits)
    have step: "commit_check rq bs ([], set_add b rc) (f(b := s)) = (([], rc'), f')" using Cons.prems(1) nopend t r l by (simp split: option.splits)
    have lost: "lost_setLatest rq (f b)" using nopend t by (simp add: lost_setLatest_def)
    then have "lost_setLatest rq (f0 b)" using Cons.prems(2) by (metis)
    moreover have "lost_setLatest rq s" using lost recover_facts(1,2) [OF r] by (simp add: lost_setLatest_def)
    moreover have "cr_rev rq \<le> latest_rev s \<and> getLatest s \<noteq> None" using l recover_facts(3) [OF r] by (auto simp: latest_rev_def split: option.splits)
    ultimately have "\<forall>c. if c \<in> set (set_add b rc) then lost_setLatest rq (f0 c) \<and> lost_setLatest rq ((f(b := s)) c) \<and> cr_rev rq \<le> latest_rev ((f(b := s)) c)
        \<and> getLatest ((f(b := s)) c) \<noteq> None else (f(b := s)) c = f0 c"
      using Cons.prems(2) by (auto simp: set_add_def simp del: not_None_eq)
    from Cons.IH [OF step this] show ?thesis by (auto simp: set_add_def split: if_splits)
  qed
  show ?case using pend lost by blast
qed simp

text \<open>C3. A commit that reports success has done its work, and can be repeated. Afterwards every block of the batch is at exactly the requested
  revision and action, except for a block on which a crash had lost only the record of the latest revision: it is recovered to
  at least the requested revision. When every block is at exactly the requested revision and action, and so
  always without such a crash, repeating the request succeeds without changing any block and without delivering an event again.\<close>

theorem commit_retry_idempotent:
  assumes "repo_commit C rq R = (Inr CommitSuccess, events, R')"
  shows "(\<forall>b \<in> set (cr_blockIds rq). getLatest (rp_blocks R' b) = Some \<lparr>ar_actionId = cr_actionId rq, ar_rev = cr_rev rq\<rparr>
            \<or> lost_setLatest rq (rp_blocks R b) \<and> (\<exists>l. getLatest (rp_blocks R' b) = Some l \<and> cr_rev rq \<le> ar_rev l))
    \<and> ((\<forall>b \<in> set (cr_blockIds rq). getLatest (rp_blocks R' b) = Some \<lparr>ar_actionId = cr_actionId rq, ar_rev = cr_rev rq\<rparr>)
         \<longrightarrow> repo_commit C rq R' = (Inr CommitSuccess, [], R'))"
proof -
  let ?f = "rp_blocks R"
  obtain landed f' where cb: "commit_blocks C rq ?f = (Inr CommitSuccess, landed, f')" and R': "R' = R\<lparr>rp_blocks := f'\<rparr>"
    using assms by (auto simp: repo_commit_def split: prod.splits sum.splits)
  obtain tc sa where part: "commit_partition ?f rq (cr_blockIds rq) ([], [], None) = Inr (tc, [], sa)"
    using cb by (auto simp: commit_blocks_def split: sum.splits prod.splits if_splits)
  have tc: "tc = filter (\<lambda>b. \<not> stale_block ?f rq b \<and> \<not> done_block ?f rq b) (cr_blockIds rq)"
    and nostale: "filter (stale_block ?f rq) (cr_blockIds rq) = []"
    using commit_partition_result [OF part] by auto
  obtain rc f1 where chk: "commit_check rq tc ([], []) ?f = (([], rc), f1)"
    using cb part by (auto simp: commit_blocks_def split: prod.splits if_splits)
  note rec = commit_check_recovered [OF chk, of ?f]
  have "commit_apply C rq tc rc f1 = (Inr CommitSuccess, landed, f')" using cb part chk by (simp add: commit_blocks_def)
  then obtain ld f2 where cr: "commit_recovered C (cr_rev rq) (filter (\<lambda>b. b \<in> set rc) tc) [] f1 = (Inr ld, f2)"
      and loop: "commit_loop C rq (filter (\<lambda>b. b \<notin> set rc) tc) ld f2 = (None, landed, f')"
    by (auto simp: commit_apply_def split: prod.splits sum.splits option.splits repo_error.splits)
  have same: "getLatest (f2 b) = getLatest (f1 b)" for b using commit_recovered_same [OF cr, of False] by simp
  note res = commit_loop_latest [OF loop]
  have "getLatest (f' b) = Some \<lparr>ar_actionId = cr_actionId rq, ar_rev = cr_rev rq\<rparr>
      \<or> lost_setLatest rq (?f b) \<and> (\<exists>l. getLatest (f' b) = Some l \<and> cr_rev rq \<le> ar_rev l)" if b: "b \<in> set (cr_blockIds rq)" for b
  proof (cases "b \<in> set tc \<and> b \<notin> set rc")
    case True
    then show ?thesis using res by (simp add: done_block_def)
  next
    case False
    then have f': "getLatest (f' b) = getLatest (f1 b)" using res same by auto
    show ?thesis
    proof (cases "b \<in> set rc")
      case True
      then show ?thesis using rec f' by (auto simp: latest_rev_def split: if_splits option.splits)
    next
      case False
      then have "b \<notin> set tc" using \<open>\<not> (b \<in> set tc \<and> b \<notin> set rc)\<close> by blast
      then have "done_block ?f rq b" using b tc nostale by (auto simp: filter_empty_conv)
      then show ?thesis using f' rec False by (simp add: done_block_def)
    qed
  qed
  moreover have "repo_commit C rq R' = (Inr CommitSuccess, [], R')"
    if "\<forall>b \<in> set (cr_blockIds rq). getLatest (rp_blocks R' b) = Some \<lparr>ar_actionId = cr_actionId rq, ar_rev = cr_rev rq\<rparr>"
    using commit_partition_done [of "cr_blockIds rq" "rp_blocks R'" rq] that
    by (simp add: done_block_def repo_commit_def commit_blocks_def commit_apply_def emitCollectionChanges_def R')
  ultimately show ?thesis by (simp add: R')
qed

theorem commit_retry_idempotent_witness:
  "\<exists>events R'. repo_commit (\<lambda>_. sample_storage)
      \<lparr>cr_blockIds = [''k''], cr_actionId = ''t6'', cr_rev = 6, cr_tailId = ''k''\<rparr> sample_repo = (Inr CommitSuccess, events, R')
    \<and> repo_commit (\<lambda>_. sample_storage)
      \<lparr>cr_blockIds = [''k''], cr_actionId = ''t6'', cr_rev = 6, cr_tailId = ''k''\<rparr> R' = (Inr CommitSuccess, [], R')"
proof -
  let ?rq = "\<lparr>cr_blockIds = [''k''], cr_actionId = ''t6'', cr_rev = 6, cr_tailId = ''k''\<rparr>"
  have l: "getLatest (rp_blocks sample_repo ''k'') = Some \<lparr>ar_actionId = ''t4'', ar_rev = 4\<rparr>"
    and p: "map_of (bs_pending (rp_blocks sample_repo ''k'')) ''t6'' \<noteq> None"
    and k: "rp_blocks sample_repo ''k'' = sample_state"
    by (simp_all add: sample_repo_def sample_state_def getLatest_def)
  have "ref_read sample_state 1 4 = Inr (Some (sample_block [8]))" by (rule sample_reads)
  moreover have "applyTransform (Some (sample_block [8]))
      \<lparr>t_insert = None, t_updates = Some [splice_op ''entries'' 0 0 [9]], t_delete = False\<rparr> = Inr (Some (sample_block [9, 8]))"
    by (simp add: applyTransform_def applyOperation_def sample_block_def js_splice_def js_start_def)
  moreover have "map_of (bs_pending sample_state) ''t6''
      = Some \<lparr>t_insert = None, t_updates = Some [splice_op ''entries'' 0 0 [9]], t_delete = False\<rparr>"
    "fresh_action ''t6'' sample_state"
    by (simp_all add: sample_state_def fresh_action_def)
  ultimately obtain c s' where c: "internalCommit sample_storage ''k'' ''t6'' 6 sample_state = (Inr c, s')"
    using internalCommit_extends [OF sample_block_ok, of "''t6''" _ 6 _ _ sample_storage "''k''"] by fastforce
  have "\<exists>events R'. repo_commit (\<lambda>_. sample_storage) ?rq sample_repo = (Inr CommitSuccess, events, R')"
    using l p c by (simp add: repo_commit_def commit_blocks_def commit_apply_def k)
  then show ?thesis
    using commit_retry_idempotent [of "\<lambda>_. sample_storage" ?rq sample_repo] p by (fastforce simp: lost_setLatest_def)
qed

section \<open>Crash recovery across a gap\<close>

text \<open>The self-healing of a commit retry reaches only a block whose next revision is the very
  next number. When the committed revision skips a number on the block (revisions count the whole
  collection's commits, so a block that an intermediate commit did not touch skips them) and the
  process dies after promoting the action but before \<open>setLatest\<close>, the retry throws the
  missing-pend error although the action and its revision are durably recorded, and \<open>latest\<close>
  stays behind.\<close>

theorem sparse_crash_not_recovered:
  assumes "bs_meta s = Some meta" and "latest meta = Some l" and "map_of (bs_revisions s) (Suc (ar_rev l)) = None"
    and "Suc (ar_rev l) < r" and "bs_promote a (bs_saveRevision r a s) = Inr s'"
    and "rp_blocks R b = s'" and "distinct (map fst (bs_pending s))"
    and "rq = \<lparr>cr_blockIds = [b], cr_actionId = a, cr_rev = r, cr_tailId = b\<rparr>"
  shows "bs_transactions s' a \<noteq> None \<and> map_of (bs_revisions s') r = Some a
    \<and> (\<exists>R'. repo_commit C rq R = (Inl (Err ''Pending action not found for block(s)''), [], R')
          \<and> getLatest (rp_blocks R' b) = Some l)"
proof -
  have s': "bs_meta s' = Some meta" "bs_revisions s' = AList.update r a (bs_revisions s)"
    "map_of (bs_pending s') a = None" "bs_transactions s' a \<noteq> None"
    using assms(1,5) by (auto simp: bs_promote_def bs_saveRevision_def bs_deletePending_def bs_saveTransaction_def
        split: option.splits)
  have l: "getLatest s' = Some l" "latest_rev s' = ar_rev l"
    using s'(1) assms(2) by (simp_all add: getLatest_def latest_rev_def)
  have np: "\<not> promoted_at s' (Suc (latest_rev s'))"
    using assms(3,4) by (simp add: promoted_at_def s'(2) l(2))
  obtain u l' s2 where r: "recover s' = ((u, l'), s2)" by (metis surj_pair)
  obtain k where "\<forall>i < k. promoted_at s' (Suc (latest_rev s') + i)"
    "if k = 0 then u = False \<and> l' = latest meta \<and> s2 = s'
       else \<exists>a. map_of (bs_revisions s') (latest_rev s' + k) = Some a \<and> u
         \<and> l' = Some \<lparr>ar_actionId = a, ar_rev = latest_rev s' + k\<rparr>
         \<and> s2 = bs_saveMetadata \<lparr>ranges = mergeRanges ((Suc (latest_rev s'), RNone) # ranges meta), latest = l'\<rparr> s'"
    using recover_result [OF s'(1) r] by blast
  with np have rec: "recover s' = ((False, Some l), s')"
    using r assms(2) by (cases k) auto
  have "repo_commit C rq R = (Inl (Err ''Pending action not found for block(s)''), [],
      R\<lparr>rp_blocks := dropUnpromotablePendings [b] a ((rp_blocks R)(b := s'))\<rparr>)"
    using assms(4,6) l s'(3,4) rec by (auto simp: repo_commit_def commit_blocks_def assms(8))
  moreover have "getLatest (dropUnpromotablePendings [b] a ((rp_blocks R)(b := s')) b) = Some l"
    using l(1) by (simp add: dropUnpromotablePendings_def bs_deletePending_def getLatest_def)
  ultimately show ?thesis using s' by simp
qed

theorem sparse_crash_not_recovered_witness:
  "\<exists>s' R'. bs_promote ''t6'' (bs_saveRevision 6 ''t6'' sample_state) = Inr s'
     \<and> bs_transactions s' ''t6'' \<noteq> None
     \<and> repo_commit (\<lambda>_. sample_storage) \<lparr>cr_blockIds = [''k''], cr_actionId = ''t6'', cr_rev = 6, cr_tailId = ''k''\<rparr>
         (sample_repo\<lparr>rp_blocks := (rp_blocks sample_repo)(''k'' := s')\<rparr>)
       = (Inl (Err ''Pending action not found for block(s)''), [], R')"
proof -
  obtain s' where s': "bs_promote ''t6'' (bs_saveRevision 6 ''t6'' sample_state) = Inr s'"
    by (simp add: bs_promote_def bs_saveRevision_def sample_state_def)
  show ?thesis
    using sparse_crash_not_recovered [OF sample_meta(1) _ _ _ s', of "\<lparr>ar_actionId = ''t4'', ar_rev = 4\<rparr>"
        "sample_repo\<lparr>rp_blocks := (rp_blocks sample_repo)(''k'' := s')\<rparr>" "''k''"
        "\<lparr>cr_blockIds = [''k''], cr_actionId = ''t6'', cr_rev = 6, cr_tailId = ''k''\<rparr>" "\<lambda>_. sample_storage"] s'
    by (auto simp: sample_state_def)
qed

end
