(* ===== verification/Chain_Blocks.thy ===== *)
theory Chain_Blocks
  imports Block_Ops "HOL-Library.Monad_Syntax"
begin

text \<open>
  Chains of blocks: \<open>packages/db-core/src/chain/chain.ts\<close> and \<open>chain-nodes.ts\<close>. A chain is a
  header block naming the first and last of a doubly linked list of data blocks, each holding at
  most \<open>EntriesPerBlock\<close> entries.

  \<^item> A block of a chain is a \<open>cnode\<close>; a field the JavaScript object does not have (or has as
    \<open>undefined\<close>) is \<open>None\<close>. Ids are never empty strings, so testing an optional id for truth is
    testing that it is present.
  \<^item> The store is a \<open>cstore\<close>: its blocks and the number of ids it has generated; the ids
    themselves are a parameter \<open>gen\<close> (they are random bytes).
  \<^item> An operation that works in an \<open>Atomic\<close> returns the store it commits, or the store it
    started from if it throws (\<open>Tracker_Store\<close> shows that the atomic is transparent).
  \<^item> A walk along the links need not end, so the walks are partial functions: the outer
    \<open>None\<close> is a walk that does not return.
\<close>

section \<open>Nodes, store and paths\<close>

record 'e cnode =
  nid :: block_id
  ntype :: string
  headId :: "block_id option"
  tailId :: "block_id option"
  entries :: "'e list"
  priorId :: "block_id option"
  nextId :: "block_id option"
  priorHash :: "string option"

record 'e cstore =
  blocks :: "block_id \<rightharpoonup> 'e cnode"
  generated :: nat

record 'e chain_path =
  path_header :: "'e cnode"
  path_block :: "'e cnode"
  path_index :: int

record 'e chain_options =
  opt_dataType :: string
  opt_headerType :: string
  opt_newBlock :: "'e cnode \<Rightarrow> 'e cnode \<Rightarrow> 'e cnode"
    \<comment> \<open>the \<open>newBlock\<close> hook: the new tail after the hook has seen it and its predecessor\<close>

definition EntriesPerBlock :: nat where
  "EntriesPerBlock = 32"

lemma EntriesPerBlock_less [termination_simp]: "Suc n - EntriesPerBlock < Suc n"
  by (simp add: EntriesPerBlock_def)

definition insert_block :: "'e cnode \<Rightarrow> 'e cstore \<Rightarrow> 'e cstore" where
  "insert_block n s = s\<lparr>blocks := (blocks s)(nid n \<mapsto> n)\<rparr>"

definition delete_block :: "block_id \<Rightarrow> 'e cstore \<Rightarrow> 'e cstore" where
  "delete_block i s = s\<lparr>blocks := (blocks s)(i := None)\<rparr>"

definition update_block :: "block_id \<Rightarrow> ('e cnode \<Rightarrow> 'e cnode) \<Rightarrow> 'e cstore \<Rightarrow> 'e cstore" where
  "update_block i f s = s\<lparr>blocks := (blocks s)(i := map_option f (blocks s i))\<rparr>"

definition apply_node :: "('e cnode \<Rightarrow> 'e cnode) \<Rightarrow> 'e cnode \<Rightarrow> 'e cstore \<Rightarrow> 'e cnode \<times> 'e cstore" where
  \<comment> \<open>\<open>apply(store, block, op)\<close>: the operation goes to the store and to the local block\<close>
  "apply_node f b s = (f b, update_block (nid b) f s)"

abbreviation set_entries :: "int \<Rightarrow> int \<Rightarrow> 'e list \<Rightarrow> 'e cnode \<Rightarrow> 'e cnode" where
  "set_entries i d vs n \<equiv> n\<lparr>entries := js_splice i d vs (entries n)\<rparr>"

definition createBlockHeader :: "(nat \<Rightarrow> block_id) \<Rightarrow> block_id option \<Rightarrow> 'e cstore \<Rightarrow> block_id \<times> 'e cstore" where
  "createBlockHeader gen newId s =
     (case newId of
        Some i \<Rightarrow> (i, s)
      | None \<Rightarrow> (gen (generated s), s\<lparr>generated := generated s + 1\<rparr>))"

definition data_node :: "block_id \<Rightarrow> string \<Rightarrow> 'e list \<Rightarrow> block_id option \<Rightarrow> 'e cnode" where
  "data_node i t es p = \<lparr>nid = i, ntype = t, headId = None, tailId = None, entries = es, priorId = p,
     nextId = None, priorHash = None\<rparr>"

section \<open>Creating and opening\<close>

definition createTailBlock :: "(nat \<Rightarrow> block_id) \<Rightarrow> 'e chain_options \<Rightarrow> 'e cstore \<Rightarrow> 'e cnode \<times> 'e cstore" where
  "createTailBlock gen opts s =
     (case createBlockHeader gen None s of (i, s') \<Rightarrow> (data_node i (opt_dataType opts) [] None, s'))"

definition set_ends :: "'e cnode \<Rightarrow> block_id \<Rightarrow> 'e cstore \<Rightarrow> 'e cstore" where
  \<comment> \<open>the two \<open>apply\<close> calls that set \<open>headId\<close> and then \<open>tailId\<close> on a header block\<close>
  "set_ends h t s =
     (case apply_node (\<lambda>n. n\<lparr>headId := Some t\<rparr>) h s of
        (h', s') \<Rightarrow> snd (apply_node (\<lambda>n. n\<lparr>tailId := Some t\<rparr>) h' s'))"

definition chain_create :: "(nat \<Rightarrow> block_id) \<Rightarrow> 'e chain_options \<Rightarrow> block_id option \<Rightarrow> block_id option
    \<Rightarrow> 'e cstore \<Rightarrow> (error + block_id) \<times> 'e cstore" where
  "chain_create gen opts newId existingHeaderId s =
     (case createTailBlock gen opts s of
        (tailBlock, s1) \<Rightarrow>
          (case existingHeaderId of
             Some i \<Rightarrow>
               (case blocks s1 i of
                  None \<Rightarrow> (Inl (Err ''Existing header block not found''), s1)
                | Some existing \<Rightarrow>
                    (Inr (nid existing), insert_block tailBlock (set_ends existing (nid tailBlock) s1)))
           | None \<Rightarrow>
               (case createBlockHeader gen newId s1 of
                  (i, s2) \<Rightarrow>
                    (Inr i, insert_block tailBlock (insert_block
                       \<lparr>nid = i, ntype = opt_headerType opts, headId = Some (nid tailBlock),
                        tailId = Some (nid tailBlock), entries = [], priorId = None, nextId = None,
                        priorHash = None\<rparr> s2)))))"

definition chain_open :: "(nat \<Rightarrow> block_id) \<Rightarrow> 'e chain_options \<Rightarrow> block_id \<Rightarrow> 'e cstore \<Rightarrow> block_id option \<times> 'e cstore" where
  "chain_open gen opts i s =
     (case blocks s i of
        None \<Rightarrow> (None, s)
      | Some h \<Rightarrow>
          if headId h = None \<or> tailId h = None then
            (case createTailBlock gen opts s of
               (tailBlock, s1) \<Rightarrow> (Some i, set_ends h (nid tailBlock) (insert_block tailBlock s1)))
          else (Some i, s))"

section \<open>Ends of a chain\<close>

definition getHeader :: "block_id \<Rightarrow> 'e cstore \<Rightarrow> 'e cnode option" where
  "getHeader i s = blocks s i"

partial_function (option) follow_next :: "'e cstore \<Rightarrow> 'e cnode \<Rightarrow> 'e cnode option option" where
  "follow_next s t =
     (case nextId t of
        None \<Rightarrow> Some (Some t)
      | Some i \<Rightarrow> (case blocks s i of None \<Rightarrow> Some None | Some t' \<Rightarrow> follow_next s t'))"

partial_function (option) follow_prior :: "'e cstore \<Rightarrow> 'e cnode \<Rightarrow> 'e cnode option option" where
  "follow_prior s t =
     (case priorId t of
        None \<Rightarrow> Some (Some t)
      | Some i \<Rightarrow> (case blocks s i of None \<Rightarrow> Some None | Some t' \<Rightarrow> follow_prior s t'))"

definition getTail :: "block_id \<Rightarrow> 'e cnode option \<Rightarrow> 'e cstore \<Rightarrow> 'e chain_path option option" where
  "getTail i hdr s =
     (case (case hdr of Some h \<Rightarrow> Some h | None \<Rightarrow> getHeader i s) of
        None \<Rightarrow> Some None
      | Some h \<Rightarrow>
          (case Option.bind (tailId h) (blocks s) of
             None \<Rightarrow> Some None
           | Some t \<Rightarrow>
               map_option (map_option (\<lambda>t. \<lparr>path_header = h, path_block = t,
                   path_index = int (length (entries t)) - 1\<rparr>)) (follow_next s t)))"

definition getHead :: "block_id \<Rightarrow> 'e cnode option \<Rightarrow> 'e cstore \<Rightarrow> 'e chain_path option option" where
  "getHead i hdr s =
     (case (case hdr of Some h \<Rightarrow> Some h | None \<Rightarrow> getHeader i s) of
        None \<Rightarrow> Some None
      | Some h \<Rightarrow>
          (case Option.bind (headId h) (blocks s) of
             None \<Rightarrow> Some None
           | Some t \<Rightarrow>
               map_option (map_option (\<lambda>t. \<lparr>path_header = h, path_block = t, path_index = 0\<rparr>))
                 (follow_prior s t)))"

section \<open>Adding, updating and removing\<close>

fun add_loop :: "(nat \<Rightarrow> block_id) \<Rightarrow> 'e chain_options \<Rightarrow> 'e list \<Rightarrow> 'e cnode \<Rightarrow> bool \<Rightarrow> 'e cstore
    \<Rightarrow> 'e cnode \<times> bool \<times> 'e cstore" where
  \<comment> \<open>\<open>while (entries.length > 0)\<close>; the flag is \<open>tail !== oldTail\<close>\<close>
  "add_loop gen opts [] tail moved s = (tail, moved, s)"
| "add_loop gen opts es tail moved s =
     (case createBlockHeader gen None s of
        (i, s1) \<Rightarrow>
          (let newTail = opt_newBlock opts (data_node i (opt_dataType opts) (take EntriesPerBlock es) (Some (nid tail))) tail;
               s2 = insert_block newTail s1;
               s3 = snd (apply_node (\<lambda>n. n\<lparr>nextId := Some (nid newTail)\<rparr>) tail s2)
           in add_loop gen opts (drop EntriesPerBlock es) newTail True s3))"

definition chain_add :: "(nat \<Rightarrow> block_id) \<Rightarrow> 'e chain_options \<Rightarrow> block_id \<Rightarrow> 'e list \<Rightarrow> 'e cstore
    \<Rightarrow> ((error + 'e chain_path) \<times> 'e cstore) option" where
  "chain_add gen opts i es s =
     Option.bind (getTail i None s) (\<lambda>path.
       case path of
         None \<Rightarrow> Some (Inl (Err ''Cannot add to non-existent chain''), s)
       | Some path \<Rightarrow>
           (let oldTail = path_block path;
                copied = take (EntriesPerBlock - length (entries oldTail)) es;
                (tail, s1) = (if copied \<noteq> [] then apply_node (set_entries (int (length (entries oldTail))) 0 copied) oldTail s
                              else (oldTail, s));
                (tail', moved, s2) = add_loop gen opts (drop (length copied) es) tail False s1;
                (h, s3) = (if moved then apply_node (\<lambda>n. n\<lparr>tailId := Some (nid tail')\<rparr>) (path_header path) s2
                           else (path_header path, s2))
            in Some (Inr \<lparr>path_header = h, path_block = tail', path_index = int (length (entries tail')) - 1\<rparr>, s3)))"

definition pathValid :: "'e chain_path \<Rightarrow> bool" where
  "pathValid p \<longleftrightarrow> int (length (entries (path_block p))) > path_index p \<and> path_index p \<ge> 0"

definition entryAt :: "'e chain_path \<Rightarrow> 'e option" where
  "entryAt p = (if 0 \<le> path_index p \<and> path_index p < int (length (entries (path_block p)))
                then Some (entries (path_block p) ! nat (path_index p)) else None)"

definition updateAt :: "'e chain_path \<Rightarrow> 'e \<Rightarrow> 'e cstore \<Rightarrow> (error + unit) \<times> 'e cstore" where
  "updateAt p e s =
     (if \<not> pathValid p then (Inl (Err ''Invalid path''), s)
      else (Inr (), snd (apply_node (set_entries (path_index p) 1 [e]) (path_block p) s)))"

partial_function (option) pop_loop :: "nat \<Rightarrow> 'e cnode \<Rightarrow> 'e list \<Rightarrow> bool \<Rightarrow> 'e cstore
    \<Rightarrow> (error + 'e cnode \<times> 'e list \<times> bool \<times> 'e cstore) option" where
  "pop_loop n tail result moved s =
     (if n = 0 then Some (Inr (tail, result, moved, s))
      else if length (entries tail) > n then
        (case apply_node (set_entries (int (length (entries tail) - n)) (int n) []) tail s of
           (tail', s') \<Rightarrow> Some (Inr (tail', drop (length (entries tail) - n) (entries tail) @ result, moved, s')))
      else
        (case priorId tail of
           Some p \<Rightarrow>
             (case blocks (delete_block (nid tail) s) p of
                None \<Rightarrow> Some (Inl (TypeErr ''header''))
              | Some prior \<Rightarrow>
                  (case apply_node (\<lambda>n. n\<lparr>nextId := None\<rparr>) prior (delete_block (nid tail) s) of
                     (prior', s') \<Rightarrow>
                       pop_loop (n - length (entries tail)) prior' (entries tail @ result) True s'))
         | None \<Rightarrow>
             (case apply_node (set_entries 0 (int (length (entries tail))) []) tail s of
                (tail', s') \<Rightarrow> Some (Inr (tail', entries tail @ result, moved, s')))))"

definition chain_pop :: "block_id \<Rightarrow> nat \<Rightarrow> 'e cstore \<Rightarrow> ((error + 'e list) \<times> 'e cstore) option" where
  "chain_pop i n s =
     (if n = 0 then Some (Inr [], s)
      else Option.bind (getTail i None s) (\<lambda>path.
        case path of
          None \<Rightarrow> Some (Inr [], s)
        | Some path \<Rightarrow>
            Option.bind (pop_loop n (path_block path) [] False s) (\<lambda>r.
              case r of
                Inl e \<Rightarrow> Some (Inl e, s)
              | Inr (tail, result, moved, s') \<Rightarrow>
                  Some (Inr result,
                    if moved then snd (apply_node (\<lambda>n. n\<lparr>tailId := Some (nid tail)\<rparr>) (path_header path) s') else s'))))"

partial_function (option) dequeue_loop :: "nat \<Rightarrow> 'e cnode \<Rightarrow> 'e list \<Rightarrow> bool \<Rightarrow> 'e cstore
    \<Rightarrow> (error + 'e cnode \<times> 'e list \<times> bool \<times> 'e cstore) option" where
  "dequeue_loop n head result moved s =
     (if n = 0 then Some (Inr (head, result, moved, s))
      else if length (entries head) > n then
        (case apply_node (set_entries 0 (int n) []) head s of
           (head', s') \<Rightarrow> Some (Inr (head', result @ take n (entries head), moved, s')))
      else
        (case nextId head of
           Some q \<Rightarrow>
             (case blocks (delete_block (nid head) s) q of
                None \<Rightarrow> Some (Inl (TypeErr ''header''))
              | Some nxt \<Rightarrow>
                  (case apply_node (\<lambda>n. n\<lparr>priorId := None\<rparr>) nxt (delete_block (nid head) s) of
                     (next', s') \<Rightarrow>
                       dequeue_loop (n - length (entries head)) next' (result @ entries head) True s'))
         | None \<Rightarrow>
             (case apply_node (set_entries 0 (int (length (entries head))) []) head s of
                (head', s') \<Rightarrow> Some (Inr (head', result @ entries head, moved, s')))))"

definition chain_dequeue :: "block_id \<Rightarrow> nat \<Rightarrow> 'e cstore \<Rightarrow> ((error + 'e list) \<times> 'e cstore) option" where
  "chain_dequeue i n s =
     (if n = 0 then Some (Inr [], s)
      else Option.bind (getHead i None s) (\<lambda>path.
        case path of
          None \<Rightarrow> Some (Inr [], s)
        | Some path \<Rightarrow>
            Option.bind (dequeue_loop n (path_block path) [] False s) (\<lambda>r.
              case r of
                Inl e \<Rightarrow> Some (Inl e, s)
              | Inr (head, result, moved, s') \<Rightarrow>
                  Some (Inr result,
                    if moved then snd (apply_node (\<lambda>n. n\<lparr>headId := Some (nid head)\<rparr>) (path_header path) s') else s'))))"

section \<open>Iterating\<close>

partial_function (option) select_fwd :: "'e cstore \<Rightarrow> 'e cnode \<Rightarrow> 'e cnode \<Rightarrow> int \<Rightarrow> 'e chain_path list option" where
  "select_fwd s h b index =
     (let here = map (\<lambda>k. \<lparr>path_header = h, path_block = b, path_index = k\<rparr>) [index..int (length (entries b)) - 1]
      in case Option.bind (nextId b) (blocks s) of
           None \<Rightarrow> Some here
         | Some b' \<Rightarrow> Option.bind (select_fwd s h b' 0) (\<lambda>rest. Some (here @ rest)))"

partial_function (option) select_bwd :: "'e cstore \<Rightarrow> 'e cnode \<Rightarrow> 'e cnode \<Rightarrow> int \<Rightarrow> 'e chain_path list option" where
  "select_bwd s h b index =
     (let here = map (\<lambda>k. \<lparr>path_header = h, path_block = b, path_index = k\<rparr>) (rev [0..index])
      in case Option.bind (priorId b) (blocks s) of
           None \<Rightarrow> Some here
         | Some b' \<Rightarrow> Option.bind (select_bwd s h b' (int (length (entries b')) - 1)) (\<lambda>rest. Some (here @ rest)))"

definition chain_select :: "block_id \<Rightarrow> 'e chain_path option \<Rightarrow> bool \<Rightarrow> 'e cstore \<Rightarrow> 'e chain_path list option" where
  \<comment> \<open>the paths the generator yields when it is run to its end\<close>
  "chain_select i starting forward s =
     Option.bind (case starting of Some p \<Rightarrow> Some (Some p)
                  | None \<Rightarrow> if forward then getHead i None s else getTail i None s) (\<lambda>path.
       case path of
         None \<Rightarrow> Some []
       | Some p \<Rightarrow> if forward then select_fwd s (path_header p) (path_block p) (path_index p)
                   else select_bwd s (path_header p) (path_block p) (path_index p))"

definition chain_next :: "'e chain_path \<Rightarrow> 'e cstore \<Rightarrow> 'e cnode option \<times> int" where
  \<comment> \<open>the block and index of the path that follows; the block is \<open>None\<close> if the link dangles\<close>
  "chain_next p s =
     (let b = path_block p
      in case nextId b of
           None \<Rightarrow> (Some b, path_index p + 1)
         | Some q \<Rightarrow> if path_index p < int (length (entries b)) - 1 then (Some b, path_index p + 1)
                     else (blocks s q, 0))"

definition chain_prev :: "'e chain_path \<Rightarrow> 'e cstore \<Rightarrow> error + 'e chain_path" where
  "chain_prev p s =
     (let b = path_block p
      in case priorId b of
           None \<Rightarrow> Inr (p\<lparr>path_index := path_index p - 1\<rparr>)
         | Some q \<Rightarrow>
             if path_index p > 0 then Inr (p\<lparr>path_index := path_index p - 1\<rparr>)
             else (case blocks s q of
                     None \<Rightarrow> Inl (TypeErr ''entries'')
                   | Some b' \<Rightarrow> Inr (p\<lparr>path_block := b', path_index := int (length (entries b')) - 1\<rparr>)))"

section \<open>Well-formed chains\<close>

fun linked :: "block_id option \<Rightarrow> 'e cnode list \<Rightarrow> block_id option \<Rightarrow> bool" where
  "linked p [] q \<longleftrightarrow> True"
| "linked p (n # ns) q \<longleftrightarrow>
     priorId n = p \<and> nextId n = (case ns of [] \<Rightarrow> q | m # _ \<Rightarrow> Some (nid m)) \<and> linked (Some (nid n)) ns q"

definition stored :: "'e cstore \<Rightarrow> 'e cnode list \<Rightarrow> bool" where
  "stored s ns \<longleftrightarrow> (\<forall>n \<in> set ns. blocks s (nid n) = Some n)"

definition contents :: "'e cnode list \<Rightarrow> 'e list" where
  "contents ns = concat (map entries ns)"

definition chain_ok :: "'e cstore \<Rightarrow> block_id \<Rightarrow> 'e cnode \<Rightarrow> 'e cnode list \<Rightarrow> bool" where
  \<comment> \<open>header \<open>h\<close> under id \<open>i\<close>, data blocks \<open>ns\<close> from head to tail\<close>
  "chain_ok s i h ns \<longleftrightarrow> blocks s i = Some h \<and> nid h = i \<and> ns \<noteq> []
     \<and> headId h = Some (nid (hd ns)) \<and> tailId h = Some (nid (last ns))
     \<and> distinct (i # map nid ns) \<and> stored s ns \<and> linked None ns None"

definition fresh_ids :: "(nat \<Rightarrow> block_id) \<Rightarrow> 'e cstore \<Rightarrow> bool" where
  \<comment> \<open>what the callers rely on of \<open>generateId\<close>: a generated id was never used before\<close>
  "fresh_ids gen s \<longleftrightarrow> inj gen \<and> (\<forall>k \<ge> generated s. blocks s (gen k) = None)"

lemma contents_simps [simp]:
  "contents [] = []"
  "contents (n # ns) = entries n @ contents ns"
  "contents (xs @ ys) = contents xs @ contents ys"
  by (simp_all add: contents_def)

lemma stored_simps [simp]:
  "stored s []"
  "stored s (n # ns) \<longleftrightarrow> blocks s (nid n) = Some n \<and> stored s ns"
  "stored s (xs @ ys) \<longleftrightarrow> stored s xs \<and> stored s ys"
  by (auto simp: stored_def)

lemma linked_append:
  "linked p (xs @ ys) q \<longleftrightarrow>
     linked p xs (if ys = [] then q else Some (nid (hd ys)))
     \<and> linked (if xs = [] then p else Some (nid (last xs))) ys q"
proof (induction xs arbitrary: p)
  case (Cons x xs)
  then show ?case by (cases xs; cases ys) auto
qed simp

lemma linked_snoc [simp]:
  "linked p (xs @ [n]) q \<longleftrightarrow>
     linked p xs (Some (nid n)) \<and> priorId n = (if xs = [] then p else Some (nid (last xs))) \<and> nextId n = q"
  by (auto simp: linked_append)

lemma linked_next_snoc:
  "linked p (xs @ [n]) None \<Longrightarrow> linked p (xs @ [n\<lparr>nextId := q\<rparr>]) q"
  by simp

lemma stored_frame:
  "stored s ns \<Longrightarrow> (\<And>j. j \<in> set (map nid ns) \<Longrightarrow> blocks s' j = blocks s j) \<Longrightarrow> stored s' ns"
  by (auto simp: stored_def)

lemma stored_upd [simp]:
  "i \<notin> set (map nid ns) \<Longrightarrow> stored (s\<lparr>blocks := (blocks s)(i := x)\<rparr>) ns = stored s ns"
  by (force simp: stored_def)

lemma blocks_ops [simp]:
  "blocks (insert_block n s) = (blocks s)(nid n \<mapsto> n)"
  "blocks (delete_block i s) = (blocks s)(i := None)"
  "blocks (update_block i f s) = (blocks s)(i := map_option f (blocks s i))"
  "generated (insert_block n s) = generated s"
  "generated (delete_block i s) = generated s"
  "generated (update_block i f s) = generated s"
  by (simp_all add: insert_block_def delete_block_def update_block_def)

lemma apply_node_simps [simp]:
  "fst (apply_node f b s) = f b"
  "snd (apply_node f b s) = update_block (nid b) f s"
  by (simp_all add: apply_node_def)

section \<open>Walking\<close>

lemma follow_next_end:
  assumes "stored s (n # ns)" and "linked p (n # ns) None"
  shows "follow_next s n = Some (Some (last (n # ns)))"
  using assms
proof (induction ns arbitrary: n p)
  case Nil
  then show ?case by (simp add: follow_next.simps [of s n])
next
  case (Cons m ns)
  then show ?case using Cons.IH [of m "Some (nid n)"] by (simp add: follow_next.simps [of s n])
qed

lemma follow_prior_start:
  assumes "stored s (ns @ [n])" and "linked None (ns @ [n]) q"
  shows "follow_prior s n = Some (Some (hd (ns @ [n])))"
  using assms
proof (induction ns arbitrary: n q rule: rev_induct)
  case Nil
  then show ?case by (simp add: follow_prior.simps [of s n])
next
  case (snoc m ns)
  have "linked None (ns @ [m]) (Some (nid n))" "priorId n = Some (nid m)"
    using snoc.prems(2) unfolding linked_snoc [of None "ns @ [m]" n q] by simp_all
  then show ?case using snoc by (simp add: follow_prior.simps [of s n] hd_append)
qed

text \<open>A header read before other writers extended the chain may name any of its blocks; the walk
  still ends at the true end.\<close>

lemma getTail_stale:
  assumes "chain_ok s i h ns" and "n \<in> set ns" and "tailId h' = Some (nid n)"
  shows "getTail i (Some h') s
    = Some (Some \<lparr>path_header = h', path_block = last ns, path_index = int (length (entries (last ns))) - 1\<rparr>)"
proof -
  obtain xs ys where ns: "ns = xs @ n # ys" using assms(2) by (meson split_list)
  have st: "stored s (n # ys)" "linked (if xs = [] then None else Some (nid (last xs))) (n # ys) None"
    using assms(1) by (auto simp: chain_ok_def ns linked_append)
  from follow_next_end [OF this] show ?thesis using st(1) by (simp add: getTail_def assms(3) ns)
qed

lemma getHead_stale:
  assumes "chain_ok s i h ns" and "n \<in> set ns" and "headId h' = Some (nid n)"
  shows "getHead i (Some h') s = Some (Some \<lparr>path_header = h', path_block = hd ns, path_index = 0\<rparr>)"
proof -
  obtain xs ys where ns: "ns = xs @ n # ys" using assms(2) by (meson split_list)
  have st: "stored s (xs @ [n])" "linked None (xs @ [n]) (if ys = [] then None else Some (nid (hd ys)))"
    using assms(1) by (auto simp: chain_ok_def ns linked_append neq_Nil_conv split: list.splits)
  from follow_prior_start [OF this] show ?thesis using st(1) by (simp add: getHead_def assms(3) ns hd_append)
qed

lemma chain_ok_header: "chain_ok s i h ns \<Longrightarrow> getHeader i s = Some h"
  by (simp add: chain_ok_def getHeader_def)

lemma getTail_ok:
  assumes "chain_ok s i h ns"
  shows "getTail i None s
    = Some (Some \<lparr>path_header = h, path_block = last ns, path_index = int (length (entries (last ns))) - 1\<rparr>)"
  using getTail_stale [OF assms, of "last ns" h] assms
  by (simp add: getTail_def chain_ok_header [OF assms]) (simp add: chain_ok_def)

lemma getHead_ok:
  assumes "chain_ok s i h ns"
  shows "getHead i None s = Some (Some \<lparr>path_header = h, path_block = hd ns, path_index = 0\<rparr>)"
  using getHead_stale [OF assms, of "hd ns" h] assms
  by (simp add: getHead_def chain_ok_header [OF assms]) (simp add: chain_ok_def)

section \<open>Adding\<close>

definition grown :: "'e cstore \<Rightarrow> 'e cnode list \<Rightarrow> 'e list \<Rightarrow> 'e cstore \<Rightarrow> 'e cnode list \<Rightarrow> bool" where
  \<comment> \<open>blocks \<open>ns'\<close> hold what \<open>ns\<close> held and then \<open>es\<close>; only ids of \<open>ns\<close> and unused ids are written\<close>
  "grown s ns es s' ns' \<longleftrightarrow> ns' \<noteq> [] \<and> nid (hd ns') = nid (hd ns) \<and> contents ns' = contents ns @ es
     \<and> (es = [] \<longrightarrow> ns' = ns) \<and> (es \<noteq> [] \<longrightarrow> entries (last ns') \<noteq> [])
     \<and> (\<forall>n \<in> set ns'. nid n \<in> nid ` set ns \<or> blocks s (nid n) = None)
     \<and> (\<forall>n \<in> set ns'. length (entries n) \<le> EntriesPerBlock \<or> entries n \<in> entries ` set ns)
     \<and> (\<forall>j. j \<notin> nid ` set ns' \<longrightarrow> blocks s' j = blocks s j) \<and> nid ` set ns \<subseteq> nid ` set ns'"

lemma grown_refl: "ns \<noteq> [] \<Longrightarrow> grown s ns [] s ns"
  by (auto simp: grown_def)

lemma grownD:
  assumes "grown s ns es s' ns'"
  shows "ns' \<noteq> []" "nid (hd ns') = nid (hd ns)" "contents ns' = contents ns @ es" "es = [] \<Longrightarrow> ns' = ns"
    "es \<noteq> [] \<Longrightarrow> entries (last ns') \<noteq> []" "n \<in> set ns' \<Longrightarrow> nid n \<in> nid ` set ns \<or> blocks s (nid n) = None"
    "n \<in> set ns' \<Longrightarrow> length (entries n) \<le> EntriesPerBlock \<or> entries n \<in> entries ` set ns"
    "j \<notin> nid ` set ns' \<Longrightarrow> blocks s' j = blocks s j" "nid ` set ns \<subseteq> nid ` set ns'"
  using assms by (simp_all add: grown_def)

lemma grown_cong: "blocks s1 = blocks s2 \<Longrightarrow> grown s ns es s1 ns' = grown s ns es s2 ns'"
  by (simp add: grown_def)

lemma grown_fill:
  assumes "grown s1 (xs @ [t\<lparr>entries := entries t @ copied\<rparr>]) rest s' ns'"
    and "blocks s1 = (blocks s)(nid t \<mapsto> t\<lparr>entries := entries t @ copied\<rparr>)" and "blocks s (nid t) = Some t"
    and "es = copied @ rest" and "copied \<noteq> [] \<Longrightarrow> length (entries t) + length copied \<le> EntriesPerBlock"
  shows "grown s (xs @ [t]) es s' ns'"
proof -
  let ?t1 = "t\<lparr>entries := entries t @ copied\<rparr>"
  note g = grownD [OF assms(1)]
  have ids: "nid ` set (xs @ [?t1]) = nid ` set (xs @ [t])" by simp
  have 1: "nid (hd ns') = nid (hd (xs @ [t]))" using g(2) by (cases xs) auto
  have 2: "contents ns' = contents (xs @ [t]) @ es" using g(3) assms(4) by simp
  have 3: "ns' = xs @ [t]" if "es = []" using g(4) that assms(4) by simp
  have 4: "entries (last ns') \<noteq> []" if "es \<noteq> []"
  proof (cases "rest = []")
    case True
    then show ?thesis using g(4) that assms(4) by simp
  qed (rule g(5))
  have 5: "nid n \<in> nid ` set (xs @ [t]) \<or> blocks s (nid n) = None" if "n \<in> set ns'" for n
    using g(6) [OF that] assms(2) by (auto split: if_splits)
  have 6: "length (entries n) \<le> EntriesPerBlock \<or> entries n \<in> entries ` set (xs @ [t])" if "n \<in> set ns'" for n
    using g(7) [OF that] assms(5) by (cases "copied = []") auto
  have 7: "blocks s' j = blocks s j" if "j \<notin> nid ` set ns'" for j
    using g(8) [OF that] g(9) that assms(2) by auto
  show ?thesis unfolding grown_def using g(1) g(9) [unfolded ids] 1 2 3 4 5 6 7 by simp
qed

lemma grown_step:
  assumes "grown s3 ((xs @ [t1]) @ [new]) (drop EntriesPerBlock (v # vs)) s' ns'"
    and "blocks s3 = (blocks s)(i \<mapsto> new, nid t \<mapsto> t1)" and "blocks s i = None"
    and "nid t1 = nid t" and "entries t1 = entries t" and "nid new = i"
    and "entries new = take EntriesPerBlock (v # vs)"
  shows "grown s (xs @ [t]) (v # vs) s' ns'"
proof -
  have g: "ns' \<noteq> []" "nid (hd ns') = nid (hd ((xs @ [t1]) @ [new]))"
    "contents ns' = contents ((xs @ [t1]) @ [new]) @ drop EntriesPerBlock (v # vs)"
    "drop EntriesPerBlock (v # vs) = [] \<longrightarrow> ns' = (xs @ [t1]) @ [new]"
    "drop EntriesPerBlock (v # vs) \<noteq> [] \<longrightarrow> entries (last ns') \<noteq> []"
    "\<forall>n \<in> set ns'. nid n \<in> nid ` set ((xs @ [t1]) @ [new]) \<or> blocks s3 (nid n) = None"
    "\<forall>n \<in> set ns'. length (entries n) \<le> EntriesPerBlock \<or> entries n \<in> entries ` set ((xs @ [t1]) @ [new])"
    "\<forall>j. j \<notin> nid ` set ns' \<longrightarrow> blocks s' j = blocks s3 j" "nid ` set ((xs @ [t1]) @ [new]) \<subseteq> nid ` set ns'"
    using assms(1) by (simp_all add: grown_def)
  have 1: "nid (hd ns') = nid (hd (xs @ [t]))" using g(2) assms(4) by (cases xs) auto
  have 2: "contents ns' = contents (xs @ [t]) @ v # vs"
    unfolding g(3) contents_simps assms(5,7) by (simp del: take_Suc_Cons drop_Suc_Cons)
  have 3: "entries (last ns') \<noteq> []"
    using g(4,5) assms(7) by (cases "drop EntriesPerBlock (v # vs) = []") (auto simp: EntriesPerBlock_def)
  have 4: "nid n \<in> nid ` set (xs @ [t]) \<or> blocks s (nid n) = None" if "n \<in> set ns'" for n
    using bspec [OF g(6) that] assms(2,3,4,6) by (auto split: if_splits)
  have 5: "length (entries n) \<le> EntriesPerBlock \<or> entries n \<in> entries ` set (xs @ [t])" if "n \<in> set ns'" for n
    using bspec [OF g(7) that] assms(5,7) by auto
  have 6: "blocks s' j = blocks s j" if "j \<notin> nid ` set ns'" for j
    using g(8,9) that assms(2,4,6) by auto
  have 7: "nid ` set (xs @ [t]) \<subseteq> nid ` set ns'" using g(9) assms(4) by auto
  show ?thesis unfolding grown_def using g(1) 1 2 3 4 5 6 7 by simp
qed

locale chain_hook =
  fixes hook :: "'e cnode \<Rightarrow> 'e cnode \<Rightarrow> 'e cnode"
    and link :: "'e cnode \<Rightarrow> 'e cnode \<Rightarrow> bool"
  assumes hook_keeps: "nid (hook a b) = nid a" "entries (hook a b) = entries a"
      "priorId (hook a b) = priorId a" "nextId (hook a b) = nextId a"
    and hook_link: "link b (hook a b)"
    and link_pred: "link (a\<lparr>nextId := x\<rparr>) b = link a b"
    and link_succ: "link a (b\<lparr>nextId := x\<rparr>) = link a b" "link a (b\<lparr>entries := es\<rparr>) = link a b"
begin

abbreviation links :: "'e cnode list \<Rightarrow> bool" where
  "links \<equiv> successively link"

lemma links_snoc_nextId: "links (xs @ [n]) \<Longrightarrow> links (xs @ [n\<lparr>nextId := q\<rparr>])"
  by (cases xs rule: rev_cases) (auto simp: successively_append_iff link_succ)

lemma links_snoc_entries: "links (xs @ [n]) \<Longrightarrow> links (xs @ [n\<lparr>entries := es\<rparr>])"
  by (cases xs rule: rev_cases) (auto simp: successively_append_iff link_succ)

lemma add_loop_correct:
  assumes "opt_newBlock opts = hook" and "stored s (xs @ [tail])" and "linked None (xs @ [tail]) None"
    and "distinct (map nid (xs @ [tail]))" and "fresh_ids gen s" and "links (xs @ [tail])"
  shows "\<exists>s' ns'. add_loop gen opts es tail moved s = (last ns', moved \<or> es \<noteq> [], s')
    \<and> stored s' ns' \<and> linked None ns' None \<and> distinct (map nid ns') \<and> fresh_ids gen s' \<and> links ns'
    \<and> grown s (xs @ [tail]) es s' ns'"
  using assms
proof (induction gen opts es tail moved s arbitrary: xs rule: add_loop.induct)
  case (1 gen opts tail moved s)
  then show ?case using grown_refl [of "xs @ [tail]" s] by (intro exI [of _ s] exI [of _ "xs @ [tail]"]) simp
next
  case (2 gen opts v vs tail moved s)
  define i where "i = gen (generated s)"
  define newTail where "newTail = hook (data_node i (opt_dataType opts) (take EntriesPerBlock (v # vs)) (Some (nid tail))) tail"
  define tail1 where "tail1 = tail\<lparr>nextId := Some i\<rparr>"
  define s3 where "s3 = update_block (nid tail) (\<lambda>n. n\<lparr>nextId := Some i\<rparr>) (insert_block newTail (s\<lparr>generated := generated s + 1\<rparr>))"
  have new: "nid newTail = i" "entries newTail = take EntriesPerBlock (v # vs)" "priorId newTail = Some (nid tail)" "nextId newTail = None"
    by (simp_all add: newTail_def hook_keeps data_node_def)
  have step: "add_loop gen opts (v # vs) tail moved s = add_loop gen opts (drop EntriesPerBlock (v # vs)) newTail True s3"
    using new(1) by (simp add: createBlockHeader_def 2(2) i_def newTail_def s3_def Let_def)
  have i_new: "blocks s i = None" using 2(6) by (simp add: fresh_ids_def i_def)
  then have i_notin: "i \<notin> nid ` set (xs @ [tail])" using 2(3) by (auto simp: stored_def)
  have b3: "blocks s3 = (blocks s)(i \<mapsto> newTail, nid tail \<mapsto> tail1)"
    using i_notin 2(3) new(1) by (auto simp: s3_def tail1_def)
  have pre: "stored s3 ((xs @ [tail1]) @ [newTail])"
  proof -
    have "stored s3 xs" by (rule stored_frame [of s]) (use 2(3,5) i_notin in \<open>auto simp: b3 dest: sym [of "nid _"]\<close>)
    then show ?thesis using i_notin new(1) by (simp add: b3 tail1_def)
  qed
  have lk: "linked None ((xs @ [tail1]) @ [newTail]) None"
    using 2(4) new by (simp add: tail1_def linked_append)
  have ds: "distinct (map nid ((xs @ [tail1]) @ [newTail]))"
    using 2(5) i_notin new(1) by (auto simp: tail1_def)
  have fr: "fresh_ids gen s3"
  proof -
    have "gen k \<noteq> i" if "Suc (generated s) \<le> k" for k
      using 2(6) that by (auto simp: fresh_ids_def i_def inj_eq)
    moreover have "gen k \<noteq> nid tail" if "generated s \<le> k" for k
      using 2(3,6) that by (auto simp: fresh_ids_def)
    ultimately show ?thesis using 2(6) unfolding fresh_ids_def b3 by (auto simp: s3_def)
  qed
  have "link tail1 newTail" by (simp add: tail1_def newTail_def link_pred hook_link)
  then have li: "links ((xs @ [tail1]) @ [newTail])"
    using links_snoc_nextId [OF 2(7), of "Some i"] by (auto simp: successively_append_iff tail1_def)
  have crt: "(i, s\<lparr>generated := generated s + 1\<rparr>) = createBlockHeader gen None s"
    by (simp add: createBlockHeader_def i_def)
  have eqs: "opt_newBlock opts (data_node i (opt_dataType opts) (take EntriesPerBlock (v # vs)) (Some (nid tail))) tail = newTail"
      "snd (apply_node (\<lambda>n. n\<lparr>nextId := Some (nid newTail)\<rparr>) tail (insert_block newTail (s\<lparr>generated := generated s + 1\<rparr>))) = s3"
      "(True \<or> b) = True" for b
    using 2(2) new(1) by (simp_all add: newTail_def s3_def)
  obtain s' ns' where IH: "add_loop gen opts (drop EntriesPerBlock (v # vs)) newTail True s3 = (last ns', True, s')"
    "stored s' ns'" "linked None ns' None" "distinct (map nid ns')" "fresh_ids gen s'" "links ns'"
    "grown s3 ((xs @ [tail1]) @ [newTail]) (drop EntriesPerBlock (v # vs)) s' ns'"
    using 2(1) [OF crt refl refl refl, of "xs @ [tail1]", OF 2(2), unfolded eqs] pre lk ds fr li by blast
  have "grown s (xs @ [tail]) (v # vs) s' ns'"
    by (rule grown_step [OF IH(7)]) (simp_all add: b3 tail1_def new i_new)
  then show ?case using step IH by auto
qed

lemma chain_add_correct:
  assumes "opt_newBlock opts = hook" and "chain_ok s i h ns" and "fresh_ids gen s" and "links ns"
  shows "\<exists>s' h' ns' p. chain_add gen opts i es s = Some (Inr p, s') \<and> chain_ok s' i h' ns' \<and> fresh_ids gen s'
    \<and> links ns' \<and> grown s ns es (s'\<lparr>blocks := (blocks s')(i := Some h)\<rparr>) ns'
    \<and> p = \<lparr>path_header = h', path_block = last ns', path_index = int (length (entries (last ns'))) - 1\<rparr>"
proof -
  obtain xs t where ns: "ns = xs @ [t]" using assms(2) by (cases ns rule: rev_cases) (auto simp: chain_ok_def)
  define copied where "copied = take (EntriesPerBlock - length (entries t)) es"
  define t1 where "t1 = t\<lparr>entries := entries t @ copied\<rparr>"
  define s1 where "s1 = (if copied \<noteq> [] then update_block (nid t) (set_entries (int (length (entries t))) 0 copied) s else s)"
  have ok: "blocks s i = Some h" "nid h = i" "distinct (i # map nid (xs @ [t]))" "stored s (xs @ [t])" "linked None (xs @ [t]) None"
    "headId h = Some (nid (hd (xs @ [t])))"  "tailId h = Some (nid t)"
    using assms(2) by (simp_all add: chain_ok_def ns)
  have t: "blocks s (nid t) = Some t" using ok(4) by simp
  have b1: "blocks s1 = (blocks s)(nid t \<mapsto> t1)"
    using t js_splice_nat [of "length (entries t)" 0 copied "entries t"] by (auto simp: s1_def t1_def)
  have g1: "generated s1 = generated s" by (simp add: s1_def)
  have sel: "(if copied \<noteq> [] then apply_node (set_entries (int (length (entries t))) 0 copied) t s else (t, s)) = (t1, s1)"
    using js_splice_nat [of "length (entries t)" 0 copied "entries t"] by (simp add: apply_node_def s1_def t1_def)
  have st: "stored s1 (xs @ [t1])"
  proof -
    have "stored s1 xs" by (rule stored_frame [of s]) (use ok(3,4) in \<open>auto simp: b1 dest: sym [of "nid _"]\<close>)
    then show ?thesis by (simp add: b1 t1_def)
  qed
  have fr: "fresh_ids gen s1" using assms(3) t by (auto simp: fresh_ids_def b1 g1)
  have li: "links (xs @ [t1])" using links_snoc_entries [of xs t] assms(4) by (simp add: ns t1_def)
  obtain s' ns' where r: "add_loop gen opts (drop (length copied) es) t1 False s1 = (last ns', drop (length copied) es \<noteq> [], s')"
    "stored s' ns'" "linked None ns' None" "distinct (map nid ns')" "fresh_ids gen s'" "links ns'"
    "grown s1 (xs @ [t1]) (drop (length copied) es) s' ns'"
    using add_loop_correct [OF assms(1) st _ _ fr li, of "drop (length copied) es" False] ok(3,5) by (auto simp: t1_def)
  define h' where "h' = (if drop (length copied) es \<noteq> [] then h\<lparr>tailId := Some (nid (last ns'))\<rparr> else h)"
  define s3 where "s3 = s'\<lparr>blocks := (blocks s')(i \<mapsto> h')\<rparr>"
  have gr: "grown s ns es s' ns'"
    unfolding ns by (rule grown_fill [OF r(7) [unfolded t1_def] b1 [unfolded t1_def] t])
      (auto simp: copied_def min_def)
  have i_out: "i \<notin> nid ` set ns'"
    using grownD(6) [OF gr] ok(1,3) by (force simp: ns)
  have i_s': "blocks s' i = Some h" using grownD(8) [OF gr i_out] ok(1) by simp
  have add: "chain_add gen opts i es s = Some (Inr \<lparr>path_header = h', path_block = last ns', path_index = int (length (entries (last ns'))) - 1\<rparr>, s3)"
  proof -
    have hdr: "(if drop (length copied) es \<noteq> [] then apply_node (\<lambda>n. n\<lparr>tailId := Some (nid (last ns'))\<rparr>) h s' else (h, s')) = (h', s3)"
      using i_s' ok(2) by (cases s') (auto simp: apply_node_def h'_def s3_def update_block_def map_upd_triv)
    show ?thesis
      unfolding chain_add_def getTail_ok [OF assms(2)] Option.bind.bind_lunit option.case chain_path.simps ns last_snoc
        Let_def copied_def [symmetric] sel prod.case r(1) hdr ..
  qed
  have last': "drop (length copied) es = [] \<Longrightarrow> nid (last ns') = nid t" "ns' \<noteq> []" "nid (hd ns') = nid (hd (xs @ [t]))"
    using grownD(4) [OF r(7)] grownD(1,2) [OF gr] by (auto simp: t1_def ns)
  have "chain_ok s3 i h' ns'"
    using r(2,3,4) i_out ok last' by (auto simp: chain_ok_def s3_def h'_def)
  moreover have "fresh_ids gen s3" using r(5) i_s' by (auto simp: fresh_ids_def s3_def)
  moreover have "grown s ns es (s3\<lparr>blocks := (blocks s3)(i := Some h)\<rparr>) ns'"
    using gr grown_cong [of "s3\<lparr>blocks := (blocks s3)(i := Some h)\<rparr>" s'] map_upd_triv [of "blocks s'", OF i_s']
    by (simp add: s3_def)
  ultimately show ?thesis using add r(6) by blast
qed

end

interpretation plain: chain_hook "\<lambda>newTail oldTail. newTail" "\<lambda>a b. True"
  by unfold_locales simp_all

lemma plain_links [simp]: "plain.links ns"
  by (induction ns rule: induct_list012) simp_all

section \<open>Removing\<close>

definition shrunk :: "'e cstore \<Rightarrow> 'e cnode list \<Rightarrow> 'e cstore \<Rightarrow> 'e cnode list \<Rightarrow> bool" where
  \<comment> \<open>some blocks of \<open>ns\<close> were deleted and the others, \<open>ns'\<close>, form a linked list; nothing else changed\<close>
  "shrunk s ns s' ns' \<longleftrightarrow> ns' \<noteq> [] \<and> stored s' ns' \<and> linked None ns' None \<and> distinct (map nid ns')
     \<and> nid ` set ns' \<subseteq> nid ` set ns \<and> generated s' = generated s
     \<and> (\<forall>j. j \<notin> nid ` set ns \<longrightarrow> blocks s' j = blocks s j)
     \<and> (\<forall>j \<in> nid ` set ns - nid ` set ns'. blocks s' j = None)"

lemma stored_update_block:
  assumes "stored s (xs @ t # ys)" and "distinct (map nid (xs @ t # ys))" and "nid (f t) = nid t"
  shows "stored (update_block (nid t) f s) (xs @ f t # ys)"
proof -
  have out: "nid t \<notin> set (map nid xs)" "nid t \<notin> set (map nid ys)" using assms(2) by auto
  have "stored (update_block (nid t) f s) xs" "stored (update_block (nid t) f s) ys"
    using assms(1) out by (simp_all add: update_block_def)
  then show ?thesis using assms(1,3) by simp
qed

lemma linked_cong_at:
  assumes "linked p (xs @ t # ys) q" and "nid t' = nid t" and "priorId t' = priorId t" and "nextId t' = nextId t"
  shows "linked p (xs @ t' # ys) q"
  using assms by (auto simp: linked_append)

lemma shrunk_update:
  assumes "stored s (xs @ t # ys)" and "linked None (xs @ t # ys) None" and "distinct (map nid (xs @ t # ys))"
    and "nid (f t) = nid t" and "priorId (f t) = priorId t" and "nextId (f t) = nextId t"
  shows "shrunk s (xs @ t # ys) (update_block (nid t) f s) (xs @ f t # ys)"
  using stored_update_block [of s xs t ys f, OF assms(1,3,4)] linked_cong_at [OF assms(2,4,5,6)] assms(3,4)
  by (auto simp: shrunk_def)

lemma shrunk_trans:
  assumes "shrunk s1 ns1 s' ns'" and "nid ` set ns1 \<subseteq> nid ` set ns" and "generated s1 = generated s"
    and "\<forall>j. j \<notin> nid ` set ns \<longrightarrow> blocks s1 j = blocks s j"
    and "\<forall>j \<in> nid ` set ns - nid ` set ns1. blocks s1 j = None"
  shows "shrunk s ns s' ns'"
proof -
  have a: "\<forall>j. j \<notin> nid ` set ns1 \<longrightarrow> blocks s' j = blocks s1 j" "nid ` set ns' \<subseteq> nid ` set ns1"
    "\<forall>j \<in> nid ` set ns1 - nid ` set ns'. blocks s' j = None"
    using assms(1) by (simp_all add: shrunk_def)
  have "blocks s' j = blocks s j" if "j \<notin> nid ` set ns" for j
  proof -
    have "j \<notin> nid ` set ns1" using that assms(2) by blast
    then show ?thesis using a(1) assms(4) that by simp
  qed
  moreover have "blocks s' j = None" if "j \<in> nid ` set ns - nid ` set ns'" for j
    using a(1,3) assms(5) that by (cases "j \<in> nid ` set ns1") simp_all
  moreover have "ns' \<noteq> []" "stored s' ns'" "linked None ns' None" "distinct (map nid ns')" "generated s' = generated s"
    using assms(1,3) by (simp_all add: shrunk_def)
  moreover have "nid ` set ns' \<subseteq> nid ` set ns" using a(2) assms(2) by (rule subset_trans)
  ultimately show ?thesis by (simp add: shrunk_def)
qed

lemma shrunk_refl:
  "ns \<noteq> [] \<Longrightarrow> stored s ns \<Longrightarrow> linked None ns None \<Longrightarrow> distinct (map nid ns) \<Longrightarrow> shrunk s ns s ns"
  by (simp add: shrunk_def)

lemma pop_loop_correct:
  fixes s :: "'e cstore"
  assumes "stored s (xs @ [tail])" and "linked None (xs @ [tail]) None" and "distinct (map nid (xs @ [tail]))"
  shows "\<exists>ns' moved' s'. pop_loop n tail result moved s
      = Some (Inr (last ns', drop (length (contents (xs @ [tail])) - n) (contents (xs @ [tail])) @ result, moved', s'))
    \<and> shrunk s (xs @ [tail]) s' ns' \<and> nid (hd ns') = nid (hd (xs @ [tail]))
    \<and> contents ns' = take (length (contents (xs @ [tail])) - n) (contents (xs @ [tail]))
    \<and> (moved \<longrightarrow> moved') \<and> (\<not> moved' \<longrightarrow> nid (last ns') = nid tail)"
  using assms
proof (induction xs arbitrary: n tail result moved s rule: rev_induct)
  case Nil
  define f where "f = (set_entries (int (length (entries tail) - n)) (int n) [] :: 'e cnode \<Rightarrow> 'e cnode)"
  define g where "g = (set_entries 0 (int (length (entries tail))) [] :: 'e cnode \<Rightarrow> 'e cnode)"
  have f: "entries (f tail) = take (length (entries tail) - n) (entries tail)" if "n < length (entries tail)"
    using that by (simp add: f_def)
  have g: "entries (g tail) = []" using js_splice_nat [of 0 "length (entries tail)" "[]" "entries tail"] by (simp add: g_def)
  have sh: "shrunk s [tail] (update_block (nid tail) f s) [f tail]" "shrunk s [tail] (update_block (nid tail) g s) [g tail]"
    using shrunk_update [of s "[]" tail "[]" f] shrunk_update [of s "[]" tail "[]" g] Nil by (simp_all add: f_def g_def)
  consider "n = 0" | "n > 0" "n < length (entries tail)" | "n > 0" "length (entries tail) \<le> n" by linarith
  then show ?case
  proof cases
    case 1
    then show ?thesis using Nil shrunk_refl [of "[tail]" s]
      by (intro exI [of _ "[tail]"] exI [of _ moved] exI [of _ s]) (simp add: pop_loop.simps)
  next
    case 2
    then show ?thesis using Nil sh(1) f
      by (intro exI [of _ "[f tail]"] exI [of _ moved] exI [of _ "update_block (nid tail) f s"])
         (simp add: pop_loop.simps apply_node_def f_def)
  next
    case 3
    then show ?thesis using Nil sh(2) g
      by (intro exI [of _ "[g tail]"] exI [of _ moved] exI [of _ "update_block (nid tail) g s"])
         (simp add: pop_loop.simps apply_node_def g_def)
  qed
next
  case (snoc x xs)
  define f where "f = (set_entries (int (length (entries tail) - n)) (int n) [] :: 'e cnode \<Rightarrow> 'e cnode)"
  have lk: "priorId tail = Some (nid x)" "nextId tail = None" "linked None (xs @ [x]) (Some (nid tail))"
    using snoc.prems(2) unfolding linked_snoc [of None "xs @ [x]" tail None] by simp_all
  consider "n = 0" | "n > 0" "n < length (entries tail)" | "n > 0" "length (entries tail) \<le> n" by linarith
  then show ?case
  proof cases
    case 1
    then show ?thesis using snoc.prems shrunk_refl [of "(xs @ [x]) @ [tail]" s]
      by (intro exI [of _ "(xs @ [x]) @ [tail]"] exI [of _ moved] exI [of _ s]) (simp add: pop_loop.simps)
  next
    case 2
    have sh: "shrunk s ((xs @ [x]) @ [tail]) (update_block (nid tail) f s) ((xs @ [x]) @ [f tail])"
      using shrunk_update [of s "xs @ [x]" tail "[]" f] snoc.prems by (simp add: f_def)
    have "pop_loop n tail result moved s = Some (Inr (f tail, drop (length (entries tail) - n) (entries tail) @ result, moved, update_block (nid tail) f s))"
      using 2 by (simp add: pop_loop.simps apply_node_def f_def)
    then show ?thesis using 2 sh
      by (intro exI [of _ "(xs @ [x]) @ [f tail]"] exI [of _ moved] exI [of _ "update_block (nid tail) f s"])
         (simp add: f_def hd_append)
  next
    case 3
    define x1 where "x1 = x\<lparr>nextId := None\<rparr>"
    define s1 where "s1 = update_block (nid x) (\<lambda>n. n\<lparr>nextId := None\<rparr>) (delete_block (nid tail) s)"
    have ne: "nid x \<noteq> nid tail" using snoc.prems(3) by auto
    have ds: "nid tail \<notin> set (map nid (xs @ [x]))" "distinct (map nid (xs @ [x]))" using snoc.prems(3) by auto
    have step: "pop_loop n tail result moved s = pop_loop (n - length (entries tail)) x1 (entries tail @ result) True s1"
      using 3 lk(1) snoc.prems(1) ne by (simp add: pop_loop.simps [of n tail] apply_node_def x1_def s1_def)
    have st: "stored s1 (xs @ [x1])"
      using stored_update_block [of "delete_block (nid tail) s" xs x "[]" "\<lambda>n. n\<lparr>nextId := None\<rparr>"] snoc.prems(1) ds ne
      by (simp add: s1_def x1_def delete_block_def)
    have l1: "linked None (xs @ [x1]) None" using lk(3) by (simp add: x1_def)
    have d1: "distinct (map nid (xs @ [x1]))" using ds(2) by (simp add: x1_def)
    obtain ns' moved' s' where IH: "pop_loop (n - length (entries tail)) x1 (entries tail @ result) True s1
        = Some (Inr (last ns', drop (length (contents (xs @ [x1])) - (n - length (entries tail))) (contents (xs @ [x1]))
            @ entries tail @ result, moved', s'))"
      "shrunk s1 (xs @ [x1]) s' ns'" "nid (hd ns') = nid (hd (xs @ [x1]))"
      "contents ns' = take (length (contents (xs @ [x1])) - (n - length (entries tail))) (contents (xs @ [x1]))" "moved'"
      using snoc.IH [OF st l1, of "n - length (entries tail)" "entries tail @ result" True] d1 by blast
    have "shrunk s ((xs @ [x]) @ [tail]) s' ns'"
      by (rule shrunk_trans [OF IH(2)]) (use ds in \<open>auto simp: s1_def x1_def\<close>)
    moreover have "contents (xs @ [x1]) = contents (xs @ [x])" by (simp add: x1_def)
    moreover have "nid (hd (xs @ [x1])) = nid (hd (xs @ [x] @ [tail]))" by (simp add: x1_def hd_append)
    ultimately show ?thesis
      using step IH 3(2) by (intro exI [of _ ns'] exI [of _ moved'] exI [of _ s']) (simp add: add.assoc)
  qed
qed

lemma dequeue_loop_correct:
  fixes s :: "'e cstore"
  assumes "stored s (hd0 # xs)" and "linked None (hd0 # xs) None" and "distinct (map nid (hd0 # xs))"
  shows "\<exists>ns' moved' s'. dequeue_loop n hd0 result moved s
      = Some (Inr (hd ns', result @ take n (contents (hd0 # xs)), moved', s'))
    \<and> shrunk s (hd0 # xs) s' ns' \<and> nid (last ns') = nid (last (hd0 # xs))
    \<and> contents ns' = drop n (contents (hd0 # xs))
    \<and> (moved \<longrightarrow> moved') \<and> (\<not> moved' \<longrightarrow> nid (hd ns') = nid hd0)"
  using assms
proof (induction xs arbitrary: n hd0 result moved s)
  case Nil
  define f where "f = (set_entries 0 (int n) [] :: 'e cnode \<Rightarrow> 'e cnode)"
  define g where "g = (set_entries 0 (int (length (entries hd0))) [] :: 'e cnode \<Rightarrow> 'e cnode)"
  have sh: "shrunk s [hd0] (update_block (nid hd0) f s) [f hd0]" "shrunk s [hd0] (update_block (nid hd0) g s) [g hd0]"
    using shrunk_update [of s "[]" hd0 "[]" f] shrunk_update [of s "[]" hd0 "[]" g] Nil by (simp_all add: f_def g_def)
  consider "n = 0" | "n > 0" "n < length (entries hd0)" | "n > 0" "length (entries hd0) \<le> n" by linarith
  then show ?case
  proof cases
    case 1
    then show ?thesis using Nil shrunk_refl [of "[hd0]" s]
      by (intro exI [of _ "[hd0]"] exI [of _ moved] exI [of _ s]) (simp add: dequeue_loop.simps)
  next
    case 2
    then show ?thesis using Nil sh(1)
      by (intro exI [of _ "[f hd0]"] exI [of _ moved] exI [of _ "update_block (nid hd0) f s"])
         (simp add: dequeue_loop.simps apply_node_def f_def)
  next
    case 3
    then show ?thesis using Nil sh(2)
      by (intro exI [of _ "[g hd0]"] exI [of _ moved] exI [of _ "update_block (nid hd0) g s"])
         (simp add: dequeue_loop.simps apply_node_def g_def)
  qed
next
  case (Cons x xs)
  define f where "f = (set_entries 0 (int n) [] :: 'e cnode \<Rightarrow> 'e cnode)"
  have lk: "nextId hd0 = Some (nid x)" "priorId hd0 = None" "linked (Some (nid hd0)) (x # xs) None"
    using Cons.prems(2) by simp_all
  consider "n = 0" | "n > 0" "n < length (entries hd0)" | "n > 0" "length (entries hd0) \<le> n" by linarith
  then show ?case
  proof cases
    case 1
    then show ?thesis using Cons.prems shrunk_refl [of "hd0 # x # xs" s]
      by (intro exI [of _ "hd0 # x # xs"] exI [of _ moved] exI [of _ s]) (simp add: dequeue_loop.simps)
  next
    case 2
    have sh: "shrunk s (hd0 # x # xs) (update_block (nid hd0) f s) (f hd0 # x # xs)"
      using shrunk_update [of s "[]" hd0 "x # xs" f] Cons.prems by (simp add: f_def)
    have "dequeue_loop n hd0 result moved s = Some (Inr (f hd0, result @ take n (entries hd0), moved, update_block (nid hd0) f s))"
      using 2 by (simp add: dequeue_loop.simps apply_node_def f_def)
    then show ?thesis using 2 sh
      by (intro exI [of _ "f hd0 # x # xs"] exI [of _ moved] exI [of _ "update_block (nid hd0) f s"]) (simp add: f_def)
  next
    case 3
    define x1 where "x1 = x\<lparr>priorId := None\<rparr>"
    define s1 where "s1 = update_block (nid x) (\<lambda>n. n\<lparr>priorId := None\<rparr>) (delete_block (nid hd0) s)"
    have ne: "nid x \<noteq> nid hd0" using Cons.prems(3) by auto
    have ds: "nid hd0 \<notin> set (map nid (x # xs))" "distinct (map nid (x # xs))" using Cons.prems(3) by auto
    have step: "dequeue_loop n hd0 result moved s = dequeue_loop (n - length (entries hd0)) x1 (result @ entries hd0) True s1"
      using 3 lk(1) Cons.prems(1) ne by (simp add: dequeue_loop.simps [of n hd0] apply_node_def x1_def s1_def)
    have st: "stored s1 (x1 # xs)"
      using stored_update_block [of "delete_block (nid hd0) s" "[]" x xs "\<lambda>n. n\<lparr>priorId := None\<rparr>"] Cons.prems(1) ds ne
      by (simp add: s1_def x1_def delete_block_def)
    have l1: "linked None (x1 # xs) None" using lk(3) by (simp add: x1_def)
    have d1: "distinct (map nid (x1 # xs))" using ds(2) by (simp add: x1_def)
    obtain ns' moved' s' where IH: "dequeue_loop (n - length (entries hd0)) x1 (result @ entries hd0) True s1
        = Some (Inr (hd ns', (result @ entries hd0) @ take (n - length (entries hd0)) (contents (x1 # xs)), moved', s'))"
      "shrunk s1 (x1 # xs) s' ns'" "nid (last ns') = nid (last (x1 # xs))"
      "contents ns' = drop (n - length (entries hd0)) (contents (x1 # xs))" "moved'"
      using Cons.IH [OF st l1, of "n - length (entries hd0)" "result @ entries hd0" True] d1 by blast
    have "shrunk s (hd0 # x # xs) s' ns'"
      by (rule shrunk_trans [OF IH(2)]) (use ds in \<open>auto simp: s1_def x1_def\<close>)
    moreover have "contents (x1 # xs) = contents (x # xs)" by (simp add: x1_def)
    moreover have "nid (last (x1 # xs)) = nid (last (x # xs))" by (simp add: x1_def)
    ultimately show ?thesis
      using step IH 3(2) by (intro exI [of _ ns'] exI [of _ moved'] exI [of _ s']) simp
  qed
qed

lemma chain_pop_correct:
  assumes "chain_ok s i h ns"
  shows "\<exists>s' h' ns'. chain_pop i n s = Some (Inr (drop (length (contents ns) - n) (contents ns)), s')
    \<and> chain_ok s' i h' ns' \<and> contents ns' = take (length (contents ns) - n) (contents ns)
    \<and> shrunk s ns (s'\<lparr>blocks := (blocks s')(i := Some h)\<rparr>) ns'"
proof (cases "n = 0")
  case True
  then show ?thesis using assms shrunk_refl [of ns s]
    by (intro exI [of _ s] exI [of _ h] exI [of _ ns]) (simp add: chain_pop_def chain_ok_def map_upd_triv)
next
  case False
  obtain xs t where ns: "ns = xs @ [t]" using assms by (cases ns rule: rev_cases) (auto simp: chain_ok_def)
  have ok: "blocks s i = Some h" "nid h = i" "i \<notin> nid ` set ns" "headId h = Some (nid (hd ns))" "tailId h = Some (nid t)"
    "stored s (xs @ [t])" "linked None (xs @ [t]) None" "distinct (map nid (xs @ [t]))"
    using assms by (simp_all add: chain_ok_def ns)
  obtain ns' moved s' where r: "pop_loop n t [] False s
      = Some (Inr (last ns', drop (length (contents ns) - n) (contents ns), moved, s'))"
    "shrunk s ns s' ns'" "nid (hd ns') = nid (hd ns)"
    "contents ns' = take (length (contents ns) - n) (contents ns)" "\<not> moved \<longrightarrow> nid (last ns') = nid t"
    using pop_loop_correct [OF ok(6-8), of n "[]" False] by (auto simp: ns)
  have i_s': "blocks s' i = Some h" "i \<notin> nid ` set ns'" using r(2) ok(1,3) by (auto simp: shrunk_def)
  define h' where "h' = (if moved then h\<lparr>tailId := Some (nid (last ns'))\<rparr> else h)"
  define s3 where "s3 = s'\<lparr>blocks := (blocks s')(i \<mapsto> h')\<rparr>"
  have s3: "(if moved then snd (apply_node (\<lambda>n. n\<lparr>tailId := Some (nid (last ns'))\<rparr>) h s') else s') = s3"
    using i_s' ok(2) by (cases s') (auto simp: s3_def h'_def update_block_def map_upd_triv)
  have "last ns = t" by (simp add: ns)
  then have pop: "chain_pop i n s = Some (Inr (drop (length (contents ns) - n) (contents ns)), s3)"
    unfolding chain_pop_def getTail_ok [OF assms] Option.bind.bind_lunit option.case chain_path.simps
    using False by (simp only: r(1) Option.bind.bind_lunit sum.case prod.case s3 if_False)
  have "chain_ok s3 i h' ns'"
    using r(2,3,5) i_s' ok(2,4,5) by (auto simp: chain_ok_def shrunk_def s3_def h'_def)
  moreover have "shrunk s ns (s3\<lparr>blocks := (blocks s3)(i := Some h)\<rparr>) ns'"
    using r(2) i_s' by (simp add: s3_def map_upd_triv)
  ultimately show ?thesis using pop r(4) by blast
qed

lemma chain_dequeue_correct:
  assumes "chain_ok s i h ns"
  shows "\<exists>s' h' ns'. chain_dequeue i n s = Some (Inr (take n (contents ns)), s')
    \<and> chain_ok s' i h' ns' \<and> contents ns' = drop n (contents ns)
    \<and> shrunk s ns (s'\<lparr>blocks := (blocks s')(i := Some h)\<rparr>) ns'"
proof (cases "n = 0")
  case True
  then show ?thesis using assms shrunk_refl [of ns s]
    by (intro exI [of _ s] exI [of _ h] exI [of _ ns]) (simp add: chain_dequeue_def chain_ok_def map_upd_triv)
next
  case False
  obtain t xs where ns: "ns = t # xs" using assms by (cases ns) (auto simp: chain_ok_def)
  have ok: "blocks s i = Some h" "nid h = i" "i \<notin> nid ` set ns" "headId h = Some (nid t)" "tailId h = Some (nid (last ns))"
    "stored s (t # xs)" "linked None (t # xs) None" "distinct (map nid (t # xs))"
    using assms by (simp_all add: chain_ok_def ns)
  obtain ns' moved s' where r: "dequeue_loop n t [] False s = Some (Inr (hd ns', take n (contents ns), moved, s'))"
    "shrunk s ns s' ns'" "nid (last ns') = nid (last ns)"
    "contents ns' = drop n (contents ns)" "\<not> moved \<longrightarrow> nid (hd ns') = nid t"
    using dequeue_loop_correct [OF ok(6-8), of n "[]" False] by (auto simp: ns)
  have i_s': "blocks s' i = Some h" "i \<notin> nid ` set ns'" using r(2) ok(1,3) by (auto simp: shrunk_def)
  define h' where "h' = (if moved then h\<lparr>headId := Some (nid (hd ns'))\<rparr> else h)"
  define s3 where "s3 = s'\<lparr>blocks := (blocks s')(i \<mapsto> h')\<rparr>"
  have s3: "(if moved then snd (apply_node (\<lambda>n. n\<lparr>headId := Some (nid (hd ns'))\<rparr>) h s') else s') = s3"
    using i_s' ok(2) by (cases s') (auto simp: s3_def h'_def update_block_def map_upd_triv)
  have "hd ns = t" by (simp add: ns)
  then have deq: "chain_dequeue i n s = Some (Inr (take n (contents ns)), s3)"
    unfolding chain_dequeue_def getHead_ok [OF assms] Option.bind.bind_lunit option.case chain_path.simps
    using False by (simp only: r(1) Option.bind.bind_lunit sum.case prod.case s3 if_False)
  have "chain_ok s3 i h' ns'"
    using r(2,3,5) i_s' ok(2,4,5) by (auto simp: chain_ok_def shrunk_def s3_def h'_def)
  moreover have "shrunk s ns (s3\<lparr>blocks := (blocks s3)(i := Some h)\<rparr>) ns'"
    using r(2) i_s' by (simp add: s3_def map_upd_triv)
  ultimately show ?thesis using deq r(4) by blast
qed

section \<open>Iterating a well-formed chain\<close>

abbreviation path_at :: "'e cnode \<Rightarrow> 'e cnode \<Rightarrow> int \<Rightarrow> 'e chain_path" where
  "path_at h n k \<equiv> \<lparr>path_header = h, path_block = n, path_index = k\<rparr>"

definition all_paths :: "'e cnode \<Rightarrow> 'e cnode list \<Rightarrow> 'e chain_path list" where
  "all_paths h ns = concat (map (\<lambda>n. map (path_at h n) [0..int (length (entries n)) - 1]) ns)"

lemma all_paths_simps [simp]:
  "all_paths h [] = []"
  "all_paths h (n # ns) = map (path_at h n) [0..int (length (entries n)) - 1] @ all_paths h ns"
  "all_paths h (xs @ ys) = all_paths h xs @ all_paths h ys"
  by (simp_all add: all_paths_def)

lemma map_entryAt_upto:
  "map entryAt (map (path_at h b) [0..int (length (entries b)) - 1]) = map Some (entries b)"
  by (rule nth_equalityI) (auto simp: entryAt_def)

lemma map_entryAt_all_paths: "map entryAt (all_paths h ns) = map Some (contents ns)"
proof (induction ns)
  case (Cons n ns)
  then show ?case using map_entryAt_upto [of h n] by (simp del: map_map)
qed simp

lemma select_fwd_from:
  assumes "stored s (n # ns)" and "linked p (n # ns) None"
  shows "select_fwd s h n k = Some (map (path_at h n) [k..int (length (entries n)) - 1] @ all_paths h ns)"
  using assms
proof (induction ns arbitrary: n p k)
  case Nil
  then show ?case by (simp add: select_fwd.simps [of s h n])
next
  case (Cons m ns)
  then show ?case using Cons.IH [of m "Some (nid n)" 0] by (simp add: select_fwd.simps [of s h n])
qed

lemma select_bwd_from:
  assumes "stored s (ns @ [n])" and "linked None (ns @ [n]) q"
  shows "select_bwd s h n k = Some (map (path_at h n) (rev [0..k]) @ rev (all_paths h ns))"
  using assms
proof (induction ns arbitrary: n q k rule: rev_induct)
  case Nil
  then show ?case by (simp add: select_bwd.simps [of s h n])
next
  case (snoc m ns)
  have lk: "linked None (ns @ [m]) (Some (nid n))" "priorId n = Some (nid m)"
    using snoc.prems(2) unfolding linked_snoc [of None "ns @ [m]" n q] by simp_all
  show ?case using snoc.IH [OF _ lk(1)] snoc.prems(1) lk(2) by (simp add: select_bwd.simps [of s h n] rev_map)
qed

lemma chain_select_all:
  assumes "chain_ok s i h ns"
  shows "chain_select i None True s = Some (all_paths h ns)"
    and "chain_select i None False s = Some (rev (all_paths h ns))"
proof -
  obtain t xs where ns: "ns = t # xs" using assms by (cases ns) (auto simp: chain_ok_def)
  show "chain_select i None True s = Some (all_paths h ns)"
    using select_fwd_from [of s t xs None h 0] assms
    by (simp add: chain_select_def getHead_ok [OF assms]) (simp add: chain_ok_def ns)
  obtain ys u where ns: "ns = ys @ [u]" using assms by (cases ns rule: rev_cases) (auto simp: chain_ok_def)
  show "chain_select i None False s = Some (rev (all_paths h ns))"
    using select_bwd_from [of s ys u None h "int (length (entries u)) - 1"] assms
    by (simp add: chain_select_def getTail_ok [OF assms]) (simp add: chain_ok_def ns rev_map)
qed

lemma chain_select_correct:
  assumes "chain_ok s i h ns"
  shows "\<exists>ps. chain_select i None True s = Some ps \<and> map entryAt ps = map Some (contents ns)"
    and "\<exists>ps. chain_select i None False s = Some ps \<and> map entryAt ps = map Some (rev (contents ns))"
  using map_entryAt_all_paths [of h ns] by (simp_all add: chain_select_all [OF assms] rev_map [symmetric])

lemma upto_split_at:
  assumes "[a..b] = xs @ k # ys"
  shows "xs = [a..k - 1] \<and> ys = [k + 1..b] \<and> a \<le> k \<and> k \<le> b"
proof -
  have "k \<in> set [a..b]" using assms by simp
  then have k: "a \<le> k" "k \<le> b" by auto
  then have "[a..b] = [a..k - 1] @ k # [k + 1..b]" by (rule upto_split3)
  moreover have "distinct [a..b]" by simp
  ultimately have "xs = [a..k - 1] \<and> ys = [k + 1..b]"
    using assms by (metis append_eq_append_conv_if distinct_append same_append_eq append_Cons_eq_iff
        not_distinct_conv_prefix distinct.simps(2))
  then show ?thesis using k by simp
qed

lemma all_paths_split:
  assumes "all_paths h ns = A @ p # B"
  shows "\<exists>xs n ys k. ns = xs @ n # ys \<and> p = path_at h n k \<and> 0 \<le> k \<and> k < int (length (entries n))
    \<and> A = all_paths h xs @ map (path_at h n) [0..k - 1]
    \<and> B = map (path_at h n) [k + 1..int (length (entries n)) - 1] @ all_paths h ys"
  using assms
proof (induction ns arbitrary: A)
  case (Cons n ns)
  let ?here = "map (path_at h n) [0..int (length (entries n)) - 1]"
  have "?here @ all_paths h ns = A @ p # B" using Cons.prems by simp
  then consider us where "A = ?here @ us" "all_paths h ns = us @ p # B"
    | us where "?here = A @ p # us" "B = us @ all_paths h ns"
    by (auto simp: append_eq_append_conv2 append_eq_Cons_conv)
  then show ?case
  proof cases
    case 1
    obtain xs m ys k where "ns = xs @ m # ys" "p = path_at h m k" "0 \<le> k" "k < int (length (entries m))"
      "us = all_paths h xs @ map (path_at h m) [0..k - 1]"
      "B = map (path_at h m) [k + 1..int (length (entries m)) - 1] @ all_paths h ys"
      using Cons.IH [OF 1(2)] by blast
    then show ?thesis using 1(1) by (intro exI [of _ "n # xs"] exI [of _ m] exI [of _ ys] exI [of _ k]) simp
  next
    case 2
    obtain X k Y where "[0..int (length (entries n)) - 1] = X @ k # Y" "A = map (path_at h n) X" "p = path_at h n k" "us = map (path_at h n) Y"
      using 2(1) by (auto simp: map_eq_append_conv map_eq_Cons_conv)
    then show ?thesis using 2(2) upto_split_at [of 0 "int (length (entries n)) - 1" X k Y]
      by (intro exI [of _ "[]"] exI [of _ n] exI [of _ ns] exI [of _ k]) simp
  qed
qed simp

lemma chain_select_from:
  assumes "chain_ok s i h ns" and "all_paths h ns = A @ p # B"
  shows "chain_select i (Some p) True s = Some (p # B)" and "chain_select i (Some p) False s = Some (p # rev A)"
proof -
  obtain xs n ys k where sp: "ns = xs @ n # ys" "p = path_at h n k" "0 \<le> k" "k < int (length (entries n))"
    "A = all_paths h xs @ map (path_at h n) [0..k - 1]"
    "B = map (path_at h n) [k + 1..int (length (entries n)) - 1] @ all_paths h ys"
    using all_paths_split [OF assms(2)] by blast
  have lk: "linked (if xs = [] then None else Some (nid (last xs))) (n # ys) None" "stored s (n # ys)"
    "stored s (xs @ [n])" "linked None (xs @ [n]) (if ys = [] then None else Some (nid (hd ys)))"
    using assms(1) unfolding chain_ok_def sp(1) by (auto simp: linked_append neq_Nil_conv split: list.splits)
  have "[k..int (length (entries n)) - 1] = k # [k + 1..int (length (entries n)) - 1]"
    using sp(4) by (intro upto_rec1) simp
  then show "chain_select i (Some p) True s = Some (p # B)"
    using select_fwd_from [OF lk(2,1), of h k] by (simp add: chain_select_def sp(2,6))
  have "[0..k] = [0..k - 1] @ [k]" using sp(3) by (intro upto_rec2) simp
  then show "chain_select i (Some p) False s = Some (p # rev A)"
    using select_bwd_from [OF lk(3,4), of h k] by (simp add: chain_select_def sp(2,5) rev_map)
qed

lemma chain_updateAt_last:
  assumes "chain_ok s i h (xs @ [t])" and "entries t = ys @ [y]" and "path_block p = t" and "path_index p = int (length ys)"
  shows "\<exists>s'. updateAt p e s = (Inr (), s') \<and> chain_ok s' i h (xs @ [t\<lparr>entries := ys @ [e]\<rparr>])
    \<and> generated s' = generated s \<and> blocks s' = (blocks s)(nid t \<mapsto> t\<lparr>entries := ys @ [e]\<rparr>)"
proof -
  define f where "f = (set_entries (int (length ys)) 1 [e] :: 'a cnode \<Rightarrow> 'a cnode)"
  have ft: "f t = t\<lparr>entries := ys @ [e]\<rparr>"
    using js_splice_nat [of "length ys" 1 "[e]" "ys @ [y]"] assms(2) by (simp add: f_def)
  have u: "updateAt p e s = (Inr (), update_block (nid t) f s)"
    using assms(2,3,4) by (simp add: updateAt_def pathValid_def f_def)
  have ok: "stored s (xs @ t # [])" "distinct (map nid (xs @ t # []))" "linked None (xs @ t # []) None" "i \<noteq> nid t"
    using assms(1) by (simp_all add: chain_ok_def)
  have "stored (update_block (nid t) f s) (xs @ [f t])"
    using stored_update_block [OF ok(1,2), of f] by (simp add: f_def)
  moreover have "linked None (xs @ [f t]) None"
    using linked_cong_at [OF ok(3), of "f t"] by (simp add: f_def)
  ultimately have "chain_ok (update_block (nid t) f s) i h (xs @ [f t])"
    using assms(1) ok(4) by (simp add: chain_ok_def f_def hd_append)
  then show ?thesis using u ok(1) ft by simp
qed

section \<open>Creating and opening give well-formed chains\<close>

lemma fresh_ids_mono:
  "fresh_ids gen s \<Longrightarrow> generated s \<le> generated s' \<Longrightarrow>
   (\<And>k. generated s' \<le> k \<Longrightarrow> blocks s' (gen k) = blocks s (gen k)) \<Longrightarrow> fresh_ids gen s'"
  by (auto simp: fresh_ids_def)

lemma chain_create_correct:
  fixes s :: "'e cstore"
  assumes "fresh_ids gen s" and "chain_create gen opts None None s = (r, s')"
  shows "\<exists>i h t. r = Inr i \<and> chain_ok s' i h [t] \<and> entries t = [] \<and> fresh_ids gen s'
    \<and> (\<forall>j. blocks s j \<noteq> None \<longrightarrow> blocks s' j = blocks s j)"
proof -
  define t :: "'e cnode" where "t = data_node (gen (generated s)) (opt_dataType opts) [] None"
  define i where "i = gen (Suc (generated s))"
  define h :: "'e cnode" where "h = \<lparr>nid = i, ntype = opt_headerType opts, headId = Some (nid t), tailId = Some (nid t), entries = [],
     priorId = None, nextId = None, priorHash = None\<rparr>"
  have ne: "nid t \<noteq> i" using assms(1) by (simp add: t_def i_def data_node_def fresh_ids_def inj_eq)
  have r: "r = Inr i" "blocks s' = (blocks s)(i \<mapsto> h, nid t \<mapsto> t)" "generated s' = Suc (Suc (generated s))"
    using assms(2) by (auto simp: chain_create_def createTailBlock_def createBlockHeader_def t_def [symmetric] h_def i_def)
  have ti: "blocks s (nid t) = None" "blocks s i = None" "nid t = gen (generated s)"
    using assms(1) by (auto simp: fresh_ids_def t_def i_def data_node_def)
  have "chain_ok s' i h [t]"
    using ne r by (auto simp: chain_ok_def h_def t_def data_node_def)
  moreover have "fresh_ids gen s'"
    by (rule fresh_ids_mono [OF assms(1)]) (use assms(1) in \<open>auto simp: r(2,3) ti(3) i_def fresh_ids_def inj_eq\<close>)
  moreover have "\<forall>j. blocks s j \<noteq> None \<longrightarrow> blocks s' j = blocks s j" using ti r(2) by auto
  moreover have "entries t = []" by (simp add: t_def data_node_def)
  ultimately show ?thesis using r(1) by blast
qed

lemma chain_open_correct:
  fixes s :: "'e cstore"
  assumes "fresh_ids gen s" and "blocks s i = Some h" and "nid h = i" and "headId h = None \<or> tailId h = None"
    and "chain_open gen opts i s = (r, s')"
  shows "\<exists>h' t. r = Some i \<and> chain_ok s' i h' [t] \<and> entries t = [] \<and> fresh_ids gen s'"
proof -
  define t :: "'e cnode" where "t = data_node (gen (generated s)) (opt_dataType opts) [] None"
  have ti: "blocks s (nid t) = None" "nid t = gen (generated s)"
    using assms(1) by (auto simp: fresh_ids_def t_def data_node_def)
  then have ne: "nid t \<noteq> i" using assms(2) by auto
  have r: "r = Some i" "blocks s' = (blocks s)(nid t \<mapsto> t, i \<mapsto> h\<lparr>headId := Some (nid t), tailId := Some (nid t)\<rparr>)"
    "generated s' = Suc (generated s)"
    using assms(2-5) ne
    by (auto simp: chain_open_def createTailBlock_def createBlockHeader_def t_def [symmetric] set_ends_def apply_node_def)
  have "chain_ok s' i (h\<lparr>headId := Some (nid t), tailId := Some (nid t)\<rparr>) [t]"
    using ne assms(3) by (auto simp: chain_ok_def r(2) t_def data_node_def)
  moreover have "fresh_ids gen s'"
    by (rule fresh_ids_mono [OF assms(1)]) (use assms(1,2) in \<open>auto simp: r(2,3) ti(2) fresh_ids_def inj_eq\<close>)
  moreover have "entries t = []" by (simp add: t_def data_node_def)
  ultimately show ?thesis using r(1) by blast
qed

lemma chain_open_existing: "chain_ok s i h ns \<Longrightarrow> chain_open gen opts i s = (Some i, s)"
  by (simp add: chain_open_def chain_ok_def)

section \<open>The chain as a double-ended queue\<close>

datatype 'e chain_op = Add "'e list" | Pop nat | Dequeue nat | Scan bool
  \<comment> \<open>\<open>Scan forward\<close> is \<open>select\<close> from an end, read with \<open>entryAt\<close>\<close>

fun chain_exec :: "(nat \<Rightarrow> block_id) \<Rightarrow> 'e chain_options \<Rightarrow> block_id \<Rightarrow> 'e chain_op \<Rightarrow> 'e cstore
    \<Rightarrow> ((error + 'e option list) \<times> 'e cstore) option" where
  "chain_exec gen opts i (Add es) s = map_option (\<lambda>(r, s'). (map_sum id (\<lambda>_. []) r, s')) (chain_add gen opts i es s)"
| "chain_exec gen opts i (Pop n) s = map_option (\<lambda>(r, s'). (map_sum id (map Some) r, s')) (chain_pop i n s)"
| "chain_exec gen opts i (Dequeue n) s = map_option (\<lambda>(r, s'). (map_sum id (map Some) r, s')) (chain_dequeue i n s)"
| "chain_exec gen opts i (Scan fwd) s = map_option (\<lambda>ps. (Inr (map entryAt ps), s)) (chain_select i None fwd s)"

fun chain_run :: "(nat \<Rightarrow> block_id) \<Rightarrow> 'e chain_options \<Rightarrow> block_id \<Rightarrow> 'e chain_op list \<Rightarrow> 'e cstore
    \<Rightarrow> ((error + 'e option list) list \<times> 'e cstore) option" where
  "chain_run gen opts i [] s = Some ([], s)"
| "chain_run gen opts i (op # ops) s =
     Option.bind (chain_exec gen opts i op s) (\<lambda>(r, s').
       map_option (\<lambda>(rs, s''). (r # rs, s'')) (chain_run gen opts i ops s'))"

fun deque_exec :: "'e chain_op \<Rightarrow> 'e list \<Rightarrow> 'e list \<times> 'e list" where
  \<comment> \<open>the specification: what the operation returns, and the queue after it\<close>
  "deque_exec (Add es) q = ([], q @ es)"
| "deque_exec (Pop n) q = (drop (length q - n) q, take (length q - n) q)"
| "deque_exec (Dequeue n) q = (take n q, drop n q)"
| "deque_exec (Scan fwd) q = (if fwd then q else rev q, q)"

fun deque_run :: "'e chain_op list \<Rightarrow> 'e list \<Rightarrow> 'e list list \<times> 'e list" where
  "deque_run [] q = ([], q)"
| "deque_run (op # ops) q = (case deque_exec op q of (r, q') \<Rightarrow> (case deque_run ops q' of (rs, q'') \<Rightarrow> (r # rs, q'')))"

definition plain_options :: "'e chain_options" where
  \<comment> \<open>a chain created without options\<close>
  "plain_options = \<lparr>opt_dataType = ''CHD'', opt_headerType = ''CHH'', opt_newBlock = (\<lambda>newTail oldTail. newTail)\<rparr>"

lemma plain_hook: "opt_newBlock plain_options = (\<lambda>newTail oldTail. newTail)"
  by (simp add: plain_options_def)

lemma fresh_shrunk:
  assumes "fresh_ids gen s" and "chain_ok s i h ns" and "shrunk s ns (s'\<lparr>blocks := (blocks s')(i := Some h)\<rparr>) ns'"
  shows "fresh_ids gen s'"
proof (rule fresh_ids_mono [OF assms(1)])
  show "generated s \<le> generated s'" using assms(3) by (simp add: shrunk_def)
next
  fix k assume "generated s' \<le> k"
  then have "blocks s (gen k) = None" using assms(1,3) by (simp add: fresh_ids_def shrunk_def)
  then have "gen k \<notin> nid ` set ns" "gen k \<noteq> i" using assms(2) by (auto simp: chain_ok_def stored_def)
  moreover have "\<forall>j. j \<notin> nid ` set ns \<longrightarrow> ((blocks s')(i := Some h)) j = blocks s j"
    using assms(3) by (simp add: shrunk_def)
  ultimately show "blocks s' (gen k) = blocks s (gen k)" by (metis fun_upd_other)
qed

lemma chain_exec_refines:
  assumes "chain_ok s i h ns" and "fresh_ids gen s"
  shows "\<exists>s' h' ns'. chain_exec gen plain_options i op s = Some (Inr (map Some (fst (deque_exec op (contents ns)))), s')
    \<and> chain_ok s' i h' ns' \<and> fresh_ids gen s' \<and> contents ns' = snd (deque_exec op (contents ns))"
proof (cases op)
  case (Add es)
  obtain s' h' ns' p where "chain_add gen plain_options i es s = Some (Inr p, s')" "chain_ok s' i h' ns'" "fresh_ids gen s'"
    "grown s ns es (s'\<lparr>blocks := (blocks s')(i := Some h)\<rparr>) ns'"
    using plain.chain_add_correct [OF plain_hook assms plain_links, of es] by blast
  then show ?thesis by (auto simp: Add dest: grownD(3))
next
  case (Pop n)
  show ?thesis using chain_pop_correct [OF assms(1), of n] fresh_shrunk [OF assms(2,1)] by (fastforce simp: Pop)
next
  case (Dequeue n)
  show ?thesis using chain_dequeue_correct [OF assms(1), of n] fresh_shrunk [OF assms(2,1)] by (fastforce simp: Dequeue)
next
  case (Scan fwd)
  show ?thesis using chain_select_correct [OF assms(1)] assms by (cases fwd) (auto simp: Scan)
qed

lemma chain_run_refines:
  assumes "chain_ok s i h ns" and "fresh_ids gen s"
  shows "\<exists>s' h' ns'. chain_run gen plain_options i ops s
      = Some (map (\<lambda>r. Inr (map Some r)) (fst (deque_run ops (contents ns))), s')
    \<and> chain_ok s' i h' ns' \<and> contents ns' = snd (deque_run ops (contents ns))"
  using assms
proof (induction ops arbitrary: s h ns)
  case Nil
  then show ?case by auto
next
  case (Cons op ops)
  obtain s1 h1 ns1 where 1: "chain_exec gen plain_options i op s = Some (Inr (map Some (fst (deque_exec op (contents ns)))), s1)"
    "chain_ok s1 i h1 ns1" "fresh_ids gen s1" "contents ns1 = snd (deque_exec op (contents ns))"
    using chain_exec_refines [OF Cons.prems] by blast
  obtain r q where e: "deque_exec op (contents ns) = (r, q)" by fastforce
  obtain s' h' ns' where 2: "chain_run gen plain_options i ops s1 = Some (map (\<lambda>r. Inr (map Some r)) (fst (deque_run ops q)), s')"
    "chain_ok s' i h' ns'" "contents ns' = snd (deque_run ops q)"
    using Cons.IH [OF 1(2,3)] 1(4) e by auto
  show ?case using 1(1) 2 e by (intro exI [of _ s'] exI [of _ h'] exI [of _ ns']) (simp split: prod.split)
qed

section \<open>Properties\<close>

text \<open>C37. A chain is a double-ended queue: after creating a chain, every sequence of additions,
  removals at either end and iterations in either direction returns (no walk loops, nothing
  throws) exactly what the same operations on a list return, whatever the sizes and however the
  entries spread over blocks, and the store ends with a well-formed chain holding that list.\<close>

theorem chain_refines_deque:
  assumes "fresh_ids gen s0" and "chain_create gen plain_options None None s0 = (Inr i, s)"
  shows "\<exists>s' h ns. chain_run gen plain_options i ops s = Some (map (\<lambda>r. Inr (map Some r)) (fst (deque_run ops [])), s')
    \<and> chain_ok s' i h ns \<and> contents ns = snd (deque_run ops [])"
proof -
  obtain h t where "chain_ok s i h [t]" "entries t = []" "fresh_ids gen s"
    using chain_create_correct [OF assms] by auto
  then show ?thesis using chain_run_refines [of s i h "[t]" gen ops] by auto
qed

definition letter_ids :: "nat \<Rightarrow> block_id" where
  \<comment> \<open>an id generator for the examples\<close>
  "letter_ids k = replicate (Suc k) CHR ''b''"

lemma fresh_letter_ids: "fresh_ids letter_ids \<lparr>blocks = Map.empty, generated = 0\<rparr>"
  by (simp add: fresh_ids_def letter_ids_def inj_def replicate_eq_replicate)

theorem chain_refines_deque_witness:
  "\<exists>s' h ns. chain_run letter_ids plain_options ''bb''
      [Add [1 .. 40], Dequeue 35, Add [41 :: int], Pop 2, Scan False]
      (snd (chain_create letter_ids plain_options None None \<lparr>blocks = Map.empty, generated = 0\<rparr>))
    = Some ([Inr [], Inr (map Some [1 .. 35]), Inr [], Inr [Some 40, Some 41], Inr [Some 39, Some 38, Some 37, Some 36]], s')
    \<and> chain_ok s' ''bb'' h ns \<and> contents ns = [36, 37, 38, 39]"
proof -
  have "fst (chain_create letter_ids plain_options None None \<lparr>blocks = Map.empty, generated = 0 :: nat\<rparr>) = Inr ''bb''"
    by (simp add: chain_create_def createTailBlock_def createBlockHeader_def letter_ids_def data_node_def numeral_2_eq_2)
  then have c: "chain_create letter_ids plain_options None None \<lparr>blocks = Map.empty, generated = 0\<rparr>
      = (Inr ''bb'', snd (chain_create letter_ids plain_options None None \<lparr>blocks = Map.empty, generated = 0\<rparr>))"
    by (simp add: prod_eq_iff)
  show ?thesis
    using chain_refines_deque [OF fresh_letter_ids c, of "[Add [1 .. 40], Dequeue 35, Add [41 :: int], Pop 2, Scan False]"]
    by (simp add: upto_rec1)
qed

end
