(* ===== verification/Action_Log.thy ===== *)
theory Action_Log
  imports Chain_Blocks Storage_Repo
begin

text \<open>
  The action log of a collection: \<open>packages/db-core/src/log/log.ts\<close> and \<open>struct.ts\<close>. A log is a
  chain of log entries whose blocks carry the hash of their predecessor.

  The hash (SHA-256 over the JSON text of a block, base64url) is a parameter \<open>hash\<close> of the block's
  hashed fields; the callback \<open>getBlockIds\<close> of \<open>addActions\<close> is a function of the store. The loops over
  \<open>chain.select\<close> are loops over the list of paths it yields; \<open>entryAt(path)!\<close> of a path that is
  not on an entry is a thrown \<open>TypeError\<close>.
\<close>

section \<open>Entries\<close>

record arbitration_vote =
  av_version :: string
  av_arbitratorPeerId :: string
  av_vote :: string
  av_computedHash :: string
  av_signature :: string

record dispute_proof =
  dp_disputeId :: string
  dp_messageHash :: string
  dp_outcome :: string
  dp_challengerPeerId :: string
  dp_arbitratorSet :: "string list"
  dp_arbitratorSetSignature :: string
  dp_votes :: "arbitration_vote list"

record reverted_block =
  rb_blockId :: block_id
  rb_fromRev :: nat
  rb_restoredContentHash :: string

record invalidation_entry =
  iv_invalidatedActionId :: action_id
  iv_invalidatedRev :: nat
  iv_resolution :: dispute_proof
  iv_reverted :: "reverted_block list"
  iv_cascadeRoot :: "action_id option"

record 'a action_entry =
  ae_actionId :: action_id
  ae_actions :: "'a list"
  ae_blockIds :: "block_id list"
  ae_collectionIds :: "collection_id list"
  ae_reads :: "(block_id \<times> nat) list option"

record 'a log_entry =
  le_timestamp :: nat
  le_rev :: nat
  le_action :: "'a action_entry option"
  le_checkpoint :: "action_rev list option"
  le_invalidation :: "invalidation_entry option"

section \<open>Opening and appending\<close>

definition logBlockHashPayload :: "'e cnode \<Rightarrow> 'e cnode" where
  \<comment> \<open>the block without its links\<close>
  "logBlockHashPayload b = b\<lparr>nextId := None, priorId := None\<rparr>"

definition getChainOptions :: "('e cnode \<Rightarrow> string) \<Rightarrow> 'e chain_options" where
  "getChainOptions hash =
     \<lparr>opt_dataType = ''LGD'', opt_headerType = ''LGH'',
      opt_newBlock = (\<lambda>newTail oldTail. newTail\<lparr>priorHash := Some (hash (logBlockHashPayload oldTail))\<rparr>)\<rparr>"

definition log_open :: "(nat \<Rightarrow> block_id) \<Rightarrow> ('e cnode \<Rightarrow> string) \<Rightarrow> block_id \<Rightarrow> 'e cstore \<Rightarrow> block_id option \<times> 'e cstore" where
  "log_open gen hash i s = chain_open gen (getChainOptions hash) i s"

definition log_create :: "(nat \<Rightarrow> block_id) \<Rightarrow> ('e cnode \<Rightarrow> string) \<Rightarrow> block_id option \<Rightarrow> block_id option
    \<Rightarrow> 'e cstore \<Rightarrow> (error + block_id) \<times> 'e cstore" where
  "log_create gen hash newId existingHeaderId s = chain_create gen (getChainOptions hash) newId existingHeaderId s"

definition addActions :: "(nat \<Rightarrow> block_id) \<Rightarrow> ('a log_entry cnode \<Rightarrow> string) \<Rightarrow> block_id \<Rightarrow> 'a list \<Rightarrow> action_id \<Rightarrow> nat
    \<Rightarrow> ('a log_entry cstore \<Rightarrow> block_id list) \<Rightarrow> collection_id list \<Rightarrow> (block_id \<times> nat) list option \<Rightarrow> nat
    \<Rightarrow> 'a log_entry cstore \<Rightarrow> ((error + 'a log_entry \<times> 'a log_entry chain_path) \<times> 'a log_entry cstore) option" where
  "addActions gen hash i actions actionId revision getBlockIds collectionIds reads timestamp s =
     (let action = \<lparr>ae_actionId = actionId, ae_actions = actions, ae_blockIds = [], ae_collectionIds = collectionIds,
                    ae_reads = reads\<rparr>;
          entry = \<lparr>le_timestamp = timestamp, le_rev = revision, le_action = Some action, le_checkpoint = None,
                   le_invalidation = None\<rparr>
      in Option.bind (chain_add gen (getChainOptions hash) i [entry] s) (\<lambda>(r, s1).
           case r of
             Inl e \<Rightarrow> Some (Inl e, s1)
           | Inr tailPath \<Rightarrow>
               (let entryWithBlockIds = entry\<lparr>le_action := Some (action\<lparr>ae_blockIds := getBlockIds s1\<rparr>)\<rparr>
                in case updateAt tailPath entryWithBlockIds s1 of
                     (Inl e, s2) \<Rightarrow> Some (Inl e, s2)
                   | (Inr _, s2) \<Rightarrow>
                       Some (Inr (entryWithBlockIds,
                          tailPath\<lparr>path_block := set_entries (path_index tailPath) 1 [entryWithBlockIds] (path_block tailPath)\<rparr>), s2))))"

definition addCheckpoint :: "(nat \<Rightarrow> block_id) \<Rightarrow> ('a log_entry cnode \<Rightarrow> string) \<Rightarrow> block_id \<Rightarrow> action_rev list \<Rightarrow> nat \<Rightarrow> nat
    \<Rightarrow> 'a log_entry cstore \<Rightarrow> ((error + 'a log_entry \<times> 'a log_entry chain_path) \<times> 'a log_entry cstore) option" where
  "addCheckpoint gen hash i pendings revision timestamp s =
     (let entry = \<lparr>le_timestamp = timestamp, le_rev = revision, le_action = None, le_checkpoint = Some pendings,
                   le_invalidation = None\<rparr>
      in map_option (\<lambda>(r, s1). (map_sum id (Pair entry) r, s1)) (chain_add gen (getChainOptions hash) i [entry] s))"

definition addInvalidation :: "(nat \<Rightarrow> block_id) \<Rightarrow> ('a log_entry cnode \<Rightarrow> string) \<Rightarrow> block_id \<Rightarrow> action_id \<Rightarrow> nat
    \<Rightarrow> dispute_proof \<Rightarrow> reverted_block list \<Rightarrow> nat \<Rightarrow> action_id option \<Rightarrow> nat
    \<Rightarrow> 'a log_entry cstore \<Rightarrow> ((error + 'a log_entry \<times> 'a log_entry chain_path) \<times> 'a log_entry cstore) option" where
  "addInvalidation gen hash i invalidatedActionId invalidatedRev resolution reverted revision cascadeRoot timestamp s =
     (let invalidation = \<lparr>iv_invalidatedActionId = invalidatedActionId, iv_invalidatedRev = invalidatedRev,
                          iv_resolution = resolution, iv_reverted = reverted, iv_cascadeRoot = cascadeRoot\<rparr>;
          entry = \<lparr>le_timestamp = timestamp, le_rev = revision, le_action = None, le_checkpoint = None,
                   le_invalidation = Some invalidation\<rparr>
      in map_option (\<lambda>(r, s1). (map_sum id (Pair entry) r, s1)) (chain_add gen (getChainOptions hash) i [entry] s))"

section \<open>Queries\<close>

fun find_invalidation_loop :: "action_id \<Rightarrow> 'a log_entry chain_path list \<Rightarrow> error + invalidation_entry option" where
  "find_invalidation_loop a [] = Inr None"
| "find_invalidation_loop a (p # ps) =
     (case entryAt p of
        None \<Rightarrow> Inl (TypeErr ''invalidation'')
      | Some e \<Rightarrow>
          (case le_invalidation e of
             Some iv \<Rightarrow> if iv_invalidatedActionId iv = a then Inr (Some iv) else find_invalidation_loop a ps
           | None \<Rightarrow> find_invalidation_loop a ps))"

definition findInvalidation :: "block_id \<Rightarrow> action_id \<Rightarrow> 'a log_entry cstore \<Rightarrow> (error + invalidation_entry option) option" where
  "findInvalidation i a s = map_option (find_invalidation_loop a) (chain_select i None False s)"

fun invalidations_loop :: "nat option \<Rightarrow> 'a log_entry chain_path list \<Rightarrow> error + invalidation_entry list" where
  "invalidations_loop startRev [] = Inr []"
| "invalidations_loop startRev (p # ps) =
     (case entryAt p of
        None \<Rightarrow> Inl (TypeErr ''rev'')
      | Some e \<Rightarrow>
          if (case startRev of Some r \<Rightarrow> le_rev e \<le> r | None \<Rightarrow> False) then Inr []
          else ebind (invalidations_loop startRev ps)
                 (\<lambda>ivs. Inr ((case le_invalidation e of Some iv \<Rightarrow> [iv] | None \<Rightarrow> []) @ ivs)))"

definition getInvalidationsFrom :: "block_id \<Rightarrow> nat option \<Rightarrow> 'a log_entry cstore \<Rightarrow> (error + invalidation_entry list) option" where
  "getInvalidationsFrom i startRev s = map_option (invalidations_loop startRev) (chain_select i None False s)"

record 'a found_checkpoint =
  fc_path :: "'a log_entry chain_path"
  fc_pendings :: "action_rev list"
  fc_rev :: "nat option"

fun findCheckpoint_loop :: "'a log_entry chain_path option \<Rightarrow> nat option \<Rightarrow> 'a log_entry chain_path list
    \<Rightarrow> error + 'a found_checkpoint option" where
  "findCheckpoint_loop lastPath revision [] =
     Inr (map_option (\<lambda>p. \<lparr>fc_path = p, fc_pendings = [], fc_rev = revision\<rparr>) lastPath)"
| "findCheckpoint_loop lastPath revision (p # ps) =
     (case entryAt p of
        None \<Rightarrow> Inl (TypeErr ''rev'')
      | Some e \<Rightarrow>
          (let revision' = (case revision of Some r \<Rightarrow> Some r | None \<Rightarrow> Some (le_rev e))
           in case le_checkpoint e of
                Some pendings \<Rightarrow> Inr (Some \<lparr>fc_path = p, fc_pendings = pendings, fc_rev = revision'\<rparr>)
              | None \<Rightarrow> findCheckpoint_loop (Some p) revision' ps))"

definition findCheckpoint :: "block_id \<Rightarrow> 'a log_entry chain_path \<Rightarrow> 'a log_entry cstore
    \<Rightarrow> (error + 'a found_checkpoint option) option" where
  "findCheckpoint i starting s = map_option (findCheckpoint_loop None None) (chain_select i (Some starting) False s)"

definition action_of :: "'a log_entry \<Rightarrow> action_rev list" where
  \<comment> \<open>the pair an entry with an action adds to the pending actions\<close>
  "action_of e = (case le_action e of Some a \<Rightarrow> [\<lparr>ar_actionId = ae_actionId a, ar_rev = le_rev e\<rparr>] | None \<Rightarrow> [])"

definition pendingFrom :: "block_id \<Rightarrow> 'a log_entry chain_path \<Rightarrow> 'a log_entry cstore \<Rightarrow> action_rev list option" where
  "pendingFrom i starting s =
     map_option (\<lambda>ps. concat (map (\<lambda>p. case entryAt p of Some e \<Rightarrow> action_of e | None \<Rightarrow> []) ps))
       (chain_select i (Some starting) True s)"

definition getActionContext :: "block_id \<Rightarrow> 'a log_entry cstore \<Rightarrow> (error + action_context option) option" where
  "getActionContext i s =
     Option.bind (getTail i None s) (\<lambda>tailPath.
       case tailPath of
         None \<Rightarrow> Some (Inr None)
       | Some tailPath \<Rightarrow>
           if entries (path_block tailPath) = [] then Some (Inr None)
           else Option.bind (findCheckpoint i tailPath s) (\<lambda>r.
             case r of
               Inl e \<Rightarrow> Some (Inl e)
             | Inr None \<Rightarrow> Some (Inr (Some \<lparr>cx_committed = [], cx_rev = 0, cx_actionId = None\<rparr>))
             | Inr (Some checkpoint) \<Rightarrow>
                 Option.bind (pendingFrom i (fc_path checkpoint) s) (\<lambda>additional.
                   Some (Inr (Some \<lparr>cx_committed = fc_pendings checkpoint @ additional,
                      cx_rev = (case fc_rev checkpoint of Some r \<Rightarrow> r | None \<Rightarrow> 0), cx_actionId = None\<rparr>)))))"

record 'a get_from_scan =
  gf_entriesFromTail :: "'a action_entry list"
  gf_pendingActions :: "action_rev list"
  gf_checkpointPendings :: "action_rev list"
  gf_rev :: "nat option"
  gf_checkpointPath :: "'a log_entry chain_path option"

definition after_rev :: "nat option \<Rightarrow> nat \<Rightarrow> bool" where
  "after_rev startRev r = (case startRev of Some r0 \<Rightarrow> r > r0 | None \<Rightarrow> False)"

fun getFrom_tail_loop :: "nat option \<Rightarrow> 'a get_from_scan \<Rightarrow> 'a log_entry chain_path list \<Rightarrow> error + 'a get_from_scan" where
  "getFrom_tail_loop startRev g [] = Inr g"
| "getFrom_tail_loop startRev g (p # ps) =
     (case entryAt p of
        None \<Rightarrow> Inl (TypeErr ''rev'')
      | Some e \<Rightarrow>
          (let g1 = g\<lparr>gf_rev := (case gf_rev g of Some r \<Rightarrow> Some r | None \<Rightarrow> Some (le_rev e))\<rparr>
           in case le_checkpoint e of
                Some pendings \<Rightarrow> Inr (g1\<lparr>gf_checkpointPath := Some p, gf_checkpointPendings := pendings\<rparr>)
              | None \<Rightarrow>
                  (case le_action e of
                     None \<Rightarrow> getFrom_tail_loop startRev g1 ps
                   | Some a \<Rightarrow>
                       getFrom_tail_loop startRev
                         (g1\<lparr>gf_pendingActions := gf_pendingActions g1 @ [\<lparr>ar_actionId = ae_actionId a, ar_rev = le_rev e\<rparr>],
                             gf_entriesFromTail := gf_entriesFromTail g1 @ (if after_rev startRev (le_rev e) then [a] else [])\<rparr>)
                         ps)))"

fun getFrom_checkpoint_loop :: "nat option \<Rightarrow> 'a log_entry chain_path list \<Rightarrow> error + 'a action_entry list" where
  "getFrom_checkpoint_loop startRev [] = Inr []"
| "getFrom_checkpoint_loop startRev (p # ps) =
     (case entryAt p of
        None \<Rightarrow> Inl (TypeErr ''rev'')
      | Some e \<Rightarrow>
          if after_rev startRev (le_rev e) then
            ebind (getFrom_checkpoint_loop startRev ps)
              (\<lambda>es. Inr ((case le_action e of Some a \<Rightarrow> [a] | None \<Rightarrow> []) @ es))
          else Inr [])"

definition getFrom :: "block_id \<Rightarrow> nat option \<Rightarrow> 'a log_entry cstore
    \<Rightarrow> (error + action_context option \<times> 'a action_entry list) option" where
  "getFrom i startRev s =
     Option.bind (chain_select i None False s) (\<lambda>ps.
       case getFrom_tail_loop startRev \<lparr>gf_entriesFromTail = [], gf_pendingActions = [], gf_checkpointPendings = [],
              gf_rev = None, gf_checkpointPath = None\<rparr> ps of
         Inl e \<Rightarrow> Some (Inl e)
       | Inr g \<Rightarrow>
           Option.bind (case gf_checkpointPath g of
                          None \<Rightarrow> Some (Inr [])
                        | Some p \<Rightarrow> map_option (getFrom_checkpoint_loop startRev) (chain_select i (Some p) False s)) (\<lambda>r.
             Some (ebind r (\<lambda>entriesFromCheckpoint.
               let pendings = gf_checkpointPendings g @ rev (gf_pendingActions g);
                   es = rev entriesFromCheckpoint @ rev (gf_entriesFromTail g)
               in Inr (case gf_rev g of
                         Some r \<Rightarrow> if r \<noteq> 0 then Some \<lparr>cx_committed = pendings, cx_rev = r, cx_actionId = None\<rparr> else None
                       | None \<Rightarrow> None, es)))))"

definition log_select :: "block_id \<Rightarrow> 'a log_entry chain_path option \<Rightarrow> bool \<Rightarrow> 'a log_entry cstore
    \<Rightarrow> 'a log_entry option list option" where
  "log_select i starting forward s = map_option (map entryAt) (chain_select i starting forward s)"

section \<open>The hash chain\<close>

definition hash_link :: "('e cnode \<Rightarrow> string) \<Rightarrow> 'e cnode \<Rightarrow> 'e cnode \<Rightarrow> bool" where
  "hash_link hash a b \<longleftrightarrow> priorHash b = Some (hash (logBlockHashPayload a))"

interpretation lg: chain_hook "opt_newBlock (getChainOptions hash)" "hash_link hash" for hash
  by unfold_locales (simp_all add: getChainOptions_def hash_link_def logBlockHashPayload_def)

definition log_ok :: "('a log_entry cnode \<Rightarrow> string) \<Rightarrow> 'a log_entry cstore \<Rightarrow> block_id \<Rightarrow> 'a log_entry list \<Rightarrow> bool" where
  \<comment> \<open>a well-formed log with these entries, oldest first\<close>
  "log_ok hash s i es \<longleftrightarrow> (\<exists>h ns. chain_ok s i h ns \<and> successively (hash_link hash) ns \<and> contents ns = es
     \<and> (entries (last ns) = [] \<longrightarrow> es = [])) \<and> (\<forall>e \<in> set es. le_checkpoint e \<noteq> None \<longrightarrow> le_action e = None)"

lemma log_append:
  assumes "log_ok hash s i es" and "fresh_ids gen s" and "le_checkpoint e \<noteq> None \<longrightarrow> le_action e = None"
  shows "\<exists>p s' h xs t ys. chain_add gen (getChainOptions hash) i [e] s = Some (Inr p, s') \<and> log_ok hash s' i (es @ [e])
    \<and> fresh_ids gen s' \<and> chain_ok s' i h (xs @ [t]) \<and> successively (hash_link hash) (xs @ [t]) \<and> entries t = ys @ [e]
    \<and> contents xs @ ys = es \<and> path_block p = t \<and> path_index p = int (length ys)"
proof -
  obtain h ns where ok: "chain_ok s i h ns" "successively (hash_link hash) ns" "contents ns = es"
    "\<forall>e \<in> set es. le_checkpoint e \<noteq> None \<longrightarrow> le_action e = None"
    using assms(1) by (auto simp: log_ok_def)
  obtain s' h' ns' p where r: "chain_add gen (getChainOptions hash) i [e] s = Some (Inr p, s')" "chain_ok s' i h' ns'"
    "fresh_ids gen s'" "successively (hash_link hash) ns'" "grown s ns [e] (s'\<lparr>blocks := (blocks s')(i := Some h)\<rparr>) ns'"
    "p = path_at h' (last ns') (int (length (entries (last ns'))) - 1)"
    using lg.chain_add_correct [OF refl ok(1) assms(2) ok(2), of "[e]"] by blast
  obtain xs t where ns': "ns' = xs @ [t]" using grownD(1) [OF r(5)] by (cases ns' rule: rev_cases) auto
  have "entries t \<noteq> []" using grownD(5) [OF r(5)] by (simp add: ns')
  then obtain ys y where ys: "entries t = ys @ [y]" by (cases "entries t" rule: rev_cases) auto
  have "contents ns' = es @ [e]" using grownD(3) [OF r(5)] ok(3) by simp
  then have c: "y = e" "contents xs @ ys = es" by (simp_all add: ns' ys)
  have "log_ok hash s' i (es @ [e])"
    unfolding log_ok_def using r(2,4) ok(4) assms(3) ns' ys c by (intro conjI exI [of _ h'] exI [of _ ns']) auto
  then show ?thesis using r(1-4,6) ns' ys c
    by (intro exI [of _ p] exI [of _ s'] exI [of _ h'] exI [of _ xs] exI [of _ t] exI [of _ ys]) simp
qed

definition action_entry_of :: "'a list \<Rightarrow> action_id \<Rightarrow> nat \<Rightarrow> block_id list \<Rightarrow> collection_id list \<Rightarrow> (block_id \<times> nat) list option \<Rightarrow> nat \<Rightarrow> 'a log_entry" where
  "action_entry_of actions actionId revision blockIds collectionIds reads timestamp =
     \<lparr>le_timestamp = timestamp, le_rev = revision,
      le_action = Some \<lparr>ae_actionId = actionId, ae_actions = actions, ae_blockIds = blockIds, ae_collectionIds = collectionIds, ae_reads = reads\<rparr>,
      le_checkpoint = None, le_invalidation = None\<rparr>"

lemma addActions_correct:
  assumes "log_ok hash s i es" and "fresh_ids gen s"
  shows "\<exists>e p s'. addActions gen hash i actions actionId revision getBlockIds collectionIds reads timestamp s = Some (Inr (e, p), s')
    \<and> log_ok hash s' i (es @ [e]) \<and> fresh_ids gen s' \<and> le_rev e = revision \<and> entryAt p = Some e
    \<and> (\<exists>s1. log_ok hash s1 i (es @ [action_entry_of actions actionId revision [] collectionIds reads timestamp])
         \<and> e = action_entry_of actions actionId revision (getBlockIds s1) collectionIds reads timestamp)"
proof -
  define action where "action = \<lparr>ae_actionId = actionId, ae_actions = actions, ae_blockIds = [], ae_collectionIds = collectionIds,
     ae_reads = reads\<rparr>"
  define entry where "entry = \<lparr>le_timestamp = timestamp, le_rev = revision, le_action = Some action, le_checkpoint = None,
     le_invalidation = None\<rparr>"
  obtain p s1 h xs t ys where a: "chain_add gen (getChainOptions hash) i [entry] s = Some (Inr p, s1)" "log_ok hash s1 i (es @ [entry])"
    "fresh_ids gen s1" "chain_ok s1 i h (xs @ [t])" "successively (hash_link hash) (xs @ [t])" "entries t = ys @ [entry]"
    "contents xs @ ys = es" "path_block p = t" "path_index p = int (length ys)"
    using log_append [OF assms, of entry] by (auto simp: entry_def)
  define e where "e = entry\<lparr>le_action := Some (action\<lparr>ae_blockIds := getBlockIds s1\<rparr>)\<rparr>"
  obtain s2 where u: "updateAt p e s1 = (Inr (), s2)" "chain_ok s2 i h (xs @ [t\<lparr>entries := ys @ [e]\<rparr>])"
    "generated s2 = generated s1" "blocks s2 = (blocks s1)(nid t \<mapsto> t\<lparr>entries := ys @ [e]\<rparr>)"
    using chain_updateAt_last [OF a(4,6,8,9), of e] by blast
  have r: "addActions gen hash i actions actionId revision getBlockIds collectionIds reads timestamp s
      = Some (Inr (e, p\<lparr>path_block := t\<lparr>entries := ys @ [e]\<rparr>\<rparr>), s2)"
    using js_splice_nat [of "length ys" 1 "[e]" "ys @ [entry]"] a(6,8,9) u(1)
    unfolding addActions_def Let_def action_def [symmetric] entry_def [symmetric] a(1) Option.bind.bind_lunit
    by (simp add: e_def [symmetric])
  have "log_ok hash s2 i (es @ [e])"
    unfolding log_ok_def
    using u(2) lg.links_snoc_entries [OF a(5), of "ys @ [e]"] a(2,7)
    by (intro conjI exI [of _ h] exI [of _ "xs @ [t\<lparr>entries := ys @ [e]\<rparr>]"]) (auto simp: log_ok_def e_def entry_def)
  moreover have "fresh_ids gen s2"
  proof (rule fresh_ids_mono [OF a(3)])
    fix k assume "generated s2 \<le> k"
    then have "blocks s1 (gen k) = None" using a(3) u(3) by (simp add: fresh_ids_def)
    moreover have "blocks s1 (nid t) = Some t" using a(4) by (simp add: chain_ok_def)
    ultimately show "blocks s2 (gen k) = blocks s1 (gen k)" by (auto simp: u(4))
  qed (simp add: u(3))
  ultimately show ?thesis using r a(9)
    by (intro exI [of _ e] exI [of _ "p\<lparr>path_block := t\<lparr>entries := ys @ [e]\<rparr>\<rparr>"] exI [of _ s2])
       (use a(2) in \<open>auto simp: e_def entry_def action_def entryAt_def action_entry_of_def\<close>)
qed

definition checkpoint_entry_of :: "action_rev list \<Rightarrow> nat \<Rightarrow> nat \<Rightarrow> 'a log_entry" where
  "checkpoint_entry_of pendings revision timestamp =
     \<lparr>le_timestamp = timestamp, le_rev = revision, le_action = None, le_checkpoint = Some pendings, le_invalidation = None\<rparr>"

definition invalidation_entry_of :: "action_id \<Rightarrow> nat \<Rightarrow> dispute_proof \<Rightarrow> reverted_block list \<Rightarrow> nat \<Rightarrow> action_id option \<Rightarrow> nat \<Rightarrow> 'a log_entry" where
  "invalidation_entry_of a r resolution reverted revision root timestamp =
     \<lparr>le_timestamp = timestamp, le_rev = revision, le_action = None, le_checkpoint = None,
      le_invalidation = Some \<lparr>iv_invalidatedActionId = a, iv_invalidatedRev = r, iv_resolution = resolution, iv_reverted = reverted, iv_cascadeRoot = root\<rparr>\<rparr>"

lemma addCheckpoint_correct:
  assumes "log_ok hash s i es" and "fresh_ids gen s"
  shows "\<exists>e p s'. addCheckpoint gen hash i pendings revision timestamp s = Some (Inr (e, p), s')
    \<and> log_ok hash s' i (es @ [e]) \<and> fresh_ids gen s' \<and> le_rev e = revision
    \<and> e = checkpoint_entry_of pendings revision timestamp"
  using log_append [OF assms, of "checkpoint_entry_of pendings revision timestamp"]
  by (auto simp: addCheckpoint_def checkpoint_entry_of_def)

lemma addInvalidation_correct:
  assumes "log_ok hash s i es" and "fresh_ids gen s"
  shows "\<exists>e p s'. addInvalidation gen hash i a r resolution reverted revision root timestamp s = Some (Inr (e, p), s')
    \<and> log_ok hash s' i (es @ [e]) \<and> fresh_ids gen s' \<and> le_rev e = revision
    \<and> e = invalidation_entry_of a r resolution reverted revision root timestamp"
  using log_append [OF assms, of "invalidation_entry_of a r resolution reverted revision root timestamp"]
  by (auto simp: addInvalidation_def invalidation_entry_of_def)

section \<open>Sequences of appends\<close>

datatype 'a append_request =
    ActionsRq "'a list" action_id nat "'a log_entry cstore \<Rightarrow> block_id list" "collection_id list" "(block_id \<times> nat) list option" nat
  | CheckpointRq "action_rev list" nat nat
  | InvalidationRq action_id nat dispute_proof "reverted_block list" nat "action_id option" nat

fun append_entry :: "(nat \<Rightarrow> block_id) \<Rightarrow> ('a log_entry cnode \<Rightarrow> string) \<Rightarrow> block_id \<Rightarrow> 'a append_request \<Rightarrow> 'a log_entry cstore
    \<Rightarrow> ((error + 'a log_entry \<times> 'a log_entry chain_path) \<times> 'a log_entry cstore) option" where
  "append_entry gen hash i (ActionsRq actions a r getBlockIds cs reads ts) s = addActions gen hash i actions a r getBlockIds cs reads ts s"
| "append_entry gen hash i (CheckpointRq pendings r ts) s = addCheckpoint gen hash i pendings r ts s"
| "append_entry gen hash i (InvalidationRq a r0 resolution reverted r root ts) s = addInvalidation gen hash i a r0 resolution reverted r root ts s"

fun append_all :: "(nat \<Rightarrow> block_id) \<Rightarrow> ('a log_entry cnode \<Rightarrow> string) \<Rightarrow> block_id \<Rightarrow> 'a append_request list \<Rightarrow> 'a log_entry cstore
    \<Rightarrow> ((error + 'a log_entry list) \<times> 'a log_entry cstore) option" where
  "append_all gen hash i [] s = Some (Inr [], s)"
| "append_all gen hash i (rq # rqs) s =
     Option.bind (append_entry gen hash i rq s) (\<lambda>(x, s1).
       case x of
         Inl e \<Rightarrow> Some (Inl e, s1)
       | Inr (e, p) \<Rightarrow> map_option (\<lambda>(y, s2). (map_sum id (Cons e) y, s2)) (append_all gen hash i rqs s1))"

fun requested_entry :: "'a append_request \<Rightarrow> block_id list \<Rightarrow> 'a log_entry" where
  \<comment> \<open>the entry that a request asks for, given the ids of the blocks it touches\<close>
  "requested_entry (ActionsRq actions a r _ cs reads ts) ids = action_entry_of actions a r ids cs reads ts"
| "requested_entry (CheckpointRq pendings r ts) ids = checkpoint_entry_of pendings r ts"
| "requested_entry (InvalidationRq a r0 resolution reverted r root ts) ids = invalidation_entry_of a r0 resolution reverted r root ts"

fun reported_ids :: "'a append_request \<Rightarrow> 'a log_entry cstore \<Rightarrow> block_id list" where
  "reported_ids (ActionsRq _ _ _ getBlockIds _ _ _) s = getBlockIds s"
| "reported_ids _ s = []"

definition stored_for :: "block_id \<Rightarrow> 'a log_entry list \<Rightarrow> 'a append_request \<Rightarrow> 'a log_entry \<Rightarrow> bool" where
  \<comment> \<open>the entry is the requested one, with the ids that the callback reports on the log that already holds the entry\<close>
  "stored_for i es rq e \<longleftrightarrow> (case rq of
      ActionsRq _ _ _ _ _ _ _ \<Rightarrow> (\<exists>s h ns. chain_ok s i h ns \<and> contents ns = es @ [requested_entry rq []] \<and> e = requested_entry rq (reported_ids rq s))
    | _ \<Rightarrow> e = requested_entry rq [])"

lemma append_entry_correct:
  assumes "log_ok hash s i es" and "fresh_ids gen s"
  shows "\<exists>e p s'. append_entry gen hash i rq s = Some (Inr (e, p), s') \<and> log_ok hash s' i (es @ [e]) \<and> fresh_ids gen s' \<and> stored_for i es rq e"
proof (cases rq)
  case (ActionsRq actions a r getBlockIds cs reads ts)
  then show ?thesis using addActions_correct [OF assms, of actions a r getBlockIds cs reads ts]
    by (fastforce simp: stored_for_def log_ok_def)
next
  case (CheckpointRq pendings r ts)
  then show ?thesis using addCheckpoint_correct [OF assms, of pendings r ts] by (auto simp: stored_for_def)
next
  case (InvalidationRq a r0 resolution reverted r root ts)
  then show ?thesis using addInvalidation_correct [OF assms, of a r0 resolution reverted r root ts] by (auto simp: stored_for_def)
qed

lemma append_all_correct:
  "log_ok hash s i es0 \<Longrightarrow> fresh_ids gen s \<Longrightarrow>
   \<exists>es s'. append_all gen hash i rqs s = Some (Inr es, s') \<and> log_ok hash s' i (es0 @ es) \<and> fresh_ids gen s' \<and> length es = length rqs
     \<and> (\<forall>n < length rqs. stored_for i (es0 @ take n es) (rqs ! n) (es ! n))"
proof (induction rqs arbitrary: s es0)
  case (Cons rq rqs)
  obtain e p s1 where a: "append_entry gen hash i rq s = Some (Inr (e, p), s1)" "log_ok hash s1 i (es0 @ [e])" "fresh_ids gen s1"
      "stored_for i es0 rq e"
    using append_entry_correct [OF Cons.prems] by blast
  obtain es s' where r: "append_all gen hash i rqs s1 = Some (Inr es, s')" "log_ok hash s' i ((es0 @ [e]) @ es)" "fresh_ids gen s'"
      "length es = length rqs" "\<forall>n < length rqs. stored_for i ((es0 @ [e]) @ take n es) (rqs ! n) (es ! n)"
    using Cons.IH [OF a(2,3)] by blast
  have "stored_for i (es0 @ take n (e # es)) ((rq # rqs) ! n) ((e # es) ! n)" if "n < length (rq # rqs)" for n
    using that a(4) r(5) by (cases n) auto
  then show ?case using a(1) r(1-4) by (intro exI [of _ "e # es"] exI [of _ s']) simp
qed simp

inductive log_run :: "(nat \<Rightarrow> block_id) \<Rightarrow> ('a log_entry cnode \<Rightarrow> string) \<Rightarrow> block_id \<Rightarrow> 'a log_entry cstore
    \<Rightarrow> 'a log_entry list \<Rightarrow> 'a log_entry cstore \<Rightarrow> bool" for gen hash i s where
  run_start: "log_run gen hash i s [] s"
| run_actions:
    "log_run gen hash i s es s1 \<Longrightarrow>
     addActions gen hash i actions actionId revision getBlockIds collectionIds reads timestamp s1 = Some (Inr (e, p), s2) \<Longrightarrow>
     log_run gen hash i s (es @ [e]) s2"
| run_checkpoint:
    "log_run gen hash i s es s1 \<Longrightarrow> addCheckpoint gen hash i pendings revision timestamp s1 = Some (Inr (e, p), s2) \<Longrightarrow>
     log_run gen hash i s (es @ [e]) s2"
| run_invalidation:
    "log_run gen hash i s es s1 \<Longrightarrow>
     addInvalidation gen hash i a r resolution reverted revision root timestamp s1 = Some (Inr (e, p), s2) \<Longrightarrow>
     log_run gen hash i s (es @ [e]) s2"

lemma log_run_ok:
  assumes "log_run gen hash i s es s'" and "log_ok hash s i []" and "fresh_ids gen s"
  shows "log_ok hash s' i es \<and> fresh_ids gen s'"
  using assms
proof (induction rule: log_run.induct)
  case (run_actions es s1 actions actionId revision getBlockIds collectionIds reads timestamp e p s2)
  then show ?case
    using addActions_correct [of hash s1 i es gen actions actionId revision getBlockIds collectionIds reads timestamp] by auto
next
  case (run_checkpoint es s1 pendings revision timestamp e p s2)
  then show ?case using addCheckpoint_correct [of hash s1 i es gen pendings revision timestamp] by auto
next
  case (run_invalidation es s1 a r resolution reverted revision root timestamp e p s2)
  then show ?case using addInvalidation_correct [of hash s1 i es gen a r resolution reverted revision root timestamp] by auto
qed simp_all

lemma log_create_ok:
  assumes "fresh_ids gen s0" and "log_create gen hash None None s0 = (Inr i, s)"
  shows "log_ok hash s i [] \<and> fresh_ids gen s"
proof -
  obtain h t where "chain_ok s i h [t]" "entries t = []" "fresh_ids gen s"
    using chain_create_correct [OF assms(1), of "getChainOptions hash" "Inr i" s] assms(2) by (auto simp: log_create_def)
  then show ?thesis by (auto simp: log_ok_def intro!: exI [of _ h] exI [of _ "[t]"])
qed

section \<open>Reading the log\<close>

definition tail_part :: "'a log_entry list \<Rightarrow> 'a log_entry list" where
  \<comment> \<open>the entries after the last checkpoint\<close>
  "tail_part es = rev (takeWhile (\<lambda>e. le_checkpoint e = None) (rev es))"

definition last_pendings :: "'a log_entry list \<Rightarrow> action_rev list" where
  \<comment> \<open>the pending actions the last checkpoint restates\<close>
  "last_pendings es = (case dropWhile (\<lambda>e. le_checkpoint e = None) (rev es) of
      [] \<Rightarrow> [] | c # _ \<Rightarrow> (case le_checkpoint c of Some ps \<Rightarrow> ps | None \<Rightarrow> []))"

definition context_of :: "'a log_entry list \<Rightarrow> action_context" where
  "context_of es = \<lparr>cx_committed = last_pendings es @ concat (map action_of (tail_part es)),
     cx_rev = le_rev (last es), cx_actionId = None\<rparr>"

definition actions_in :: "'a log_entry list \<Rightarrow> 'a action_entry list" where
  "actions_in es = concat (map (\<lambda>e. case le_action e of Some a \<Rightarrow> [a] | None \<Rightarrow> []) es)"

lemma actions_in_simps [simp]:
  "actions_in [] = []"
  "actions_in (e # es) = (case le_action e of Some a \<Rightarrow> [a] | None \<Rightarrow> []) @ actions_in es"
  "actions_in (xs @ ys) = actions_in xs @ actions_in ys"
  by (simp_all add: actions_in_def)

lemma rev_actions_in: "rev (actions_in es) = actions_in (rev es)"
  by (induction es) (auto split: option.split)

lemma rev_action_of: "rev (concat (map action_of es)) = concat (map action_of (rev es))"
  by (induction es) (auto simp: action_of_def split: option.split)

definition scan_entry :: "nat option \<Rightarrow> 'a log_entry \<Rightarrow> 'a get_from_scan \<Rightarrow> 'a get_from_scan" where
  \<comment> \<open>what an entry without a checkpoint adds to the scan\<close>
  "scan_entry startRev e g =
     g\<lparr>gf_rev := (case gf_rev g of Some r \<Rightarrow> Some r | None \<Rightarrow> Some (le_rev e)),
       gf_pendingActions := gf_pendingActions g @ action_of e,
       gf_entriesFromTail := gf_entriesFromTail g @ (if after_rev startRev (le_rev e) then actions_in [e] else [])\<rparr>"

lemma getFrom_tail_loop_Cons:
  assumes "entryAt p = Some e" and "le_checkpoint e = None"
  shows "getFrom_tail_loop startRev g (p # ps) = getFrom_tail_loop startRev (scan_entry startRev e g) ps"
  using assms by (cases "le_action e") (simp_all add: scan_entry_def action_of_def)

lemma getFrom_tail_loop_append:
  assumes "map entryAt ps = map Some es" and "\<forall>e \<in> set es. le_checkpoint e = None"
  shows "getFrom_tail_loop startRev g (ps @ qs) = getFrom_tail_loop startRev (fold (scan_entry startRev) es g) qs"
  using assms
proof (induction ps arbitrary: g es)
  case (Cons p ps)
  then obtain e es' where "es = e # es'" "entryAt p = Some e" by (cases es) auto
  then show ?case using Cons getFrom_tail_loop_Cons [of p e startRev g "ps @ qs"] by simp
qed simp

lemma fold_scan_entry:
  "gf_pendingActions (fold (scan_entry startRev) es g) = gf_pendingActions g @ concat (map action_of es)"
  "gf_entriesFromTail (fold (scan_entry startRev) es g)
     = gf_entriesFromTail g @ actions_in (filter (\<lambda>e. after_rev startRev (le_rev e)) es)"
  "gf_checkpointPath (fold (scan_entry startRev) es g) = gf_checkpointPath g"
  "gf_checkpointPendings (fold (scan_entry startRev) es g) = gf_checkpointPendings g"
  "gf_rev (fold (scan_entry startRev) es g)
     = (case gf_rev g of Some r \<Rightarrow> Some r | None \<Rightarrow> (case es of [] \<Rightarrow> None | e # _ \<Rightarrow> Some (le_rev e)))"
  by (induction es arbitrary: g) (simp_all add: scan_entry_def split: option.split)

lemma getFrom_checkpoint_loop_eq:
  assumes "map entryAt ps = map Some es"
  shows "getFrom_checkpoint_loop startRev ps = Inr (actions_in (takeWhile (\<lambda>e. after_rev startRev (le_rev e)) es))"
  using assms
proof (induction ps arbitrary: es)
  case (Cons p ps)
  then show ?case by (cases es) auto
qed simp

lemma takeWhile_after_rev:
  assumes "sorted_wrt (\<ge>) (map le_rev es)"
  shows "takeWhile (\<lambda>e. after_rev startRev (le_rev e)) es = filter (\<lambda>e. after_rev startRev (le_rev e)) es"
  using assms
proof (induction es)
  case (Cons e es)
  show ?case
  proof (cases "after_rev startRev (le_rev e)")
    case False
    then have "\<not> after_rev startRev (le_rev x)" if "x \<in> set es" for x
      using Cons.prems that by (fastforce simp: after_rev_def split: option.splits)
    then show ?thesis using False by (simp add: filter_empty_conv)
  qed (use Cons in simp)
qed simp

text \<open>How the last checkpoint splits the entries, newest first, and the paths that yield them.\<close>

lemma checkpoint_split:
  fixes es :: "'a log_entry list"
  assumes "map entryAt ps = map Some es"
  obtains (no_checkpoint) "\<forall>e \<in> set es. le_checkpoint e = None" "takeWhile (\<lambda>e. le_checkpoint e = None) es = es"
      "dropWhile (\<lambda>e. le_checkpoint e = None) es = []"
    | (checkpoint) pre p post T c D pendings where "ps = pre @ p # post" "es = T @ c # D" "map entryAt pre = map Some T"
      "entryAt p = Some c" "map entryAt post = map Some D" "le_checkpoint c = Some pendings"
      "\<forall>e \<in> set T. le_checkpoint e = None" "takeWhile (\<lambda>e. le_checkpoint e = None) es = T"
      "dropWhile (\<lambda>e. le_checkpoint e = None) es = c # D"
proof (cases "\<forall>e \<in> set es. le_checkpoint e = None")
  case True
  then show thesis by (intro no_checkpoint) (auto simp: takeWhile_eq_all_conv dropWhile_eq_Nil_conv)
next
  case False
  then obtain c where c: "\<exists>T D. es = T @ c # D \<and> \<not> le_checkpoint c = None \<and> (\<forall>e \<in> set T. \<not> \<not> le_checkpoint e = None)"
    using split_list_first_prop [of es "\<lambda>e. \<not> le_checkpoint e = None"] by blast
  then obtain T D where es: "es = T @ c # D" "le_checkpoint c \<noteq> None" "\<forall>e \<in> set T. le_checkpoint e = None" by blast
  obtain pendings where cp: "le_checkpoint c = Some pendings" using es(2) by blast
  obtain pre p post where "ps = pre @ p # post" "map entryAt pre = map Some T" "entryAt p = Some c" "map entryAt post = map Some D"
    using assms by (auto simp: es(1) map_eq_append_conv map_eq_Cons_conv)
  then show thesis using es cp by (intro checkpoint [of pre p post T c D pendings]) (simp_all add: takeWhile_append2 dropWhile_append2)
qed

lemma getFrom_log_ok:
  assumes "log_ok hash s i es" and "sorted (map le_rev es)"
  shows "getFrom i startRev s = Some (Inr (if es = [] \<or> le_rev (last es) = 0 then None else Some (context_of es),
     actions_in (filter (\<lambda>e. after_rev startRev (le_rev e)) es)))"
proof -
  obtain h ns where ok: "chain_ok s i h ns" "contents ns = es" using assms(1) by (auto simp: log_ok_def)
  define ps where "ps = rev (all_paths h ns)"
  have sel: "chain_select i None False s = Some ps" by (simp add: ps_def chain_select_all [OF ok(1)])
  have ent: "map entryAt ps = map Some (rev es)"
    using map_entryAt_all_paths [of h ns] ok(2) by (simp add: ps_def rev_map [symmetric])
  have cp_act: "\<forall>e \<in> set es. le_checkpoint e \<noteq> None \<longrightarrow> le_action e = None" using assms(1) by (simp add: log_ok_def)
  have srt: "sorted_wrt (\<ge>) (map le_rev (rev es))" using assms(2) by (simp add: rev_map [symmetric] sorted_wrt_rev)
  have hd_rev: "(case rev es of [] \<Rightarrow> None | e # _ \<Rightarrow> Some (le_rev e)) = (if es = [] then None else Some (le_rev (last es)))"
    by (cases es rule: rev_cases) simp_all
  let ?g0 = "\<lparr>gf_entriesFromTail = [], gf_pendingActions = [], gf_checkpointPendings = [], gf_rev = None, gf_checkpointPath = None\<rparr>"
  show ?thesis
    using ent
  proof (cases rule: checkpoint_split)
    case no_checkpoint
    have "getFrom_tail_loop startRev ?g0 ps = Inr (fold (scan_entry startRev) (rev es) ?g0)"
      using getFrom_tail_loop_append [OF ent no_checkpoint(1), of startRev ?g0 "[]"] by simp
    moreover have "context_of es = \<lparr>cx_committed = concat (map action_of es), cx_rev = le_rev (last es), cx_actionId = None\<rparr>"
      unfolding context_of_def tail_part_def last_pendings_def no_checkpoint(2,3) by simp
    ultimately show ?thesis
      by (simp add: getFrom_def sel fold_scan_entry hd_rev rev_actions_in rev_action_of rev_filter)
  next
    case (checkpoint pre p post T c D pendings)
    have ap: "all_paths h ns = rev post @ p # rev pre" using checkpoint(1) by (simp add: ps_def rev_swap)
    have sel2: "chain_select i (Some p) False s = Some (p # post)" using chain_select_from(2) [OF ok(1) ap] by simp
    define g where "g = fold (scan_entry startRev) T ?g0"
    define r where "r = (case T of [] \<Rightarrow> Some (le_rev c) | e # _ \<Rightarrow> Some (le_rev e))"
    have loop: "getFrom_tail_loop startRev ?g0 ps
        = Inr (g\<lparr>gf_rev := r, gf_checkpointPath := Some p, gf_checkpointPendings := pendings\<rparr>)"
      unfolding checkpoint(1) getFrom_tail_loop_append [OF checkpoint(3,7)] g_def
      using checkpoint(4,6) by (cases T) (simp_all add: fold_scan_entry r_def Let_def del: fold.simps)
    have r: "r = Some (le_rev (last es))" "es \<noteq> []"
      using arg_cong [OF checkpoint(2), of rev] by (cases T; simp add: r_def)+
    have "le_action c = None" using cp_act checkpoint(2,6) by (metis in_set_conv_decomp option.distinct(1) set_rev)
    moreover have "sorted_wrt (\<ge>) (map le_rev (c # D))" using srt by (simp add: checkpoint(2) sorted_wrt_append)
    ultimately have loop2: "getFrom_checkpoint_loop startRev (p # post)
        = Inr (actions_in (filter (\<lambda>e. after_rev startRev (le_rev e)) D))"
      using getFrom_checkpoint_loop_eq [of "p # post" "c # D" startRev] checkpoint(4,5) takeWhile_after_rev [of "c # D" startRev]
      by auto
    have es: "es = rev D @ c # rev T" using arg_cong [OF checkpoint(2), of rev] by simp
    have cx: "context_of es = \<lparr>cx_committed = pendings @ concat (map action_of (rev T)), cx_rev = le_rev (last es), cx_actionId = None\<rparr>"
      unfolding context_of_def tail_part_def last_pendings_def checkpoint(8,9) by (simp add: checkpoint(6))
    have "actions_in (filter (\<lambda>e. after_rev startRev (le_rev e)) es)
        = actions_in (filter (\<lambda>e. after_rev startRev (le_rev e)) (rev D)) @ actions_in (filter (\<lambda>e. after_rev startRev (le_rev e)) (rev T))"
      using \<open>le_action c = None\<close> by (simp add: es)
    then show ?thesis
      using r by (simp add: getFrom_def sel sel2 loop loop2 g_def fold_scan_entry cx rev_actions_in rev_action_of rev_filter
          del: getFrom_tail_loop.simps getFrom_checkpoint_loop.simps)
  qed
qed

lemma findCheckpoint_loop_append:
  assumes "map entryAt ps = map Some es" and "\<forall>e \<in> set es. le_checkpoint e = None"
  shows "findCheckpoint_loop l r (ps @ qs)
    = findCheckpoint_loop (if ps = [] then l else Some (last ps))
        (case r of Some r \<Rightarrow> Some r | None \<Rightarrow> (case es of [] \<Rightarrow> None | e # _ \<Rightarrow> Some (le_rev e))) qs"
  using assms
proof (induction ps arbitrary: l r es)
  case Nil
  then show ?case by (simp split: option.split)
next
  case (Cons p ps)
  then obtain e es' where "es = e # es'" "entryAt p = Some e" "map entryAt ps = map Some es'" by (cases es) auto
  then show ?case using Cons.IH [of es'] Cons.prems(2) by (simp split: option.split)
qed

lemma getActionContext_log_ok:
  assumes "log_ok hash s i es"
  shows "getActionContext i s = Some (Inr (if es = [] then None else Some (context_of es)))"
proof -
  obtain h ns where ok: "chain_ok s i h ns" "contents ns = es" "entries (last ns) = [] \<longrightarrow> es = []"
    using assms(1) by (auto simp: log_ok_def)
  define ps where "ps = rev (all_paths h ns)"
  let ?tail = "path_at h (last ns) (int (length (entries (last ns))) - 1)"
  have tl: "getTail i None s = Some (Some ?tail)" by (rule getTail_ok [OF ok(1)])
  have sel: "chain_select i (Some ?tail) False s = Some ps"
    using chain_select_all(2) [OF ok(1)] by (simp add: chain_select_def tl ps_def)
  have ent: "map entryAt ps = map Some (rev es)"
    using map_entryAt_all_paths [of h ns] ok(2) by (simp add: ps_def rev_map [symmetric])
  have entf: "map entryAt (rev ps) = map Some es" using arg_cong [OF ent, of rev] by (simp add: rev_map)
  have emp: "entries (last ns) = [] \<longleftrightarrow> es = []"
  proof
    assume "es = []"
    moreover have "last ns \<in> set ns" using ok(1) by (simp add: chain_ok_def)
    ultimately show "entries (last ns) = []" using ok(2) by (auto simp: contents_def)
  qed (use ok(3) in simp)
  have hd_rev: "es \<noteq> [] \<Longrightarrow> (case rev es of [] \<Rightarrow> None | e # _ \<Rightarrow> Some (le_rev e)) = Some (le_rev (last es))"
    by (cases es rule: rev_cases) simp_all
  show ?thesis
  proof (cases "es = []")
    case True
    then show ?thesis by (simp add: getActionContext_def tl emp)
  next
    case False
    show ?thesis
      using ent
    proof (cases rule: checkpoint_split)
      case no_checkpoint
      have ne: "ps \<noteq> []" using ent False by auto
      then have "all_paths h ns = [] @ last ps # tl (rev ps)" by (simp add: ps_def last_rev)
      from chain_select_from(1) [OF ok(1) this] have sel2: "chain_select i (Some (last ps)) True s = Some (rev ps)"
        using ne by (simp add: ps_def last_rev)
      have "findCheckpoint i ?tail s = Some (Inr (Some \<lparr>fc_path = last ps, fc_pendings = [], fc_rev = Some (le_rev (last es))\<rparr>))"
        using findCheckpoint_loop_append [OF ent no_checkpoint(1), of None None "[]"] ne hd_rev [OF False]
        by (simp add: findCheckpoint_def sel)
      moreover have "pendingFrom i (last ps) s = Some (concat (map action_of es))"
      proof -
        have "map (\<lambda>p. case entryAt p of Some e \<Rightarrow> action_of e | None \<Rightarrow> []) (rev ps)
            = map (\<lambda>o'. case o' of Some e \<Rightarrow> action_of e | None \<Rightarrow> []) (map entryAt (rev ps))" by simp
        also have "\<dots> = map action_of es" unfolding entf by simp
        finally show ?thesis by (simp add: pendingFrom_def sel2)
      qed
      moreover have "context_of es = \<lparr>cx_committed = concat (map action_of es), cx_rev = le_rev (last es), cx_actionId = None\<rparr>"
        unfolding context_of_def tail_part_def last_pendings_def no_checkpoint(2,3) by simp
      ultimately show ?thesis using False by (simp add: getActionContext_def tl emp)
    next
      case (checkpoint pre p post T c D pendings)
      have ap: "all_paths h ns = rev post @ p # rev pre" using checkpoint(1) by (simp add: ps_def rev_swap)
      have sel2: "chain_select i (Some p) True s = Some (p # rev pre)" by (rule chain_select_from(1) [OF ok(1) ap])
      have "findCheckpoint i ?tail s = Some (Inr (Some \<lparr>fc_path = p, fc_pendings = pendings, fc_rev = Some (le_rev (last es))\<rparr>))"
        unfolding findCheckpoint_def sel checkpoint(1) using findCheckpoint_loop_append [OF checkpoint(3,7), of None None "p # post"]
          checkpoint(2,4,6) hd_rev [OF False] by (cases T) simp_all
      moreover have "pendingFrom i p s = Some (concat (map action_of (rev T)))"
      proof -
        have "c \<in> set es" using arg_cong [OF checkpoint(2), of set] by simp
        then have act: "action_of c = []" using assms checkpoint(6) by (simp add: log_ok_def action_of_def)
        have "map (\<lambda>p. case entryAt p of Some e \<Rightarrow> action_of e | None \<Rightarrow> []) (rev pre)
            = map (\<lambda>o'. case o' of Some e \<Rightarrow> action_of e | None \<Rightarrow> []) (rev (map entryAt pre))" by (simp add: rev_map)
        also have "\<dots> = map action_of (rev T)" unfolding checkpoint(3) by (simp add: rev_map)
        finally show ?thesis using checkpoint(4) act by (simp add: pendingFrom_def sel2)
      qed
      moreover have "context_of es = \<lparr>cx_committed = pendings @ concat (map action_of (rev T)), cx_rev = le_rev (last es), cx_actionId = None\<rparr>"
        unfolding context_of_def tail_part_def last_pendings_def checkpoint(8,9) by (simp add: checkpoint(6))
      ultimately show ?thesis using False by (simp add: getActionContext_def tl emp)
    qed
  qed
qed

definition invalidations_in :: "'a log_entry list \<Rightarrow> invalidation_entry list" where
  "invalidations_in es = concat (map (\<lambda>e. case le_invalidation e of Some iv \<Rightarrow> [iv] | None \<Rightarrow> []) es)"

lemma find_invalidation_loop_eq:
  assumes "map entryAt ps = map Some es"
  shows "find_invalidation_loop a ps = Inr (find (\<lambda>iv. iv_invalidatedActionId iv = a) (invalidations_in es))"
  using assms
proof (induction ps arbitrary: es)
  case (Cons p ps)
  then show ?case by (cases es) (auto simp: invalidations_in_def split: option.split)
qed (simp add: invalidations_in_def)

lemma invalidations_loop_eq:
  assumes "map entryAt ps = map Some es" and "sorted_wrt (\<ge>) (map le_rev es)"
  shows "invalidations_loop startRev ps = Inr (invalidations_in (filter (\<lambda>e. case startRev of Some r \<Rightarrow> le_rev e > r | None \<Rightarrow> True) es))"
  using assms
proof (induction ps arbitrary: es)
  case (Cons p ps)
  then obtain e es' where es: "es = e # es'" "entryAt p = Some e" "map entryAt ps = map Some es'" by (cases es) auto
  show ?case
  proof (cases "case startRev of Some r \<Rightarrow> le_rev e \<le> r | None \<Rightarrow> False")
    case True
    then obtain r where "startRev = Some r" "le_rev e \<le> r" by (cases startRev) auto
    moreover from this have "filter (\<lambda>x. r < le_rev x) es' = []"
      using Cons.prems(2) by (auto simp: es(1) filter_empty_conv)
    ultimately show ?thesis using es by (simp add: invalidations_in_def)
  next
    case False
    then show ?thesis using Cons.IH [OF es(3)] Cons.prems(2) es
      by (cases startRev) (auto simp: invalidations_in_def)
  qed
qed (simp add: invalidations_in_def)

lemma invalidations_log_ok:
  assumes "log_ok hash s i es"
  shows "findInvalidation i a s = Some (Inr (find (\<lambda>iv. iv_invalidatedActionId iv = a) (invalidations_in (rev es))))"
    and "sorted (map le_rev es) \<Longrightarrow> getInvalidationsFrom i (Some r) s
      = Some (Inr (invalidations_in (rev (filter (\<lambda>e. le_rev e > r) es))))"
proof -
  obtain h ns where ok: "chain_ok s i h ns" "contents ns = es" using assms(1) by (auto simp: log_ok_def)
  have ent: "map entryAt (rev (all_paths h ns)) = map Some (rev es)"
    using map_entryAt_all_paths [of h ns] ok(2) by (simp add: rev_map [symmetric])
  show "findInvalidation i a s = Some (Inr (find (\<lambda>iv. iv_invalidatedActionId iv = a) (invalidations_in (rev es))))"
    using find_invalidation_loop_eq [OF ent] by (simp add: findInvalidation_def chain_select_all [OF ok(1)])
  assume "sorted (map le_rev es)"
  then have "sorted_wrt (\<ge>) (map le_rev (rev es))" by (simp add: rev_map [symmetric] sorted_wrt_rev)
  from invalidations_loop_eq [OF ent this, of "Some r"]
  show "getInvalidationsFrom i (Some r) s = Some (Inr (invalidations_in (rev (filter (\<lambda>e. le_rev e > r) es))))"
    by (simp add: getInvalidationsFrom_def chain_select_all [OF ok(1)] rev_filter)
qed

section \<open>Properties\<close>

text \<open>C38. The log is an append-only hash chain. Starting from a new log, every sequence of requests to append actions, checkpoints
  and invalidations succeeds. Its entries are then the requested ones, in order: each has the actions, ids, revision, reads, timestamp,
  pending actions or dispute certificate of its request, and an action entry has the block ids that its callback reports on the log
  that already holds the entry. Every block after the first carries the hash of its predecessor's current content, although
  links and the last entry were rewritten after hashes were taken.\<close>

theorem log_hash_chain:
  assumes "fresh_ids gen s0" and "log_create gen hash None None s0 = (Inr i, s)"
  shows "\<exists>es s' h ns. append_all gen hash i rqs s = Some (Inr es, s') \<and> length es = length rqs
    \<and> (\<forall>n < length rqs. stored_for i (take n es) (rqs ! n) (es ! n))
    \<and> chain_ok s' i h ns \<and> contents ns = es \<and> successively (\<lambda>a b. priorHash b = Some (hash (logBlockHashPayload a))) ns"
proof -
  have "log_ok hash s i []" "fresh_ids gen s" using log_create_ok [OF assms] by simp_all
  from append_all_correct [OF this, of rqs] show ?thesis by (fastforce simp: log_ok_def hash_link_def fun_eq_iff)
qed

text \<open>C39. What the log's queries return. On a log whose revisions do not decrease, \<open>getFrom\<close> returns
  exactly the actions after the given revision, oldest first, although it walks backwards and stops
  at the revision once it is past the last checkpoint; its context is the pendings the last
  checkpoint restates followed by the later actions, at the last entry's revision;
  \<open>getActionContext\<close>, which walks differently, computes the same context; and
  \<open>getInvalidationsFrom\<close> returns exactly the later invalidations, newest first.\<close>

theorem log_queries_exact:
  assumes "fresh_ids gen s0" and "log_create gen hash None None s0 = (Inr i, s)" and "log_run gen hash i s es s'"
    and "sorted (map le_rev es)"
  shows "getFrom i (Some r) s' = Some (Inr (if es = [] \<or> le_rev (last es) = 0 then None else Some (context_of es),
           actions_in (filter (\<lambda>e. le_rev e > r) es)))
    \<and> getActionContext i s' = Some (Inr (if es = [] then None else Some (context_of es)))
    \<and> getInvalidationsFrom i (Some r) s' = Some (Inr (invalidations_in (rev (filter (\<lambda>e. le_rev e > r) es))))
    \<and> findInvalidation i a s' = Some (Inr (find (\<lambda>iv. iv_invalidatedActionId iv = a) (invalidations_in (rev es))))"
proof -
  have ok: "log_ok hash s' i es"
    using log_run_ok [OF assms(3)] log_create_ok [OF assms(1,2)] by auto
  show ?thesis
    using getFrom_log_ok [OF ok assms(4), of "Some r"] getActionContext_log_ok [OF ok]
      invalidations_log_ok [OF ok] assms(4) by (simp add: after_rev_def)
qed

definition sample_log :: "nat log_entry cstore" where
  "sample_log = snd (log_create letter_ids (\<lambda>_. ''h'') None None \<lparr>blocks = Map.empty, generated = 0\<rparr>)"

lemma sample_log_created:
  "log_create letter_ids (\<lambda>_. ''h'') None None \<lparr>blocks = Map.empty, generated = 0\<rparr> = (Inr ''bb'', sample_log)"
  by (simp add: sample_log_def log_create_def chain_create_def createTailBlock_def createBlockHeader_def letter_ids_def
      data_node_def numeral_2_eq_2)

lemma sample_run:
  "\<exists>e s'. log_run letter_ids (\<lambda>_. ''h'') ''bb'' sample_log [e] s' \<and> le_rev e = 1"
proof -
  have "log_ok (\<lambda>_. ''h'') sample_log ''bb'' []" "fresh_ids letter_ids sample_log"
    using log_create_ok [OF fresh_letter_ids sample_log_created] by simp_all
  from addActions_correct [OF this, of "[7]" "''t1''" 1 "\<lambda>_. [''bb'']" "[]" None 0]
  obtain e p s' where "addActions letter_ids (\<lambda>_. ''h'') ''bb'' [7] ''t1'' 1 (\<lambda>_. [''bb'']) [] None 0 sample_log
      = Some (Inr (e, p), s')" "le_rev e = 1" by blast
  then show ?thesis using run_actions [OF run_start] by fastforce
qed

theorem log_hash_chain_witness:
  "\<exists>e c s' h ns. append_all letter_ids (\<lambda>_. ''h'') ''bb'' [ActionsRq [7 :: nat] ''t1'' 1 (\<lambda>_. [''bb'']) [] None 0, CheckpointRq [] 2 5] sample_log
        = Some (Inr [e, c], s')
     \<and> chain_ok s' ''bb'' h ns \<and> contents ns = [e, c] \<and> e = action_entry_of [7] ''t1'' 1 [''bb''] [] None 0 \<and> c = checkpoint_entry_of [] 2 5"
proof -
  obtain es s' h ns where r: "append_all letter_ids (\<lambda>_. ''h'') ''bb'' [ActionsRq [7 :: nat] ''t1'' 1 (\<lambda>_. [''bb'']) [] None 0, CheckpointRq [] 2 5] sample_log
        = Some (Inr es, s')" "length es = 2" "chain_ok s' ''bb'' h ns" "contents ns = es"
      and st: "n < 2 \<Longrightarrow> stored_for ''bb'' (take n es) ([ActionsRq [7 :: nat] ''t1'' 1 (\<lambda>_. [''bb'']) [] None 0, CheckpointRq [] 2 5] ! n) (es ! n)" for n
    using log_hash_chain [OF fresh_letter_ids sample_log_created, of "[ActionsRq [7] ''t1'' 1 (\<lambda>_. [''bb'']) [] None 0, CheckpointRq [] 2 5]"]
    by (auto simp: numeral_2_eq_2)
  obtain e c where es: "es = [e, c]" using r(2) by (auto simp: numeral_2_eq_2 length_Suc_conv)
  show ?thesis using r st [of 0] st [of 1] by (auto simp: es stored_for_def)
qed

theorem log_queries_exact_witness:
  "\<exists>e s'. log_run letter_ids (\<lambda>_. ''h'') ''bb'' sample_log [e :: nat log_entry] s'
     \<and> getFrom ''bb'' (Some 0) s' = Some (Inr (Some (context_of [e]), actions_in [e]))"
proof -
  obtain e s' where r: "log_run letter_ids (\<lambda>_. ''h'') ''bb'' sample_log [e] s'" "le_rev e = 1" using sample_run by blast
  from log_queries_exact [OF fresh_letter_ids sample_log_created r(1), of 0] r show ?thesis by auto
qed

end
