(* ===== verification/BTree_Ops.thy ===== *)
theory BTree_Ops
  imports Block_Ops "HOL-Library.Monad_Syntax"
begin

text \<open>
  The B-tree: \<open>packages/db-core/src/btree\<close>. Leaves hold entries in key order; a branch holds child
  ids and, between them, the keys that part them.

  \<^item> The state of a tree is a \<open>tstore\<close>: its blocks, the root id the trunk holds, the number of ids
    generated so far (the ids are the parameter \<open>cfg_gen\<close>) and the version that invalidates paths.
  \<^item> The node objects a path holds are changed by \<open>apply\<close> together with the store's copy, so a
    path names its nodes and their content is read from the store.
  \<^item> A descent through the tree need not end in a malformed store, so the descents are partial
    functions: the outer \<open>None\<close> is a descent that does not return; a missing block is the error
    \<open>get\<close> throws.
  \<^item> The operations work in an atomic scope: an operation that throws leaves the tree as it was.
  \<^item> The read purposes of a point lookup are left out: they do not change what is returned.
\<close>

section \<open>Nodes, trees and paths\<close>

datatype ('k, 'e) tnode = TLeaf "'e list" | TBranch "'k list" "block_id list"

record ('k, 'e) tstore =
  t_nodes :: "block_id \<rightharpoonup> ('k, 'e) tnode"
  t_root :: block_id
  t_generated :: nat
  t_version :: nat

record ('k, 'e) btree =
  cfg_keyFromEntry :: "'e \<Rightarrow> 'k"
  cfg_compare :: "'k \<Rightarrow> 'k \<Rightarrow> int"
  cfg_nodeCapacity :: nat
  cfg_gen :: "nat \<Rightarrow> block_id"

definition NodeCapacity :: nat where
  "NodeCapacity = 64"

definition default_compare :: "'k :: linorder \<Rightarrow> 'k \<Rightarrow> int" where
  "default_compare a b = (if a < b then -1 else if a > b then 1 else 0)"

record tpath =
  tp_branches :: "(block_id \<times> nat) list"
  tp_leaf :: block_id
  tp_index :: nat
  tp_on :: bool
  tp_version :: nat

record 'k key_bound =
  kb_key :: 'k
  kb_inclusive :: bool

record 'k key_range =
  kr_first :: "'k key_bound option"
  kr_last :: "'k key_bound option"
  kr_isAscending :: bool

definition nth_opt :: "'a list \<Rightarrow> nat \<Rightarrow> 'a option" where
  "nth_opt xs i = (if i < length xs then Some (xs ! i) else None)"

definition splice_list :: "nat \<Rightarrow> nat \<Rightarrow> 'a list \<Rightarrow> 'a list \<Rightarrow> 'a list" where
  \<comment> \<open>\<open>xs.splice(i, d, ...vs)\<close> for an index that is not negative\<close>
  "splice_list i d vs xs = js_splice (int i) (int d) vs xs"

definition tget :: "('k, 'e) tstore \<Rightarrow> block_id option \<Rightarrow> error + block_id \<times> ('k, 'e) tnode" where
  \<comment> \<open>\<open>get(store, id)\<close> with the id of the block it returns; the id is \<open>None\<close> when it was read past the end of an array\<close>
  "tget s i = (case i of
      None \<Rightarrow> Inl (MissingBlockErr '''')
    | Some i \<Rightarrow> (case t_nodes s i of None \<Rightarrow> Inl (MissingBlockErr i) | Some n \<Rightarrow> Inr (i, n)))"

definition leafEntries :: "('k, 'e) tstore \<Rightarrow> block_id \<Rightarrow> 'e list" where
  "leafEntries s i = (case t_nodes s i of Some (TLeaf es) \<Rightarrow> es | _ \<Rightarrow> [])"

definition branchPartitions :: "('k, 'e) tstore \<Rightarrow> block_id \<Rightarrow> 'k list" where
  "branchPartitions s i = (case t_nodes s i of Some (TBranch ps ns) \<Rightarrow> ps | _ \<Rightarrow> [])"

definition branchNodes :: "('k, 'e) tstore \<Rightarrow> block_id \<Rightarrow> block_id list" where
  "branchNodes s i = (case t_nodes s i of Some (TBranch ps ns) \<Rightarrow> ns | _ \<Rightarrow> [])"

definition set_node :: "block_id \<Rightarrow> ('k, 'e) tnode \<Rightarrow> ('k, 'e) tstore \<Rightarrow> ('k, 'e) tstore" where
  "set_node i n s = s\<lparr>t_nodes := (t_nodes s)(i \<mapsto> n)\<rparr>"

definition delete_node :: "block_id \<Rightarrow> ('k, 'e) tstore \<Rightarrow> ('k, 'e) tstore" where
  "delete_node i s = s\<lparr>t_nodes := (t_nodes s)(i := None)\<rparr>"

definition spliceEntries :: "block_id \<Rightarrow> nat \<Rightarrow> nat \<Rightarrow> 'e list \<Rightarrow> ('k, 'e) tstore \<Rightarrow> ('k, 'e) tstore" where
  "spliceEntries i k d vs s = set_node i (TLeaf (splice_list k d vs (leafEntries s i))) s"

definition splicePartitions :: "block_id \<Rightarrow> nat \<Rightarrow> nat \<Rightarrow> 'k list \<Rightarrow> ('k, 'e) tstore \<Rightarrow> ('k, 'e) tstore" where
  "splicePartitions i k d vs s = set_node i (TBranch (splice_list k d vs (branchPartitions s i)) (branchNodes s i)) s"

definition spliceNodes :: "block_id \<Rightarrow> nat \<Rightarrow> nat \<Rightarrow> block_id list \<Rightarrow> ('k, 'e) tstore \<Rightarrow> ('k, 'e) tstore" where
  "spliceNodes i k d vs s = set_node i (TBranch (branchPartitions s i) (splice_list k d vs (branchNodes s i))) s"

definition newNode :: "('k, 'e) btree \<Rightarrow> ('k, 'e) tnode \<Rightarrow> ('k, 'e) tstore \<Rightarrow> block_id \<times> ('k, 'e) tstore" where
  \<comment> \<open>\<open>newLeafNode\<close> or \<open>newBranchNode\<close>, and the insertion of the node\<close>
  "newNode T n s = (let i = cfg_gen T (t_generated s) in (i, set_node i n (s\<lparr>t_generated := t_generated s + 1\<rparr>)))"

definition btree_create :: "('k, 'e) btree \<Rightarrow> ('k, 'e) tstore" where
  \<comment> \<open>\<open>BTree.create\<close> on an empty store\<close>
  "btree_create T = (case newNode T (TLeaf []) \<lparr>t_nodes = Map.empty, t_root = '''', t_generated = 0, t_version = 0\<rparr> of
     (i, s) \<Rightarrow> s\<lparr>t_root := i\<rparr>)"

section \<open>Results\<close>

definition obind :: "(error + 'a) option \<Rightarrow> ('a \<Rightarrow> (error + 'b) option) \<Rightarrow> (error + 'b) option" where
  "obind r f = Option.bind r (\<lambda>x. case x of Inl e \<Rightarrow> Some (Inl e) | Inr a \<Rightarrow> f a)"

lemma obind_simps [simp]:
  "obind None f = None"
  "obind (Some (Inl e)) f = Some (Inl e)"
  "obind (Some (Inr a)) f = f a"
  by (simp_all add: obind_def)

lemma obind_mono [partial_function_mono]:
  assumes "mono_option B" and "\<And>y. mono_option (\<lambda>f. C y f)"
  shows "mono_option (\<lambda>f. obind (B f) (\<lambda>y. C y f))"
  unfolding obind_def
proof (rule bind_mono [OF assms(1)])
  fix y
  show "mono_option (\<lambda>f. case y of Inl e \<Rightarrow> Some (Inl e) | Inr a \<Rightarrow> C a f)"
    by (cases y) (simp_all add: assms(2) option.const_mono)
qed

section \<open>Searching\<close>

function indexOfEntry_loop :: "('k, 'e) btree \<Rightarrow> 'e list \<Rightarrow> 'k \<Rightarrow> int \<Rightarrow> int \<Rightarrow> bool \<times> nat" where
  "indexOfEntry_loop T es key lo hi =
     (if lo \<le> hi then
        (let split = (lo + hi) div 2;
             result = cfg_compare T key (cfg_keyFromEntry T (es ! nat split))
         in if result = 0 then (True, nat split)
            else if result < 0 then indexOfEntry_loop T es key lo (split - 1)
            else indexOfEntry_loop T es key (split + 1) hi)
      else (False, nat lo))"
  by pat_completeness auto
termination
  by (relation "measure (\<lambda>(T, es, key, lo, hi). nat (hi - lo + 1))") auto

definition indexOfEntry :: "('k, 'e) btree \<Rightarrow> 'e list \<Rightarrow> 'k \<Rightarrow> bool \<times> nat" where
  "indexOfEntry T es key = indexOfEntry_loop T es key 0 (int (length es) - 1)"

function indexOfKey_loop :: "('k, 'e) btree \<Rightarrow> 'k list \<Rightarrow> 'k \<Rightarrow> int \<Rightarrow> int \<Rightarrow> nat" where
  "indexOfKey_loop T ks key lo hi =
     (if lo \<le> hi then
        (let split = (lo + hi) div 2;
             result = cfg_compare T key (ks ! nat split)
         in if result = 0 then nat (split + 1)
            else if result < 0 then indexOfKey_loop T ks key lo (split - 1)
            else indexOfKey_loop T ks key (split + 1) hi)
      else nat lo)"
  by pat_completeness auto
termination
  by (relation "measure (\<lambda>(T, ks, key, lo, hi). nat (hi - lo + 1))") auto

definition indexOfKey :: "('k, 'e) btree \<Rightarrow> 'k list \<Rightarrow> 'k \<Rightarrow> nat" where
  "indexOfKey T ks key = indexOfKey_loop T ks key 0 (int (length ks) - 1)"

partial_function (option) getPath :: "('k, 'e) btree \<Rightarrow> ('k, 'e) tstore \<Rightarrow> block_id option \<Rightarrow> 'k \<Rightarrow> (error + tpath) option" where
  "getPath T s i key =
     (case tget s i of
        Inl e \<Rightarrow> Some (Inl e)
      | Inr (j, TLeaf es) \<Rightarrow>
          (case indexOfEntry T es key of
             (on, index) \<Rightarrow> Some (Inr \<lparr>tp_branches = [], tp_leaf = j, tp_index = index, tp_on = on, tp_version = t_version s\<rparr>))
      | Inr (j, TBranch ps ns) \<Rightarrow>
          (let index = indexOfKey T ps key
           in obind (getPath T s (nth_opt ns index) key)
                (\<lambda>path. Some (Inr (path\<lparr>tp_branches := (j, index) # tp_branches path\<rparr>)))))"

definition btree_find :: "('k, 'e) btree \<Rightarrow> 'k \<Rightarrow> ('k, 'e) tstore \<Rightarrow> (error + tpath) option" where
  "btree_find T key s = getPath T s (Some (t_root s)) key"

definition validatePath :: "tpath \<Rightarrow> ('k, 'e) tstore \<Rightarrow> error + unit" where
  "validatePath path s =
     (if tp_version path = t_version s then Inr () else Inl (Err ''Path is invalid due to mutation of the tree''))"

definition invalidatePaths :: "('k, 'e) tstore \<Rightarrow> ('k, 'e) tstore" where
  "invalidatePaths s = s\<lparr>t_version := t_version s + 1\<rparr>"

definition getEntry :: "tpath \<Rightarrow> ('k, 'e) tstore \<Rightarrow> 'e option" where
  "getEntry path s = nth_opt (leafEntries s (tp_leaf path)) (tp_index path)"

definition btree_at :: "tpath \<Rightarrow> ('k, 'e) tstore \<Rightarrow> error + 'e option" where
  "btree_at path s = ebind (validatePath path s) (\<lambda>_. Inr (if tp_on path then getEntry path s else None))"

definition btree_get :: "('k, 'e) btree \<Rightarrow> 'k \<Rightarrow> ('k, 'e) tstore \<Rightarrow> (error + 'e option) option" where
  "btree_get T key s = obind (btree_find T key s) (\<lambda>path. Some (btree_at path s))"

section \<open>Moving along the tree\<close>

partial_function (option) getFirst :: "('k, 'e) tstore \<Rightarrow> block_id option \<Rightarrow> (error + tpath) option" where
  "getFirst s i =
     (case tget s i of
        Inl e \<Rightarrow> Some (Inl e)
      | Inr (j, TLeaf es) \<Rightarrow>
          Some (Inr \<lparr>tp_branches = [], tp_leaf = j, tp_index = 0, tp_on = (es \<noteq> []), tp_version = t_version s\<rparr>)
      | Inr (j, TBranch ps ns) \<Rightarrow>
          obind (getFirst s (nth_opt ns 0)) (\<lambda>path. Some (Inr (path\<lparr>tp_branches := (j, 0) # tp_branches path\<rparr>))))"

partial_function (option) getLast :: "('k, 'e) tstore \<Rightarrow> block_id option \<Rightarrow> (error + tpath) option" where
  "getLast s i =
     (case tget s i of
        Inl e \<Rightarrow> Some (Inl e)
      | Inr (j, TLeaf es) \<Rightarrow>
          Some (Inr \<lparr>tp_branches = [], tp_leaf = j, tp_index = length es - 1, tp_on = (es \<noteq> []), tp_version = t_version s\<rparr>)
      | Inr (j, TBranch ps ns) \<Rightarrow>
          obind (getLast s (nth_opt ns (length ns - 1)))
            (\<lambda>path. Some (Inr (path\<lparr>tp_branches := (j, length ns - 1) # tp_branches path\<rparr>))))"

definition btree_first :: "('k, 'e) tstore \<Rightarrow> (error + tpath) option" where
  "btree_first s = getFirst s (Some (t_root s))"

definition btree_last :: "('k, 'e) tstore \<Rightarrow> (error + tpath) option" where
  "btree_last s = getLast s (Some (t_root s))"

partial_function (option) moveToFirst :: "('k, 'e) tstore \<Rightarrow> block_id option \<Rightarrow> tpath \<Rightarrow> (error + tpath) option" where
  "moveToFirst s i path =
     (case tget s i of
        Inl e \<Rightarrow> Some (Inl e)
      | Inr (j, TLeaf es) \<Rightarrow> Some (Inr (path\<lparr>tp_leaf := j, tp_index := 0, tp_on := (es \<noteq> [])\<rparr>))
      | Inr (j, TBranch ps ns) \<Rightarrow> moveToFirst s (nth_opt ns 0) (path\<lparr>tp_branches := tp_branches path @ [(j, 0)]\<rparr>))"

partial_function (option) moveToLast :: "('k, 'e) tstore \<Rightarrow> block_id option \<Rightarrow> tpath \<Rightarrow> (error + tpath) option" where
  "moveToLast s i path =
     (case tget s i of
        Inl e \<Rightarrow> Some (Inl e)
      | Inr (j, TLeaf es) \<Rightarrow> Some (Inr (path\<lparr>tp_leaf := j, tp_on := (es \<noteq> []), tp_index := length es - 1\<rparr>))
      | Inr (j, TBranch ps ns) \<Rightarrow>
          moveToLast s (nth_opt ns (length ps)) (path\<lparr>tp_branches := tp_branches path @ [(j, length ps)]\<rparr>))"

definition advanceLeaf :: "('k, 'e) tstore \<Rightarrow> tpath \<Rightarrow> (error + tpath) option" where
  \<comment> \<open>the part of \<open>internalNext\<close> that leaves the leaf\<close>
  "advanceLeaf s path =
     (case dropWhile (\<lambda>(b, k). k = length (branchPartitions s b)) (rev (tp_branches path)) of
        [] \<Rightarrow> Some (Inr (path\<lparr>tp_index := length (leafEntries s (tp_leaf path)), tp_on := False\<rparr>))
      | (b, k) # rest \<Rightarrow>
          moveToFirst s (nth_opt (branchNodes s b) (k + 1)) (path\<lparr>tp_branches := rev rest @ [(b, k + 1)]\<rparr>))"

definition internalNext :: "('k, 'e) tstore \<Rightarrow> tpath \<Rightarrow> (error + tpath) option" where
  "internalNext s path =
     (let n = length (leafEntries s (tp_leaf path))
      in if \<not> tp_on path then
           (let on = (list_all (\<lambda>(b, k). k < length (branchNodes s b)) (tp_branches path) \<and> tp_index path < n);
                path' = path\<lparr>tp_on := on\<rparr>
            in if on \<or> tp_index path < n then Some (Inr path') else advanceLeaf s path')
         else if tp_index path + 1 < n then Some (Inr (path\<lparr>tp_index := tp_index path + 1, tp_on := True\<rparr>))
         else advanceLeaf s path)"

definition internalPrior :: "('k, 'e) tstore \<Rightarrow> tpath \<Rightarrow> (error + tpath) option" where
  "internalPrior s path =
     obind (Some (validatePath path s)) (\<lambda>_.
       if tp_index path = 0 then
         (case dropWhile (\<lambda>(b, k). k = 0) (rev (tp_branches path)) of
            [] \<Rightarrow> Some (Inr (path\<lparr>tp_index := 0, tp_on := False\<rparr>))
          | (b, k) # rest \<Rightarrow>
              moveToLast s (nth_opt (branchNodes s b) (k - 1)) (path\<lparr>tp_branches := rev rest @ [(b, k - 1)]\<rparr>))
       else Some (Inr (path\<lparr>tp_index := tp_index path - 1, tp_on := True\<rparr>)))"

definition moveNext :: "('k, 'e) tstore \<Rightarrow> tpath \<Rightarrow> (error + tpath) option" where
  "moveNext s path = obind (Some (validatePath path s)) (\<lambda>_. internalNext s path)"

definition movePrior :: "('k, 'e) tstore \<Rightarrow> tpath \<Rightarrow> (error + tpath) option" where
  "movePrior s path = obind (Some (validatePath path s)) (\<lambda>_. internalPrior s path)"

partial_function (option) ascending_loop :: "('k, 'e) tstore \<Rightarrow> tpath \<Rightarrow> (error + tpath list) option" where
  \<comment> \<open>the paths \<open>internalAscending\<close> yields when it is run to its end\<close>
  "ascending_loop s path =
     (if tp_on path then
        obind (moveNext s path) (\<lambda>path'. obind (ascending_loop s path') (\<lambda>ps. Some (Inr (path # ps))))
      else Some (Inr []))"

partial_function (option) descending_loop :: "('k, 'e) tstore \<Rightarrow> tpath \<Rightarrow> (error + tpath list) option" where
  "descending_loop s path =
     (if tp_on path then
        obind (movePrior s path) (\<lambda>path'. obind (descending_loop s path') (\<lambda>ps. Some (Inr (path # ps))))
      else Some (Inr []))"

definition btree_ascending :: "('k, 'e) tstore \<Rightarrow> tpath \<Rightarrow> (error + tpath list) option" where
  "btree_ascending s path = obind (Some (validatePath path s)) (\<lambda>_. ascending_loop s path)"

definition btree_descending :: "('k, 'e) tstore \<Rightarrow> tpath \<Rightarrow> (error + tpath list) option" where
  "btree_descending s path = obind (Some (validatePath path s)) (\<lambda>_. descending_loop s path)"

partial_function (option) getCount_ascending :: "('k, 'e) tstore \<Rightarrow> nat \<Rightarrow> tpath \<Rightarrow> (error + nat) option" where
  "getCount_ascending s result path =
     (if tp_on path then
        (let n = length (leafEntries s (tp_leaf path))
         in obind (internalNext s (path\<lparr>tp_index := n - 1\<rparr>))
              (\<lambda>path'. getCount_ascending s (result + (n - tp_index path)) path'))
      else Some (Inr result))"

partial_function (option) getCount_descending :: "('k, 'e) tstore \<Rightarrow> nat \<Rightarrow> tpath \<Rightarrow> (error + nat) option" where
  "getCount_descending s result path =
     (if tp_on path then
        obind (internalPrior s (path\<lparr>tp_index := 0\<rparr>))
          (\<lambda>path'. getCount_descending s (result + tp_index path + 1) path')
      else Some (Inr result))"

definition btree_getCount :: "(tpath \<times> bool option) option \<Rightarrow> ('k, 'e) tstore \<Rightarrow> (error + nat) option" where
  \<comment> \<open>\<open>from?: { path, ascending? }\<close>\<close>
  "btree_getCount from s =
     obind (case from of Some (path, _) \<Rightarrow> Some (Inr path) | None \<Rightarrow> btree_first s) (\<lambda>path.
       if (case from of Some (_, Some ascending) \<Rightarrow> ascending | _ \<Rightarrow> True)
       then getCount_ascending s 0 path else getCount_descending s 0 path)"

section \<open>Inserting\<close>

record 'k tsplit =
  sp_key :: 'k
  sp_right :: block_id
  sp_indexDelta :: nat

definition leafInsert :: "('k, 'e) btree \<Rightarrow> 'e \<Rightarrow> tpath \<Rightarrow> ('k, 'e) tstore
    \<Rightarrow> error + 'k tsplit option \<times> tpath \<times> ('k, 'e) tstore" where
  "leafInsert T entry path s =
     (let leaf = tp_leaf path; index = tp_index path; es = leafEntries s leaf
      in if length es < cfg_nodeCapacity T then Inr (None, path, spliceEntries leaf index 0 [entry] s)
         else
           (let midIndex = (length es + 1) div 2;
                newEntries0 = drop midIndex es;
                newEntries = (if index \<ge> midIndex then splice_list (index - midIndex) 0 [entry] newEntries0 else newEntries0);
                (newLeaf, s1) = newNode T (TLeaf newEntries) s;
                s2 = spliceEntries leaf midIndex (length es - midIndex) [] s1;
                s3 = (if index < midIndex then spliceEntries leaf index 0 [entry] s2 else s2);
                path' = (if index < midIndex then path else path\<lparr>tp_leaf := newLeaf, tp_index := index - midIndex\<rparr>)
            in case newEntries of
                 [] \<Rightarrow> Inl (TypeErr ''keyFromEntry'')
               | e # _ \<Rightarrow>
                   Inr (Some \<lparr>sp_key = cfg_keyFromEntry T e, sp_right = newLeaf,
                              sp_indexDelta = (if index < midIndex then 0 else 1)\<rparr>, path', s3)))"

definition branchInsert :: "('k, 'e) btree \<Rightarrow> nat \<Rightarrow> 'k tsplit \<Rightarrow> tpath \<Rightarrow> ('k, 'e) tstore
    \<Rightarrow> 'k tsplit option \<times> tpath \<times> ('k, 'e) tstore" where
  "branchInsert T branchIndex split path s =
     (let (node, splitIndex) = tp_branches path ! branchIndex;
          index1 = splitIndex + sp_indexDelta split;
          ns = branchNodes s node; ps = branchPartitions s node
      in if length ns < cfg_nodeCapacity T then
           (None, path\<lparr>tp_branches := (tp_branches path)[branchIndex := (node, index1)]\<rparr>,
            spliceNodes node (splitIndex + 1) 0 [sp_right split] (splicePartitions node splitIndex 0 [sp_key split] s))
         else
           (let midIndex = (length ns + 1) div 2;
                delta = (if index1 < midIndex then 0 else 1);
                index2 = (if delta = 1 then index1 - midIndex else index1);
                newPartitions = (if delta = 1 then splice_list index2 0 [sp_key split] (drop midIndex ps) else drop midIndex ps);
                newNodes = (if delta = 1 then splice_list (index2 + 1) 0 [sp_right split] (drop midIndex ns) else drop midIndex ns);
                (newBranch, s1) = newNode T (TBranch newPartitions newNodes) s;
                newPartition = ps ! (midIndex - 1);
                s2 = splicePartitions node (midIndex - 1) (length newPartitions + 1) [] s1;
                s3 = spliceNodes node midIndex (length newNodes) [] s2;
                s4 = (if index2 < midIndex
                      then spliceNodes node (splitIndex + 1) 0 [sp_right split] (splicePartitions node splitIndex 0 [sp_key split] s3)
                      else s3)
            in (Some \<lparr>sp_key = newPartition, sp_right = newBranch, sp_indexDelta = delta\<rparr>,
                path\<lparr>tp_branches := (tp_branches path)[branchIndex := (node, index2)]\<rparr>, s4)))"

fun branchInsert_loop :: "('k, 'e) btree \<Rightarrow> nat \<Rightarrow> 'k tsplit \<Rightarrow> tpath \<Rightarrow> ('k, 'e) tstore
    \<Rightarrow> 'k tsplit option \<times> tpath \<times> ('k, 'e) tstore" where
  \<comment> \<open>\<open>while (split && branchIndex >= 0)\<close>, with \<open>branchIndex + 1\<close> branches left\<close>
  "branchInsert_loop T 0 split path s = (Some split, path, s)"
| "branchInsert_loop T (Suc branchIndex) split path s =
     (case branchInsert T branchIndex split path s of
        (None, path', s') \<Rightarrow> (None, path', s')
      | (Some split', path', s') \<Rightarrow> branchInsert_loop T branchIndex split' path' s')"

definition internalInsertAt :: "('k, 'e) btree \<Rightarrow> tpath \<Rightarrow> 'e \<Rightarrow> ('k, 'e) tstore \<Rightarrow> error + tpath \<times> ('k, 'e) tstore" where
  "internalInsertAt T path entry s =
     ebind (leafInsert T entry path s) (\<lambda>(split, path1, s1).
       case split of
         None \<Rightarrow> Inr (path1, s1)
       | Some split \<Rightarrow>
           (case branchInsert_loop T (length (tp_branches path1)) split path1 s1 of
              (None, path2, s2) \<Rightarrow> Inr (path2, s2)
            | (Some split', path2, s2) \<Rightarrow>
                (case newNode T (TBranch [sp_key split'] [t_root s2, sp_right split']) s2 of
                   (newBranch, s3) \<Rightarrow>
                     Inr (path2\<lparr>tp_branches := (newBranch, sp_indexDelta split') # tp_branches path2\<rparr>,
                          s3\<lparr>t_root := newBranch\<rparr>))))"

definition internalInsert :: "('k, 'e) btree \<Rightarrow> 'e \<Rightarrow> ('k, 'e) tstore \<Rightarrow> (error + tpath \<times> ('k, 'e) tstore) option" where
  "internalInsert T entry s =
     obind (btree_find T (cfg_keyFromEntry T entry) s) (\<lambda>path.
       if tp_on path then Some (Inr (path\<lparr>tp_on := False\<rparr>, s))
       else Some (ebind (internalInsertAt T path entry s) (\<lambda>(path', s'). Inr (path'\<lparr>tp_on := True\<rparr>, s'))))"

definition bump_version :: "tpath \<Rightarrow> ('k, 'e) tstore \<Rightarrow> tpath \<times> ('k, 'e) tstore" where
  \<comment> \<open>\<open>path.version = ++this._version\<close>\<close>
  "bump_version path s = (path\<lparr>tp_version := t_version s + 1\<rparr>, s\<lparr>t_version := t_version s + 1\<rparr>)"

definition btree_insert :: "('k, 'e) btree \<Rightarrow> 'e \<Rightarrow> ('k, 'e) tstore \<Rightarrow> (error + tpath \<times> ('k, 'e) tstore) option" where
  "btree_insert T entry s =
     obind (internalInsert T entry s) (\<lambda>(path, s').
       Some (Inr (if tp_on path then bump_version path s' else (path, s'))))"

definition updateEntry :: "tpath \<Rightarrow> 'e \<Rightarrow> ('k, 'e) tstore \<Rightarrow> ('k, 'e) tstore" where
  "updateEntry path entry s = spliceEntries (tp_leaf path) (tp_index path) 1 [entry] s"

definition btree_upsert :: "('k, 'e) btree \<Rightarrow> 'e \<Rightarrow> ('k, 'e) tstore \<Rightarrow> (error + tpath \<times> ('k, 'e) tstore) option" where
  "btree_upsert T entry s =
     obind (btree_find T (cfg_keyFromEntry T entry) s) (\<lambda>path.
       Some (ebind (if tp_on path then Inr (path, updateEntry path entry s) else internalInsertAt T path entry s)
               (\<lambda>(path', s'). Inr (bump_version path' s'))))"

section \<open>Deleting\<close>

fun updatePartition :: "nat \<Rightarrow> tpath \<Rightarrow> nat \<Rightarrow> 'k \<Rightarrow> ('k, 'e) tstore \<Rightarrow> ('k, 'e) tstore" where
  "updatePartition nodeIndex path 0 newKey s =
     (if nodeIndex > 0 then splicePartitions (fst (tp_branches path ! 0)) (nodeIndex - 1) 1 [newKey] s else s)"
| "updatePartition nodeIndex path (Suc depth) newKey s =
     (if nodeIndex > 0 then splicePartitions (fst (tp_branches path ! Suc depth)) (nodeIndex - 1) 1 [newKey] s
      else updatePartition (snd (tp_branches path ! depth)) path depth newKey s)"

definition insertPartition :: "block_id \<Rightarrow> nat \<Rightarrow> 'k \<Rightarrow> block_id \<Rightarrow> nat \<Rightarrow> ('k, 'e) tstore \<Rightarrow> ('k, 'e) tstore" where
  "insertPartition branch index key node nodeOffset s =
     spliceNodes branch (index + nodeOffset) 0 [node] (splicePartitions branch index 0 [key] s)"

definition deletePartition :: "block_id \<Rightarrow> nat \<Rightarrow> nat \<Rightarrow> ('k, 'e) tstore \<Rightarrow> ('k, 'e) tstore" where
  "deletePartition branch index nodeOffset s =
     spliceNodes branch (index + nodeOffset) 1 [] (splicePartitions branch index 1 [] s)"

definition sibling :: "('k, 'e) tstore \<Rightarrow> block_id option \<Rightarrow> error + block_id option" where
  \<comment> \<open>\<open>id ? await get(store, id) : undefined\<close>\<close>
  "sibling s i = (case i of None \<Rightarrow> Inr None
     | Some i \<Rightarrow> (case t_nodes s i of None \<Rightarrow> Inl (MissingBlockErr i) | Some _ \<Rightarrow> Inr (Some i)))"

definition left_of :: "block_id list \<Rightarrow> nat \<Rightarrow> block_id option" where
  "left_of ns k = (if k = 0 then None else nth_opt ns (k - 1))"

datatype ('k, 'e) rebalanced = Finished tpath "('k, 'e) tstore" | Merged tpath "('k, 'e) tstore"
  \<comment> \<open>\<open>Merged\<close>: the parent lost a child and is rebalanced next\<close>

definition rebalanceBranch_merge :: "('k, 'e) btree \<Rightarrow> tpath \<Rightarrow> nat \<Rightarrow> block_id option \<Rightarrow> block_id option
    \<Rightarrow> ('k, 'e) tstore \<Rightarrow> ('k, 'e) rebalanced" where
  \<comment> \<open>the two merges, at \<open>depth\<close> at least 1\<close>
  "rebalanceBranch_merge T path depth rightSib leftSib s =
     (let (branch, bIndex) = tp_branches path ! depth; cap = cfg_nodeCapacity T;
          (pNode, pIndex) = tp_branches path ! (depth - 1);
          mergeLeft = (case leftSib of
             Some l \<Rightarrow>
               if length (branchNodes s l) + length (branchNodes s branch) \<le> cap then
                 (let leftLen = length (branchNodes s l);
                      pKey = branchPartitions s pNode ! (pIndex - 1);
                      s1 = deletePartition pNode (pIndex - 1) 1 s;
                      s2 = splicePartitions l (length (branchPartitions s1 l)) 0 [pKey] s1;
                      s3 = splicePartitions l (length (branchPartitions s2 l)) 0 (branchPartitions s2 branch) s2;
                      s4 = spliceNodes l leftLen 0 (branchNodes s3 branch) s3
                  in Merged (path\<lparr>tp_branches := (tp_branches path)[depth := (l, bIndex + leftLen)]\<rparr>) (delete_node branch s4))
               else Finished path s
           | None \<Rightarrow> Finished path s)
      in case rightSib of
           Some r \<Rightarrow>
             if length (branchNodes s r) + length (branchNodes s branch) \<le> cap then
               (let pKey = branchPartitions s pNode ! pIndex;
                    s1 = deletePartition pNode pIndex 1 s;
                    s2 = splicePartitions branch (length (branchPartitions s1 branch)) 0 [pKey] s1;
                    s3 = splicePartitions branch (length (branchPartitions s2 branch)) 0 (branchPartitions s2 r) s2;
                    s4 = spliceNodes branch (length (branchNodes s3 branch)) 0 (branchNodes s3 r) s3
                in Merged path (delete_node r s4))
             else mergeLeft
         | None \<Rightarrow> mergeLeft)"

definition rebalanceBranch_step :: "('k, 'e) btree \<Rightarrow> tpath \<Rightarrow> nat \<Rightarrow> ('k, 'e) tstore \<Rightarrow> error + ('k, 'e) rebalanced" where
  \<comment> \<open>\<open>rebalanceBranch\<close> at a depth of at least 1, up to the recursive call\<close>
  "rebalanceBranch_step T path depth s =
     (let (branch, bIndex) = tp_branches path ! depth; half = cfg_nodeCapacity T div 2;
          (pNode, pIndex) = tp_branches path ! (depth - 1);
          pKeys = branchPartitions s pNode
      in if length (branchNodes s branch) \<ge> half then Inr (Finished path s)
         else ebind (sibling s (nth_opt (branchNodes s pNode) (pIndex + 1))) (\<lambda>rightSib.
           if (case rightSib of Some r \<Rightarrow> length (branchNodes s r) > half | None \<Rightarrow> False) then
             (case rightSib of
                None \<Rightarrow> Inr (Finished path s)
              | Some r \<Rightarrow>
                  (let node = branchNodes s r ! 0;
                       rightKey = branchPartitions s r ! 0;
                       s1 = insertPartition branch (length (branchPartitions s branch)) (pKeys ! pIndex) node 1 s;
                       s2 = deletePartition r 0 0 s1
                   in Inr (Finished path (updatePartition (pIndex + 1) path (depth - 1) rightKey s2))))
           else ebind (sibling s (left_of (branchNodes s pNode) pIndex)) (\<lambda>leftSib.
             if (case leftSib of Some l \<Rightarrow> length (branchNodes s l) > half | None \<Rightarrow> False) then
               (case leftSib of
                  None \<Rightarrow> Inr (Finished path s)
                | Some l \<Rightarrow>
                    (let node = branchNodes s l ! (length (branchNodes s l) - 1);
                         pKey = branchPartitions s l ! (length (branchPartitions s l) - 1);
                         s1 = insertPartition branch 0 (pKeys ! (pIndex - 1)) node 0 s;
                         s2 = deletePartition l (length (branchPartitions s1 l) - 1) 1 s1;
                         path' = path\<lparr>tp_branches := (tp_branches path)[depth := (branch, bIndex + 1)]\<rparr>
                     in Inr (Finished path' (updatePartition pIndex path' (depth - 1) pKey s2))))
             else Inr (rebalanceBranch_merge T path depth rightSib leftSib s))))"

fun rebalanceBranch :: "('k, 'e) btree \<Rightarrow> tpath \<Rightarrow> nat \<Rightarrow> ('k, 'e) tstore
    \<Rightarrow> error + block_id option \<times> tpath \<times> ('k, 'e) tstore" where
  \<comment> \<open>the new root, if there is one\<close>
  "rebalanceBranch T path 0 s =
     (if branchPartitions s (fst (tp_branches path ! 0)) = [] then
        Inr (Some (case nth_opt (tp_branches path) 1 of Some (b, _) \<Rightarrow> b | None \<Rightarrow> tp_leaf path), path, s)
      else Inr (None, path, s))"
| "rebalanceBranch T path (Suc depth) s =
     ebind (rebalanceBranch_step T path (Suc depth) s) (\<lambda>r.
       case r of
         Finished path' s' \<Rightarrow> Inr (None, path', s')
       | Merged path' s' \<Rightarrow> rebalanceBranch T path' depth s')"

definition rebalanceLeaf_merge :: "('k, 'e) btree \<Rightarrow> tpath \<Rightarrow> nat \<Rightarrow> block_id option \<Rightarrow> block_id option
    \<Rightarrow> ('k, 'e) tstore \<Rightarrow> error + ('k, 'e) rebalanced" where
  "rebalanceLeaf_merge T path depth rightSib leftSib s =
     (let leaf = tp_leaf path; cap = cfg_nodeCapacity T;
          (pNode, pIndex) = tp_branches path ! (depth - 1);
          mergeLeft = (case leftSib of
             Some l \<Rightarrow>
               if length (leafEntries s l) + length (leafEntries s leaf) \<le> cap then
                 (let path' = path\<lparr>tp_leaf := l, tp_index := tp_index path + length (leafEntries s l)\<rparr>;
                      s1 = spliceEntries l (length (leafEntries s l)) 0 (leafEntries s leaf) s;
                      s2 = deletePartition pNode (pIndex - 1) 1 s1
                  in Inr (Merged path' (delete_node leaf s2)))
               else Inr (Finished path s)
           | None \<Rightarrow> Inr (Finished path s))
      in case rightSib of
           Some r \<Rightarrow>
             if length (leafEntries s r) + length (leafEntries s leaf) \<le> cap then
               (let s1 = spliceEntries leaf (length (leafEntries s leaf)) 0 (leafEntries s r) s;
                    s2 = deletePartition pNode pIndex 1 s1
                in if pIndex = 0 then
                     (case leafEntries s2 leaf of
                        [] \<Rightarrow> Inl (TypeErr ''keyFromEntry'')
                      | e # _ \<Rightarrow>
                          Inr (Merged path (delete_node r (updatePartition pIndex path (depth - 1) (cfg_keyFromEntry T e) s2))))
                   else Inr (Merged path (delete_node r s2)))
             else mergeLeft
         | None \<Rightarrow> mergeLeft)"

definition rebalanceLeaf_step :: "('k, 'e) btree \<Rightarrow> tpath \<Rightarrow> nat \<Rightarrow> ('k, 'e) tstore \<Rightarrow> error + ('k, 'e) rebalanced" where
  "rebalanceLeaf_step T path depth s =
     (let leaf = tp_leaf path; half = cfg_nodeCapacity T div 2
      in if depth = 0 \<or> length (leafEntries s leaf) \<ge> half then Inr (Finished path s)
         else
           (let (pNode, pIndex) = tp_branches path ! (depth - 1)
            in ebind (sibling s (nth_opt (branchNodes s pNode) (pIndex + 1))) (\<lambda>rightSib.
                 if (case rightSib of Some r \<Rightarrow> length (leafEntries s r) > half | None \<Rightarrow> False) then
                   (case rightSib of
                      None \<Rightarrow> Inr (Finished path s)
                    | Some r \<Rightarrow>
                        (let entry = leafEntries s r ! 0;
                             s1 = spliceEntries r 0 1 [] s;
                             s2 = spliceEntries leaf (length (leafEntries s1 leaf)) 0 [entry] s1
                         in case leafEntries s2 r of
                              [] \<Rightarrow> Inl (TypeErr ''keyFromEntry'')
                            | e # _ \<Rightarrow>
                                Inr (Finished path (updatePartition (pIndex + 1) path (depth - 1) (cfg_keyFromEntry T e) s2))))
                 else ebind (sibling s (left_of (branchNodes s pNode) pIndex)) (\<lambda>leftSib.
                   if (case leftSib of Some l \<Rightarrow> length (leafEntries s l) > half | None \<Rightarrow> False) then
                     (case leftSib of
                        None \<Rightarrow> Inr (Finished path s)
                      | Some l \<Rightarrow>
                          (let n = length (leafEntries s l);
                               entry = leafEntries s l ! (n - 1);
                               s1 = spliceEntries l (n - 1) 1 [] s;
                               s2 = spliceEntries leaf 0 0 [entry] s1;
                               s3 = updatePartition pIndex path (depth - 1) (cfg_keyFromEntry T entry) s2
                           in Inr (Finished (path\<lparr>tp_index := tp_index path + 1\<rparr>) s3)))
                   else rebalanceLeaf_merge T path depth rightSib leftSib s))))"

definition rebalanceLeaf :: "('k, 'e) btree \<Rightarrow> tpath \<Rightarrow> nat \<Rightarrow> ('k, 'e) tstore
    \<Rightarrow> error + block_id option \<times> tpath \<times> ('k, 'e) tstore" where
  "rebalanceLeaf T path depth s =
     ebind (rebalanceLeaf_step T path depth s) (\<lambda>r.
       case r of
         Finished path' s' \<Rightarrow> Inr (None, path', s')
       | Merged path' s' \<Rightarrow> rebalanceBranch T path' (depth - 1) s')"

definition internalDelete :: "('k, 'e) btree \<Rightarrow> tpath \<Rightarrow> ('k, 'e) tstore \<Rightarrow> error + bool \<times> tpath \<times> ('k, 'e) tstore" where
  "internalDelete T path s =
     (if \<not> tp_on path then Inr (False, path, s)
      else
        (let s1 = spliceEntries (tp_leaf path) (tp_index path) 1 [] s;
             depth = length (tp_branches path)
         in if depth = 0 then Inr (True, path\<lparr>tp_on := False\<rparr>, s1)
            else
              (let s2 = (case leafEntries s1 (tp_leaf path) of
                           e # _ \<Rightarrow>
                             (if tp_index path = 0
                              then updatePartition (snd (tp_branches path ! (depth - 1))) path (depth - 1) (cfg_keyFromEntry T e) s1
                              else s1)
                         | [] \<Rightarrow> s1)
               in ebind (rebalanceLeaf T path depth s2) (\<lambda>(newRoot, path', s3).
                    Inr (True, path'\<lparr>tp_on := False\<rparr>,
                         case newRoot of Some i \<Rightarrow> s3\<lparr>t_root := i\<rparr> | None \<Rightarrow> s3)))))"

definition btree_deleteAt :: "('k, 'e) btree \<Rightarrow> tpath \<Rightarrow> ('k, 'e) tstore \<Rightarrow> error + bool \<times> ('k, 'e) tstore" where
  "btree_deleteAt T path s =
     ebind (validatePath path s) (\<lambda>_.
       ebind (internalDelete T path s) (\<lambda>(result, path', s').
         Inr (result, if result then invalidatePaths s' else s')))"

section \<open>Updating and merging\<close>

definition internalUpdate :: "('k, 'e) btree \<Rightarrow> tpath \<Rightarrow> 'e \<Rightarrow> ('k, 'e) tstore
    \<Rightarrow> (error + (tpath \<times> bool) \<times> ('k, 'e) tstore) option" where
  "internalUpdate T path newEntry s =
     (if \<not> tp_on path then Some (Inr ((path, True), s))
      else (case getEntry path s of
              None \<Rightarrow> Some (Inl (TypeErr ''keyFromEntry''))
            | Some e \<Rightarrow>
                (let oldKey = cfg_keyFromEntry T e; newKey = cfg_keyFromEntry T newEntry
                 in if cfg_compare T oldKey newKey \<noteq> 0 then
                      obind (internalInsert T newEntry s) (\<lambda>(newPath, s1).
                        if tp_on newPath then
                          obind (btree_find T oldKey s1) (\<lambda>oldPath.
                            obind (Some (internalDelete T oldPath s1)) (\<lambda>(_, _, s2).
                              obind (btree_find T newKey s2) (\<lambda>newPath'. Some (Inr ((newPath', False), s2)))))
                        else Some (Inr ((newPath, False), s1)))
                    else Some (Inr ((path, True), updateEntry path newEntry s)))))"

definition btree_updateAt :: "('k, 'e) btree \<Rightarrow> tpath \<Rightarrow> 'e \<Rightarrow> ('k, 'e) tstore
    \<Rightarrow> (error + (tpath \<times> bool) \<times> ('k, 'e) tstore) option" where
  "btree_updateAt T path newEntry s =
     obind (Some (validatePath path s)) (\<lambda>_.
       obind (internalUpdate T path newEntry s) (\<lambda>((path', wasUpdate), s').
         Some (Inr (if tp_on path' then (case bump_version path' s' of (p, s'') \<Rightarrow> ((p, wasUpdate), s''))
                    else ((path', wasUpdate), s')))))"

definition btree_merge :: "('k, 'e) btree \<Rightarrow> 'e \<Rightarrow> ('e \<Rightarrow> 'e) \<Rightarrow> ('k, 'e) tstore
    \<Rightarrow> (error + (tpath \<times> bool) \<times> ('k, 'e) tstore) option" where
  "btree_merge T newEntry getUpdated s =
     obind (btree_find T (cfg_keyFromEntry T newEntry) s) (\<lambda>path.
       if tp_on path then
         (case getEntry path s of
            None \<Rightarrow> Some (Inl (TypeErr ''getUpdated''))
          | Some e \<Rightarrow> btree_updateAt T path (getUpdated e) s)
       else obind (Some (internalInsertAt T path newEntry s)) (\<lambda>(path', s').
              case bump_version (path'\<lparr>tp_on := True\<rparr>) s' of (p, s'') \<Rightarrow> Some (Inr ((p, False), s''))))"

section \<open>Dropping the tree\<close>

fun tget_all :: "('k, 'e) tstore \<Rightarrow> block_id list \<Rightarrow> error + (block_id \<times> ('k, 'e) tnode) list" where
  \<comment> \<open>\<open>Promise.all(nodes.map(id => get(store, id)))\<close>\<close>
  "tget_all s [] = Inr []"
| "tget_all s (i # is) = ebind (tget s (Some i)) (\<lambda>n. ebind (tget_all s is) (\<lambda>ns. Inr (n # ns)))"

partial_function (option) drop_nodeIds :: "(block_id \<times> ('k, 'e) tnode) list \<Rightarrow> ('k, 'e) tstore \<Rightarrow> (error + ('k, 'e) tstore) option" where
  \<comment> \<open>\<open>for await (const id of nodeIds(node)) store.delete(id)\<close>, for every node of the list: the children
      of a branch are read before the first of them is deleted\<close>
  "drop_nodeIds nodes s =
     (case nodes of
        [] \<Rightarrow> Some (Inr s)
      | (i, TLeaf es) # rest \<Rightarrow> drop_nodeIds rest (delete_node i s)
      | (i, TBranch ps ns) # rest \<Rightarrow>
          (case tget_all s ns of
             Inl e \<Rightarrow> Some (Inl e)
           | Inr subNodes \<Rightarrow> obind (drop_nodeIds subNodes s) (\<lambda>s'. drop_nodeIds rest (delete_node i s'))))"

definition btree_drop :: "('k, 'e) tstore \<Rightarrow> (error + ('k, 'e) tstore) option" where
  "btree_drop s =
     (case tget s (Some (t_root s)) of
        Inl e \<Rightarrow> Some (Inl e)
      | Inr root \<Rightarrow> drop_nodeIds [root] s)"

section \<open>Ranges\<close>

definition findFirst :: "('k, 'e) btree \<Rightarrow> 'k key_range \<Rightarrow> 'k key_bound \<Rightarrow> ('k, 'e) tstore \<Rightarrow> (error + tpath) option" where
  "findFirst T r b s =
     obind (btree_find T (kb_key b) s) (\<lambda>startPath.
       if \<not> tp_on startPath \<or> \<not> kb_inclusive b then
         (if kr_isAscending r then internalNext s startPath else internalPrior s startPath)
       else Some (Inr startPath))"

definition findLast :: "('k, 'e) btree \<Rightarrow> 'k key_range \<Rightarrow> 'k key_bound \<Rightarrow> ('k, 'e) tstore \<Rightarrow> (error + tpath) option" where
  "findLast T r b s =
     obind (btree_find T (kb_key b) s) (\<lambda>endPath.
       if \<not> tp_on endPath \<or> \<not> kb_inclusive b then
         (if kr_isAscending r then internalPrior s endPath else internalNext s endPath)
       else Some (Inr endPath))"

fun range_until :: "('k, 'e) btree \<Rightarrow> ('k, 'e) tstore \<Rightarrow> bool \<Rightarrow> 'k \<Rightarrow> tpath list \<Rightarrow> error + tpath list" where
  "range_until T s asc endKey [] = Inr []"
| "range_until T s asc endKey (p # ps) =
     (case getEntry p s of
        None \<Rightarrow> Inl (TypeErr ''keyFromEntry'')
      | Some e \<Rightarrow>
          if cfg_compare T (cfg_keyFromEntry T e) endKey * (if asc then 1 else -1) > 0 then Inr []
          else ebind (range_until T s asc endKey ps) (\<lambda>qs. Inr (p # qs)))"

definition btree_range :: "('k, 'e) btree \<Rightarrow> 'k key_range \<Rightarrow> ('k, 'e) tstore \<Rightarrow> (error + tpath list) option" where
  "btree_range T r s =
     (let asc = kr_isAscending r
      in obind (case kr_first r of Some b \<Rightarrow> findFirst T r b s
                | None \<Rightarrow> if asc then btree_first s else btree_last s) (\<lambda>startPath.
         obind (case kr_last r of Some b \<Rightarrow> findLast T r b s
                | None \<Rightarrow> if asc then btree_last s else btree_first s) (\<lambda>endPath.
         if \<not> tp_on endPath then Some (Inr [])
         else (case getEntry endPath s of
                 None \<Rightarrow> Some (Inl (TypeErr ''keyFromEntry''))
               | Some e \<Rightarrow>
                   obind (if asc then btree_ascending s startPath else btree_descending s startPath)
                     (\<lambda>ps. Some (range_until T s asc (cfg_keyFromEntry T e) ps))))))"

end
