(* ===== verification/BTree_Map.thy ===== *)
theory BTree_Map
  imports BTree_Ops
begin

text \<open>
  The B-tree as a map: what its search and insertion do to the set of entries. A \<open>gtree\<close> is the
  shape of a tree in the store (\<open>rep\<close>), \<open>wf\<close> is the search-tree invariant over a comparator, and the
  lemmas about a comparator that is a total order are those of the locale \<open>key_order\<close>, which the
  default comparator satisfies.
\<close>

declare indexOfKey_loop.simps [simp del] indexOfEntry_loop.simps [simp del]

section \<open>Trees in the store\<close>

datatype ('k, 'e) gtree = GL block_id "'e list" | GB block_id "'k list" "('k, 'e) gtree list"

fun gid :: "('k, 'e) gtree \<Rightarrow> block_id" where
  "gid (GL i es) = i"
| "gid (GB i ps ts) = i"

fun gids :: "('k, 'e) gtree \<Rightarrow> block_id list" where
  "gids (GL i es) = [i]"
| "gids (GB i ps ts) = i # concat (map gids ts)"

fun gset :: "('k, 'e) gtree \<Rightarrow> 'e set" where
  "gset (GL i es) = set es"
| "gset (GB i ps ts) = (\<Union>t \<in> set ts. gset t)"

fun rep :: "('k, 'e) tstore \<Rightarrow> ('k, 'e) gtree \<Rightarrow> bool" where
  "rep s (GL i es) \<longleftrightarrow> t_nodes s i = Some (TLeaf es)"
| "rep s (GB i ps ts) \<longleftrightarrow> t_nodes s i = Some (TBranch ps (map gid ts)) \<and> (\<forall>t \<in> set ts. rep s t)"

lemma gid_in_gids [simp]: "gid t \<in> set (gids t)"
  by (cases t) simp_all

lemma rep_frame:
  "rep s t \<Longrightarrow> (\<And>i. i \<in> set (gids t) \<Longrightarrow> t_nodes s' i = t_nodes s i) \<Longrightarrow> rep s' t"
  by (induction t) auto

lemma rep_in_store: "rep s t \<Longrightarrow> i \<in> set (gids t) \<Longrightarrow> t_nodes s i \<noteq> None"
  by (induction t) auto

section \<open>Bounds\<close>

definition bounds :: "'k option \<Rightarrow> 'k option \<Rightarrow> 'k list \<Rightarrow> ('k option \<times> 'k option) list" where
  \<comment> \<open>the bounds of the children of a branch\<close>
  "bounds lo hi ps = zip (lo # map Some ps) (map Some ps @ [hi])"

lemma length_bounds [simp]: "length (bounds lo hi ps) = Suc (length ps)"
  by (simp add: bounds_def)

lemma bounds_simps:
  "bounds lo hi [] = [(lo, hi)]"
  "bounds lo hi (p # ps) = (lo, Some p) # bounds (Some p) hi ps"
  by (simp_all add: bounds_def)

lemma bounds_nth:
  "j \<le> length ps \<Longrightarrow> bounds lo hi ps ! j
    = (if j = 0 then lo else Some (ps ! (j - 1)), if j = length ps then hi else Some (ps ! j))"
  by (auto simp: bounds_def nth_append nth_Cons')

lemma bounds_insert:
  assumes "j \<le> length ps"
  shows "bounds lo hi (take j ps @ k # drop j ps)
    = take j (bounds lo hi ps) @ [(fst (bounds lo hi ps ! j), Some k), (Some k, snd (bounds lo hi ps ! j))]
      @ drop (Suc j) (bounds lo hi ps)"
  using assms
proof (induction j arbitrary: lo ps)
  case 0
  then show ?case by (cases ps) (simp_all add: bounds_simps)
next
  case (Suc j)
  then obtain p ps' where "ps = p # ps'" by (cases ps) auto
  then show ?case using Suc by (simp add: bounds_simps)
qed

lemma size_zip_less [termination_simp]: "(b, t) \<in> set (zip bs ts) \<Longrightarrow> size t < Suc (n + size_list size ts)"
  by (induction bs ts rule: list_induct2') auto

definition key_within :: "('k, 'e) btree \<Rightarrow> 'k option \<Rightarrow> 'k option \<Rightarrow> 'k \<Rightarrow> bool" where
  \<comment> \<open>a key at or above the lower bound and below the upper one\<close>
  "key_within T lo hi k \<longleftrightarrow> (\<forall>a. lo = Some a \<longrightarrow> \<not> cfg_compare T k a < 0) \<and> (\<forall>b. hi = Some b \<longrightarrow> cfg_compare T k b < 0)"

fun tree_wf :: "('k, 'e) btree \<Rightarrow> 'k option \<Rightarrow> 'k option \<Rightarrow> ('k, 'e) gtree \<Rightarrow> bool" where
  \<comment> \<open>the search-tree invariant: ordered leaves, and every child between the keys around it\<close>
  "tree_wf T lo hi (GL i es) \<longleftrightarrow>
     sorted_wrt (\<lambda>a b. cfg_compare T a b < 0) (map (cfg_keyFromEntry T) es)
     \<and> (\<forall>e \<in> set es. key_within T lo hi (cfg_keyFromEntry T e))"
| "tree_wf T lo hi (GB i ps ts) \<longleftrightarrow> length ts = Suc (length ps) \<and> sorted_wrt (\<lambda>a b. cfg_compare T a b < 0) ps
     \<and> (\<forall>p \<in> set ps. key_within T lo hi p)
     \<and> (\<forall>(b, t) \<in> set (zip (bounds lo hi ps) ts). tree_wf T (fst b) (snd b) t)"

definition tree_ok :: "('k, 'e) btree \<Rightarrow> ('k, 'e) tstore \<Rightarrow> ('k, 'e) gtree \<Rightarrow> bool" where
  \<comment> \<open>the store holds the search tree, and the ids still to be generated are unused\<close>
  "tree_ok T s t \<longleftrightarrow> rep s t \<and> tree_wf T None None t \<and> gid t = t_root s \<and> distinct (gids t)
     \<and> inj (cfg_gen T) \<and> (\<forall>k \<ge> t_generated s. t_nodes s (cfg_gen T k) = None)"

section \<open>The effect of the store operations\<close>

lemma node_ops [simp]:
  "t_nodes (set_node i n s) = (t_nodes s)(i \<mapsto> n)"
  "t_generated (set_node i n s) = t_generated s" "t_version (set_node i n s) = t_version s" "t_root (set_node i n s) = t_root s"
  by (simp_all add: set_node_def)

lemma splice_list_insert [simp]: "splice_list i 0 vs xs = take i xs @ vs @ drop i xs"
  by (simp add: splice_list_def del: js_splice_nonneg) (metis add.right_neutral js_splice_nat of_nat_0)

lemma splice_list_cut [simp]: "splice_list i (length xs - i) [] xs = take i xs"
  by (simp add: splice_list_def)

fun room :: "nat \<Rightarrow> ('k, 'e) gtree \<Rightarrow> bool" where
  \<comment> \<open>no branch of the tree is full\<close>
  "room cap (GL i es) \<longleftrightarrow> True"
| "room cap (GB i ps ts) \<longleftrightarrow> length ts < cap \<and> (\<forall>t \<in> set ts. room cap t)"

lemma leafInsert_branches:
  "leafInsert T e (path\<lparr>tp_branches := bs\<rparr>) s
   = map_sum id (\<lambda>(sp, p, s'). (sp, p\<lparr>tp_branches := bs\<rparr>, s')) (leafInsert T e path s)"
  by (simp add: leafInsert_def Let_def newNode_def split: list.split)

lemma leafInsert_keeps: "leafInsert T e path s = Inr (sp, path1, s1) \<Longrightarrow> tp_branches path1 = tp_branches path"
  by (auto simp: leafInsert_def Let_def newNode_def split: if_splits list.splits)

definition finish_split :: "'k tsplit option \<Rightarrow> block_id \<times> nat \<Rightarrow> ('k, 'e) tstore \<Rightarrow> ('k, 'e) tstore" where
  \<comment> \<open>what the parent of the leaf becomes\<close>
  "finish_split sp b s = (case sp of None \<Rightarrow> s
     | Some sp \<Rightarrow> spliceNodes (fst b) (snd b + 1) 0 [sp_right sp] (splicePartitions (fst b) (snd b) 0 [sp_key sp] s))"

lemma branchInsert_loop_room:
  assumes "tp_branches path = bs @ [b]" and "length (branchNodes s (fst b)) < cfg_nodeCapacity T"
  shows "\<exists>path'. branchInsert_loop T (length (tp_branches path)) sp path s = (None, path', finish_split (Some sp) b s)"
  using assms by (cases b) (simp add: branchInsert_def Let_def finish_split_def nth_append)

fun gcount :: "('k, 'e) gtree \<Rightarrow> nat" where
  \<comment> \<open>how many entries the leaves hold\<close>
  "gcount (GL i es) = length es"
| "gcount (GB i ps ts) = sum_list (map gcount ts)"

fun height_is :: "nat \<Rightarrow> ('k, 'e) gtree \<Rightarrow> bool" where
  \<comment> \<open>every leaf is at this depth\<close>
  "height_is h (GL i es) \<longleftrightarrow> h = 0"
| "height_is h (GB i ps ts) \<longleftrightarrow> h > 0 \<and> (\<forall>t \<in> set ts. height_is (h - 1) t)"

fun filled :: "nat \<Rightarrow> ('k, 'e) gtree \<Rightarrow> bool" where
  \<comment> \<open>every leaf holds at least this many entries\<close>
  "filled m (GL i es) \<longleftrightarrow> m \<le> length es"
| "filled m (GB i ps ts) \<longleftrightarrow> (\<forall>t \<in> set ts. filled m t)"

definition grown :: "nat \<Rightarrow> 'e \<Rightarrow> ('k, 'e) gtree \<Rightarrow> ('k, 'e) gtree \<Rightarrow> bool" where
  \<comment> \<open>the shape after one entry more: the leaves stay at one depth and half full\<close>
  "grown cap e t t' \<longleftrightarrow> gset t' = insert e (gset t) \<and> gcount t' = Suc (gcount t) \<and> (\<forall>h > 0. height_is h t \<longrightarrow> height_is h t')
     \<and> (height_is 0 t \<longrightarrow> height_is 0 t' \<or> height_is 1 t' \<and> filled (cap div 2) t')
     \<and> (height_is 1 t \<and> filled (cap div 2) t \<longrightarrow> filled (cap div 2) t')"

definition grows_to :: "nat \<Rightarrow> block_id \<Rightarrow> ('k, 'e) tstore \<Rightarrow> ('k, 'e) gtree \<Rightarrow> 'e \<Rightarrow> ('k, 'e) tstore \<Rightarrow> ('k, 'e) gtree \<Rightarrow> bool" where
  \<comment> \<open>the tree gained one entry, and nothing but its nodes and the new one was written\<close>
  "grows_to cap new s t e s' t' \<longleftrightarrow> rep s' t' \<and> gid t' = gid t \<and> gset t' = insert e (gset t) \<and> distinct (gids t')
     \<and> set (gids t') \<subseteq> insert new (set (gids t)) \<and> gcount t' = Suc (gcount t)
     \<and> (\<forall>h. height_is h t \<longrightarrow> height_is h t') \<and> (filled (cap div 2) t \<longrightarrow> filled (cap div 2) t')
     \<and> (\<forall>x. x \<notin> set (gids t) \<longrightarrow> x \<noteq> new \<longrightarrow> t_nodes s' x = t_nodes s x)"

lemma distinct_replace_middle:
  "distinct (i # X @ C @ Y) \<Longrightarrow> n \<notin> set (i # X @ C @ Y) \<Longrightarrow> distinct C' \<Longrightarrow> set C' \<subseteq> insert n (set C)
   \<Longrightarrow> distinct (i # X @ C' @ Y)"
  by auto

lemma grows_to_child:
  assumes "rep s (GB i ps (xs @ c # ys))" and "distinct (gids (GB i ps (xs @ c # ys)))"
    and "new \<notin> set (gids (GB i ps (xs @ c # ys)))" and "grows_to cap new s c e s' c'"
  shows "grows_to cap new s (GB i ps (xs @ c # ys)) e s' (GB i ps (xs @ c' # ys))"
proof -
  have c': "rep s' c'" "gid c' = gid c" "gset c' = insert e (gset c)" "distinct (gids c')" "set (gids c') \<subseteq> insert new (set (gids c))"
    "\<And>x. x \<notin> set (gids c) \<Longrightarrow> x \<noteq> new \<Longrightarrow> t_nodes s' x = t_nodes s x" "gcount c' = Suc (gcount c)"
    "\<And>h. height_is h c \<Longrightarrow> height_is h c'" "filled (cap div 2) c \<Longrightarrow> filled (cap div 2) c'"
    using assms(4) by (auto simp: grows_to_def)
  have other: "rep s' t" if "t \<in> set xs \<union> set ys" for t
  proof (rule rep_frame [of s])
    show "rep s t" using assms(1) that by auto
    fix x assume "x \<in> set (gids t)"
    then have "x \<notin> set (gids c)" "x \<noteq> new" using assms(2,3) that by auto
    then show "t_nodes s' x = t_nodes s x" by (rule c'(6))
  qed
  have "t_nodes s' i = t_nodes s i" using assms(2,3) by (intro c'(6)) auto
  then have "rep s' (GB i ps (xs @ c' # ys))" using assms(1) other c'(1,2) by auto
  moreover have "distinct (gids (GB i ps (xs @ c' # ys)))" using distinct_replace_middle [of i "concat (map gids xs)" "gids c" "concat (map gids ys)" new "gids c'"] assms(2,3) c'(4,5)
    by simp
  ultimately show ?thesis using c' unfolding grows_to_def by auto
qed

locale key_order =
  fixes T :: "('k, 'e) btree"
  assumes compare_eq: "cfg_compare T a b = 0 \<longleftrightarrow> a = b"
    and compare_flip: "cfg_compare T a b < 0 \<longleftrightarrow> cfg_compare T b a > 0"
    and compare_trans: "cfg_compare T a b < 0 \<Longrightarrow> cfg_compare T b c < 0 \<Longrightarrow> cfg_compare T a c < 0"
begin

abbreviation lt :: "'k \<Rightarrow> 'k \<Rightarrow> bool" where
  "lt a b \<equiv> cfg_compare T a b < 0"

abbreviation key :: "'e \<Rightarrow> 'k" where
  "key \<equiv> cfg_keyFromEntry T"

lemma lt_irrefl [simp]: "\<not> lt a a"
  using compare_eq [of a a] by simp

lemma lt_not_sym: "lt a b \<Longrightarrow> \<not> lt b a"
  using compare_flip [of a b] by simp

lemma lt_neq: "lt a b \<Longrightarrow> a \<noteq> b"
  by auto

lemma not_lt: "\<not> lt a b \<longleftrightarrow> lt b a \<or> a = b"
  using compare_eq [of a b] compare_flip [of b a] compare_flip [of a b] by linarith

lemma compare_pos: "cfg_compare T a b > 0 \<longleftrightarrow> lt b a"
  using compare_flip [of b a] by simp

section \<open>Binary search\<close>

lemma indexOfKey_loop_correct:
  assumes "sorted_wrt lt ks" and "0 \<le> lo" and "lo \<le> hi + 1" and "hi < int (length ks)"
    and "\<forall>i. int i < lo \<longrightarrow> lt (ks ! i) k" and "\<forall>i < length ks. hi < int i \<longrightarrow> lt k (ks ! i)"
  shows "indexOfKey_loop T ks k lo hi \<le> length ks
    \<and> (\<forall>i < indexOfKey_loop T ks k lo hi. \<not> lt k (ks ! i))
    \<and> (\<forall>i < length ks. indexOfKey_loop T ks k lo hi \<le> i \<longrightarrow> lt k (ks ! i))"
  using assms(2-)
proof (induction "nat (hi - lo + 1)" arbitrary: lo hi rule: less_induct)
  case less
  show ?case
  proof (cases "lo \<le> hi")
    case False
    then have "indexOfKey_loop T ks k lo hi = nat lo" by (subst indexOfKey_loop.simps) simp
    moreover have "hi = lo - 1" using False less.prems(2) by simp
    ultimately show ?thesis using less.prems by (auto dest: lt_not_sym simp: nat_less_iff)
  next
    case True
    define m where "m = nat ((lo + hi) div 2)"
    have m: "int m = (lo + hi) div 2" "lo \<le> int m" "int m \<le> hi" "m < length ks"
      using True less.prems(1,3) by (auto simp: m_def)
    have below: "lt (ks ! i) (ks ! m)" if "i < m" for i
      using sorted_wrt_nth_less [OF assms(1), of i m] that m(4) by simp
    have above: "lt (ks ! m) (ks ! i)" if "m < i" "i < length ks" for i
      using sorted_wrt_nth_less [OF assms(1), of m i] that by simp
    have step: "indexOfKey_loop T ks k lo hi
        = (if cfg_compare T k (ks ! m) = 0 then Suc m
           else if lt k (ks ! m) then indexOfKey_loop T ks k lo (int m - 1) else indexOfKey_loop T ks k (int m + 1) hi)"
      unfolding indexOfKey_loop.simps [of T ks k lo hi] m(1) [symmetric] Let_def nat_int Suc_as_int using True by simp
    consider "k = ks ! m" | "lt k (ks ! m)" | "lt (ks ! m) k" using not_lt by blast
    then show ?thesis
    proof cases
      case 1
      then have "indexOfKey_loop T ks k lo hi = Suc m" using step compare_eq by simp
      moreover have "\<not> lt k (ks ! i)" if "i < Suc m" for i
        using 1 below [of i] that by (cases "i = m") (auto dest: lt_not_sym)
      ultimately show ?thesis using above 1 m(4) by auto
    next
      case 2
      then have eq: "indexOfKey_loop T ks k lo hi = indexOfKey_loop T ks k lo (int m - 1)"
        using step compare_eq [of k "ks ! m"] by auto
      have "lt k (ks ! i)" if "i < length ks" "int m - 1 < int i" for i
        using 2 above [of i] that by (cases "i = m") (auto intro: compare_trans)
      then show ?thesis unfolding eq using less.prems m True by (intro less.hyps) auto
    next
      case 3
      then have eq: "indexOfKey_loop T ks k lo hi = indexOfKey_loop T ks k (int m + 1) hi"
        using step compare_eq [of k "ks ! m"] lt_not_sym [of "ks ! m" k] by auto
      have "lt (ks ! i) k" if "int i < int m + 1" for i
        using 3 below [of i] that by (cases "i = m") (auto intro: compare_trans)
      then show ?thesis unfolding eq using less.prems m True by (intro less.hyps) auto
    qed
  qed
qed

lemma indexOfKey_correct:
  assumes "sorted_wrt lt ks"
  shows "indexOfKey T ks k \<le> length ks" and "i < indexOfKey T ks k \<Longrightarrow> \<not> lt k (ks ! i)"
    and "indexOfKey T ks k \<le> i \<Longrightarrow> i < length ks \<Longrightarrow> lt k (ks ! i)"
  using indexOfKey_loop_correct [OF assms, of 0 "int (length ks) - 1" k] by (auto simp: indexOfKey_def)

lemma indexOfEntry_loop_correct:
  assumes "sorted_wrt lt (map key es)" and "0 \<le> lo" and "lo \<le> hi + 1" and "hi < int (length es)"
    and "\<forall>i. int i < lo \<longrightarrow> lt (key (es ! i)) k" and "\<forall>i < length es. hi < int i \<longrightarrow> lt k (key (es ! i))"
    and "indexOfEntry_loop T es k lo hi = (on, j)"
  shows "(if on then j < length es \<and> key (es ! j) = k
          else j \<le> length es \<and> (\<forall>i < j. lt (key (es ! i)) k) \<and> (\<forall>i < length es. j \<le> i \<longrightarrow> lt k (key (es ! i))))"
  using assms(2-)
proof (induction "nat (hi - lo + 1)" arbitrary: lo hi rule: less_induct)
  case less
  show ?case
  proof (cases "lo \<le> hi")
    case False
    then have "indexOfEntry_loop T es k lo hi = (False, nat lo)" by (subst indexOfEntry_loop.simps) simp
    moreover have "hi = lo - 1" using False less.prems(2) by simp
    ultimately show ?thesis using less.prems by (auto simp: nat_less_iff)
  next
    case True
    define m where "m = nat ((lo + hi) div 2)"
    have m: "int m = (lo + hi) div 2" "lo \<le> int m" "int m \<le> hi" "m < length es"
      using True less.prems(1,3) by (auto simp: m_def)
    have below: "lt (key (es ! i)) (key (es ! m))" if "i < m" for i
      using sorted_wrt_nth_less [OF assms(1), of i m] that m(4) by simp
    have above: "lt (key (es ! m)) (key (es ! i))" if "m < i" "i < length es" for i
      using sorted_wrt_nth_less [OF assms(1), of m i] that by simp
    have step: "indexOfEntry_loop T es k lo hi
        = (if cfg_compare T k (key (es ! m)) = 0 then (True, m)
           else if lt k (key (es ! m)) then indexOfEntry_loop T es k lo (int m - 1) else indexOfEntry_loop T es k (int m + 1) hi)"
      unfolding indexOfEntry_loop.simps [of T es k lo hi] m(1) [symmetric] Let_def nat_int using True by simp
    consider "k = key (es ! m)" | "lt k (key (es ! m))" | "lt (key (es ! m)) k" using not_lt by blast
    then show ?thesis
    proof cases
      case 1
      then have "indexOfEntry_loop T es k lo hi = (True, m)" using step compare_eq by simp
      then show ?thesis using less.prems(6) 1 m(4) by auto
    next
      case 2
      then have eq: "indexOfEntry_loop T es k lo hi = indexOfEntry_loop T es k lo (int m - 1)"
        using step compare_eq [of k "key (es ! m)"] by auto
      have "lt k (key (es ! i))" if "i < length es" "int m - 1 < int i" for i
        using 2 above [of i] that by (cases "i = m") (auto intro: compare_trans)
      then show ?thesis using less.prems m True eq by (intro less.hyps [of "int m - 1" lo]) auto
    next
      case 3
      then have eq: "indexOfEntry_loop T es k lo hi = indexOfEntry_loop T es k (int m + 1) hi"
        using step compare_eq [of k "key (es ! m)"] lt_not_sym [of "key (es ! m)" k] by auto
      have "lt (key (es ! i)) k" if "int i < int m + 1" for i
        using 3 below [of i] that by (cases "i = m") (auto intro: compare_trans)
      then show ?thesis using less.prems m True eq by (intro less.hyps [of hi "int m + 1"]) auto
    qed
  qed
qed

lemma indexOfEntry_correct:
  assumes "sorted_wrt lt (map key es)" and "indexOfEntry T es k = (on, j)"
  shows "on \<Longrightarrow> j < length es \<and> key (es ! j) = k"
    and "\<not> on \<Longrightarrow> j \<le> length es \<and> (\<forall>i < j. lt (key (es ! i)) k) \<and> (\<forall>i < length es. j \<le> i \<longrightarrow> lt k (key (es ! i)))"
  using indexOfEntry_loop_correct [OF assms(1), of 0 "int (length es) - 1" k on j] assms(2)
  by (auto simp: indexOfEntry_def)

section \<open>The search-tree invariant\<close>

abbreviation within :: "'k option \<Rightarrow> 'k option \<Rightarrow> 'k \<Rightarrow> bool" where
  "within \<equiv> key_within T"

abbreviation wf :: "'k option \<Rightarrow> 'k option \<Rightarrow> ('k, 'e) gtree \<Rightarrow> bool" where
  "wf \<equiv> tree_wf T"

lemmas within_def = key_within_def [of T]

lemma wf_child:
  assumes "wf lo hi (GB i ps ts)" and "j < length ts"
  shows "wf (fst (bounds lo hi ps ! j)) (snd (bounds lo hi ps ! j)) (ts ! j)"
proof -
  have "(bounds lo hi ps ! j, ts ! j) \<in> set (zip (bounds lo hi ps) ts)"
    using assms by (auto simp: set_zip)
  then show ?thesis using assms(1) by auto
qed

lemma within_bounds:
  assumes "sorted_wrt lt ps" and "within lo hi k"
  shows "within (fst (bounds lo hi ps ! indexOfKey T ps k)) (snd (bounds lo hi ps ! indexOfKey T ps k)) k"
  using assms indexOfKey_correct [OF assms(1), where k = k]
  by (auto simp: bounds_nth within_def)

lemma bounds_within:
  assumes "\<forall>p \<in> set ps. within lo hi p" and "j \<le> length ps"
    and "within (fst (bounds lo hi ps ! j)) (snd (bounds lo hi ps ! j)) k"
  shows "within lo hi k"
proof -
  have "\<not> lt k a" if "lo = Some a" for a
  proof (cases "j = 0")
    case True
    then show ?thesis using assms(2,3) that by (simp add: bounds_nth within_def)
  next
    case False
    then have "within lo hi (ps ! (j - 1))" using assms(1,2) by simp
    moreover have "\<not> lt k (ps ! (j - 1))" using assms(2,3) False by (simp add: bounds_nth within_def)
    ultimately show ?thesis using that not_lt compare_trans unfolding within_def by (metis lt_not_sym)
  qed
  moreover have "lt k b" if "hi = Some b" for b
  proof (cases "j = length ps")
    case True
    then show ?thesis using assms(3) that by (simp add: bounds_nth within_def)
  next
    case False
    then have "within lo hi (ps ! j)" using assms(1,2) by simp
    moreover have "lt k (ps ! j)" using assms(2,3) False by (simp add: bounds_nth within_def)
    ultimately show ?thesis using that compare_trans unfolding within_def by blast
  qed
  ultimately show ?thesis by (simp add: within_def)
qed

lemma wf_within: "wf lo hi t \<Longrightarrow> e \<in> gset t \<Longrightarrow> within lo hi (key e)"
proof (induction t arbitrary: lo hi)
  case (GL i es)
  then show ?case by simp
next
  case (GB i ps ts)
  then obtain j where j: "j < length ts" "e \<in> gset (ts ! j)" by (auto simp: in_set_conv_nth)
  have "within (fst (bounds lo hi ps ! j)) (snd (bounds lo hi ps ! j)) (key e)"
    using GB.IH [of "ts ! j"] wf_child [OF GB.prems(1) j(1)] j by simp
  then show ?case using bounds_within [of ps lo hi j] GB.prems(1) j(1) by simp
qed

text \<open>The keys between two bounds of a branch are found in exactly one child.\<close>

lemma gset_child:
  assumes "wf lo hi (GB i ps ts)" and "e \<in> gset (GB i ps ts)" and "key e = k"
  shows "e \<in> gset (ts ! indexOfKey T ps k)"
proof -
  define j where "j = indexOfKey T ps k"
  obtain m where m: "m < length ts" "e \<in> gset (ts ! m)" using assms(2) by (auto simp: in_set_conv_nth)
  have w: "within (fst (bounds lo hi ps ! m)) (snd (bounds lo hi ps ! m)) k"
    using wf_within [OF wf_child [OF assms(1) m(1)] m(2)] assms(3) by simp
  have sp: "sorted_wrt lt ps" "length ts = Suc (length ps)" using assms(1) by simp_all
  note jk = indexOfKey_correct [OF sp(1), where k = k, folded j_def]
  have "m = j"
  proof (rule ccontr)
    assume "m \<noteq> j"
    then consider "m < j" | "j < m" by linarith
    then show False
    proof cases
      case 1
      then have "lt k (ps ! m)" using w m(1) sp(2) jk(1) by (simp add: bounds_nth within_def)
      then show False using jk(2) [OF 1] by simp
    next
      case 2
      then have "\<not> lt k (ps ! (m - 1))" using w m(1) sp(2) by (simp add: bounds_nth within_def)
      moreover have "j \<le> m - 1" "m - 1 < length ps" using 2 m(1) sp(2) by linarith+
      ultimately show False using jk(3) by blast
    qed
  qed
  then show ?thesis using m(2) by (simp add: j_def)
qed

lemma key_inj:
  "wf lo hi t \<Longrightarrow> e \<in> gset t \<Longrightarrow> e' \<in> gset t \<Longrightarrow> key e = key e' \<Longrightarrow> e = e'"
proof (induction t arbitrary: lo hi)
  case (GL i es)
  then obtain a b where ab: "a < length es" "b < length es" "e = es ! a" "e' = es ! b" by (auto simp: in_set_conv_nth)
  have "sorted_wrt lt (map key es)" using GL.prems(1) by simp
  then have "\<not> a < b" "\<not> b < a"
    using sorted_wrt_nth_less [of lt "map key es" a b] sorted_wrt_nth_less [of lt "map key es" b a] ab GL.prems(4) by auto
  then show ?case using ab by simp
next
  case (GB i ps ts)
  let ?j = "indexOfKey T ps (key e)"
  have "e \<in> gset (ts ! ?j)" "e' \<in> gset (ts ! ?j)"
    using gset_child [OF GB.prems(1,2) refl] gset_child [OF GB.prems(1,3), of "key e"] GB.prems(4) by simp_all
  moreover have "?j < length ts" using indexOfKey_correct(1) [of ps "key e"] GB.prems(1) by simp
  ultimately show ?case using GB.IH [of "ts ! ?j"] wf_child [OF GB.prems(1), of ?j] GB.prems(4) by simp
qed

section \<open>Lookup\<close>

lemma getPath_correct:
  assumes "rep s t" and "wf lo hi t" and "within lo hi k"
  shows "\<exists>path es. getPath T s (Some (gid t)) k = Some (Inr path) \<and> tp_version path = t_version s
    \<and> t_nodes s (tp_leaf path) = Some (TLeaf es) \<and> sorted_wrt lt (map key es)
    \<and> indexOfEntry T es k = (tp_on path, tp_index path) \<and> {e \<in> gset t. key e = k} = {e \<in> set es. key e = k}"
  using assms
proof (induction t arbitrary: lo hi)
  case (GL i es)
  obtain on j where "indexOfEntry T es k = (on, j)" by fastforce
  then show ?case using GL by (simp add: getPath.simps tget_def)
next
  case (GB i ps ts)
  let ?j = "indexOfKey T ps k"
  have j: "?j < length ts" using indexOfKey_correct(1) [of ps k] GB.prems(2) by simp
  have "rep s (ts ! ?j)" using GB.prems(1) j by simp
  moreover have "within (fst (bounds lo hi ps ! ?j)) (snd (bounds lo hi ps ! ?j)) k"
    using within_bounds [of ps lo hi k] GB.prems(2,3) by simp
  ultimately obtain path es where p: "getPath T s (Some (gid (ts ! ?j))) k = Some (Inr path)" "tp_version path = t_version s"
    "t_nodes s (tp_leaf path) = Some (TLeaf es)" "sorted_wrt lt (map key es)"
    "indexOfEntry T es k = (tp_on path, tp_index path)" "{e \<in> gset (ts ! ?j). key e = k} = {e \<in> set es. key e = k}"
    using GB.IH [OF nth_mem [OF j] _ wf_child [OF GB.prems(2) j]] by blast
  have "getPath T s (Some i) k = Some (Inr (path\<lparr>tp_branches := (i, ?j) # tp_branches path\<rparr>))"
    using GB.prems(1) j p(1) by (subst getPath.simps) (simp add: tget_def nth_opt_def Let_def)
  moreover have "{e \<in> gset (GB i ps ts). key e = k} = {e \<in> gset (ts ! ?j). key e = k}"
    using gset_child [OF GB.prems(2)] j by auto
  ultimately show ?case using p
    by (intro exI [of _ "path\<lparr>tp_branches := (i, ?j) # tp_branches path\<rparr>"] exI [of _ es]) simp
qed

lemma btree_get_correct:
  assumes "rep s t" and "wf None None t" and "gid t = t_root s"
  shows "\<exists>r. btree_get T k s = Some (Inr r) \<and> (\<forall>e. r = Some e \<longleftrightarrow> e \<in> gset t \<and> key e = k)"
proof -
  obtain path es where p: "getPath T s (Some (gid t)) k = Some (Inr path)" "tp_version path = t_version s"
    "t_nodes s (tp_leaf path) = Some (TLeaf es)" "sorted_wrt lt (map key es)"
    "indexOfEntry T es k = (tp_on path, tp_index path)" "{e \<in> gset t. key e = k} = {e \<in> set es. key e = k}"
    using getPath_correct [OF assms(1,2), of k] by (auto simp: within_def)
  have g: "btree_get T k s = Some (Inr (if tp_on path then getEntry path s else None))"
    using p(1,2) assms(3) by (simp add: btree_get_def btree_find_def btree_at_def validatePath_def)
  have ent: "getEntry path s = nth_opt es (tp_index path)" by (simp add: getEntry_def leafEntries_def p(3))
  show ?thesis
  proof (cases "tp_on path")
    case True
    then have at: "tp_index path < length es" "key (es ! tp_index path) = k" using indexOfEntry_correct(1) [OF p(4,5)] by simp_all
    then have "es ! tp_index path \<in> gset t" using p(6) nth_mem by blast
    then show ?thesis using g True ent at key_inj [OF assms(2)] by (auto simp: nth_opt_def)
  next
    case False
    have "e \<notin> gset t" if "key e = k" for e
    proof
      assume "e \<in> gset t"
      then have "e \<in> set es" using p(6) that by blast
      then obtain a where "a < length es" "es ! a = e" by (auto simp: in_set_conv_nth)
      then show False using indexOfEntry_correct(2) [OF p(4,5) False] that lt_irrefl
        by (metis not_le_imp_less)
    qed
    then show ?thesis using g False by auto
  qed
qed

section \<open>Insertion\<close>

lemma sorted_insert_at:
  assumes "sorted_wrt lt (map key es)" and "j \<le> length es" and "\<forall>i < j. lt (key (es ! i)) (key e)"
    and "\<forall>i < length es. j \<le> i \<longrightarrow> lt (key e) (key (es ! i))"
  shows "sorted_wrt lt (map key (take j es @ e # drop j es))"
proof -
  have "\<forall>x \<in> set (take j es). lt (key x) (key e)" using assms(2,3) by (auto simp: in_set_conv_nth)
  moreover have "\<forall>x \<in> set (drop j es). lt (key e) (key x)" using assms(2,4) by (auto simp: in_set_conv_nth)
  moreover have "sorted_wrt lt (map key (take j es) @ map key (drop j es))"
    using assms(1) by (simp add: map_append [symmetric] del: map_append)
  ultimately show ?thesis by (auto simp: sorted_wrt_append)
qed

lemma leafInsert_correct:
  assumes "t_nodes s (tp_leaf path) = Some (TLeaf es)" and "sorted_wrt lt (map key es)"
    and "indexOfEntry T es (key e) = (False, tp_index path)" and "cfg_nodeCapacity T \<ge> 2"
    and "cfg_gen T (t_generated s) \<noteq> tp_leaf path"
  shows "\<exists>sp path1 s1 L R. leafInsert T e path s = Inr (sp, path1, s1) \<and> tp_branches path1 = tp_branches path
    \<and> sorted_wrt lt (map key (L @ R)) \<and> set (L @ R) = insert e (set es) \<and> length (L @ R) = Suc (length es)
    \<and> t_root s1 = t_root s \<and> t_version s1 = t_version s
    \<and> (sp = None \<and> R = [] \<and> t_nodes s1 = (t_nodes s)(tp_leaf path \<mapsto> TLeaf L) \<and> t_generated s1 = t_generated s
       \<or> (\<exists>\<delta>. sp = Some \<lparr>sp_key = key (hd R), sp_right = cfg_gen T (t_generated s), sp_indexDelta = \<delta>\<rparr> \<and> L \<noteq> [] \<and> R \<noteq> []
           \<and> cfg_nodeCapacity T div 2 \<le> length L \<and> cfg_nodeCapacity T div 2 \<le> length R
           \<and> t_nodes s1 = (t_nodes s)(cfg_gen T (t_generated s) \<mapsto> TLeaf R, tp_leaf path \<mapsto> TLeaf L)
           \<and> t_generated s1 = Suc (t_generated s)))"
proof -
  let ?j = "tp_index path"
  note ix = indexOfEntry_correct(2) [OF assms(2,3), simplified]
  define E where "E = take ?j es @ e # drop ?j es"
  have E: "sorted_wrt lt (map key E)" "set E = insert e (set es)" "length E = Suc (length es)"
    using sorted_insert_at [OF assms(2), of ?j e] ix set_append [of "take ?j es" "drop ?j es"]
    by (simp_all add: E_def)
  have le: "leafEntries s (tp_leaf path) = es" by (simp add: leafEntries_def assms(1))
  show ?thesis
  proof (cases "length es < cfg_nodeCapacity T")
    case True
    then show ?thesis using E
      by (intro exI [of _ None] exI [of _ path] exI [of _ "spliceEntries (tp_leaf path) ?j 0 [e] s"] exI [of _ E] exI [of _ "[]"])
         (simp add: leafInsert_def Let_def le spliceEntries_def E_def)
  next
    case False
    define m where "m = (length es + 1) div 2"
    have m: "m < length es" "0 < m" using False assms(4) by (auto simp: m_def)
    define L where "L = (if ?j < m then take ?j (take m es) @ e # drop ?j (take m es) else take m es)"
    define R where "R = (if ?j < m then drop m es else take (?j - m) (drop m es) @ e # drop (?j - m) (drop m es))"
    have LR: "L @ R = E"
    proof (cases "?j < m")
      case True
      have "drop ?j (take m es) @ drop m es = drop ?j es"
        using True m(1) by (metis append_take_drop_id drop_append drop_take less_imp_le_nat length_take min.absorb2 diff_is_0_eq drop0)
      then show ?thesis using True by (simp add: L_def R_def E_def min_def)
    next
      case False
      then have "take m es @ take (?j - m) (drop m es) = take ?j es" by (metis take_add le_add_diff_inverse not_less)
      then show ?thesis using False by (simp add: L_def R_def E_def flip: append_assoc)
    qed
    have Rne: "R \<noteq> []" "L \<noteq> []" using m by (auto simp: R_def L_def)
    have half: "cfg_nodeCapacity T div 2 \<le> length L" "cfg_nodeCapacity T div 2 \<le> length R"
      using False m(1) by (auto simp: R_def L_def m_def)
    obtain r R' where R': "R = r # R'" using Rne by (cases R) auto
    define new where "new = cfg_gen T (t_generated s)"
    define s1 where "s1 = set_node new (TLeaf R) (s\<lparr>t_generated := t_generated s + 1\<rparr>)"
    define s2 where "s2 = spliceEntries (tp_leaf path) m (length es - m) [] s1"
    define s3 where "s3 = (if ?j < m then spliceEntries (tp_leaf path) ?j 0 [e] s2 else s2)"
    define path' where "path' = (if ?j < m then path else path\<lparr>tp_leaf := new, tp_index := ?j - m\<rparr>)"
    have R_eq: "(if ?j \<ge> m then splice_list (?j - m) 0 [e] (drop m es) else drop m es) = R" by (simp add: R_def)
    have new: "newNode T (TLeaf R) s = (new, s1)" by (simp add: newNode_def Let_def new_def s1_def)
    have "leafInsert T e path s = Inr (Some \<lparr>sp_key = key r, sp_right = new, sp_indexDelta = if ?j < m then 0 else 1\<rparr>, path', s3)"
      using False new [unfolded R']
      unfolding leafInsert_def Let_def le m_def [symmetric] R_eq R' by (simp add: path'_def s3_def s2_def)
    moreover have ne: "leafEntries s1 (tp_leaf path) = es"
      using assms(1,5) by (simp add: leafEntries_def s1_def new_def)
    have "t_nodes s2 = (t_nodes s1)(tp_leaf path \<mapsto> TLeaf (take m es))"
      by (simp add: s2_def spliceEntries_def ne)
    then have "t_nodes s3 = (t_nodes s)(new \<mapsto> TLeaf R, tp_leaf path \<mapsto> TLeaf L)"
      by (auto simp: s3_def spliceEntries_def leafEntries_def L_def s1_def)
    moreover have "t_root s3 = t_root s" "t_version s3 = t_version s" "t_generated s3 = Suc (t_generated s)"
      by (simp_all add: s3_def s2_def s1_def spliceEntries_def)
    moreover have "tp_branches path' = tp_branches path" by (simp add: path'_def)
    ultimately show ?thesis using E Rne half R' unfolding LR [symmetric] new_def
      by (intro exI [of _ "Some \<lparr>sp_key = key r, sp_right = new, sp_indexDelta = if ?j < m then 0 else 1\<rparr>"]
            exI [of _ path'] exI [of _ s3] exI [of _ L] exI [of _ R]) (simp add: new_def)
  qed
qed

lemma wf_replace:
  assumes "wf lo hi (GB i ps ts)" and "j < length ts" and "wf (fst (bounds lo hi ps ! j)) (snd (bounds lo hi ps ! j)) c"
  shows "wf lo hi (GB i ps (ts[j := c]))"
proof -
  have "set (zip (bounds lo hi ps) (ts[j := c])) \<subseteq> insert (bounds lo hi ps ! j, c) (set (zip (bounds lo hi ps) ts))"
    using set_update_subset_insert [of "zip (bounds lo hi ps) ts" j "(bounds lo hi ps ! j, c)"]
    by (simp add: update_zip list_update_id)
  then show ?thesis using assms by auto
qed

lemma wf_insert_child:
  assumes "wf lo hi (GB i ps ts)" and "j \<le> length ps"
    and "wf (fst (bounds lo hi ps ! j)) (Some k) a" and "wf (Some k) (snd (bounds lo hi ps ! j)) b"
    and "within (fst (bounds lo hi ps ! j)) (snd (bounds lo hi ps ! j)) k" and "j > 0 \<Longrightarrow> lt (ps ! (j - 1)) k"
  shows "wf lo hi (GB i (take j ps @ k # drop j ps) (take j ts @ [a, b] @ drop (Suc j) ts))"
proof -
  let ?B = "bounds lo hi ps"
  have len: "length ts = Suc (length ps)" "sorted_wrt lt ps" "\<forall>p \<in> set ps. within lo hi p"
    "\<forall>(b, t) \<in> set (zip ?B ts). wf (fst b) (snd b) t" using assms(1) by simp_all
  have "set (zip (take j ?B) (take j ts)) \<subseteq> set (zip ?B ts)" "set (zip (drop (Suc j) ?B) (drop (Suc j) ts)) \<subseteq> set (zip ?B ts)"
    by (simp_all add: take_zip [symmetric] drop_zip [symmetric] set_take_subset set_drop_subset)
  moreover have "zip (bounds lo hi (take j ps @ k # drop j ps)) (take j ts @ [a, b] @ drop (Suc j) ts)
      = zip (take j ?B) (take j ts) @ [((fst (?B ! j), Some k), a), ((Some k, snd (?B ! j)), b)]
        @ zip (drop (Suc j) ?B) (drop (Suc j) ts)"
    using assms(2) len(1) by (simp add: bounds_insert)
  ultimately have kids: "\<forall>(b, t) \<in> set (zip (bounds lo hi (take j ps @ k # drop j ps)) (take j ts @ [a, b] @ drop (Suc j) ts)).
      wf (fst b) (snd b) t" using len(4) assms(3,4) by auto
  have kw: "within lo hi k" by (rule bounds_within [OF len(3) assms(2,5)])
  have below: "lt p k" if p: "p \<in> set (take j ps)" for p
  proof -
    obtain n where n: "n < j" "p = ps ! n"
      using p assms(2) by (auto simp: in_set_conv_nth)
    show ?thesis
    proof (cases "n = j - 1")
      case True
      then show ?thesis using n assms(6) by simp
    next
      case False
      then have "lt (ps ! n) (ps ! (j - 1))" using sorted_wrt_nth_less [OF len(2), of n "j - 1"] n(1) assms(2) by simp
      then show ?thesis using n assms(6) compare_trans by fastforce
    qed
  qed
  have above: "lt k p" if p: "p \<in> set (drop j ps)" for p
  proof -
    obtain d where d: "d < length ps - j" "p = ps ! (j + d)" using p assms(2) by (auto simp: in_set_conv_nth)
    define n where "n = j + d"
    have n: "j \<le> n" "n < length ps" "p = ps ! n" using d by (simp_all add: n_def)
    have k: "lt k (ps ! j)" using assms(2,5) n by (simp add: bounds_nth within_def)
    show ?thesis
    proof (cases "n = j")
      case False
      then have "lt (ps ! j) (ps ! n)" using sorted_wrt_nth_less [OF len(2), of j n] n by simp
      then show ?thesis using k n(3) compare_trans by blast
    qed (use k n in simp)
  qed
  have "sorted_wrt lt (take j ps @ drop j ps)" using len(2) by simp
  then have "sorted_wrt lt (take j ps @ k # drop j ps)" using below above unfolding sorted_wrt_append by simp
  moreover have "\<forall>p \<in> set (take j ps @ k # drop j ps). within lo hi p"
    using len(3) kw by (auto dest: in_set_takeD in_set_dropD)
  ultimately show ?thesis using kids len(1) assms(2) by simp
qed

lemma wf_split_leaf:
  assumes "sorted_wrt lt (map key (L @ R))" and "\<forall>e \<in> set (L @ R). within lo hi (key e)" and "R \<noteq> []"
  shows "wf lo (Some (key (hd R))) (GL i L)" and "wf (Some (key (hd R))) hi (GL j R)"
    and "within lo hi (key (hd R))" and "x \<in> set L \<Longrightarrow> lt (key x) (key (hd R))"
proof -
  obtain r R' where R: "R = r # R'" using assms(3) by (cases R) auto
  have L: "lt (key x) (key r)" if "x \<in> set L" for x using assms(1) that by (auto simp: sorted_wrt_append R)
  have R2: "\<not> lt (key x) (key r)" if "x \<in> set R" for x
    using assms(1) that by (auto simp: sorted_wrt_append R dest: lt_not_sym)
  show "wf lo (Some (key (hd R))) (GL i L)" using assms(1,2) L by (auto simp: sorted_wrt_append within_def R)
  show "wf (Some (key (hd R))) hi (GL j R)" using assms(1,2) R2 by (auto simp: sorted_wrt_append within_def R)
  show "within lo hi (key (hd R))" using assms(2) by (simp add: R)
  show "lt (key x) (key (hd R))" if "x \<in> set L" using L that by (simp add: R)
qed

lemma getPath_branch:
  assumes "rep s (GB i ps (xs @ c # ys))" and "indexOfKey T ps k = length xs"
  shows "getPath T s (Some i) k
    = obind (getPath T s (Some (gid c)) k) (\<lambda>path. Some (Inr (path\<lparr>tp_branches := (i, length xs) # tp_branches path\<rparr>)))"
  using assms by (subst getPath.simps) (simp add: tget_def nth_opt_def Let_def nth_append)

lemma insert_under_leaf:
  assumes "rep s (GB i ps (xs @ GL l es # ys))" and "wf lo hi (GB i ps (xs @ GL l es # ys))" and "within lo hi (key e)"
    and "distinct (gids (GB i ps (xs @ GL l es # ys)))" and "new \<notin> set (gids (GB i ps (xs @ GL l es # ys)))"
    and "new = cfg_gen T (t_generated s)" and "cfg_nodeCapacity T \<ge> 2" and "indexOfKey T ps (key e) = length xs"
    and "tp_leaf path = l" and "indexOfEntry T es (key e) = (False, tp_index path)"
  shows "\<exists>sp path1 s1 t'. leafInsert T e path s = Inr (sp, path1, s1) \<and> tp_branches path1 = tp_branches path
    \<and> grows_to (cfg_nodeCapacity T) new s (GB i ps (xs @ GL l es # ys)) e (finish_split sp (i, length xs) s1) t' \<and> wf lo hi t'
    \<and> branchNodes s1 i = map gid (xs @ GL l es # ys) \<and> t_root s1 = t_root s \<and> t_version s1 = t_version s
    \<and> (t_generated s1 = t_generated s \<and> sp = None \<and> t_nodes s1 new = t_nodes s new \<or> t_generated s1 = Suc (t_generated s))"
proof -
  let ?B = "bounds lo hi ps ! length xs" and ?t = "GB i ps (xs @ GL l es # ys)"
  have st: "t_nodes s l = Some (TLeaf es)" "t_nodes s i = Some (TBranch ps (map gid (xs @ GL l es # ys)))" "length xs \<le> length ps"
    using assms(1,2) by auto
  have leaf: "wf (fst ?B) (snd ?B) (GL l es)" using wf_child [OF assms(2), of "length xs"] by (simp add: nth_append)
  have ew: "within (fst ?B) (snd ?B) (key e)" using within_bounds [of ps lo hi "key e"] assms(2,3,8) by simp
  have srt: "sorted_wrt lt (map key es)" using leaf by simp
  have ids: "new \<noteq> l" "new \<noteq> i" "i \<noteq> l" using assms(4,5) by auto
  obtain sp path1 s1 L R where r: "leafInsert T e path s = Inr (sp, path1, s1)" "tp_branches path1 = tp_branches path"
    "sorted_wrt lt (map key (L @ R))" "set (L @ R) = insert e (set es)" "t_root s1 = t_root s" "t_version s1 = t_version s"
    "length (L @ R) = Suc (length es)"
    "sp = None \<and> R = [] \<and> t_nodes s1 = (t_nodes s)(l \<mapsto> TLeaf L) \<and> t_generated s1 = t_generated s
       \<or> (\<exists>\<delta>. sp = Some \<lparr>sp_key = key (hd R), sp_right = new, sp_indexDelta = \<delta>\<rparr> \<and> L \<noteq> [] \<and> R \<noteq> []
           \<and> cfg_nodeCapacity T div 2 \<le> length L \<and> cfg_nodeCapacity T div 2 \<le> length R
           \<and> t_nodes s1 = (t_nodes s)(new \<mapsto> TLeaf R, l \<mapsto> TLeaf L) \<and> t_generated s1 = Suc (t_generated s))"
    using leafInsert_correct [of s path es e] st(1) srt assms(6,7,9,10) ids(1) by auto
  have LRw: "\<forall>x \<in> set (L @ R). within (fst ?B) (snd ?B) (key x)" using r(4) leaf ew by auto
  have nodes: "branchNodes s1 i = map gid (xs @ GL l es # ys)" "branchPartitions s1 i = ps"
    using r(8) st(2) ids by (auto simp: branchNodes_def branchPartitions_def)
  consider "sp = None" "R = []" "t_nodes s1 = (t_nodes s)(l \<mapsto> TLeaf L)" "t_generated s1 = t_generated s"
    | \<delta> where "sp = Some \<lparr>sp_key = key (hd R), sp_right = new, sp_indexDelta = \<delta>\<rparr>" "L \<noteq> []" "R \<noteq> []"
      "cfg_nodeCapacity T div 2 \<le> length L" "cfg_nodeCapacity T div 2 \<le> length R"
      "t_nodes s1 = (t_nodes s)(new \<mapsto> TLeaf R, l \<mapsto> TLeaf L)" "t_generated s1 = Suc (t_generated s)"
    using r(8) by blast
  then show ?thesis
  proof cases
    case 1
    have "grows_to (cfg_nodeCapacity T) new s (GL l es) e s1 (GL l L)" using 1 r(4,7) by (auto simp: grows_to_def)
    from grows_to_child [OF assms(1,4,5) this] have "grows_to (cfg_nodeCapacity T) new s ?t e s1 (GB i ps (xs @ GL l L # ys))" .
    moreover have "wf (fst ?B) (snd ?B) (GL l L)" using r(3) LRw 1(2) by simp
    then have "wf lo hi (GB i ps (xs @ GL l L # ys))"
      using wf_replace [OF assms(2), of "length xs" "GL l L"] by (simp add: list_update_append)
    ultimately show ?thesis using r(1,2,5,6) nodes(1) 1(1,3,4) ids(1)
      by (intro exI [of _ sp] exI [of _ path1] exI [of _ s1] exI [of _ "GB i ps (xs @ GL l L # ys)"]) (simp add: finish_split_def)
  next
    case 2
    let ?k = "key (hd R)"
    let ?t' = "GB i (take (length xs) ps @ ?k # drop (length xs) ps) (xs @ [GL l L, GL new R] @ ys)"
    let ?s2 = "finish_split sp (i, length xs) s1"
    note sl = wf_split_leaf [OF r(3) LRw 2(3)]
    have "lt (ps ! (length xs - 1)) ?k" if pos: "length xs > 0"
    proof -
      obtain x where x: "x \<in> set L" using 2(2) by (cases L) auto
      then have "\<not> lt (key x) (ps ! (length xs - 1))" using LRw pos st(3) by (auto simp: bounds_nth within_def)
      then show ?thesis using sl(4) [OF x] not_lt compare_trans by metis
    qed
    from wf_insert_child [OF assms(2) st(3) sl(1,2,3) this] have w: "wf lo hi ?t'" by simp
    have n2: "t_nodes ?s2 = (t_nodes s1)(i \<mapsto> TBranch (take (length xs) ps @ ?k # drop (length xs) ps)
        (map gid (xs @ [GL l L, GL new R] @ ys)))"
      using nodes by (simp add: 2(1) finish_split_def spliceNodes_def splicePartitions_def branchNodes_def branchPartitions_def)
    have other: "rep ?s2 t" if t: "t \<in> set xs \<union> set ys" for t
    proof (rule rep_frame [of s])
      show "rep s t" using assms(1) t by auto
      fix x assume "x \<in> set (gids t)"
      then have "x \<noteq> l" "x \<noteq> new" "x \<noteq> i" using assms(4,5) t by auto
      then show "t_nodes ?s2 x = t_nodes s x" unfolding n2 2(6) by simp
    qed
    have "t_nodes ?s2 l = Some (TLeaf L)" "t_nodes ?s2 new = Some (TLeaf R)" unfolding n2 2(6) using ids by auto
    then have "rep ?s2 ?t'" using other n2 by auto
    moreover have "distinct (gids ?t')" using assms(4,5) by auto
    moreover have "gset ?t' = insert e (gset ?t)" using r(4) by auto
    moreover have "\<forall>x. x \<notin> set (gids ?t) \<longrightarrow> x \<noteq> new \<longrightarrow> t_nodes ?s2 x = t_nodes s x" unfolding n2 2(6) by auto
    moreover have "gcount ?t' = Suc (gcount ?t)" using r(7) by simp
    moreover have "filled (cfg_nodeCapacity T div 2) ?t \<longrightarrow> filled (cfg_nodeCapacity T div 2) ?t'" using 2(4,5) by auto
    ultimately have "grows_to (cfg_nodeCapacity T) new s ?t e ?s2 ?t'" by (auto simp: grows_to_def)
    then show ?thesis using r(1,2,5,6) nodes(1) w 2(7)
      by (intro exI [of _ sp] exI [of _ path1] exI [of _ s1] exI [of _ ?t']) simp
  qed
qed

lemma insert_under_branch:
  assumes "rep s t" and "wf lo hi t" and "within lo hi (key e)" and "distinct (gids t)" and "new \<notin> set (gids t)"
    and "new = cfg_gen T (t_generated s)" and "cfg_nodeCapacity T \<ge> 2" and "room (cfg_nodeCapacity T) t"
    and "getPath T s (Some (gid t)) (key e) = Some (Inr path)" and "\<not> tp_on path" and "t = GB i ps ts"
  shows "\<exists>sp path1 s1 t' bs b. leafInsert T e path s = Inr (sp, path1, s1) \<and> tp_branches path1 = bs @ [b]
    \<and> length (branchNodes s1 (fst b)) < cfg_nodeCapacity T \<and> grows_to (cfg_nodeCapacity T) new s t e (finish_split sp b s1) t' \<and> wf lo hi t'
    \<and> t_root s1 = t_root s \<and> t_version s1 = t_version s
    \<and> (t_generated s1 = t_generated s \<and> sp = None \<and> t_nodes s1 new = t_nodes s new \<or> t_generated s1 = Suc (t_generated s))"
  using assms
proof (induction t arbitrary: lo hi path i ps ts)
  case (GL l es)
  then show ?case by simp
next
  case (GB i' ps' ts')
  let ?j = "indexOfKey T ps (key e)"
  have t: "i' = i" "ps' = ps" "ts' = ts" using GB.prems(11) by simp_all
  have j: "?j < length ts" using indexOfKey_correct(1) [of ps "key e"] GB.prems(2) by (simp add: t)
  define xs c ys where "xs = take ?j ts" and "c = ts ! ?j" and "ys = drop (Suc ?j) ts"
  have ts: "ts = xs @ c # ys" and len: "length xs = ?j"
    using j by (simp_all add: xs_def c_def ys_def id_take_nth_drop)
  note prems = GB.prems [unfolded t ts]
  have cw: "wf (fst (bounds lo hi ps ! ?j)) (snd (bounds lo hi ps ! ?j)) c"
    using wf_child [OF GB.prems(2) [unfolded t] j] by (simp add: c_def)
  have ew: "within (fst (bounds lo hi ps ! ?j)) (snd (bounds lo hi ps ! ?j)) (key e)"
    using within_bounds [of ps lo hi "key e"] GB.prems(2,3) by (simp add: t)
  obtain cp where cp: "getPath T s (Some (gid c)) (key e) = Some (Inr cp)" "path = cp\<lparr>tp_branches := (i, length xs) # tp_branches cp\<rparr>"
    using prems(9) getPath_branch [OF prems(1), of "key e"] len
    by (cases "getPath T s (Some (gid c)) (key e)"; cases "the (getPath T s (Some (gid c)) (key e))") auto
  show ?case
  proof (cases c)
    case (GL l es)
    have leaf: "tp_leaf path = l" "indexOfEntry T es (key e) = (False, tp_index path)" "tp_branches cp = []"
      using cp GL prems(1,10) by (auto simp: getPath.simps tget_def split: prod.splits)
    have "length ts < cfg_nodeCapacity T" using GB.prems(8) by (simp add: t)
    then show ?thesis
      using insert_under_leaf [OF prems(1,2) [unfolded GL] prems(3) prems(4,5) [unfolded GL] prems(6,7) len [symmetric] leaf(1,2)]
        cp(2) leaf(3)
      unfolding t ts GL by (auto intro!: exI [of _ "[]"])
  next
    case (GB i2 ps2 ts2)
    have "c \<in> set ts" by (simp add: ts)
    moreover have "rep s c" "distinct (gids c)" "new \<notin> set (gids c)" "room (cfg_nodeCapacity T) c" "\<not> tp_on cp"
      using prems(1,4,5,8,10) cp(2) by auto
    ultimately obtain sp path1 s1 c' bs b where r: "leafInsert T e cp s = Inr (sp, path1, s1)" "tp_branches path1 = bs @ [b]"
      "length (branchNodes s1 (fst b)) < cfg_nodeCapacity T" "grows_to (cfg_nodeCapacity T) new s c e (finish_split sp b s1) c'"
      "wf (fst (bounds lo hi ps ! ?j)) (snd (bounds lo hi ps ! ?j)) c'"
      "t_root s1 = t_root s" "t_version s1 = t_version s"
      "t_generated s1 = t_generated s \<and> sp = None \<and> t_nodes s1 new = t_nodes s new \<or> t_generated s1 = Suc (t_generated s)"
      using GB.IH [of c _ _ cp i2 ps2 ts2] cw ew cp(1) prems(6,7) GB t(3) by metis
    have cpb: "tp_branches cp = bs @ [b]" using leafInsert_keeps [OF r(1)] r(2) by simp
    have "leafInsert T e path s = Inr (sp, path1\<lparr>tp_branches := (i, length xs) # bs @ [b]\<rparr>, s1)"
      using leafInsert_branches [where T = T and e = e and path = cp and bs = "(i, length xs) # tp_branches cp" and s = s]
        r(1,2) cp(2) cpb by simp
    moreover have "grows_to (cfg_nodeCapacity T) new s (GB i ps ts) e (finish_split sp b s1) (GB i ps (xs @ c' # ys))"
      unfolding ts by (rule grows_to_child [OF prems(1,4,5) r(4)])
    moreover have "wf lo hi (GB i ps (xs @ c' # ys))"
      using wf_replace [OF GB.prems(2) [unfolded t] j r(5)] len by (simp add: ts list_update_append)
    ultimately show ?thesis using r(3,6,7,8) unfolding t
      by (intro exI [of _ sp] exI [of _ "path1\<lparr>tp_branches := (i, length xs) # bs @ [b]\<rparr>"] exI [of _ s1]
            exI [of _ "GB i ps (xs @ c' # ys)"] exI [of _ "(i, length xs) # bs"] exI [of _ b]) simp
  qed
qed

lemma tree_ok_step:
  assumes "tree_ok T s t" and "rep s' t'" and "wf None None t'" and "gid t' = t_root s'" and "distinct (gids t')"
    and "t_generated s \<le> t_generated s'" and "\<forall>x. x \<notin> set (gids t) \<longrightarrow> x \<notin> N \<longrightarrow> t_nodes s' x = t_nodes s x"
    and "\<forall>k \<ge> t_generated s'. cfg_gen T k \<notin> N"
  shows "tree_ok T s' t'"
proof -
  have "t_nodes s' (cfg_gen T k) = None" if k: "t_generated s' \<le> k" for k
  proof -
    have "t_nodes s (cfg_gen T k) = None" using assms(1,6) k by (simp add: tree_ok_def)
    then have "cfg_gen T k \<notin> set (gids t)" using rep_in_store [of s t "cfg_gen T k"] assms(1) by (auto simp: tree_ok_def)
    then show ?thesis using assms(7,8) k \<open>t_nodes s (cfg_gen T k) = None\<close> by simp
  qed
  then show ?thesis using assms by (simp add: tree_ok_def)
qed

lemma btree_insert_root_leaf:
  assumes "tree_ok T s (GL l es)" and "cfg_nodeCapacity T \<ge> 2" and "\<not> (\<exists>x \<in> set es. key x = key e)"
  shows "\<exists>path s' t'. btree_insert T e s = Some (Inr (path, s')) \<and> tp_on path
    \<and> tree_ok T s' t' \<and> grown (cfg_nodeCapacity T) e (GL l es) t'"
proof -
  have ok: "t_nodes s l = Some (TLeaf es)" "sorted_wrt lt (map key es)" "t_root s = l" "inj (cfg_gen T)"
    "\<And>k. k \<ge> t_generated s \<Longrightarrow> t_nodes s (cfg_gen T k) = None"
    using assms(1) by (auto simp: tree_ok_def)
  obtain on j where ix: "indexOfEntry T es (key e) = (on, j)" by fastforce
  then have "\<not> on" using indexOfEntry_correct(1) [OF ok(2) ix] assms(3) by (metis nth_mem)
  define path where "path = \<lparr>tp_branches = [], tp_leaf = l, tp_index = j, tp_on = False, tp_version = t_version s\<rparr>"
  have find: "btree_find T (key e) s = Some (Inr path)" using ok(1,3) ix \<open>\<not> on\<close>
    by (simp add: btree_find_def getPath.simps tget_def path_def)
  define new where "new = cfg_gen T (t_generated s)"
  define top where "top = cfg_gen T (Suc (t_generated s))"
  have ids: "new \<noteq> l" "top \<noteq> l" "top \<noteq> new" using ok(1,4) ok(5) [of "t_generated s"] ok(5) [of "Suc (t_generated s)"]
    by (auto simp: new_def top_def inj_eq)
  obtain sp path1 s1 L R where r: "leafInsert T e path s = Inr (sp, path1, s1)" "tp_branches path1 = []"
    "sorted_wrt lt (map key (L @ R))" "set (L @ R) = insert e (set es)" "t_root s1 = l" "length (L @ R) = Suc (length es)"
    "sp = None \<and> R = [] \<and> t_nodes s1 = (t_nodes s)(l \<mapsto> TLeaf L) \<and> t_generated s1 = t_generated s
       \<or> (\<exists>\<delta>. sp = Some \<lparr>sp_key = key (hd R), sp_right = new, sp_indexDelta = \<delta>\<rparr> \<and> L \<noteq> [] \<and> R \<noteq> []
           \<and> cfg_nodeCapacity T div 2 \<le> length L \<and> cfg_nodeCapacity T div 2 \<le> length R
           \<and> t_nodes s1 = (t_nodes s)(new \<mapsto> TLeaf R, l \<mapsto> TLeaf L) \<and> t_generated s1 = Suc (t_generated s))"
    using leafInsert_correct [of s path es e] ok ix \<open>\<not> on\<close> assms(2) ids(1) by (auto simp: path_def new_def)
  consider "sp = None" "R = []" "t_nodes s1 = (t_nodes s)(l \<mapsto> TLeaf L)" "t_generated s1 = t_generated s"
    | \<delta> where "sp = Some \<lparr>sp_key = key (hd R), sp_right = new, sp_indexDelta = \<delta>\<rparr>" "L \<noteq> []" "R \<noteq> []"
      "cfg_nodeCapacity T div 2 \<le> length L" "cfg_nodeCapacity T div 2 \<le> length R"
      "t_nodes s1 = (t_nodes s)(new \<mapsto> TLeaf R, l \<mapsto> TLeaf L)" "t_generated s1 = Suc (t_generated s)"
    using r(7) by blast
  then show ?thesis
  proof cases
    case 1
    have "tree_ok T (s1\<lparr>t_version := v\<rparr>) (GL l L)" for v
      using 1 r(3,5) by (intro tree_ok_step [OF assms(1), of _ _ "{}"]) (auto simp: within_def)
    then show ?thesis using find r(1,4,6) 1(1,2)
      by (auto simp: btree_insert_def internalInsert_def internalInsertAt_def bump_version_def path_def grown_def intro!: exI [of _ "GL l L"])
  next
    case 2
    let ?t = "GB top [key (hd R)] [GL l L, GL new R]"
    define s2 where "s2 = (set_node top (TBranch [key (hd R)] [l, new]) (s1\<lparr>t_generated := t_generated s1 + 1\<rparr>))\<lparr>t_root := top\<rparr>"
    have n2: "t_nodes s2 = (t_nodes s)(new \<mapsto> TLeaf R, l \<mapsto> TLeaf L, top \<mapsto> TBranch [key (hd R)] [l, new])"
      "t_root s2 = top" "t_generated s2 = Suc (Suc (t_generated s))" by (simp_all add: s2_def 2(6,7))
    have "\<exists>path2. internalInsertAt T path e s = Inr (path2, s2)"
      using r(1,2,5) 2(1,7) by (simp add: internalInsertAt_def newNode_def Let_def s2_def top_def)
    moreover have "wf None None ?t"
      using wf_split_leaf [OF r(3) _ 2(3), of None None] by (simp add: within_def bounds_simps)
    then have "tree_ok T (s2\<lparr>t_version := v\<rparr>) ?t" for v
      using ids n2 ok(4) by (intro tree_ok_step [OF assms(1), of _ _ "{new, top}"]) (auto simp: new_def top_def inj_eq)
    ultimately show ?thesis using find r(4,6) 2(4,5)
      by (auto simp: btree_insert_def internalInsert_def bump_version_def path_def grown_def intro!: exI [of _ ?t])
  qed
qed

lemma btree_insert_correct:
  assumes "tree_ok T s t" and "cfg_nodeCapacity T \<ge> 2" and "room (cfg_nodeCapacity T) t"
  shows "\<exists>path s'. btree_insert T e s = Some (Inr (path, s'))
    \<and> (if \<exists>e' \<in> gset t. key e' = key e then \<not> tp_on path \<and> s' = s
       else tp_on path \<and> (\<exists>t'. tree_ok T s' t' \<and> grown (cfg_nodeCapacity T) e t t'))"
proof -
  have ok: "rep s t" "wf None None t" "gid t = t_root s" "distinct (gids t)" "inj (cfg_gen T)"
    "\<And>k. k \<ge> t_generated s \<Longrightarrow> t_nodes s (cfg_gen T k) = None"
    using assms(1) by (simp_all add: tree_ok_def)
  have ew: "within None None (key e)" by (simp add: within_def)
  obtain path es where p: "getPath T s (Some (gid t)) (key e) = Some (Inr path)" "tp_version path = t_version s"
    "t_nodes s (tp_leaf path) = Some (TLeaf es)" "sorted_wrt lt (map key es)"
    "indexOfEntry T es (key e) = (tp_on path, tp_index path)" "{x \<in> gset t. key x = key e} = {x \<in> set es. key x = key e}"
    using getPath_correct [OF ok(1,2) ew] by auto
  define new where "new = cfg_gen T (t_generated s)"
  have nn: "t_nodes s new = None" using ok(6) by (simp add: new_def)
  then have new: "new \<notin> set (gids t)" using rep_in_store [OF ok(1)] by blast
  have later: "cfg_gen T k \<notin> {new}" if "Suc (t_generated s) \<le> k" for k using that ok(5) by (auto simp: new_def inj_eq)
  have find: "btree_find T (key e) s = Some (Inr path)" using p(1) ok(3) by (simp add: btree_find_def)
  show ?thesis
  proof (cases "tp_on path")
    case True
    then have at: "tp_index path < length es" "key (es ! tp_index path) = key e" using indexOfEntry_correct(1) [OF p(4,5)] by simp_all
    then have "es ! tp_index path \<in> gset t" using p(6) nth_mem by blast
    then show ?thesis using True at find by (auto simp: btree_insert_def internalInsert_def)
  next
    case False
    have ix: "indexOfEntry T es (key e) = (False, tp_index path)" using p(5) False by simp
    note ixc = indexOfEntry_correct(2) [OF p(4) ix, simplified]
    have absent: "\<not> (\<exists>e' \<in> gset t. key e' = key e)"
    proof
      assume "\<exists>e' \<in> gset t. key e' = key e"
      then obtain x where "x \<in> set es" "key x = key e" using p(6) by blast
      then obtain a where "a < length es" "key (es ! a) = key e" by (auto simp: in_set_conv_nth)
      then show False using ixc lt_irrefl by (metis not_le_imp_less)
    qed
    show ?thesis
    proof (cases t)
      case (GB i ps ts)
      obtain sp path1 s1 t' bs b where r: "leafInsert T e path s = Inr (sp, path1, s1)" "tp_branches path1 = bs @ [b]"
        "length (branchNodes s1 (fst b)) < cfg_nodeCapacity T" "grows_to (cfg_nodeCapacity T) new s t e (finish_split sp b s1) t'" "wf None None t'"
        "t_root s1 = t_root s" "t_generated s1 = t_generated s \<and> sp = None \<and> t_nodes s1 new = t_nodes s new \<or> t_generated s1 = Suc (t_generated s)"
        using insert_under_branch [OF ok(1,2) ew ok(4) new new_def assms(2,3) p(1) False GB] by metis
      define s2 where "s2 = finish_split sp b s1"
      have at: "\<exists>path2. internalInsertAt T path e s = Inr (path2, s2)"
      proof (cases sp)
        case None
        then show ?thesis using r(1) by (simp add: internalInsertAt_def s2_def finish_split_def)
      next
        case (Some sp')
        then show ?thesis using branchInsert_loop_room [OF r(2,3), of sp'] r(1)
          by (auto simp: internalInsertAt_def s2_def simp del: branchInsert_loop.simps)
      qed
      have g2: "t_root s2 = t_root s1" "t_generated s2 = t_generated s1"
        by (simp_all add: s2_def finish_split_def spliceNodes_def splicePartitions_def split: option.split)
      have gr: "rep s2 t'" "gid t' = gid t" "gset t' = insert e (gset t)" "distinct (gids t')"
        "\<forall>x. x \<notin> set (gids t) \<longrightarrow> x \<noteq> new \<longrightarrow> t_nodes s2 x = t_nodes s x"
        "gcount t' = Suc (gcount t)" "\<And>h. height_is h t \<Longrightarrow> height_is h t'"
        "filled (cfg_nodeCapacity T div 2) t \<Longrightarrow> filled (cfg_nodeCapacity T div 2) t'"
        using r(4) by (simp_all add: grows_to_def s2_def)
      have rep3: "rep (s2\<lparr>t_version := v\<rparr>) t'" for v by (rule rep_frame [OF gr(1)]) simp
      have "tree_ok T (s2\<lparr>t_version := v\<rparr>) t'" for v
      proof (cases "t_generated s2 = Suc (t_generated s)")
        case True
        then show ?thesis using later gr rep3 r(5,6) g2 ok(3)
          by (intro tree_ok_step [OF assms(1), of _ _ "{new}"]) auto
      next
        case False
        then have same: "sp = None" "t_generated s2 = t_generated s" "t_nodes s1 new = t_nodes s new" using r(7) g2(2) by auto
        then have "s2 = s1" by (simp add: s2_def finish_split_def)
        then have "\<forall>x. x \<notin> set (gids t) \<longrightarrow> t_nodes s2 x = t_nodes s x" using gr(5) same(3) by metis
        then show ?thesis using gr rep3 r(5,6) g2 ok(3) same(2)
          by (intro tree_ok_step [OF assms(1), of _ _ "{}"]) auto
      qed
      moreover have "grown (cfg_nodeCapacity T) e t t'" using gr(3,6,7,8) GB by (auto simp: grown_def)
      ultimately show ?thesis using absent find False at
        by (auto simp: btree_insert_def internalInsert_def bump_version_def intro!: exI [of _ t'])
    next
      case (GL l es')
      show ?thesis using btree_insert_root_leaf [OF assms(1) [unfolded GL] assms(2), of e] absent unfolding GL by auto
    qed
  qed
qed

end

section \<open>Trees over the default comparator\<close>

definition default_tree :: "('e \<Rightarrow> 'k :: linorder) \<Rightarrow> nat \<Rightarrow> (nat \<Rightarrow> block_id) \<Rightarrow> ('k, 'e) btree" where
  \<comment> \<open>\<open>new BTree(store, trunk, keyFromEntry)\<close>: the comparator is the constructor's default\<close>
  "default_tree kf c g = \<lparr>cfg_keyFromEntry = kf, cfg_compare = default_compare, cfg_nodeCapacity = c, cfg_gen = g\<rparr>"

lemma default_tree_simps [simp]:
  "cfg_keyFromEntry (default_tree kf c g) = kf" "cfg_compare (default_tree kf c g) = default_compare"
  "cfg_nodeCapacity (default_tree kf c g) = c" "cfg_gen (default_tree kf c g) = g"
  by (simp_all add: default_tree_def)

interpretation dflt: key_order "default_tree kf c g" for kf :: "'e \<Rightarrow> 'k :: linorder" and c g
  by unfold_locales (auto simp: default_compare_def split: if_splits)

definition insert_step :: "('k, 'e) btree \<Rightarrow> (error + ('k, 'e) tstore) option \<Rightarrow> 'e \<Rightarrow> (error + ('k, 'e) tstore) option" where
  "insert_step T r e = obind r (\<lambda>s. obind (btree_insert T e s) (\<lambda>(path, s'). Some (Inr s')))"

definition run_inserts :: "('k, 'e) btree \<Rightarrow> 'e list \<Rightarrow> (error + ('k, 'e) tstore) option" where
  \<comment> \<open>a new tree, and the entries inserted one after the other\<close>
  "run_inserts T es = foldl (insert_step T) (Some (Inr (btree_create T))) es"

lemma tree_ok_create:
  assumes "inj (cfg_gen T)"
  shows "tree_ok T (btree_create T) (GL (cfg_gen T 0) [])"
  using assms by (auto simp: tree_ok_def btree_create_def newNode_def Let_def set_node_def inj_eq)

lemma find_snoc: "List.find P (xs @ [x]) = (case List.find P xs of None \<Rightarrow> if P x then Some x else None | Some y \<Rightarrow> Some y)"
  by (induction xs) simp_all

lemma filled_count: "filled m t \<Longrightarrow> height_is 1 t \<Longrightarrow> (case t of GB i ps ts \<Rightarrow> length ts * m \<le> gcount t | _ \<Rightarrow> True)"
proof (induction t)
  case (GB i ps ts)
  have "length ts * m \<le> sum_list (map gcount ts)" if "\<forall>t \<in> set ts. filled m t \<and> height_is 0 t"
    using that
  proof (induction ts)
    case (Cons t ts)
    then show ?case by (cases t) auto
  qed simp
  then show ?case using GB.prems by simp
qed simp

definition shallow :: "nat \<Rightarrow> ('k, 'e) gtree \<Rightarrow> bool" where
  \<comment> \<open>a leaf, or a branch over leaves that are at least half full\<close>
  "shallow c t \<longleftrightarrow> height_is 0 t \<or> height_is 1 t \<and> filled (c div 2) t"

lemma shallow_room:
  assumes "shallow c t" and "gcount t < c * (c div 2)"
  shows "room c t"
proof (cases t)
  case (GB i ps ts)
  then have h: "height_is 1 t" "filled (c div 2) t" using assms(1) by (simp_all add: shallow_def)
  have "length ts * (c div 2) \<le> gcount t" using filled_count [OF h(2,1)] GB by simp
  then have "length ts * (c div 2) < c * (c div 2)" using assms(2) by (rule le_less_trans)
  then have "length ts < c" using mult_less_cancel2 by blast
  moreover have "room c u" if "u \<in> set ts" for u using h(1) that GB by (cases u) auto
  ultimately show ?thesis using GB by simp
qed simp

lemma run_inserts_shallow:
  fixes kf :: "'e \<Rightarrow> 'k :: linorder" and c :: nat and g :: "nat \<Rightarrow> block_id"
  defines "T \<equiv> default_tree kf c g"
  assumes "inj g" and "2 \<le> c" and "length es \<le> c * (c div 2)"
  shows "\<exists>s t. run_inserts T es = Some (Inr s) \<and> tree_ok T s t \<and> shallow c t \<and> gcount t \<le> length es
    \<and> (\<forall>e. e \<in> gset t \<longleftrightarrow> List.find (\<lambda>x. kf x = kf e) es = Some e)"
  using assms(4)
proof (induction es rule: rev_induct)
  case Nil
  then show ?case using tree_ok_create [of T] assms(2)
    by (auto simp: run_inserts_def T_def shallow_def intro!: exI [of _ "GL (g 0) []"])
next
  case (snoc e es)
  then obtain s t where IH: "run_inserts T es = Some (Inr s)" "tree_ok T s t" "shallow c t" "gcount t \<le> length es"
    "\<forall>e. e \<in> gset t \<longleftrightarrow> List.find (\<lambda>x. kf x = kf e) es = Some e" by auto
  have "room c t" using shallow_room [OF IH(3)] IH(4) snoc.prems by simp
  then obtain path s' where ins: "btree_insert T e s = Some (Inr (path, s'))"
    and st: "if \<exists>e' \<in> gset t. kf e' = kf e then \<not> tp_on path \<and> s' = s
       else tp_on path \<and> (\<exists>t'. tree_ok T s' t' \<and> grown c e t t')"
    using dflt.btree_insert_correct [unfolded default_tree_simps, OF IH(2) [unfolded T_def] assms(3), of e, folded T_def] by blast
  have run: "run_inserts T (es @ [e]) = Some (Inr s')" using IH(1) ins by (simp add: run_inserts_def insert_step_def)
  have known: "(\<exists>e' \<in> gset t. kf e' = kf e) \<longleftrightarrow> List.find (\<lambda>x. kf x = kf e) es \<noteq> None"
  proof
    assume "List.find (\<lambda>x. kf x = kf e) es \<noteq> None"
    then obtain y where y: "List.find (\<lambda>x. kf x = kf e) es = Some y" by auto
    then have "kf y = kf e" by (auto simp: find_Some_iff)
    then show "\<exists>e' \<in> gset t. kf e' = kf e" using y IH(5) by (intro bexI [of _ y]) auto
  qed (use IH(5) in auto)
  show ?case
  proof (cases "\<exists>e' \<in> gset t. kf e' = kf e")
    case True
    then have "e' \<in> gset t \<longleftrightarrow> List.find (\<lambda>x. kf x = kf e') (es @ [e]) = Some e'" for e'
      using IH(5) known by (auto simp: find_snoc split: option.splits)
    then show ?thesis using run st True IH by auto
  next
    case False
    then obtain t' where t': "tree_ok T s' t'" "gset t' = insert e (gset t)" "gcount t' = Suc (gcount t)" "shallow c t'"
      using st IH(3) unfolding shallow_def grown_def by (metis zero_less_one)
    have "e' \<in> gset t' \<longleftrightarrow> List.find (\<lambda>x. kf x = kf e') (es @ [e]) = Some e'" for e'
      using IH(5) known False t'(2) by (auto simp: find_snoc split: option.splits)
    then show ?thesis using run t' IH(4) by auto
  qed
qed

text \<open>C23. A tree over the default comparator is a map until its root branch can fill: after at most
  \<open>c * (c div 2)\<close> insertions into a new tree of node capacity \<open>c\<close> (2048 at \<open>NodeCapacity\<close>), in any order
  and with repeated keys, every insertion has returned, and a lookup returns the first entry that was inserted
  under the key, or nothing.\<close>
theorem btree_is_a_map:
  fixes kf :: "'e \<Rightarrow> 'k :: linorder"
  assumes "inj g" and "2 \<le> c" and "length es \<le> c * (c div 2)"
  shows "\<exists>s. run_inserts (default_tree kf c g) es = Some (Inr s)
    \<and> (\<forall>k. btree_get (default_tree kf c g) k s = Some (Inr (List.find (\<lambda>e. kf e = k) es)))"
proof -
  obtain s t where r: "run_inserts (default_tree kf c g) es = Some (Inr s)" "tree_ok (default_tree kf c g) s t"
    "\<forall>e. e \<in> gset t \<longleftrightarrow> List.find (\<lambda>x. kf x = kf e) es = Some e"
    using run_inserts_shallow [OF assms, of kf] by blast
  have "btree_get (default_tree kf c g) k s = Some (Inr (List.find (\<lambda>e. kf e = k) es))" for k
  proof -
    obtain x where x: "btree_get (default_tree kf c g) k s = Some (Inr x)" "\<forall>e. x = Some e \<longleftrightarrow> e \<in> gset t \<and> kf e = k"
      using dflt.btree_get_correct [of s t kf c g k] r(2) by (auto simp: tree_ok_def)
    have "x = Some e \<longleftrightarrow> List.find (\<lambda>x. kf x = k) es = Some e" for e
      using x(2) r(3) by (auto simp: find_Some_iff)
    then have "x = List.find (\<lambda>e. kf e = k) es" by (metis option.exhaust)
    then show ?thesis using x(1) by simp
  qed
  then show ?thesis using r(1) by blast
qed

text \<open>Inserting into a well-formed tree, of any height, in which no branch is full: a key that is present
  leaves the tree as it is and is reported; a new key makes exactly that entry appear to later lookups, keeps
  every leaf at the same depth (or grows the tree from a leaf) and keeps the tree well formed.\<close>
theorem btree_insert_lookup:
  fixes kf :: "'e \<Rightarrow> 'k :: linorder"
  assumes "tree_ok (default_tree kf c g) s t" and "2 \<le> c" and "room c t"
  shows "\<exists>path s'. btree_insert (default_tree kf c g) e s = Some (Inr (path, s'))
    \<and> (if \<exists>x \<in> gset t. kf x = kf e then \<not> tp_on path \<and> s' = s
       else tp_on path \<and> (\<exists>t'. tree_ok (default_tree kf c g) s' t' \<and> (\<forall>h > 0. height_is h t \<longrightarrow> height_is h t'))
         \<and> (\<forall>k. btree_get (default_tree kf c g) k s'
               = (if k = kf e then Some (Inr (Some e)) else btree_get (default_tree kf c g) k s)))"
proof -
  let ?T = "default_tree kf c g"
  obtain path s' where ins: "btree_insert ?T e s = Some (Inr (path, s'))"
    and st: "if \<exists>x \<in> gset t. kf x = kf e then \<not> tp_on path \<and> s' = s
       else tp_on path \<and> (\<exists>t'. tree_ok ?T s' t' \<and> grown c e t t')"
    using dflt.btree_insert_correct [unfolded default_tree_simps, OF assms, of e] by blast
  have "\<forall>k. btree_get ?T k s' = (if k = kf e then Some (Inr (Some e)) else btree_get ?T k s)"
    if new: "\<not> (\<exists>x \<in> gset t. kf x = kf e)" and t': "tree_ok ?T s' t'" "gset t' = insert e (gset t)" for t'
  proof
    fix k
    obtain x where x: "btree_get ?T k s' = Some (Inr x)" "\<forall>e'. x = Some e' \<longleftrightarrow> e' \<in> gset t' \<and> kf e' = k"
      using dflt.btree_get_correct [of s' t' kf c g k] t'(1) by (auto simp: tree_ok_def)
    obtain y where y: "btree_get ?T k s = Some (Inr y)" "\<forall>e'. y = Some e' \<longleftrightarrow> e' \<in> gset t \<and> kf e' = k"
      using dflt.btree_get_correct [of s t kf c g k] assms(1) by (auto simp: tree_ok_def)
    have "x = (if k = kf e then Some e else y)" using x(2) y(2) t'(2) new by (cases x; cases y) auto
    then show "btree_get ?T k s' = (if k = kf e then Some (Inr (Some e)) else btree_get ?T k s)" using x(1) y(1) by simp
  qed
  then show ?thesis using ins st unfolding grown_def by (intro exI [of _ path] exI [of _ s']) (auto split: if_splits)
qed

section \<open>Dropping\<close>

fun gnode :: "('k, 'e) gtree \<Rightarrow> block_id \<times> ('k, 'e) tnode" where
  "gnode (GL i es) = (i, TLeaf es)"
| "gnode (GB i ps ts) = (i, TBranch ps (map gid ts))"

lemma tget_all_rep: "(\<And>t. t \<in> set ts \<Longrightarrow> rep s t) \<Longrightarrow> tget_all s (map gid ts) = Inr (map gnode ts)"
proof (induction ts)
  case (Cons t ts)
  have "tget s (Some (gid t)) = Inr (gnode t)" using Cons.prems [of t] by (cases t) (simp_all add: tget_def)
  then show ?case using Cons by simp
qed simp

definition without :: "block_id set \<Rightarrow> ('k, 'e) tstore \<Rightarrow> ('k, 'e) tstore" where
  "without ids s = s\<lparr>t_nodes := t_nodes s |` (- ids)\<rparr>"

lemma without_simps [simp]:
  "without {} s = s" "without a (without b s) = without (b \<union> a) s" "delete_node i s = without {i} s"
  by (simp_all add: without_def delete_node_def restrict_map_def fun_eq_iff)

lemma drop_nodeIds_rep:
  "(\<And>t. t \<in> set ts \<Longrightarrow> rep s t) \<Longrightarrow> distinct (concat (map gids ts))
   \<Longrightarrow> drop_nodeIds (map gnode ts) s = Some (Inr (without (set (concat (map gids ts))) s))"
proof (induction "size_list size ts" arbitrary: ts s rule: less_induct)
  case less
  show ?case
  proof (cases ts)
    case Nil
    then show ?thesis by (subst drop_nodeIds.simps) simp
  next
    case (Cons t rest)
    have rest: "drop_nodeIds (map gnode rest) (without (set (gids t)) s)
        = Some (Inr (without (set (concat (map gids ts))) s))"
    proof -
      have "rep (without (set (gids t)) s) u" if "u \<in> set rest" for u
      proof (rule rep_frame [of s])
        show "rep s u" using less.prems(1) that Cons by simp
        fix x assume "x \<in> set (gids u)"
        then have "x \<notin> set (gids t)" using less.prems(2) that Cons by auto
        then show "t_nodes (without (set (gids t)) s) x = t_nodes s x" by (simp add: without_def)
      qed
      then show ?thesis using less.hyps [of rest "without (set (gids t)) s"] less.prems(2) Cons by simp
    qed
    show ?thesis
    proof (cases t)
      case (GL i es)
      then show ?thesis using rest Cons by (subst drop_nodeIds.simps) simp
    next
      case (GB i ps us)
      have us: "\<And>u. u \<in> set us \<Longrightarrow> rep s u" "distinct (concat (map gids us))"
        using less.prems(1) [of t] less.prems(2) Cons GB by auto
      have "size_list size us < size_list size ts" using Cons GB by simp
      from less.hyps [OF this us] have "drop_nodeIds (map gnode us) s = Some (Inr (without (set (concat (map gids us))) s))" .
      then show ?thesis using rest Cons GB tget_all_rep [OF us(1)] by (subst drop_nodeIds.simps) simp
    qed
  qed
qed

text \<open>Dropping a tree that the store holds deletes the blocks of all its nodes and no other block.\<close>
theorem btree_drop_exact:
  assumes "tree_ok T s t"
  shows "btree_drop s = Some (Inr s') \<longleftrightarrow> s' = s\<lparr>t_nodes := t_nodes s |` (- set (gids t))\<rparr>"
proof -
  have "rep s t" "distinct (gids t)" "gid t = t_root s" using assms by (simp_all add: tree_ok_def)
  moreover from this(1,3) have "tget s (Some (t_root s)) = Inr (gnode t)" by (cases t) (auto simp: tget_def)
  ultimately have "btree_drop s = Some (Inr (without (set (gids t)) s))"
    using drop_nodeIds_rep [of "[t]" s] by (simp add: btree_drop_def)
  then show ?thesis by (auto simp: without_def)
qed

section \<open>Evaluation\<close>

lemma obind_weak_cong: "r = r' \<Longrightarrow> obind r f = obind r' f"
  by simp

lemma ebind_weak_cong: "r = r' \<Longrightarrow> ebind r f = ebind r' f"
  by simp

lemma splice_list_nat: "splice_list i d vs xs = take i xs @ vs @ drop (i + d) xs"
  by (simp add: splice_list_def js_splice_nat)

lemmas btree_eval = run_inserts_def insert_step_def btree_insert_def internalInsert_def internalInsertAt_def bump_version_def
  btree_find_def btree_get_def btree_create_def getPath.simps indexOfEntry_def indexOfKey_def indexOfEntry_loop.simps
  indexOfKey_loop.simps tget_def leafInsert_def newNode_def Let_def default_compare_def set_node_def spliceEntries_def
  leafEntries_def branchNodes_def branchPartitions_def spliceNodes_def splicePartitions_def nth_opt_def branchInsert_def
  btree_at_def validatePath_def getEntry_def splice_list_nat

definition unary_ids :: "nat \<Rightarrow> block_id" where
  "unary_ids n = replicate (Suc n) CHR ''b''"

lemma inj_unary_ids: "inj unary_ids"
  by (auto simp: inj_def unary_ids_def dest: arg_cong [where f = length])

text \<open>Past that size the tree loses entries. With a node capacity of 4, inserting eleven different keys
  into a new tree makes a branch split, after which two of the keys that were inserted are not found:
  \<open>branchInsert\<close> puts the new node into both halves of the branch it splits.\<close>
theorem btree_loses_entries:
  "obind (run_inserts (default_tree (\<lambda>x :: nat. x) 4 unary_ids) [27, 22, 26, 24, 13, 4, 2, 7, 9, 10, 18])
      (btree_get (default_tree (\<lambda>x. x) 4 unary_ids) 22) = Some (Inr None)"
  by (simp add: btree_eval unary_ids_def cong: obind_weak_cong ebind_weak_cong)

theorem btree_is_a_map_witness:
  "inj unary_ids \<and> (\<exists>s. run_inserts (default_tree (\<lambda>x :: nat. x) 4 unary_ids) [27, 22, 26, 24, 13, 22] = Some (Inr s)
     \<and> btree_get (default_tree (\<lambda>x. x) 4 unary_ids) 24 s = Some (Inr (Some 24))
     \<and> btree_get (default_tree (\<lambda>x. x) 4 unary_ids) 25 s = Some (Inr None))"
  using btree_is_a_map [OF inj_unary_ids, of 4 "[27, 22, 26, 24, 13, 22]" "\<lambda>x :: nat. x"] inj_unary_ids by auto

theorem btree_insert_lookup_witness:
  "\<exists>s'. tree_ok (default_tree (\<lambda>x :: nat. x) 4 unary_ids) (btree_create (default_tree (\<lambda>x. x) 4 unary_ids)) (GL (unary_ids 0) [])
     \<and> room 4 (GL (unary_ids 0) [] :: (nat, nat) gtree)
     \<and> btree_get (default_tree (\<lambda>x :: nat. x) 4 unary_ids) 7 s' = Some (Inr (Some 7))"
proof -
  let ?T = "default_tree (\<lambda>x :: nat. x) 4 unary_ids"
  have ok: "tree_ok ?T (btree_create ?T) (GL (unary_ids 0) [])"
    using tree_ok_create [of ?T] inj_unary_ids by simp
  from btree_insert_lookup [OF this, of 7] obtain s' where
    "\<forall>k. btree_get ?T k s' = (if k = 7 then Some (Inr (Some 7)) else btree_get ?T k (btree_create ?T))"
    by (simp del: all_simps ex_simps) blast
  then have "btree_get ?T 7 s' = Some (Inr (Some 7))" by simp
  then show ?thesis using ok by auto
qed

theorem btree_drop_exact_witness:
  "\<exists>s'. btree_drop (btree_create (default_tree (\<lambda>x :: nat. x) 4 unary_ids)) = Some (Inr s') \<and> t_nodes s' (unary_ids 0) = None"
proof -
  have "tree_ok (default_tree (\<lambda>x :: nat. x) 4 unary_ids) (btree_create (default_tree (\<lambda>x. x) 4 unary_ids)) (GL (unary_ids 0) [])"
    using tree_ok_create [of "default_tree (\<lambda>x :: nat. x) 4 unary_ids"] inj_unary_ids by simp
  from btree_drop_exact [OF this] show ?thesis by simp
qed

end
