(* ===== verification/Cluster_Record.thy ===== *)
theory Cluster_Record
  imports Complex_Main Action_Log "HOL-Library.List_Lexorder" "HOL-Library.Char_ord"
begin

text \<open>
  The record a cluster votes on and the rules every node computes on it:
  \<open>packages/db-core/src/cluster/structs.ts\<close> and \<open>membership.ts\<close>, \<open>clampPriority\<close> of
  \<open>packages/db-core/src/transaction/transaction.ts\<close>, \<open>packages/db-p2p/src/cluster/commit-cert.ts\<close>
  (\<open>buildCommitCert\<close>), and the pure helpers of \<open>packages/db-p2p/src/cluster/cluster-repo.ts\<close>
  (conflicts, race resolution, majorities, equivocation, merging).

  Vote maps are association lists by peer id. Hashing, key binding and signature verification are the
  functions of a \<open>crypto\<close> record, as are the canonical JSON texts they are computed from; the JSON text of
  a vote map sees it sorted by peer id. Thresholds are rationals, so that \<open>Math.ceil(n * t)\<close> is exact; the
  floating-point product of the source agrees with it for the default 0.75 and every dyadic threshold.
\<close>

section \<open>Votes\<close>

datatype signature =
    Approve (sig_of: string)
  | Reject (sig_of: string) "string option"
  | ConflictWith (sig_of: string) string

type_synonym votes = "(string \<times> signature) list"

fun sig_type :: "signature \<Rightarrow> string" where
  "sig_type (Approve s) = ''approve''"
| "sig_type (Reject s r) = ''reject''"
| "sig_type (ConflictWith s h) = ''conflict''"

fun is_approve :: "signature \<Rightarrow> bool" where
  "is_approve (Approve s) = True"
| "is_approve _ = False"

fun is_reject :: "signature \<Rightarrow> bool" where
  "is_reject (Reject s r) = True"
| "is_reject _ = False"

fun is_conflict :: "signature \<Rightarrow> bool" where
  "is_conflict (ConflictWith s h) = True"
| "is_conflict _ = False"

definition count_votes :: "(signature \<Rightarrow> bool) \<Rightarrow> votes \<Rightarrow> nat" where
  \<comment> \<open>\<open>Object.values(votes).filter(s => s.type === ...).length\<close>\<close>
  "count_votes P vs = length (filter (P \<circ> snd) vs)"

definition clusterVoteSigningPayload :: "string \<Rightarrow> string \<Rightarrow> string option \<Rightarrow> string" where
  "clusterVoteSigningPayload hash type extra =
     hash @ '':'' @ type @ (case extra of Some (c # cs) \<Rightarrow> '':'' @ c # cs | _ \<Rightarrow> [])"

fun clusterVoteVerificationPayload :: "string \<Rightarrow> signature \<Rightarrow> string" where
  "clusterVoteVerificationPayload hash (Reject s r) = clusterVoteSigningPayload hash ''reject'' r"
| "clusterVoteVerificationPayload hash (ConflictWith s h) = clusterVoteSigningPayload hash ''conflict'' (Some h)"
| "clusterVoteVerificationPayload hash (Approve s) = clusterVoteSigningPayload hash ''approve'' None"

section \<open>Messages\<close>

datatype jsnum = NaN | PosInf | NegInf | Num rat

definition MaxPriority :: nat where
  "MaxPriority = 8"

fun clampPriority :: "jsnum option \<Rightarrow> nat" where
  "clampPriority None = 0"
| "clampPriority (Some NaN) = 0"
| "clampPriority (Some NegInf) = 0"
| "clampPriority (Some PosInf) = MaxPriority"
| "clampPriority (Some (Num p)) = (if p \<le> 0 then 0 else if p \<ge> of_nat MaxPriority then MaxPriority else nat \<lfloor>p\<rfloor>)"

record 'y transaction =
  tr_priority :: "jsnum option"
  tr_body :: 'y

record invalidate_request =
  ir_invalidatedActionId :: action_id
  ir_invalidatedRev :: nat
  ir_blockIds :: "block_id list"
  ir_collectionId :: collection_id
  ir_resolution :: dispute_proof

datatype ('v, 'y) repo_operation =
    OpGet "block_id list" "action_context option"
  | OpPend "('v, 'y transaction) pend_request" "jsnum option"
  | OpCancel "block_id list" action_id
  | OpCommit commit_request
  | OpInvalidate invalidate_request

record ('v, 'y) message =
  mg_operations :: "('v, 'y) repo_operation list"
  mg_expiration :: "nat option"
  mg_coordinatingBlockIds :: "block_id list option"

record peer_info =
  pi_multiaddrs :: "string list"
  pi_publicKey :: string

record ('v, 'y) cluster_record =
  rc_messageHash :: string
  rc_peers :: "(string \<times> peer_info) list"
  rc_membershipVersion :: "nat option"
  rc_membershipDigest :: "string option"
  rc_message :: "('v, 'y) message"
  rc_coordinatingBlockIds :: "block_id list option"
  rc_promises :: votes
  rc_commits :: votes
  rc_suggestedClusterSize :: "nat option"
  rc_minRequiredSize :: "nat option"
  rc_disputed :: bool
  rc_disputeEvidence :: "(string list \<times> (string \<times> string) list) option"
  rc_networkSizeHint :: "nat option"
  rc_networkSizeConfidence :: "rat option"

section \<open>Hashes\<close>

record ('v, 'y) crypto =
  cy_messageText :: "('v, 'y) message \<Rightarrow> string"
  cy_votesText :: "votes \<Rightarrow> string"
  cy_idsText :: "string list \<Rightarrow> string"
  cy_sha58 :: "string \<Rightarrow> string"
  cy_sha64 :: "string \<Rightarrow> string"
  cy_decodeKey :: "string \<Rightarrow> string option"
  cy_binds :: "string \<Rightarrow> string \<Rightarrow> bool"
  cy_verify :: "string \<Rightarrow> string \<Rightarrow> string \<Rightarrow> bool option"

definition membershipDigest :: "('v, 'y) crypto \<Rightarrow> (string \<times> peer_info) list \<Rightarrow> string" where
  "membershipDigest K peers = cy_sha64 K (cy_idsText K (sort (map fst peers)))"

definition recordMembershipDigest :: "('v, 'y) cluster_record \<Rightarrow> string option" where
  "recordMembershipDigest r = (if rc_membershipVersion r = Some 2 then rc_membershipDigest r else None)"

definition digest_text :: "string option \<Rightarrow> string" where
  \<comment> \<open>\<open>digest ?? ''\<close>\<close>
  "digest_text d = (case d of Some t \<Rightarrow> t | None \<Rightarrow> [])"

definition computeClusterMessageHash :: "('v, 'y) crypto \<Rightarrow> ('v, 'y) message \<Rightarrow> string option \<Rightarrow> string" where
  "computeClusterMessageHash K m d = cy_sha58 K (cy_messageText K m @ digest_text d)"

definition computeClusterPromiseHash :: "('v, 'y) crypto \<Rightarrow> string \<Rightarrow> ('v, 'y) message \<Rightarrow> string option \<Rightarrow> string" where
  "computeClusterPromiseHash K h m d = cy_sha64 K (h @ cy_messageText K m @ digest_text d)"

definition computeClusterCommitHash :: "('v, 'y) crypto \<Rightarrow> string \<Rightarrow> ('v, 'y) message \<Rightarrow> votes \<Rightarrow> string option \<Rightarrow> string" where
  "computeClusterCommitHash K h m ps d =
     cy_sha64 K (h @ cy_messageText K m @ digest_text d @ cy_votesText K (sort_key fst ps))"

definition computePromiseHash :: "('v, 'y) crypto \<Rightarrow> ('v, 'y) cluster_record \<Rightarrow> string" where
  "computePromiseHash K r = computeClusterPromiseHash K (rc_messageHash r) (rc_message r) (recordMembershipDigest r)"

definition computeCommitHash :: "('v, 'y) crypto \<Rightarrow> ('v, 'y) cluster_record \<Rightarrow> string" where
  "computeCommitHash K r =
     computeClusterCommitHash K (rc_messageHash r) (rc_message r) (rc_promises r) (recordMembershipDigest r)"

section \<open>Counting\<close>

definition superMajority :: "rat \<Rightarrow> nat \<Rightarrow> nat" where
  \<comment> \<open>\<open>Math.ceil(peerCount * superMajorityThreshold)\<close>\<close>
  "superMajority t n = nat \<lceil>of_nat n * t\<rceil>"

definition DEFAULT_SUPER_MAJORITY_THRESHOLD :: rat where
  "DEFAULT_SUPER_MAJORITY_THRESHOLD = 3 / 4"

definition hasMajority :: "nat \<Rightarrow> nat \<Rightarrow> bool" where
  "hasMajority count peers \<longleftrightarrow> 2 * count > peers"

definition approvalCount :: "('v, 'y) cluster_record \<Rightarrow> nat" where
  "approvalCount r = count_votes is_approve (rc_promises r)"

section \<open>Conflicts\<close>

fun op_blockIds :: "('v, 'y) repo_operation \<Rightarrow> block_id list" where
  "op_blockIds (OpGet bs ctx) = bs"
| "op_blockIds (OpPend rq p) = blockIdsForTransforms (pr_transforms rq)"
| "op_blockIds (OpCommit rq) = cr_blockIds rq"
| "op_blockIds (OpCancel bs a) = bs"
| "op_blockIds (OpInvalidate rq) = ir_blockIds rq"

definition getAffectedBlockIds :: "('v, 'y) repo_operation list \<Rightarrow> block_id list" where
  "getAffectedBlockIds ops = js_set (concat (map op_blockIds ops))"

fun getActionId :: "('v, 'y) repo_operation list \<Rightarrow> action_id option" where
  "getActionId [] = None"
| "getActionId (OpPend rq p # ops) = Some (pr_actionId rq)"
| "getActionId (OpCommit rq # ops) = Some (cr_actionId rq)"
| "getActionId (OpCancel bs a # ops) = Some a"
| "getActionId (OpGet bs ctx # ops) = getActionId ops"
| "getActionId (OpInvalidate rq # ops) = getActionId ops"

definition operationsConflict :: "('v, 'y) repo_operation list \<Rightarrow> ('v, 'y) repo_operation list \<Rightarrow> bool" where
  \<comment> \<open>an empty action id is falsy\<close>
  "operationsConflict ops1 ops2 =
     (case (getActionId ops1, getActionId ops2) of
        (Some (c # cs), Some (d # ds)) \<Rightarrow>
          (if c # cs = d # ds then False
           else \<exists>b \<in> set (getAffectedBlockIds ops1). b \<in> set (getAffectedBlockIds ops2))
      | _ \<Rightarrow> \<exists>b \<in> set (getAffectedBlockIds ops1). b \<in> set (getAffectedBlockIds ops2))"

fun op_priority :: "('v, 'y) repo_operation list \<Rightarrow> nat" where
  "op_priority [] = 0"
| "op_priority (OpPend rq p # ops) =
     clampPriority (case Option.bind (pr_transaction rq) tr_priority of Some q \<Rightarrow> Some q | None \<Rightarrow> p)"
| "op_priority (_ # ops) = op_priority ops"

definition recordPriority :: "('v, 'y) cluster_record \<Rightarrow> nat" where
  "recordPriority r = op_priority (mg_operations (rc_message r))"

definition resolveRace :: "('v, 'y) cluster_record \<Rightarrow> ('v, 'y) cluster_record \<Rightarrow> bool" where
  \<comment> \<open>True for \<open>'keep-existing'\<close>\<close>
  "resolveRace existing incoming =
     (if approvalCount existing \<noteq> approvalCount incoming then approvalCount existing > approvalCount incoming
      else if recordPriority existing \<noteq> recordPriority incoming then recordPriority existing > recordPriority incoming
      else rc_messageHash existing > rc_messageHash incoming)"

section \<open>Merging two copies of a record\<close>

datatype penalty_reason = Equivocation | InvalidSignature | ConsensusTimeout

type_synonym penalty = "string \<times> penalty_reason \<times> string"

fun detectEquivocation_loop :: "votes \<Rightarrow> string \<Rightarrow> string \<Rightarrow> votes \<Rightarrow> votes \<Rightarrow> penalty list \<Rightarrow> votes \<times> penalty list" where
  "detectEquivocation_loop existing phase h [] merged ps = (merged, ps)"
| "detectEquivocation_loop existing phase h ((peer, sg) # rest) merged ps =
     (case map_of existing peer of
        Some old \<Rightarrow>
          detectEquivocation_loop existing phase h rest merged
            (if sig_type old \<noteq> sig_type sg
             then ps @ [(peer, Equivocation, phase @ '':'' @ h @ '':'' @ sig_type old @ ''->'' @ sig_type sg)] else ps)
      | None \<Rightarrow> detectEquivocation_loop existing phase h rest (AList.update peer sg merged) ps)"

definition detectEquivocation :: "votes \<Rightarrow> votes \<Rightarrow> string \<Rightarrow> string \<Rightarrow> votes \<times> penalty list" where
  "detectEquivocation existing incoming phase h = detectEquivocation_loop existing phase h incoming existing []"

definition peers_text :: "(string \<times> peer_info) list \<Rightarrow> (string \<times> peer_info) list" where
  \<comment> \<open>what the canonical JSON of a peer map depends on\<close>
  "peers_text ps = sort_key fst ps"

definition mergeRecords :: "('v, 'y) crypto \<Rightarrow> ('v, 'y) cluster_record \<Rightarrow> ('v, 'y) cluster_record
    \<Rightarrow> error + ('v, 'y) cluster_record \<times> penalty list" where
  "mergeRecords K existing incoming =
     (if rc_messageHash existing \<noteq> rc_messageHash incoming then Inl (Err ''Message hash mismatch'')
      else if cy_messageText K (rc_message existing) \<noteq> cy_messageText K (rc_message incoming)
      then Inl (Err ''Message content mismatch'')
      else if (if rc_membershipVersion existing = Some 2 \<or> rc_membershipVersion incoming = Some 2
               then rc_membershipVersion existing \<noteq> rc_membershipVersion incoming
                    \<or> rc_membershipDigest existing \<noteq> rc_membershipDigest incoming
               else peers_text (rc_peers existing) \<noteq> peers_text (rc_peers incoming))
      then Inl (Err ''Peers mismatch'')
      else (case (detectEquivocation (rc_promises existing) (rc_promises incoming) ''promise'' (rc_messageHash existing),
                  detectEquivocation (rc_commits existing) (rc_commits incoming) ''commit'' (rc_messageHash existing)) of
              ((ps, p1), (cs, p2)) \<Rightarrow> Inr (existing\<lparr>rc_promises := ps, rc_commits := cs\<rparr>, p1 @ p2)))"

section \<open>Commit certificates\<close>

record commit_cert =
  cc_thresholdSig :: "string list"
  cc_signers :: "string list"
  cc_minSigs :: nat
  cc_signedPayload :: string

definition buildCommitCert :: "('v, 'y) cluster_record \<Rightarrow> nat \<Rightarrow> string \<Rightarrow> commit_cert" where
  \<comment> \<open>the concatenated signatures are kept as the list of their base64url texts\<close>
  "buildCommitCert r minSigs payload =
     (let approvals = sort_key fst (filter (is_approve \<circ> snd) (rc_commits r))
      in \<lparr>cc_thresholdSig = map (sig_of \<circ> snd) approvals, cc_signers = map fst approvals,
          cc_minSigs = minSigs, cc_signedPayload = payload\<rparr>)"

definition invalidationActionId :: "action_id \<Rightarrow> string \<Rightarrow> action_id" where
  "invalidationActionId a d = ''inv:'' @ a @ '':'' @ d"

section \<open>Priorities\<close>

lemma clampPriority_le: "clampPriority p \<le> MaxPriority"
proof (cases p)
  case (Some x)
  then show ?thesis by (cases x) (auto simp: MaxPriority_def of_nat_nat nat_le_iff floor_le_iff)
qed simp

lemma clampPriority_infinite: "clampPriority (Some PosInf) = MaxPriority" "clampPriority (Some NaN) = 0" "clampPriority (Some NegInf) = 0"
  by simp_all

section \<open>Votes and quorums\<close>

lemma update_new: "map_of vs k = None \<Longrightarrow> AList.update k v vs = vs @ [(k, v)]"
  by (induction vs) auto

lemma count_votes_append [simp]: "count_votes P (vs @ ws) = count_votes P vs + count_votes P ws"
  by (simp add: count_votes_def)

lemma count_votes_single [simp]: "count_votes P [(k, v)] = (if P v then 1 else 0)" "count_votes P [] = 0"
  by (simp_all add: count_votes_def)

lemma count_votes_total: "count_votes is_approve vs + count_votes is_reject vs + count_votes is_conflict vs = length vs"
proof (induction vs)
  case (Cons v vs)
  then show ?case by (cases v; cases "snd v") (simp_all add: count_votes_def)
qed simp

lemma count_votes_card:
  assumes "distinct (map fst vs)"
  shows "count_votes P vs = card {p. \<exists>sg. map_of vs p = Some sg \<and> P sg}"
proof -
  have "{p. \<exists>sg. map_of vs p = Some sg \<and> P sg} = fst ` set (filter (P \<circ> snd) vs)"
    using assms by (force simp: map_of_eq_Some_iff)
  moreover have "distinct (map fst (filter (P \<circ> snd) vs))" using assms by (simp add: distinct_map_filter)
  ultimately show ?thesis using distinct_card [of "map fst (filter (P \<circ> snd) vs)"] by (simp add: count_votes_def)
qed

lemma superMajority_default: "superMajority DEFAULT_SUPER_MAJORITY_THRESHOLD n = (3 * n + 3) div 4"
proof -
  define q where "q = (3 * n + 3) div 4"
  have "4 * q < 3 * n + 4" "3 * n \<le> 4 * q" by (simp_all add: q_def)
  then have "rat_of_nat (4 * q) < of_nat (3 * n + 4)" "rat_of_nat (3 * n) \<le> of_nat (4 * q)" by (simp_all only: of_nat_less_iff of_nat_le_iff)
  then have "\<lceil>of_nat n * (3 / 4 :: rat)\<rceil> = int q" by (intro ceiling_unique) simp_all
  then show ?thesis by (simp add: superMajority_def DEFAULT_SUPER_MAJORITY_THRESHOLD_def q_def)
qed

lemma superMajority_less_half:
  assumes "t > 1 / 2" and "n > 0"
  shows "2 * superMajority t n > n"
proof -
  have "of_nat n * t > of_nat n * (1 / 2)" using assms by (intro mult_strict_left_mono) simp_all
  then have "(of_nat n :: rat) < 2 * (of_nat n * t)" by simp
  also have "\<dots> \<le> 2 * of_int \<lceil>of_nat n * t\<rceil>" by simp
  finally have "int n < 2 * \<lceil>of_nat n * t\<rceil>" by (metis of_int_less_iff of_int_mult of_int_numeral of_int_of_nat_eq)
  then show ?thesis by (simp add: superMajority_def)
qed

definition voters :: "(signature \<Rightarrow> bool) \<Rightarrow> votes \<Rightarrow> string set" where
  "voters P vs = {p. \<exists>sg. map_of vs p = Some sg \<and> P sg}"

lemma voters_subset: "voters P vs \<subseteq> fst ` set vs"
  by (force simp: voters_def dest: map_of_SomeD)

lemma quorums_intersect:
  assumes "finite A" and "S \<subseteq> A" and "U \<subseteq> A" and "a \<le> card S" and "b \<le> card U"
  shows "a + b \<le> card A + card (S \<inter> U)"
proof -
  have "card S + card U = card (S \<union> U) + card (S \<inter> U)"
    using assms(1-3) by (intro card_Un_Int) (auto intro: finite_subset)
  moreover have "card (S \<union> U) \<le> card A" using assms(1-3) by (intro card_mono) auto
  ultimately show ?thesis using assms(4,5) by linarith
qed

end
