(* ===== verification/Cluster_Member.thy ===== *)
theory Cluster_Member
  imports Cluster_Record
begin

text \<open>
  A cluster member: \<open>packages/db-p2p/src/cluster/cluster-repo.ts\<close> (\<open>ClusterMember\<close>), with the in-memory
  transaction state store of \<open>memory-transaction-state-store.ts\<close> and the member's \<open>StorageRepo\<close>, which is
  the model of \<open>Storage_Repo\<close>.

  One delivery (\<open>update\<close>) is one step: the member serializes the deliveries of a transaction, and the
  clock \<open>now\<close> is read once per step. \<open>activeTransactions\<close> is an association list in insertion order. The
  validator, the cluster-view derivation, the reconcile callback, the invalidation sink and the certificate
  check are functions of the configuration; penalties, change events and captured commit certificates are
  appended to the state. What a step wrote before it threw stays written.
\<close>

section \<open>Configuration and state\<close>

record expected_view =
  ev_peers :: "string list"
  ev_confidence :: rat

record ('v, 'y) member_cfg =
  cf_id :: string
  cf_crypto :: "('v, 'y) crypto"
  cf_sign :: "string \<Rightarrow> string"
  cf_threshold :: rat
  cf_minAbsoluteClusterSize :: nat
  cf_clusterSizeTolerance :: rat
  cf_membershipAdmissionFraction :: jsnum
  cf_assumedClusterSize :: "nat option"
  cf_allowUnvalidatedSmallCluster :: bool
  cf_deriveExpectedCluster :: "(block_id \<Rightarrow> expected_view option) option"
  cf_validator :: "('y transaction \<Rightarrow> string \<Rightarrow> validation_result) option"
  cf_storage :: "block_id \<Rightarrow> 'v block_storage"
  cf_validatePend :: "('y transaction \<Rightarrow> string \<Rightarrow> validation_result) option"
  cf_stateStore :: bool
  cf_reconcileBlock :: "(block_id \<Rightarrow> action_rev \<Rightarrow> string list \<Rightarrow> 'v repo \<Rightarrow> 'v repo) option"
  cf_onCommitCertificate :: bool
  cf_verifyInvalidation :: "dispute_proof \<Rightarrow> action_id \<Rightarrow> block_id list \<Rightarrow> bool"
  cf_onInvalidate :: "(invalidate_request \<Rightarrow> 'v repo \<Rightarrow> bool \<times> 'v repo) option"

record ('v, 'y) transaction_state =
  ts_record :: "('v, 'y) cluster_record"
  ts_lastUpdate :: nat

record ('v, 'y) cluster_member =
  cm_active :: "(string \<times> ('v, 'y) transaction_state) list"
  cm_executed :: "(string \<times> nat) list"
  cm_appliedInvalidations :: "(string \<times> nat) list"
  cm_cleanupQueue :: "string list"
  cm_participants :: "(string \<times> ('v, 'y) transaction_state) list"
  cm_executedStore :: "(string \<times> nat) list"
  cm_repo :: "'v repo"
  cm_events :: "(nat \<times> change_event) list"
  cm_penalties :: "penalty list"
  cm_certs :: "(action_id \<times> commit_cert) list"

definition ExecutedTransactionTtlMs :: nat where
  "ExecutedTransactionTtlMs = 10 * 60 * 1000"

definition MaxPhaseSteps :: nat where
  "MaxPhaseSteps = 8"

definition wasTransactionExecuted :: "string \<Rightarrow> ('v, 'y) cluster_member \<Rightarrow> bool" where
  "wasTransactionExecuted h m \<longleftrightarrow> map_of (cm_executed m) h \<noteq> None"

definition wasTransactionExecutedAsync :: "('v, 'y) member_cfg \<Rightarrow> nat \<Rightarrow> string \<Rightarrow> ('v, 'y) cluster_member
    \<Rightarrow> bool \<times> ('v, 'y) cluster_member" where
  "wasTransactionExecutedAsync C now h m =
     (if map_of (cm_executed m) h \<noteq> None then (True, m)
      else if \<not> cf_stateStore C then (False, m)
      else if map_of (cm_executedStore m) h \<noteq> None
      then (True, m\<lparr>cm_executed := AList.update h now (cm_executed m)\<rparr>)
      else (False, m))"

definition clearTransaction :: "('v, 'y) member_cfg \<Rightarrow> string \<Rightarrow> ('v, 'y) cluster_member \<Rightarrow> ('v, 'y) cluster_member" where
  "clearTransaction C h m =
     (case map_of (cm_active m) h of
        None \<Rightarrow> m
      | Some st \<Rightarrow> m\<lparr>cm_active := AList.delete h (cm_active m),
                       cm_participants := (if cf_stateStore C then AList.delete h (cm_participants m) else cm_participants m)\<rparr>)"

definition persistParticipantState :: "('v, 'y) member_cfg \<Rightarrow> nat \<Rightarrow> string \<Rightarrow> ('v, 'y) cluster_record
    \<Rightarrow> ('v, 'y) cluster_member \<Rightarrow> ('v, 'y) cluster_member" where
  "persistParticipantState C now h r m =
     (if cf_stateStore C
      then m\<lparr>cm_participants := AList.update h \<lparr>ts_record = r, ts_lastUpdate = now\<rparr> (cm_participants m)\<rparr> else m)"

definition dispose :: "('v, 'y) cluster_member \<Rightarrow> ('v, 'y) cluster_member" where
  "dispose m = m\<lparr>cm_active := [], cm_cleanupQueue := []\<rparr>"

section \<open>Validation of a record\<close>

datatype verify_outcome = Verified | Invalid bool

definition verifySignature :: "('v, 'y) crypto \<Rightarrow> ('v, 'y) cluster_record \<Rightarrow> string \<Rightarrow> string \<Rightarrow> signature \<Rightarrow> verify_outcome" where
  "verifySignature K r peer hash sg =
     (case map_of (rc_peers r) peer of
        None \<Rightarrow> Invalid False
      | Some info \<Rightarrow>
          if pi_publicKey info = [] then Invalid False
          else (case cy_decodeKey K (pi_publicKey info) of
                  None \<Rightarrow> Invalid False
                | Some key \<Rightarrow>
                    if \<not> cy_binds K peer key then Invalid False
                    else (case cy_verify K key (clusterVoteVerificationPayload hash sg) (sig_of sg) of
                            None \<Rightarrow> Invalid False
                          | Some ok \<Rightarrow> if ok then Verified else Invalid True)))"

fun validateVotes :: "('v, 'y) crypto \<Rightarrow> ('v, 'y) cluster_record \<Rightarrow> string \<Rightarrow> string \<Rightarrow> votes \<Rightarrow> error option \<times> penalty list" where
  "validateVotes K r phase hash [] = (None, [])"
| "validateVotes K r phase hash ((peer, sg) # vs) =
     (case verifySignature K r peer hash sg of
        Verified \<Rightarrow> validateVotes K r phase hash vs
      | Invalid penalize \<Rightarrow>
          (Some (Err (''Invalid '' @ phase @ '' signature from '' @ peer)),
           if penalize then [(peer, InvalidSignature, phase @ '':'' @ rc_messageHash r)] else []))"

definition validateSignatures :: "('v, 'y) crypto \<Rightarrow> ('v, 'y) cluster_record \<Rightarrow> error option \<times> penalty list" where
  "validateSignatures K r =
     (case validateVotes K r ''promise'' (computePromiseHash K r) (rc_promises r) of
        (Some e, ps) \<Rightarrow> (Some e, ps)
      | (None, _) \<Rightarrow> validateVotes K r ''commit'' (computeCommitHash K r) (rc_commits r))"

definition expired :: "nat option \<Rightarrow> nat \<Rightarrow> bool" where
  \<comment> \<open>\<open>expiration && expiration < now\<close>\<close>
  "expired e now = (case e of None \<Rightarrow> False | Some t \<Rightarrow> t \<noteq> 0 \<and> t < now)"

definition validateRecord :: "('v, 'y) crypto \<Rightarrow> nat \<Rightarrow> ('v, 'y) cluster_record \<Rightarrow> error option \<times> penalty list" where
  "validateRecord K now r =
     (if rc_membershipVersion r \<noteq> None \<and> rc_membershipVersion r \<noteq> Some 1 \<and> rc_membershipVersion r \<noteq> Some 2
      then (Some (Err ''Unsupported membershipVersion''), [])
      else if rc_membershipVersion r = Some 2 \<and> Some (membershipDigest K (rc_peers r)) \<noteq> rc_membershipDigest r
      then (Some (Err ''Membership digest mismatch''), [])
      else if computeClusterMessageHash K (rc_message r) (recordMembershipDigest r) \<noteq> rc_messageHash r
      then (Some (Err ''Message hash mismatch''), [])
      else (case validateSignatures K r of
              (Some e, ps) \<Rightarrow> (Some e, ps)
            | (None, _) \<Rightarrow> if expired (mg_expiration (rc_message r)) now then (Some (Err ''Transaction expired''), [])
                           else (None, [])))"

section \<open>Admission of the membership\<close>

definition MEMBERSHIP_NOT_ADMITTED :: string where
  "MEMBERSHIP_NOT_ADMITTED = ''membership-not-admitted''"

definition admissionFloor :: "('v, 'y) member_cfg \<Rightarrow> nat \<Rightarrow> nat" where
  "admissionFloor C k =
     max (cf_minAbsoluteClusterSize C)
         (case cf_membershipAdmissionFraction C of Num f \<Rightarrow> nat \<lceil>f * of_nat k\<rceil> | _ \<Rightarrow> 0)"

definition deriveExpectedClusterView :: "('v, 'y) member_cfg \<Rightarrow> ('v, 'y) cluster_record \<Rightarrow> expected_view option" where
  "deriveExpectedClusterView C r =
     (case (cf_deriveExpectedCluster C, rc_coordinatingBlockIds r) of
        (Some derive, Some (b # bs)) \<Rightarrow> derive b
      | _ \<Rightarrow> None)"

definition symmetricDifferenceSize :: "string list \<Rightarrow> string list \<Rightarrow> nat" where
  "symmetricDifferenceSize a b =
     length (filter (\<lambda>x. x \<notin> set b) (js_set a)) + length (filter (\<lambda>x. x \<notin> set a) (js_set b))"

definition admitMembership :: "('v, 'y) member_cfg \<Rightarrow> ('v, 'y) cluster_record \<Rightarrow> string option" where
  \<comment> \<open>the reason of a refusal\<close>
  "admitMembership C r =
     (let declared = map fst (rc_peers r)
      in if cf_id C \<notin> set declared then Some (MEMBERSHIP_NOT_ADMITTED @ '':self-not-member'')
         else if cf_allowUnvalidatedSmallCluster C then None
         else (case (case deriveExpectedClusterView C r of
                       Some v \<Rightarrow> if ev_confidence v > 1 / 2 \<and> length (ev_peers v) > 0 then Some (ev_peers v) else None
                     | None \<Rightarrow> None) of
                 None \<Rightarrow>
                   (case cf_assumedClusterSize C of
                      None \<Rightarrow> None
                    | Some a \<Rightarrow>
                        if length declared \<ge> admissionFloor C a then None
                        else Some (MEMBERSHIP_NOT_ADMITTED @ '':low-confidence-downsize (declared='' @ nat_str (length declared)
                               @ '', floor='' @ nat_str (admissionFloor C a) @ '', assumedClusterSize='' @ nat_str a @ '')''))
               | Some expected \<Rightarrow>
                   (let kEst = length expected
                    in if length declared < admissionFloor C kEst
                       then Some (MEMBERSHIP_NOT_ADMITTED @ '':below-floor (declared='' @ nat_str (length declared)
                              @ '', floor='' @ nat_str (admissionFloor C kEst) @ '', kEst='' @ nat_str kEst @ '')'')
                       else if int (symmetricDifferenceSize declared expected) > \<lceil>cf_clusterSizeTolerance C * of_nat kEst\<rceil>
                       then Some (MEMBERSHIP_NOT_ADMITTED @ '':inconsistent-with-derived-view'')
                       else None)))"

section \<open>Conflicts with held transactions\<close>

definition staleThresholdMs :: nat where
  "staleThresholdMs = 2000"

fun findConflict_loop :: "('v, 'y) member_cfg \<Rightarrow> nat \<Rightarrow> ('v, 'y) cluster_record \<Rightarrow> (string \<times> ('v, 'y) transaction_state) list
    \<Rightarrow> ('v, 'y) cluster_member \<Rightarrow> string option \<times> ('v, 'y) cluster_member" where
  "findConflict_loop C now r [] m = (None, m)"
| "findConflict_loop C now r ((h, st) # rest) m =
     (if h = rc_messageHash r then findConflict_loop C now r rest m
      else if now > ts_lastUpdate st + staleThresholdMs then findConflict_loop C now r rest (clearTransaction C h m)
      else if operationsConflict (mg_operations (rc_message (ts_record st))) (mg_operations (rc_message r)) then
        (if resolveRace (ts_record st) r then (Some h, m)
         else findConflict_loop C now r rest (clearTransaction C h m))
      else findConflict_loop C now r rest m)"

definition findConflict :: "('v, 'y) member_cfg \<Rightarrow> nat \<Rightarrow> ('v, 'y) cluster_record \<Rightarrow> ('v, 'y) cluster_member
    \<Rightarrow> string option \<times> ('v, 'y) cluster_member" where
  "findConflict C now r m = findConflict_loop C now r (cm_active m) m"

section \<open>The phase of a record\<close>

datatype phase =
    Promising | OurPromiseNeeded | OurConflictVoteNeeded string | OurCommitNeeded
  | Consensus | Rejected | ConflictSuperseded | Propagating

definition getTransactionPhase :: "('v, 'y) member_cfg \<Rightarrow> nat \<Rightarrow> ('v, 'y) cluster_record \<Rightarrow> ('v, 'y) cluster_member
    \<Rightarrow> phase \<times> ('v, 'y) cluster_member" where
  "getTransactionPhase C now r m =
     (let peerCount = length (rc_peers r);
          sm = superMajority (cf_threshold C) peerCount;
          maxAllowedRejections = int peerCount - int sm;
          rejectedPromises = count_votes is_reject (rc_promises r);
          conflictPromises = count_votes is_conflict (rc_promises r);
          approvedPromises = count_votes is_approve (rc_promises r)
      in if int rejectedPromises > maxAllowedRejections \<or> hasMajority (count_votes is_reject (rc_commits r)) peerCount
         then (Rejected, m)
         else if conflictPromises > 0 \<and> int (rejectedPromises + conflictPromises) > maxAllowedRejections
         then (ConflictSuperseded, m)
         else if map_of (rc_promises r) (cf_id C) = None then
           (case findConflict C now r m of
              (Some h, m') \<Rightarrow> (OurConflictVoteNeeded h, m')
            | (None, m') \<Rightarrow> (OurPromiseNeeded, m'))
         else if approvedPromises \<ge> sm \<and> map_of (rc_commits r) (cf_id C) = None then (OurCommitNeeded, m)
         else if length (rc_promises r) < peerCount \<and> approvedPromises < sm then (Promising, m)
         else if hasMajority (count_votes is_approve (rc_commits r)) peerCount then (Consensus, m)
         else (Propagating, m))"

section \<open>Voting\<close>

fun staleness :: "nat \<Rightarrow> (block_id \<times> 'v get_result) list \<Rightarrow> block_id list \<Rightarrow> string option" where
  \<comment> \<open>the loop over the blocks of a pend\<close>
  "staleness asked results [] = None"
| "staleness asked results (b # bs) =
     (case map_of results b of
        None \<Rightarrow> staleness asked results bs
      | Some res \<Rightarrow>
          if gr_unavailable res then Some (''block '' @ b @ '' unavailable (unmaterializable): cannot verify revision'')
          else (case gr_latest res of
                  Some l \<Rightarrow> if ar_rev l \<ge> asked
                            then Some (''stale revision: block '' @ b @ '' at rev '' @ nat_str (ar_rev l) @ '', requested rev '' @ nat_str asked)
                            else staleness asked results bs
                | None \<Rightarrow> staleness asked results bs))"

definition run_validator :: "('y transaction \<Rightarrow> string \<Rightarrow> validation_result) option \<Rightarrow> ('v, 'y transaction) pend_request
    \<Rightarrow> validation_result" where
  "run_validator v rq =
     (case (v, pr_transaction rq, pr_operationsHash rq) of
        (Some v, Some tx, Some (c # cs)) \<Rightarrow> v tx (c # cs)
      | _ \<Rightarrow> \<lparr>vr_valid = True, vr_reason = None\<rparr>)"

fun validatePendOperations :: "('v, 'y) member_cfg \<Rightarrow> ('v, 'y) repo_operation list \<Rightarrow> ('v, 'y) cluster_member
    \<Rightarrow> (error + validation_result) \<times> ('v, 'y) cluster_member" where
  "validatePendOperations C [] m = (Inr \<lparr>vr_valid = True, vr_reason = None\<rparr>, m)"
| "validatePendOperations C (OpPend rq p # ops) m =
     (case (case pr_rev rq of
              None \<Rightarrow> (Inr None, m)
            | Some asked \<Rightarrow>
                (case repo_get (cf_storage C) (blockIdsForTransforms (pr_transforms rq)) None (cm_repo m) of
                   (Inl e, evs, R) \<Rightarrow> (Inl (Err ''get failed''), m\<lparr>cm_repo := R, cm_events := cm_events m @ evs\<rparr>)
                 | (Inr results, evs, R) \<Rightarrow>
                     (Inr (staleness asked results (blockIdsForTransforms (pr_transforms rq))),
                      m\<lparr>cm_repo := R, cm_events := cm_events m @ evs\<rparr>))) of
        (Inl e, m') \<Rightarrow> (Inl e, m')
      | (Inr (Some reason), m') \<Rightarrow> (Inr \<lparr>vr_valid = False, vr_reason = Some reason\<rparr>, m')
      | (Inr None, m') \<Rightarrow>
          if vr_valid (run_validator (cf_validator C) rq) then validatePendOperations C ops m'
          else (Inr (run_validator (cf_validator C) rq), m'))"
| "validatePendOperations C (op # ops) m = validatePendOperations C ops m"

definition evaluatePromise :: "('v, 'y) member_cfg \<Rightarrow> ('v, 'y) cluster_record \<Rightarrow> ('v, 'y) cluster_member
    \<Rightarrow> (error + validation_result) \<times> ('v, 'y) cluster_member" where
  "evaluatePromise C r m =
     (case admitMembership C r of
        Some reason \<Rightarrow> (Inr \<lparr>vr_valid = False, vr_reason = Some reason\<rparr>, m)
      | None \<Rightarrow> validatePendOperations C (mg_operations (rc_message r)) m)"

definition add_promise :: "('v, 'y) member_cfg \<Rightarrow> signature \<Rightarrow> ('v, 'y) cluster_record \<Rightarrow> ('v, 'y) cluster_record" where
  "add_promise C sg r = r\<lparr>rc_promises := AList.update (cf_id C) sg (rc_promises r)\<rparr>"

definition signVote :: "('v, 'y) member_cfg \<Rightarrow> string \<Rightarrow> string \<Rightarrow> string option \<Rightarrow> string" where
  "signVote C hash type extra = cf_sign C (clusterVoteSigningPayload hash type extra)"

definition handlePromiseNeeded :: "('v, 'y) member_cfg \<Rightarrow> ('v, 'y) cluster_record \<Rightarrow> ('v, 'y) cluster_member
    \<Rightarrow> (error + ('v, 'y) cluster_record) \<times> ('v, 'y) cluster_member" where
  "handlePromiseNeeded C r m =
     (case evaluatePromise C r m of
        (Inl e, m') \<Rightarrow> (Inl e, m')
      | (Inr v, m') \<Rightarrow>
          (let hash = computePromiseHash (cf_crypto C) r;
               sg = (if vr_valid v then Approve (signVote C hash ''approve'' None)
                     else Reject (signVote C hash ''reject'' (vr_reason v)) (vr_reason v))
           in (Inr (add_promise C sg r), m')))"

definition handleConflictVoteNeeded :: "('v, 'y) member_cfg \<Rightarrow> ('v, 'y) cluster_record \<Rightarrow> string \<Rightarrow> ('v, 'y) cluster_record" where
  "handleConflictVoteNeeded C r conflictWith =
     add_promise C (ConflictWith (signVote C (computePromiseHash (cf_crypto C) r) ''conflict'' (Some conflictWith)) conflictWith) r"

definition handleCommitNeeded :: "('v, 'y) member_cfg \<Rightarrow> ('v, 'y) cluster_record \<Rightarrow> ('v, 'y) cluster_record" where
  "handleCommitNeeded C r =
     (if map_of (rc_commits r) (cf_id C) \<noteq> None then r
      else r\<lparr>rc_commits := AList.update (cf_id C)
               (Approve (signVote C (computeCommitHash (cf_crypto C) r) ''approve'' None)) (rc_commits r)\<rparr>)"

section \<open>Executing what the cluster agreed on\<close>

definition captureCommitCert :: "('v, 'y) member_cfg \<Rightarrow> ('v, 'y) cluster_record \<Rightarrow> action_id \<Rightarrow> ('v, 'y) cluster_member
    \<Rightarrow> ('v, 'y) cluster_member" where
  "captureCommitCert C r a m =
     (if cf_onCommitCertificate C
      then m\<lparr>cm_certs := cm_certs m @
             [(a, buildCommitCert r (superMajority (cf_threshold C) (length (rc_peers r)))
                    (clusterVoteSigningPayload (computeCommitHash (cf_crypto C) r) ''approve'' None))]\<rparr>
      else m)"

definition reconcileDivergentCommit :: "('v, 'y) member_cfg \<Rightarrow> ('v, 'y) cluster_record \<Rightarrow> commit_request
    \<Rightarrow> ('v, 'y) cluster_member \<Rightarrow> ('v, 'y) cluster_member" where
  \<comment> \<open>a failed or timed-out callback leaves the repository as the callback left it\<close>
  "reconcileDivergentCommit C r rq m =
     (let cohort = filter (\<lambda>i. i \<noteq> cf_id C) (map fst (rc_peers r))
      in case cf_reconcileBlock C of
           None \<Rightarrow> m
         | Some reconcile \<Rightarrow>
             if cohort = [] then m
             else m\<lparr>cm_repo := fold (\<lambda>b. reconcile b \<lparr>ar_actionId = cr_actionId rq, ar_rev = cr_rev rq\<rparr> cohort)
                      (cr_blockIds rq) (cm_repo m)\<rparr>)"

definition isMissingPendingActionError :: "error \<Rightarrow> bool" where
  \<comment> \<open>the one error text of \<open>StorageRepo.commit\<close> that the pattern matches\<close>
  "isMissingPendingActionError e \<longleftrightarrow> e = Err ''Pending action not found for block(s)''"

definition applyConsensusInvalidation :: "('v, 'y) member_cfg \<Rightarrow> nat \<Rightarrow> ('v, 'y) cluster_record \<Rightarrow> invalidate_request
    \<Rightarrow> ('v, 'y) cluster_member \<Rightarrow> ('v, 'y) cluster_member" where
  "applyConsensusInvalidation C now r rq m =
     (let dedupKey = ir_invalidatedActionId rq @ '':'' @ dp_disputeId (ir_resolution rq)
      in if map_of (cm_appliedInvalidations m) dedupKey \<noteq> None then m
         else if \<not> cf_verifyInvalidation C (ir_resolution rq) (ir_invalidatedActionId rq) (ir_blockIds rq) then m
         else (let m1 = captureCommitCert C r (invalidationActionId (ir_invalidatedActionId rq) (dp_disputeId (ir_resolution rq))) m
               in case cf_onInvalidate C of
                    None \<Rightarrow> m1
                  | Some sink \<Rightarrow>
                      (case sink rq (cm_repo m1) of
                         (True, R) \<Rightarrow> m1\<lparr>cm_repo := R, cm_appliedInvalidations := AList.update dedupKey now (cm_appliedInvalidations m1)\<rparr>
                       | (False, R) \<Rightarrow> m1\<lparr>cm_repo := R, cm_appliedInvalidations := AList.delete dedupKey (cm_appliedInvalidations m1)\<rparr>)))"

definition applyConsensusCommit :: "('v, 'y) member_cfg \<Rightarrow> ('v, 'y) cluster_record \<Rightarrow> commit_request \<Rightarrow> ('v, 'y) cluster_member
    \<Rightarrow> (error + unit) \<times> ('v, 'y) cluster_member" where
  "applyConsensusCommit C r rq m =
     (let m1 = captureCommitCert C r (cr_actionId rq) m
      in case repo_commit (cf_storage C) rq (cm_repo m1) of
           (res, evs, R) \<Rightarrow>
             (let m2 = m1\<lparr>cm_repo := R, cm_events := cm_events m1 @ evs\<rparr>
              in case res of
                   Inl e \<Rightarrow> if isMissingPendingActionError e then (Inr (), reconcileDivergentCommit C r rq m2) else (Inl e, m2)
                 | Inr CommitSuccess \<Rightarrow> (Inr (), m2)
                 | Inr (CommitStale missing staleAt) \<Rightarrow>
                     if missing \<noteq> [] then (Inr (), m2) else (Inl (Err ''Consensus commit failed''), m2)
                 | Inr (CommitFailed (MissingBaseRevision b baseRev)) \<Rightarrow> (Inr (), reconcileDivergentCommit C r rq m2)
                 | Inr (CommitFailed (Other e)) \<Rightarrow> (Inl (Err ''Consensus commit failed''), m2)))"

fun applyConsensusOperation :: "('v, 'y) member_cfg \<Rightarrow> nat \<Rightarrow> ('v, 'y) cluster_record \<Rightarrow> ('v, 'y) repo_operation
    \<Rightarrow> ('v, 'y) cluster_member \<Rightarrow> (error + unit) \<times> ('v, 'y) cluster_member" where
  "applyConsensusOperation C now r (OpGet bs ctx) m =
     (case repo_get (cf_storage C) bs ctx (cm_repo m) of
        (res, evs, R) \<Rightarrow> (case res of Inl e \<Rightarrow> Inl (Err ''get failed'') | Inr _ \<Rightarrow> Inr (),
                          m\<lparr>cm_repo := R, cm_events := cm_events m @ evs\<rparr>))"
| "applyConsensusOperation C now r (OpCancel bs a) m =
     (Inr (), m\<lparr>cm_repo := (cm_repo m)\<lparr>rp_blocks := repo_cancel bs a (rp_blocks (cm_repo m))\<rparr>\<rparr>)"
| "applyConsensusOperation C now r (OpPend rq p) m =
     (case repo_pend (cf_validatePend C) rq (rp_blocks (cm_repo m)) of
        (res, f) \<Rightarrow> (case res of Inl e \<Rightarrow> Inl e | Inr _ \<Rightarrow> Inr (), m\<lparr>cm_repo := (cm_repo m)\<lparr>rp_blocks := f\<rparr>\<rparr>))"
| "applyConsensusOperation C now r (OpCommit rq) m = applyConsensusCommit C r rq m"
| "applyConsensusOperation C now r (OpInvalidate rq) m = (Inr (), applyConsensusInvalidation C now r rq m)"

fun apply_all :: "('v, 'y) member_cfg \<Rightarrow> nat \<Rightarrow> ('v, 'y) cluster_record \<Rightarrow> ('v, 'y) repo_operation list
    \<Rightarrow> ('v, 'y) cluster_member \<Rightarrow> (error + unit) \<times> ('v, 'y) cluster_member" where
  "apply_all C now r [] m = (Inr (), m)"
| "apply_all C now r (op # ops) m =
     (case applyConsensusOperation C now r op m of
        (Inl e, m') \<Rightarrow> (Inl e, m')
      | (Inr _, m') \<Rightarrow> apply_all C now r ops m')"

definition markExecuted :: "('v, 'y) member_cfg \<Rightarrow> nat \<Rightarrow> string \<Rightarrow> ('v, 'y) cluster_member \<Rightarrow> ('v, 'y) cluster_member" where
  "markExecuted C now h m =
     (if cf_stateStore C then m\<lparr>cm_executedStore := AList.update h now (cm_executedStore m)\<rparr> else m)"

definition handleConsensus :: "('v, 'y) member_cfg \<Rightarrow> nat \<Rightarrow> ('v, 'y) cluster_record \<Rightarrow> ('v, 'y) cluster_member
    \<Rightarrow> (error + unit) \<times> ('v, 'y) cluster_member" where
  "handleConsensus C now r m =
     (case wasTransactionExecutedAsync C now (rc_messageHash r) m of
        (True, m1) \<Rightarrow> (Inr (), m1)
      | (False, m1) \<Rightarrow>
          (let m2 = m1\<lparr>cm_executed := AList.update (rc_messageHash r) now (cm_executed m1)\<rparr>
           in case apply_all C now r (mg_operations (rc_message r)) m2 of
                (Inl e, m3) \<Rightarrow> (Inl e, m3\<lparr>cm_executed := AList.delete (rc_messageHash r) (cm_executed m3)\<rparr>)
              | (Inr _, m3) \<Rightarrow> (Inr (), markExecuted C now (rc_messageHash r) m3)))"

section \<open>Deliveries\<close>

fun phaseLoop :: "('v, 'y) member_cfg \<Rightarrow> nat \<Rightarrow> nat \<Rightarrow> bool \<Rightarrow> ('v, 'y) cluster_record \<Rightarrow> ('v, 'y) cluster_member
    \<Rightarrow> (error + bool \<times> ('v, 'y) cluster_record) \<times> ('v, 'y) cluster_member" where
  \<comment> \<open>the third argument counts the steps that are left of \<open>MaxPhaseSteps\<close>\<close>
  "phaseLoop C now 0 persist r m = (Inr (persist, r), m)"
| "phaseLoop C now (Suc left) persist r m =
     (case getTransactionPhase C now r m of
        (OurPromiseNeeded, m1) \<Rightarrow>
          (case handlePromiseNeeded C r m1 of
             (Inl e, m2) \<Rightarrow> (Inl e, m2)
           | (Inr r', m2) \<Rightarrow> phaseLoop C now left persist r' m2)
      | (OurConflictVoteNeeded h, m1) \<Rightarrow> phaseLoop C now left False (handleConflictVoteNeeded C r h) m1
      | (OurCommitNeeded, m1) \<Rightarrow> phaseLoop C now left False (handleCommitNeeded C r) m1
      | (Consensus, m1) \<Rightarrow>
          (case handleConsensus C now r m1 of
             (Inl e, m2) \<Rightarrow> (Inl e, m2)
           | (Inr _, m2) \<Rightarrow> (Inr (False, r), m2))
      | (Rejected, m1) \<Rightarrow> (Inr (False, r), m1)
      | (ConflictSuperseded, m1) \<Rightarrow> (Inr (False, r), m1)
      | (Propagating, m1) \<Rightarrow> (Inr (False, r), m1)
      | (Promising, m1) \<Rightarrow> (Inr (persist, r), m1))"

definition processUpdate :: "('v, 'y) member_cfg \<Rightarrow> nat \<Rightarrow> ('v, 'y) cluster_record \<Rightarrow> ('v, 'y) cluster_member
    \<Rightarrow> (error + ('v, 'y) cluster_record) \<times> ('v, 'y) cluster_member" where
  "processUpdate C now r m =
     (case validateRecord (cf_crypto C) now r of
        (Some e, ps) \<Rightarrow> (Inl e, m\<lparr>cm_penalties := cm_penalties m @ ps\<rparr>)
      | (None, _) \<Rightarrow>
          (case (case map_of (cm_active m) (rc_messageHash r) of
                   None \<Rightarrow> Inr (r, [])
                 | Some st \<Rightarrow> mergeRecords (cf_crypto C) (ts_record st) r) of
             Inl e \<Rightarrow> (Inl e, m)
           | Inr (current, ps) \<Rightarrow>
               (case phaseLoop C now MaxPhaseSteps True current (m\<lparr>cm_penalties := cm_penalties m @ ps\<rparr>) of
                  (Inl e, m') \<Rightarrow> (Inl e, m')
                | (Inr (True, r'), m') \<Rightarrow>
                    (Inr r', persistParticipantState C now (rc_messageHash r) r'
                      (m'\<lparr>cm_active := AList.update (rc_messageHash r) \<lparr>ts_record = r', ts_lastUpdate = now\<rparr> (cm_active m')\<rparr>))
                | (Inr (False, r'), m') \<Rightarrow> (Inr r', clearTransaction C (rc_messageHash r) m'))))"

record ('v, 'y) served_member =
  sv_member :: "('v, 'y) cluster_member"
  sv_pendingUpdates :: "(string \<times> (error + ('v, 'y) cluster_record)) list"
  sv_timers :: "(string \<times> nat) list"

definition fire_timers :: "nat \<Rightarrow> ('v, 'y) served_member \<Rightarrow> ('v, 'y) served_member" where
  \<comment> \<open>the timers of 100 ms that forget a finished update\<close>
  "fire_timers now s =
     s\<lparr>sv_pendingUpdates := filter (\<lambda>(h, res). \<not> (\<exists>(k, t) \<in> set (sv_timers s). k = h \<and> t \<le> now)) (sv_pendingUpdates s),
       sv_timers := filter (\<lambda>(k, t). t > now) (sv_timers s)\<rparr>"

definition member_update :: "('v, 'y) member_cfg \<Rightarrow> nat \<Rightarrow> ('v, 'y) cluster_record \<Rightarrow> ('v, 'y) served_member
    \<Rightarrow> (error + ('v, 'y) cluster_record) \<times> ('v, 'y) served_member" where
  \<comment> \<open>\<open>ClusterMember.update\<close>: a remembered update of the same hash is awaited first, and when it had failed the wait throws\<close>
  "member_update C now r s =
     (let s1 = fire_timers now s
      in case map_of (sv_pendingUpdates s1) (rc_messageHash r) of
           Some (Inl e) \<Rightarrow> (Inl e, s1)
         | _ \<Rightarrow>
             (case processUpdate C now r (sv_member s1) of
                (res, m) \<Rightarrow> (res, s1\<lparr>sv_member := m, sv_pendingUpdates := AList.update (rc_messageHash r) res (sv_pendingUpdates s1),
                                       sv_timers := sv_timers s1 @ [(rc_messageHash r, now + 100)]\<rparr>)))"

section \<open>Timers and recovery\<close>

definition handleExpiration :: "('v, 'y) member_cfg \<Rightarrow> string \<Rightarrow> ('v, 'y) cluster_member \<Rightarrow> ('v, 'y) cluster_member" where
  \<comment> \<open>the update that is then propagated to the peers is the new record\<close>
  "handleExpiration C h m =
     (case map_of (cm_active m) h of
        None \<Rightarrow> m
      | Some st \<Rightarrow>
          if map_of (rc_promises (ts_record st)) (cf_id C) \<noteq> None then m
          else (let reason = ''Transaction expired'';
                    sg = Reject (signVote C (computePromiseHash (cf_crypto C) (ts_record st)) ''reject'' (Some reason)) (Some reason)
                in m\<lparr>cm_active := AList.update h (st\<lparr>ts_record := add_promise C sg (ts_record st)\<rparr>) (cm_active m)\<rparr>))"

definition queueExpiredTransactions :: "('v, 'y) member_cfg \<Rightarrow> nat \<Rightarrow> ('v, 'y) cluster_member \<Rightarrow> ('v, 'y) cluster_member" where
  \<comment> \<open>\<open>x < now - ttl\<close>, without the truncated subtraction\<close>
  "queueExpiredTransactions C now m =
     (let fresh = (\<lambda>(k, t). \<not> t + ExecutedTransactionTtlMs < now)
      in m\<lparr>cm_cleanupQueue := cm_cleanupQueue m
             @ map fst (filter (\<lambda>(h, st). expired (mg_expiration (rc_message (ts_record st))) now) (cm_active m)),
           cm_executed := filter fresh (cm_executed m),
           cm_appliedInvalidations := filter fresh (cm_appliedInvalidations m),
           cm_executedStore := (if cf_stateStore C then filter fresh (cm_executedStore m) else cm_executedStore m)\<rparr>)"

fun cleanup_loop :: "('v, 'y) member_cfg \<Rightarrow> nat \<Rightarrow> string list \<Rightarrow> ('v, 'y) cluster_member \<Rightarrow> ('v, 'y) cluster_member" where
  "cleanup_loop C now [] m = m"
| "cleanup_loop C now (h # hs) m =
     (case (if h = [] then None else map_of (cm_active m) h) of
        None \<Rightarrow> cleanup_loop C now hs m
      | Some st \<Rightarrow>
          (case getTransactionPhase C now (ts_record st) m of
             (ph, m') \<Rightarrow> cleanup_loop C now hs
               (if ph \<noteq> Consensus \<and> ph \<noteq> Rejected then m'\<lparr>cm_active := AList.delete h (cm_active m')\<rparr> else m')))"

definition processCleanupQueue :: "('v, 'y) member_cfg \<Rightarrow> nat \<Rightarrow> ('v, 'y) cluster_member \<Rightarrow> ('v, 'y) cluster_member" where
  "processCleanupQueue C now m = cleanup_loop C now (cm_cleanupQueue m) (m\<lparr>cm_cleanupQueue := []\<rparr>)"

definition recoverTransactions :: "('v, 'y) member_cfg \<Rightarrow> nat \<Rightarrow> ('v, 'y) cluster_member \<Rightarrow> ('v, 'y) cluster_member" where
  "recoverTransactions C now m =
     (if \<not> cf_stateStore C then m
      else (let live = filter (\<lambda>(h, st). \<not> expired (mg_expiration (rc_message (ts_record st))) now) (cm_participants m)
            in m\<lparr>cm_executedStore := filter (\<lambda>(k, t). \<not> t + ExecutedTransactionTtlMs < now) (cm_executedStore m),
                 cm_participants := live,
                 cm_active := fold (\<lambda>(h, st). AList.update h st) live (cm_active m)\<rparr>))"

section \<open>What a delivery does to the votes\<close>

definition has_promise :: "('v, 'y) member_cfg \<Rightarrow> ('v, 'y) cluster_record \<Rightarrow> bool" where
  "has_promise C r \<longleftrightarrow> map_of (rc_promises r) (cf_id C) \<noteq> None"

definition has_commit :: "('v, 'y) member_cfg \<Rightarrow> ('v, 'y) cluster_record \<Rightarrow> bool" where
  "has_commit C r \<longleftrightarrow> map_of (rc_commits r) (cf_id C) \<noteq> None"

definition dead :: "('v, 'y) member_cfg \<Rightarrow> ('v, 'y) cluster_record \<Rightarrow> bool" where
  \<comment> \<open>the votes make the super-majority unreachable, or a majority refused to commit\<close>
  "dead C r \<longleftrightarrow>
     (let slack = int (length (rc_peers r)) - int (superMajority (cf_threshold C) (length (rc_peers r)))
      in int (count_votes is_reject (rc_promises r)) > slack
         \<or> hasMajority (count_votes is_reject (rc_commits r)) (length (rc_peers r))
         \<or> count_votes is_conflict (rc_promises r) > 0
           \<and> int (count_votes is_reject (rc_promises r) + count_votes is_conflict (rc_promises r)) > slack)"

definition promised :: "('v, 'y) member_cfg \<Rightarrow> ('v, 'y) cluster_record \<Rightarrow> bool" where
  "promised C r \<longleftrightarrow> superMajority (cf_threshold C) (length (rc_peers r)) \<le> count_votes is_approve (rc_promises r)"

lemma phase_facts:
  assumes "getTransactionPhase C now r m = (ph, m')"
  shows "ph = OurPromiseNeeded \<Longrightarrow> \<not> has_promise C r \<and> \<not> dead C r"
    and "ph = OurConflictVoteNeeded h \<Longrightarrow> \<not> has_promise C r \<and> \<not> dead C r"
    and "ph = OurCommitNeeded \<Longrightarrow> has_promise C r \<and> \<not> has_commit C r \<and> promised C r \<and> \<not> dead C r"
    and "ph = Rejected \<or> ph = ConflictSuperseded \<longleftrightarrow> dead C r"
    and "ph \<in> {Promising, Consensus, Propagating} \<Longrightarrow> has_promise C r \<and> (promised C r \<longrightarrow> has_commit C r)"
    and "ph = Consensus \<Longrightarrow> hasMajority (count_votes is_approve (rc_commits r)) (length (rc_peers r)) \<and> m' = m"
    and "ph = Promising \<Longrightarrow> \<not> promised C r \<and> m' = m"
  using assms
  by (auto simp: getTransactionPhase_def Let_def has_promise_def has_commit_def dead_def promised_def
      split: if_splits prod.splits option.splits)

lemma add_promise_simps [simp]:
  "rc_promises (add_promise C sg r) = AList.update (cf_id C) sg (rc_promises r)"
  "rc_commits (add_promise C sg r) = rc_commits r" "rc_messageHash (add_promise C sg r) = rc_messageHash r"
  "rc_peers (add_promise C sg r) = rc_peers r" "rc_message (add_promise C sg r) = rc_message r"
  by (simp_all add: add_promise_def)

lemma handlePromiseNeeded_Inr:
  "handlePromiseNeeded C r m = (Inr r', m') \<Longrightarrow> \<exists>sg. r' = add_promise C sg r \<and> \<not> is_conflict sg"
  by (auto simp: handlePromiseNeeded_def Let_def split: prod.splits sum.splits if_splits)

lemma handleCommitNeeded_new:
  "\<not> has_commit C r \<Longrightarrow> \<exists>sg. handleCommitNeeded C r = r\<lparr>rc_commits := rc_commits r @ [(cf_id C, Approve sg)]\<rparr>"
  unfolding handleCommitNeeded_def has_commit_def by (auto simp: update_new)

definition owed :: "('v, 'y) member_cfg \<Rightarrow> ('v, 'y) cluster_record \<Rightarrow> nat" where
  \<comment> \<open>how many votes the member can still add\<close>
  "owed C r = (if has_promise C r then 0 else 1) + (if has_commit C r then 0 else 1)"

lemma owed_promise [simp]: "\<not> has_promise C r \<Longrightarrow> owed C (add_promise C sg r) < owed C r"
  by (simp add: owed_def has_promise_def has_commit_def update_conv')

lemma owed_conflict: "\<not> has_promise C r \<Longrightarrow> owed C (handleConflictVoteNeeded C r h) < owed C r"
  unfolding handleConflictVoteNeeded_def by (rule owed_promise)

lemma owed_commit [simp]: "\<not> has_commit C r \<Longrightarrow> owed C (handleCommitNeeded C r) < owed C r"
  by (simp add: owed_def has_promise_def has_commit_def handleCommitNeeded_def update_conv')

lemma phaseLoop_fuel:
  assumes "owed C r < n" and "owed C r < k"
  shows "phaseLoop C now n persist r m = phaseLoop C now k persist r m"
  using assms
proof (induction n arbitrary: k persist r m)
  case (Suc n)
  then obtain k' where k: "k = Suc k'" by (cases k) auto
  obtain ph m1 where ph: "getTransactionPhase C now r m = (ph, m1)" by fastforce
  note facts = phase_facts [OF ph]
  show ?case
  proof (cases ph)
    case OurPromiseNeeded
    then have np: "\<not> has_promise C r" using facts(1) by simp
    have "phaseLoop C now n persist r' m2 = phaseLoop C now k' persist r' m2" if h: "handlePromiseNeeded C r m1 = (Inr r', m2)" for r' m2
    proof -
      obtain sg where "r' = add_promise C sg r" using handlePromiseNeeded_Inr [OF h] by blast
      then have "owed C r' < owed C r" using owed_promise [OF np] by simp
      then show ?thesis using Suc.prems k by (intro Suc.IH) simp_all
    qed
    then show ?thesis using ph OurPromiseNeeded k by (auto split: prod.splits sum.splits)
  next
    case (OurConflictVoteNeeded h)
    then have "owed C (handleConflictVoteNeeded C r h) < owed C r" using facts(2) owed_promise by (simp add: handleConflictVoteNeeded_def)
    then have "phaseLoop C now n False (handleConflictVoteNeeded C r h) m1 = phaseLoop C now k' False (handleConflictVoteNeeded C r h) m1"
      using Suc.prems k by (intro Suc.IH) simp_all
    then show ?thesis using ph OurConflictVoteNeeded k by simp
  next
    case OurCommitNeeded
    then have "owed C (handleCommitNeeded C r) < owed C r" using facts(3) owed_commit by simp
    then have "phaseLoop C now n False (handleCommitNeeded C r) m1 = phaseLoop C now k' False (handleCommitNeeded C r) m1"
      using Suc.prems k by (intro Suc.IH) simp_all
    then show ?thesis using ph OurCommitNeeded k by simp
  qed (use ph k in simp_all)
qed simp

definition extends :: "('v, 'y) member_cfg \<Rightarrow> ('v, 'y) cluster_record \<Rightarrow> ('v, 'y) cluster_record \<Rightarrow> bool" where
  \<comment> \<open>votes of this member were appended, nothing else changed\<close>
  "extends C r r' \<longleftrightarrow> (\<exists>ps cs. r' = r\<lparr>rc_promises := rc_promises r @ ps, rc_commits := rc_commits r @ cs\<rparr>
     \<and> fst ` set (ps @ cs) \<subseteq> {cf_id C})"

lemma extends_refl: "extends C r r"
  unfolding extends_def by (intro exI [of _ "[]"]) simp

lemma extends_trans: "extends C r r1 \<Longrightarrow> extends C r1 r2 \<Longrightarrow> extends C r r2"
proof -
  assume "extends C r r1" and "extends C r1 r2"
  then obtain ps cs ps' cs' where
    "r1 = r\<lparr>rc_promises := rc_promises r @ ps, rc_commits := rc_commits r @ cs\<rparr>" "fst ` set (ps @ cs) \<subseteq> {cf_id C}"
    "r2 = r1\<lparr>rc_promises := rc_promises r1 @ ps', rc_commits := rc_commits r1 @ cs'\<rparr>" "fst ` set (ps' @ cs') \<subseteq> {cf_id C}"
    unfolding extends_def by blast
  then show "extends C r r2" unfolding extends_def by (intro exI [of _ "ps @ ps'"] exI [of _ "cs @ cs'"]) auto
qed

lemma extends_promise: "\<not> has_promise C r \<Longrightarrow> extends C r (add_promise C sg r)"
  unfolding extends_def has_promise_def
  by (intro exI [of _ "[(cf_id C, sg)]"] exI [of _ "[]"]) (simp add: add_promise_def update_new)

lemma extends_commit: "\<not> has_commit C r \<Longrightarrow> extends C r (handleCommitNeeded C r)"
proof -
  assume "\<not> has_commit C r"
  then obtain sg where "handleCommitNeeded C r = r\<lparr>rc_commits := rc_commits r @ [(cf_id C, Approve sg)]\<rparr>"
    using handleCommitNeeded_new by blast
  then show ?thesis unfolding extends_def by (intro exI [of _ "[]"] exI [of _ "[(cf_id C, Approve sg)]"]) simp
qed

lemma extends_conflict: "\<not> has_promise C r \<Longrightarrow> extends C r (handleConflictVoteNeeded C r h)"
  unfolding handleConflictVoteNeeded_def by (rule extends_promise)

definition settled :: "('v, 'y) member_cfg \<Rightarrow> ('v, 'y) cluster_record \<Rightarrow> bool" where
  \<comment> \<open>the member owes no vote: the record is dead, or it has promised, and committed when a
      super-majority promised\<close>
  "settled C r \<longleftrightarrow> dead C r \<or> has_promise C r \<and> (promised C r \<longrightarrow> has_commit C r)"

lemma phaseLoop_result:
  assumes "phaseLoop C now n persist r m = (Inr (persist', r'), m')" and "owed C r < n"
  shows "extends C r r' \<and> settled C r' \<and> (persist' \<longrightarrow> persist \<and> \<not> promised C r')"
  using assms
proof (induction n arbitrary: persist r m)
  case (Suc n)
  obtain ph m1 where ph: "getTransactionPhase C now r m = (ph, m1)" by fastforce
  note facts = phase_facts [OF ph]
  show ?case
  proof (cases ph)
    case OurPromiseNeeded
    then have np: "\<not> has_promise C r" using facts(1) by simp
    obtain r1 m2 where h: "handlePromiseNeeded C r m1 = (Inr r1, m2)"
      using Suc.prems(1) ph OurPromiseNeeded by (auto split: prod.splits sum.splits)
    then obtain sg where sg: "r1 = add_promise C sg r" using handlePromiseNeeded_Inr by blast
    have "owed C r1 < n" using owed_promise [OF np, of sg] Suc.prems(2) sg by simp
    from Suc.IH [OF _ this, of persist m2] show ?thesis
      using Suc.prems(1) ph OurPromiseNeeded h extends_trans [OF extends_promise [OF np, of sg]] sg by simp
  next
    case (OurConflictVoteNeeded h)
    then have np: "\<not> has_promise C r" using facts(2) by simp
    have "owed C (handleConflictVoteNeeded C r h) < n"
      using owed_conflict [OF np, of h] Suc.prems(2) by simp
    from Suc.IH [OF _ this, of False m1] show ?thesis
      using Suc.prems(1) ph OurConflictVoteNeeded extends_trans [OF extends_conflict [OF np]] by auto
  next
    case OurCommitNeeded
    then have nc: "\<not> has_commit C r" using facts(3) by simp
    have "owed C (handleCommitNeeded C r) < n" using owed_commit [OF nc] Suc.prems(2) by simp
    from Suc.IH [OF _ this, of False m1] show ?thesis
      using Suc.prems(1) ph OurCommitNeeded extends_trans [OF extends_commit [OF nc]] by auto
  next
    case Promising
    then show ?thesis using Suc.prems(1) ph facts(5,7) extends_refl by (auto simp: settled_def)
  next
    case Consensus
    then show ?thesis using Suc.prems(1) ph facts(5) extends_refl by (auto simp: settled_def split: prod.splits sum.splits)
  next
    case Propagating
    then show ?thesis using Suc.prems(1) ph facts(5) extends_refl by (auto simp: settled_def)
  qed (use Suc.prems(1) ph facts(4) extends_refl in \<open>auto simp: settled_def\<close>)
qed simp

lemma owed_less_MaxPhaseSteps: "owed C r < MaxPhaseSteps"
  by (simp add: owed_def MaxPhaseSteps_def)

section \<open>What stays as it is\<close>

lemma clearTransaction_other [simp]:
  "cm_executed (clearTransaction C h m) = cm_executed m" "cm_executedStore (clearTransaction C h m) = cm_executedStore m"
  "cm_repo (clearTransaction C h m) = cm_repo m" "cm_penalties (clearTransaction C h m) = cm_penalties m"
  by (simp_all add: clearTransaction_def split: option.split)

lemma findConflict_loop_other:
  "findConflict_loop C now r sts m = (res, m') \<Longrightarrow> cm_executed m' = cm_executed m \<and> cm_executedStore m' = cm_executedStore m
     \<and> cm_repo m' = cm_repo m"
  by (induction sts arbitrary: m) (auto split: if_splits)

lemma getTransactionPhase_other:
  assumes "getTransactionPhase C now r m = (ph, m')"
  shows "cm_executed m' = cm_executed m" "cm_executedStore m' = cm_executedStore m" "cm_repo m' = cm_repo m"
  using assms findConflict_loop_other [of C now r "cm_active m" m]
  by (auto simp: getTransactionPhase_def Let_def findConflict_def split: if_splits prod.splits option.splits)

lemma validatePendOperations_other:
  "validatePendOperations C ops m = (res, m') \<Longrightarrow> cm_executed m' = cm_executed m \<and> cm_executedStore m' = cm_executedStore m
     \<and> cm_active m' = cm_active m"
proof (induction ops arbitrary: m)
  case (Cons op ops)
  show ?case
  proof (cases op)
    case (OpPend rq p)
    obtain x m1 where pre: "(case pr_rev rq of
              None \<Rightarrow> (Inr None, m)
            | Some asked \<Rightarrow>
                (case repo_get (cf_storage C) (blockIdsForTransforms (pr_transforms rq)) None (cm_repo m) of
                   (Inl e, evs, R) \<Rightarrow> (Inl (Err ''get failed''), m\<lparr>cm_repo := R, cm_events := cm_events m @ evs\<rparr>)
                 | (Inr results, evs, R) \<Rightarrow>
                     (Inr (staleness asked results (blockIdsForTransforms (pr_transforms rq))),
                      m\<lparr>cm_repo := R, cm_events := cm_events m @ evs\<rparr>))) = (x, m1)" by fastforce
    then have "cm_executed m1 = cm_executed m \<and> cm_executedStore m1 = cm_executedStore m \<and> cm_active m1 = cm_active m"
      by (auto split: option.splits prod.splits sum.splits)
    moreover have "m' = m1 \<or> validatePendOperations C ops m1 = (res, m')"
      using Cons.prems pre by (cases x) (auto simp: OpPend split: option.splits if_splits)
    ultimately show ?thesis using Cons.IH [of m1] by auto
  qed (use Cons in auto)
qed simp

lemma handlePromiseNeeded_other:
  assumes "handlePromiseNeeded C r m = (res, m')"
  shows "cm_executed m' = cm_executed m" "cm_executedStore m' = cm_executedStore m" "cm_active m' = cm_active m"
  using assms validatePendOperations_other [of C "mg_operations (rc_message r)" m]
  by (auto simp: handlePromiseNeeded_def evaluatePromise_def Let_def split: option.splits prod.splits sum.splits)

lemma captureCommitCert_other [simp]:
  "cm_executed (captureCommitCert C r a m) = cm_executed m" "cm_executedStore (captureCommitCert C r a m) = cm_executedStore m"
  "cm_active (captureCommitCert C r a m) = cm_active m"
  by (simp_all add: captureCommitCert_def)

lemma reconcileDivergentCommit_other [simp]:
  "cm_executed (reconcileDivergentCommit C r rq m) = cm_executed m"
  "cm_executedStore (reconcileDivergentCommit C r rq m) = cm_executedStore m"
  "cm_active (reconcileDivergentCommit C r rq m) = cm_active m"
  by (simp_all add: reconcileDivergentCommit_def Let_def split: option.split)

lemma applyConsensusInvalidation_other [simp]:
  "cm_executed (applyConsensusInvalidation C now r rq m) = cm_executed m"
  "cm_executedStore (applyConsensusInvalidation C now r rq m) = cm_executedStore m"
  "cm_active (applyConsensusInvalidation C now r rq m) = cm_active m"
  by (simp_all add: applyConsensusInvalidation_def Let_def split: option.split prod.split bool.split)

lemma applyConsensusOperation_other:
  "applyConsensusOperation C now r op m = (res, m')
   \<Longrightarrow> cm_executed m' = cm_executed m \<and> cm_executedStore m' = cm_executedStore m \<and> cm_active m' = cm_active m"
  by (cases op) (auto simp: applyConsensusCommit_def Let_def split: prod.splits sum.splits commit_result.splits repo_error.splits if_splits)

lemma apply_all_other:
  "apply_all C now r ops m = (res, m')
   \<Longrightarrow> cm_executed m' = cm_executed m \<and> cm_executedStore m' = cm_executedStore m \<and> cm_active m' = cm_active m"
proof (induction ops arbitrary: m)
  case (Cons op ops)
  obtain x m1 where op: "applyConsensusOperation C now r op m = (x, m1)" by fastforce
  show ?case using Cons applyConsensusOperation_other [OF op] op by (cases x) auto
qed simp

section \<open>Properties of a delivery\<close>

lemma detectEquivocation_loop_map:
  assumes "detectEquivocation_loop existing phase h incoming merged ps = (vs, qs)"
  shows "map_of vs p = (case map_of existing p of
     Some sg \<Rightarrow> map_of merged p
   | None \<Rightarrow> (case map_of (rev incoming) p of Some sg \<Rightarrow> Some sg | None \<Rightarrow> map_of merged p))"
  using assms
proof (induction incoming arbitrary: merged ps)
  case (Cons v vs)
  obtain q sg where v: "v = (q, sg)" by fastforce
  show ?case
  proof (cases "map_of existing q")
    case None
    then show ?thesis using Cons v by (auto simp: update_conv' map_add_def split: option.splits)
  next
    case (Some old)
    then show ?thesis using Cons v by (auto simp: map_add_def split: option.splits)
  qed
qed (simp split: option.split)

lemma detectEquivocation_map:
  assumes "detectEquivocation existing incoming phase h = (vs, qs)"
  shows "map_of existing p = Some sg \<Longrightarrow> map_of vs p = Some sg"
    and "map_of vs p = Some sg \<Longrightarrow> map_of existing p = Some sg \<or> (p, sg) \<in> set incoming"
  using detectEquivocation_loop_map [OF assms [unfolded detectEquivocation_def], of p]
  by (auto split: option.splits dest: map_of_SomeD)

lemma mergeRecords_votes:
  assumes "mergeRecords K existing incoming = Inr (r, ps)"
  shows "map_of (rc_promises existing) p = Some sg \<Longrightarrow> map_of (rc_promises r) p = Some sg"
    and "map_of (rc_commits existing) p = Some sg \<Longrightarrow> map_of (rc_commits r) p = Some sg"
    and "map_of (rc_promises r) p = Some sg \<Longrightarrow> map_of (rc_promises existing) p = Some sg \<or> (p, sg) \<in> set (rc_promises incoming)"
    and "map_of (rc_commits r) p = Some sg \<Longrightarrow> map_of (rc_commits existing) p = Some sg \<or> (p, sg) \<in> set (rc_commits incoming)"
    and "rc_messageHash r = rc_messageHash existing" and "rc_messageHash existing = rc_messageHash incoming"
    and "rc_peers r = rc_peers existing"
  using assms detectEquivocation_map
  by (auto simp: mergeRecords_def split: if_splits prod.splits) blast+

lemma extends_votes:
  assumes "extends C r r'"
  shows "map_of (rc_promises r) p = Some sg \<Longrightarrow> map_of (rc_promises r') p = Some sg"
    and "map_of (rc_commits r) p = Some sg \<Longrightarrow> map_of (rc_commits r') p = Some sg"
    and "p \<noteq> cf_id C \<Longrightarrow> map_of (rc_promises r') p = map_of (rc_promises r) p"
    and "p \<noteq> cf_id C \<Longrightarrow> map_of (rc_commits r') p = map_of (rc_commits r) p"
    and "rc_messageHash r' = rc_messageHash r" and "rc_peers r' = rc_peers r"
proof -
  obtain ps cs where r': "r' = r\<lparr>rc_promises := rc_promises r @ ps, rc_commits := rc_commits r @ cs\<rparr>" "fst ` set (ps @ cs) \<subseteq> {cf_id C}"
    using assms unfolding extends_def by blast
  have none: "map_of ps p = None" "map_of cs p = None" if "p \<noteq> cf_id C"
    using r'(2) that by (auto simp: map_of_eq_None_iff)
  show "map_of (rc_promises r) p = Some sg \<Longrightarrow> map_of (rc_promises r') p = Some sg"
    and "map_of (rc_commits r) p = Some sg \<Longrightarrow> map_of (rc_commits r') p = Some sg"
    and "p \<noteq> cf_id C \<Longrightarrow> map_of (rc_promises r') p = map_of (rc_promises r) p"
    and "p \<noteq> cf_id C \<Longrightarrow> map_of (rc_commits r') p = map_of (rc_commits r) p"
    and "rc_messageHash r' = rc_messageHash r" and "rc_peers r' = rc_peers r"
    using none by (auto simp: r'(1) map_add_def split: option.splits)
qed

lemma processUpdate_Inr:
  assumes "processUpdate C now r m = (Inr r', m')"
  obtains current ps persist m1 where
    "(case map_of (cm_active m) (rc_messageHash r) of None \<Rightarrow> Inr (r, []) | Some st \<Rightarrow> mergeRecords (cf_crypto C) (ts_record st) r)
       = Inr (current, ps)"
    and "phaseLoop C now MaxPhaseSteps True current (m\<lparr>cm_penalties := cm_penalties m @ ps\<rparr>) = (Inr (persist, r'), m1)"
    and "validateRecord (cf_crypto C) now r = (None, [])"
    and "m' = (if persist then persistParticipantState C now (rc_messageHash r) r'
               (m1\<lparr>cm_active := AList.update (rc_messageHash r) \<lparr>ts_record = r', ts_lastUpdate = now\<rparr> (cm_active m1)\<rparr>)
               else clearTransaction C (rc_messageHash r) m1)"
proof -
  have v: "validateRecord (cf_crypto C) now r = (None, [])"
    using assms unfolding processUpdate_def
    by (auto simp: validateRecord_def split: prod.splits option.splits if_splits)
  show ?thesis using assms that unfolding processUpdate_def v
    by (auto split: prod.splits sum.splits bool.splits)
qed

text \<open>C24. Every delivery is answered. A delivery that does not throw returns a record to which the member owes no
  vote: the record is dead (a super-majority is out of reach, or a majority refused to commit), or the member's
  promise is in it, and its commit as soon as a super-majority promised. The loop over the phases has stopped by
  itself: it gives the same result with every bound of three steps or more as with the bound of the code.\<close>
theorem delivery_is_answered:
  assumes "processUpdate C now r m = (Inr r', m')"
  shows "settled C r' \<and> (\<forall>n persist q s. 3 \<le> n \<longrightarrow> phaseLoop C now n persist q s = phaseLoop C now MaxPhaseSteps persist q s)"
proof -
  obtain current ps persist m1 where "phaseLoop C now MaxPhaseSteps True current (m\<lparr>cm_penalties := cm_penalties m @ ps\<rparr>) = (Inr (persist, r'), m1)"
    using processUpdate_Inr [OF assms] by metis
  then have "settled C r'" using phaseLoop_result owed_less_MaxPhaseSteps by blast
  moreover have "phaseLoop C now n persist q s = phaseLoop C now MaxPhaseSteps persist q s" if "3 \<le> n" for n persist q s
    using that by (intro phaseLoop_fuel [OF _ owed_less_MaxPhaseSteps]) (simp add: owed_def)
  ultimately show ?thesis by blast
qed

text \<open>C7. A member never drops or changes a vote it has seen, and never makes up the vote of another peer: in the
  record a delivery returns, every vote of the held copy is unchanged, and every vote of another peer is one of
  the held copy or of the delivered record, whose signatures were all verified.\<close>
theorem votes_are_kept:
  assumes "processUpdate C now r m = (Inr r', m')" and "map_of (cm_active m) (rc_messageHash r) = Some st"
  shows "validateRecord (cf_crypto C) now r = (None, [])
    \<and> map_of (rc_promises (ts_record st)) \<subseteq>\<^sub>m map_of (rc_promises r')
    \<and> map_of (rc_commits (ts_record st)) \<subseteq>\<^sub>m map_of (rc_commits r')
    \<and> (\<forall>p sg. p \<noteq> cf_id C \<longrightarrow>
         (map_of (rc_promises r') p = Some sg \<longrightarrow> map_of (rc_promises (ts_record st)) p = Some sg \<or> (p, sg) \<in> set (rc_promises r))
       \<and> (map_of (rc_commits r') p = Some sg \<longrightarrow> map_of (rc_commits (ts_record st)) p = Some sg \<or> (p, sg) \<in> set (rc_commits r)))"
proof -
  obtain current ps persist m1 where mg: "mergeRecords (cf_crypto C) (ts_record st) r = Inr (current, ps)"
    and lp: "phaseLoop C now MaxPhaseSteps True current (m\<lparr>cm_penalties := cm_penalties m @ ps\<rparr>) = (Inr (persist, r'), m1)"
    and v: "validateRecord (cf_crypto C) now r = (None, [])"
    using processUpdate_Inr [OF assms(1)] assms(2) by (metis option.case(2))
  have ex: "extends C current r'" using phaseLoop_result [OF lp owed_less_MaxPhaseSteps] by simp
  have "map_of (rc_promises (ts_record st)) \<subseteq>\<^sub>m map_of (rc_promises r')" "map_of (rc_commits (ts_record st)) \<subseteq>\<^sub>m map_of (rc_commits r')"
    using mergeRecords_votes(1,2) [OF mg] extends_votes(1,2) [OF ex] unfolding map_le_def by (metis domIff not_None_eq)+
  moreover have "map_of (rc_promises (ts_record st)) p = Some sg \<or> (p, sg) \<in> set (rc_promises r)"
    if "p \<noteq> cf_id C" "map_of (rc_promises r') p = Some sg" for p sg
    using mergeRecords_votes(3) [OF mg, of p sg] extends_votes(3) [OF ex that(1)] that(2) by simp
  moreover have "map_of (rc_commits (ts_record st)) p = Some sg \<or> (p, sg) \<in> set (rc_commits r)"
    if "p \<noteq> cf_id C" "map_of (rc_commits r') p = Some sg" for p sg
    using mergeRecords_votes(4) [OF mg, of p sg] extends_votes(4) [OF ex that(1)] that(2) by simp
  ultimately show ?thesis using v by blast
qed

section \<open>Remembered updates\<close>

definition calm :: "('v, 'y) served_member \<Rightarrow> bool" where
  \<comment> \<open>no failed update is remembered\<close>
  "calm s \<longleftrightarrow> (\<forall>h e. (h, Inl e) \<notin> set (sv_pendingUpdates s))"

lemma calm_fire: "calm s \<Longrightarrow> calm (fire_timers now s)"
  by (auto simp: calm_def fire_timers_def)

lemma set_update_subset: "set (AList.update k v vs) \<subseteq> insert (k, v) (set vs)"
  by (induction vs) auto

lemma calm_lookup: "calm s \<Longrightarrow> map_of (sv_pendingUpdates (fire_timers now s)) h \<noteq> Some (Inl e)"
  using calm_fire [of s now] by (auto simp: calm_def dest: map_of_SomeD)

lemma member_update_calm:
  assumes "calm s" and "processUpdate C now r (sv_member s) = (Inr r', m)"
  shows "\<exists>s'. member_update C now r s = (Inr r', s') \<and> sv_member s' = m \<and> calm s'"
proof -
  have "sv_member (fire_timers now s) = sv_member s" by (simp add: fire_timers_def)
  moreover have "\<forall>h e. (h, Inl e) \<notin> set (AList.update (rc_messageHash r) (Inr r') (sv_pendingUpdates (fire_timers now s)))"
    using calm_fire [OF assms(1)] set_update_subset [of "rc_messageHash r" "Inr r'"] by (fastforce simp: calm_def)
  ultimately show ?thesis using assms calm_lookup [OF assms(1)]
    by (auto simp: member_update_def Let_def calm_def split: option.split sum.split)
qed

text \<open>What a coordinator relies on: as long as nothing fails, a delivery through the serialized entry point does what
  \<open>processUpdate\<close> does.\<close>
locale delivery_service =
  fixes deliver_to :: "('v, 'y) member_cfg \<Rightarrow> nat \<Rightarrow> ('v, 'y) cluster_record \<Rightarrow> 's \<Rightarrow> (error + ('v, 'y) cluster_record) \<times> 's"
    and view :: "'s \<Rightarrow> ('v, 'y) cluster_member"
    and ready :: "'s \<Rightarrow> bool"
  assumes transparent: "ready s \<Longrightarrow> processUpdate C now r (view s) = (Inr r', m)
    \<Longrightarrow> \<exists>s'. deliver_to C now r s = (Inr r', s') \<and> view s' = m \<and> ready s'"
begin

lemma two_deliveries:
  assumes "ready s" and "processUpdate C t1 r1 (view s) = (Inr q1, m1)" and "processUpdate C t2 r2 m1 = (Inr q2, m2)"
  shows "view (snd (deliver_to C t2 r2 (snd (deliver_to C t1 r1 s)))) = m2"
  using transparent [OF assms(1,2)] transparent [of _ C t2 r2 q2 m2] assms(3) by fastforce

lemma serves_all:
  assumes "\<And>p. p \<in> A \<Longrightarrow> ready (S p)" and "\<And>p. p \<in> A \<Longrightarrow> processUpdate (G p) now r (view (S p)) = (Inr (a p), m p)"
  shows "\<exists>S'. \<forall>p \<in> A. deliver_to (G p) now r (S p) = (Inr (a p), S' p) \<and> view (S' p) = m p \<and> ready (S' p)"
proof -
  have "\<forall>p. \<exists>s'. p \<in> A \<longrightarrow> deliver_to (G p) now r (S p) = (Inr (a p), s') \<and> view s' = m p \<and> ready s'"
    using transparent assms by metis
  then show ?thesis by metis
qed

end

interpretation srv: delivery_service member_update sv_member calm
  by unfold_locales (rule member_update_calm)

text \<open>A failed delivery is remembered for 100 ms, and every delivery of the same hash in this time fails with the same
  error, whatever it carries.\<close>
theorem failed_update_is_repeated:
  assumes "calm s" and "processUpdate C now r (sv_member s) = (Inl e, m)" and "sv_timers s = []"
    and "rc_messageHash q = rc_messageHash r" and "now' < now + 100"
  shows "fst (member_update C now' q (snd (member_update C now r s))) = Inl e
    \<and> sv_member (snd (member_update C now' q (snd (member_update C now r s)))) = m"
proof -
  have "snd (member_update C now r s) = s\<lparr>sv_member := m,
      sv_pendingUpdates := AList.update (rc_messageHash r) (Inl e) (sv_pendingUpdates s), sv_timers := [(rc_messageHash r, now + 100)]\<rparr>"
    using assms(2,3) calm_lookup [OF assms(1)] by (auto simp: member_update_def fire_timers_def Let_def split: option.split sum.split)
  then show ?thesis using assms(4,5) by (simp add: member_update_def fire_timers_def Let_def update_conv')
qed

section \<open>Execution\<close>

lemma handleConsensus_marker:
  assumes "handleConsensus C now r m = (res, m')" and "map_of (cm_executed m) h = None" and "map_of (cm_executedStore m) h = None"
    and "map_of (cm_executed m') h \<noteq> None"
  shows "h = rc_messageHash r \<and> res = Inr ()"
proof -
  obtain b m1 where ex: "wasTransactionExecutedAsync C now (rc_messageHash r) m = (b, m1)" by fastforce
  show ?thesis
  proof (cases b)
    case True
    then show ?thesis using assms ex by (auto simp: handleConsensus_def wasTransactionExecutedAsync_def update_conv' split: if_splits)
  next
    case False
    then have m1: "m1 = m" "map_of (cm_executed m) (rc_messageHash r) = None"
      using ex by (auto simp: wasTransactionExecutedAsync_def split: if_splits)
    obtain x m3 where ap: "apply_all C now r (mg_operations (rc_message r))
        (m\<lparr>cm_executed := AList.update (rc_messageHash r) now (cm_executed m)\<rparr>) = (x, m3)" by fastforce
    have m3: "cm_executed m3 = AList.update (rc_messageHash r) now (cm_executed m)" using apply_all_other [OF ap] by simp
    have "handleConsensus C now r m = (case x of Inl e \<Rightarrow> (Inl e, m3\<lparr>cm_executed := AList.delete (rc_messageHash r) (cm_executed m3)\<rparr>)
        | Inr _ \<Rightarrow> (Inr (), markExecuted C now (rc_messageHash r) m3))"
      using ex False ap m1(1) by (auto simp: handleConsensus_def split: sum.split)
    then show ?thesis using assms m3
      by (cases x) (auto simp: markExecuted_def update_conv' delete_conv' split: if_splits)
  qed
qed

lemma handleConsensus_again:
  assumes "map_of (cm_executed m) (rc_messageHash r) \<noteq> None"
  shows "handleConsensus C now r m = (Inr (), m)"
  using assms by (simp add: handleConsensus_def wasTransactionExecutedAsync_def)

lemma phaseLoop_executed:
  assumes "phaseLoop C now n persist r m = (res, m')" and "map_of (cm_executed m) h = None" and "map_of (cm_executedStore m) h = None"
    and "map_of (cm_executed m') h \<noteq> None"
  shows "h = rc_messageHash r \<and> (\<exists>r'. res = Inr (False, r') \<and> rc_messageHash r' = h
    \<and> hasMajority (count_votes is_approve (rc_commits r')) (length (rc_peers r')))"
  using assms
proof (induction n arbitrary: persist r m)
  case (Suc n)
  obtain ph m1 where ph: "getTransactionPhase C now r m = (ph, m1)" by fastforce
  note same = getTransactionPhase_other [OF ph]
  have pre: "map_of (cm_executed m1) h = None" "map_of (cm_executedStore m1) h = None" using same Suc.prems(2,3) by simp_all
  show ?case
  proof (cases ph)
    case OurPromiseNeeded
    obtain x m2 where h: "handlePromiseNeeded C r m1 = (x, m2)" by fastforce
    note same2 = handlePromiseNeeded_other [OF h]
    show ?thesis
    proof (cases x)
      case (Inl e)
      then show ?thesis using Suc.prems(1,4) ph OurPromiseNeeded h same2 pre by simp
    next
      case (Inr r1)
      then obtain sg where "r1 = add_promise C sg r" using handlePromiseNeeded_Inr h by blast
      then show ?thesis using Suc.IH [of persist r1 m2] Suc.prems(1,4) ph OurPromiseNeeded h Inr same2 pre by auto
    qed
  next
    case (OurConflictVoteNeeded c)
    then show ?thesis using Suc.IH [of False "handleConflictVoteNeeded C r c" m1] Suc.prems(1,4) ph pre
      by (auto simp: handleConflictVoteNeeded_def)
  next
    case OurCommitNeeded
    then show ?thesis using Suc.IH [of False "handleCommitNeeded C r" m1] Suc.prems(1,4) ph pre
      by (auto simp: handleCommitNeeded_def split: if_splits)
  next
    case Consensus
    obtain x m2 where h: "handleConsensus C now r m1 = (x, m2)" by fastforce
    have "m' = m2" using Suc.prems(1) ph Consensus h by (cases x) auto
    then have "h = rc_messageHash r \<and> x = Inr ()" using handleConsensus_marker [OF h pre] Suc.prems(4) by simp
    then show ?thesis using Suc.prems(1) ph Consensus h phase_facts(6) [OF ph] by auto
  qed (use Suc.prems(1,4) ph pre in auto)
qed auto

text \<open>C6. A member executes a transaction only when a majority of the peers committed, and only once. If a delivery
  made the member mark a transaction as executed, the delivery was of that transaction and returned its record,
  in which more than half of the peers approve the commit; handling the agreed record again, at any later time
  while the mark is kept, changes nothing.\<close>
theorem execution_needs_majority:
  assumes "processUpdate C now r m = (res, m')" and "map_of (cm_executed m) h = None" and "map_of (cm_executedStore m) h = None"
    and "wasTransactionExecuted h m'"
  shows "h = rc_messageHash r
    \<and> (\<exists>r'. res = Inr r' \<and> rc_messageHash r' = h \<and> hasMajority (count_votes is_approve (rc_commits r')) (length (rc_peers r')))
    \<and> (\<forall>q now'. rc_messageHash q = h \<longrightarrow> handleConsensus C now' q m' = (Inr (), m'))"
proof -
  have mark: "map_of (cm_executed m') h \<noteq> None" using assms(4) by (simp add: wasTransactionExecuted_def)
  obtain e ps where v: "validateRecord (cf_crypto C) now r = (e, ps)" by fastforce
  have "e = None" using assms(1,2) mark v by (cases e) (auto simp: processUpdate_def)
  moreover obtain mr where mr: "(case map_of (cm_active m) (rc_messageHash r) of None \<Rightarrow> Inr (r, [])
      | Some st \<Rightarrow> mergeRecords (cf_crypto C) (ts_record st) r) = mr" by simp
  moreover have "mr \<noteq> Inl x" for x using assms(1,2) mark v \<open>e = None\<close> mr by (auto simp: processUpdate_def)
  then obtain current qs where cur: "mr = Inr (current, qs)" by (cases mr) auto
  moreover obtain x m1 where lp: "phaseLoop C now MaxPhaseSteps True current (m\<lparr>cm_penalties := cm_penalties m @ qs\<rparr>) = (x, m1)" by fastforce
  ultimately have pu: "processUpdate C now r m = (case x of Inl e \<Rightarrow> (Inl e, m1)
      | Inr (True, r') \<Rightarrow> (Inr r', persistParticipantState C now (rc_messageHash r) r'
                      (m1\<lparr>cm_active := AList.update (rc_messageHash r) \<lparr>ts_record = r', ts_lastUpdate = now\<rparr> (cm_active m1)\<rparr>))
      | Inr (False, r') \<Rightarrow> (Inr r', clearTransaction C (rc_messageHash r) m1))"
    using v by (auto simp: processUpdate_def split: sum.split prod.split bool.split)
  have "cm_executed m1 = cm_executed m'"
    using pu assms(1) by (auto simp: persistParticipantState_def split: sum.splits prod.splits bool.splits)
  then have lpx: "h = rc_messageHash current" "\<exists>r'. x = Inr (False, r') \<and> rc_messageHash r' = h
    \<and> hasMajority (count_votes is_approve (rc_commits r')) (length (rc_peers r'))"
    using phaseLoop_executed [OF lp, of h] assms(2,3) mark by auto
  have "rc_messageHash current = rc_messageHash r"
  proof (cases "map_of (cm_active m) (rc_messageHash r)")
    case (Some st)
    then have "mergeRecords (cf_crypto C) (ts_record st) r = Inr (current, qs)" using mr cur by simp
    from mergeRecords_votes(5,6) [OF this] show ?thesis by simp
  qed (use mr cur in simp)
  then have "h = rc_messageHash r" using lpx(1) by simp
  moreover have "\<exists>r'. res = Inr r' \<and> rc_messageHash r' = h \<and> hasMajority (count_votes is_approve (rc_commits r')) (length (rc_peers r'))"
    using lpx(2) pu assms(1) by auto
  ultimately show ?thesis using handleConsensus_again mark by blast
qed

section \<open>Reservations\<close>

lemma clearTransaction_active: "h \<noteq> k \<Longrightarrow> map_of (cm_active (clearTransaction C h m)) k = map_of (cm_active m) k"
  by (simp add: clearTransaction_def delete_conv' split: option.split)

lemma findConflict_loop_held:
  assumes "(hx, st) \<in> set sts" and "distinct (map fst sts)" and "hx \<noteq> rc_messageHash r" and "now \<le> ts_lastUpdate st + staleThresholdMs"
    and "operationsConflict (mg_operations (rc_message (ts_record st))) (mg_operations (rc_message r))" and "resolveRace (ts_record st) r"
  shows "\<exists>h m'. findConflict_loop C now r sts m = (Some h, m') \<and> map_of (cm_active m') hx = map_of (cm_active m) hx"
  using assms(1,2)
proof (induction sts arbitrary: m)
  case (Cons s sts)
  obtain k t where s: "s = (k, t)" by fastforce
  show ?case
  proof (cases "k = hx")
    case True
    then have "t = st" using Cons.prems s by (auto simp: image_iff)
    then show ?thesis using True s assms(3-6) by simp
  next
    case False
    then have "(hx, st) \<in> set sts" "distinct (map fst sts)" using Cons.prems s by auto
    then show ?thesis using Cons.IH [of m] Cons.IH [of "clearTransaction C k m"] s clearTransaction_active [OF False] by auto
  qed
qed simp

lemma getTransactionPhase_promised: "has_promise C r \<Longrightarrow> snd (getTransactionPhase C now r m) = m"
  by (auto simp: getTransactionPhase_def Let_def has_promise_def)

lemma handleConsensus_active: "handleConsensus C now r m = (res, m') \<Longrightarrow> cm_active m' = cm_active m"
  by (auto simp: handleConsensus_def Let_def wasTransactionExecutedAsync_def markExecuted_def
      split: prod.splits sum.splits bool.splits if_splits dest: apply_all_other)

lemma phaseLoop_active:
  assumes "phaseLoop C now n persist r m = (res, m')" and "has_promise C r"
  shows "cm_active m' = cm_active m"
  using assms
proof (induction n arbitrary: persist r m)
  case (Suc n)
  obtain ph m1 where ph: "getTransactionPhase C now r m = (ph, m1)" by fastforce
  have "m1 = m" using getTransactionPhase_promised [OF Suc.prems(2), of now m] ph by simp
  moreover have "has_promise C (handleCommitNeeded C r)" using Suc.prems(2) by (simp add: handleCommitNeeded_def has_promise_def)
  ultimately show ?case using Suc.prems ph phase_facts(1,2) [OF ph] Suc.IH [of False "handleCommitNeeded C r" m1] handleConsensus_active
    by (cases ph) (auto split: prod.splits sum.splits)
qed simp

lemma validateVotes_peers:
  "validateVotes K r phase hash vs = (None, ps) \<Longrightarrow> fst ` set vs \<subseteq> fst ` set (rc_peers r)"
proof (induction vs)
  case (Cons v vs)
  obtain p sg where v: "v = (p, sg)" by fastforce
  have "verifySignature K r p hash sg = Verified" using Cons.prems v by (auto split: verify_outcome.splits)
  then have "map_of (rc_peers r) p \<noteq> None" by (auto simp: verifySignature_def split: option.splits)
  then have "p \<in> fst ` set (rc_peers r)" by (simp add: map_of_eq_None_iff)
  then show ?case using Cons v \<open>verifySignature K r p hash sg = Verified\<close> by simp
qed simp

lemma validateRecord_peers:
  assumes "validateRecord K now r = (None, ps)"
  shows "fst ` set (rc_promises r) \<subseteq> fst ` set (rc_peers r)"
proof -
  obtain e qs where "validateVotes K r ''promise'' (computePromiseHash K r) (rc_promises r) = (e, qs)" by fastforce
  moreover have "e = None" using assms calculation
    by (auto simp: validateRecord_def validateSignatures_def split: if_splits prod.splits option.splits)
  ultimately show ?thesis using validateVotes_peers by blast
qed

text \<open>C8. A member that holds a fresh transaction keeps it against a conflicting one with fewer approvals: it answers
  the newcomer with a vote \<open>conflict\<close>, and the transaction it holds stays in its reservation table.\<close>
theorem rival_gets_conflict_vote:
  assumes "processUpdate C now r m = (Inr r', m')" and "distinct (map fst (cm_active m))"
    and "map_of (cm_active m) (rc_messageHash r) = None" and "map_of (rc_promises r) (cf_id C) = None" and "\<not> dead C r"
    and "map_of (cm_active m) hx = Some st" and "now \<le> ts_lastUpdate st + staleThresholdMs"
    and "operationsConflict (mg_operations (rc_message (ts_record st))) (mg_operations (rc_message r))"
    and "approvalCount r < approvalCount (ts_record st)"
  shows "(\<exists>sg h. map_of (rc_promises r') (cf_id C) = Some (ConflictWith sg h)) \<and> map_of (cm_active m') hx = Some st
    \<and> map_of (cm_active m') (rc_messageHash r) = None"
proof -
  have neq: "hx \<noteq> rc_messageHash r" using assms(3,6) by auto
  obtain current ps persist m1 where cur: "(case map_of (cm_active m) (rc_messageHash r) of None \<Rightarrow> Inr (r, [])
        | Some st \<Rightarrow> mergeRecords (cf_crypto C) (ts_record st) r) = Inr (current, ps)"
    and lp': "phaseLoop C now MaxPhaseSteps True current (m\<lparr>cm_penalties := cm_penalties m @ ps\<rparr>) = (Inr (persist, r'), m1)"
    and m': "m' = (if persist then persistParticipantState C now (rc_messageHash r) r'
               (m1\<lparr>cm_active := AList.update (rc_messageHash r) \<lparr>ts_record = r', ts_lastUpdate = now\<rparr> (cm_active m1)\<rparr>)
               else clearTransaction C (rc_messageHash r) m1)"
    using processUpdate_Inr [OF assms(1)] by metis
  have lp: "phaseLoop C now MaxPhaseSteps True r m = (Inr (persist, r'), m1)" using cur lp' assms(3) by simp
  have "resolveRace (ts_record st) r" using assms(9) by (simp add: resolveRace_def)
  then obtain h m2 where fc: "findConflict C now r m = (Some h, m2)" "map_of (cm_active m2) hx = map_of (cm_active m) hx"
    using findConflict_loop_held [OF map_of_SomeD [OF assms(6)] assms(2) neq assms(7,8), of C m] by (auto simp: findConflict_def)
  then have ph: "getTransactionPhase C now r m = (OurConflictVoteNeeded h, m2)"
    using assms(4,5) by (auto simp: getTransactionPhase_def dead_def Let_def)
  let ?v = "handleConflictVoteNeeded C r h"
  have lp2: "phaseLoop C now 7 False ?v m2 = (Inr (persist, r'), m1)"
    using lp ph by (simp add: MaxPhaseSteps_def numeral_eq_Suc)
  have hp: "has_promise C ?v" by (simp add: has_promise_def handleConflictVoteNeeded_def update_conv')
  have act: "cm_active m1 = cm_active m2" by (rule phaseLoop_active [OF lp2 hp])
  have res: "extends C ?v r'" "\<not> persist" using phaseLoop_result [OF lp2] by (simp_all add: owed_def)
  have "map_of (rc_promises ?v) (cf_id C) = Some (ConflictWith (signVote C (computePromiseHash (cf_crypto C) r) ''conflict'' (Some h)) h)"
    by (simp add: handleConflictVoteNeeded_def update_conv')
  then have "\<exists>sg. map_of (rc_promises r') (cf_id C) = Some (ConflictWith sg h)" using extends_votes(1) [OF res(1)] by blast
  moreover have "map_of (cm_active m') hx = Some st"
    using m' res(2) act fc(2) assms(6) neq by (simp add: clearTransaction_active)
  moreover have "map_of (cm_active m') (rc_messageHash r) = None"
    using m' res(2) by (simp add: clearTransaction_def delete_conv' split: option.split)
  ultimately show ?thesis by blast
qed

text \<open>C25. Super-majorities overlap. For a threshold above one half, two validated records over the same peers that both have a
  super-majority of promise approvals were approved by a common member; at the default threshold of 0.75 the common members are at
  least half of the peers. The promises of such a record can no longer stop it: no member finds it \<open>ConflictSuperseded\<close>, and a member
  finds it \<open>Rejected\<close> exactly when a majority of the peers rejected its commit.\<close>
theorem super_majorities_overlap:
  assumes "validateRecord K now x = (None, [])" and "validateRecord K now' y = (None, [])"
    and "distinct (map fst (rc_promises x))" and "distinct (map fst (rc_promises y))"
    and "distinct (map fst (rc_peers x))" and "distinct (map fst (rc_peers y))"
    and "fst ` set (rc_peers x) = fst ` set (rc_peers y)" and "rc_peers x \<noteq> []"
    and "promised C x" and "promised C y" and "cf_threshold C > 1 / 2"
  shows "voters is_approve (rc_promises x) \<inter> voters is_approve (rc_promises y) \<noteq> {}
    \<and> int (count_votes is_reject (rc_promises x))
        \<le> int (length (rc_peers x)) - int (superMajority (cf_threshold C) (length (rc_peers x)))
    \<and> (cf_threshold C = DEFAULT_SUPER_MAJORITY_THRESHOLD \<longrightarrow>
         2 * card (voters is_approve (rc_promises x) \<inter> voters is_approve (rc_promises y)) \<ge> length (rc_peers x))
    \<and> fst (getTransactionPhase C t x m) \<noteq> ConflictSuperseded
    \<and> (fst (getTransactionPhase C t x m) = Rejected
         \<longleftrightarrow> hasMajority (count_votes is_reject (rc_commits x)) (length (rc_peers x)))"
proof -
  let ?P = "fst ` set (rc_peers x)" and ?n = "length (rc_peers x)" and ?sm = "superMajority (cf_threshold C) (length (rc_peers x))"
  let ?X = "voters is_approve (rc_promises x)" and ?Y = "voters is_approve (rc_promises y)"
  have n: "card ?P = ?n" "length (rc_peers y) = ?n"
    using distinct_card [OF assms(5)] distinct_card [OF assms(6)] assms(7) by simp_all
  have sub: "?X \<subseteq> ?P" "?Y \<subseteq> ?P"
    using voters_subset validateRecord_peers [OF assms(1)] validateRecord_peers [OF assms(2)] assms(7) by blast+
  have q: "?sm \<le> card ?X" "?sm \<le> card ?Y"
    using assms(9,10) n(2) unfolding promised_def by (simp_all add: count_votes_card assms(3,4) voters_def)
  have over: "?sm + ?sm \<le> ?n + card (?X \<inter> ?Y)" using quorums_intersect [OF _ sub q] n(1) by simp
  have half: "2 * ?sm > ?n" using superMajority_less_half [OF assms(11)] assms(8) by simp
  have "?X \<inter> ?Y \<noteq> {}" using over half by (metis add.right_neutral card.empty mult_2 not_le)
  moreover have all: "int (count_votes is_reject (rc_promises x) + count_votes is_conflict (rc_promises x)) \<le> int ?n - int ?sm"
  proof -
    have "length (rc_promises x) \<le> ?n"
      using card_mono [of ?P "fst ` set (rc_promises x)"] validateRecord_peers [OF assms(1)] distinct_card [OF assms(3)] n(1) by simp
    then show ?thesis using count_votes_total [of "rc_promises x"] assms(9) unfolding promised_def by linarith
  qed
  moreover have "2 * card (?X \<inter> ?Y) \<ge> ?n" if "cf_threshold C = DEFAULT_SUPER_MAJORITY_THRESHOLD"
    using over that superMajority_default [of ?n] by simp
  moreover have "fst (getTransactionPhase C t x m) \<noteq> ConflictSuperseded"
    "fst (getTransactionPhase C t x m) = Rejected \<longleftrightarrow> hasMajority (count_votes is_reject (rc_commits x)) ?n"
    using all by (auto simp: getTransactionPhase_def Let_def split: prod.splits option.splits)
  ultimately show ?thesis by simp
qed

section \<open>A concrete cluster\<close>

definition demo_crypto :: "(nat, unit) crypto" where
  \<comment> \<open>peer ids are their own keys, a signature is the id followed by the signed text, hashes are the texts themselves\<close>
  "demo_crypto = \<lparr>cy_messageText = (\<lambda>m. case getActionId (mg_operations m) of Some a \<Rightarrow> a | None \<Rightarrow> []),
     cy_votesText = (\<lambda>vs. concat (map fst vs)), cy_idsText = concat, cy_sha58 = (\<lambda>t. t), cy_sha64 = (\<lambda>t. t),
     cy_decodeKey = Some, cy_binds = (=), cy_verify = (\<lambda>k t sg. Some (sg = k @ t))\<rparr>"

definition demo_member :: "string \<Rightarrow> (nat, unit) member_cfg" where
  "demo_member p = \<lparr>cf_id = p, cf_crypto = demo_crypto, cf_sign = (\<lambda>t. p @ t), cf_threshold = DEFAULT_SUPER_MAJORITY_THRESHOLD,
     cf_minAbsoluteClusterSize = 3, cf_clusterSizeTolerance = 1 / 2, cf_membershipAdmissionFraction = Num (3 / 4),
     cf_assumedClusterSize = None, cf_allowUnvalidatedSmallCluster = False, cf_deriveExpectedCluster = None, cf_validator = None,
     cf_storage = (\<lambda>b. \<lparr>st_restore = None, st_interval = 1, st_hash = (\<lambda>_. ''h'')\<rparr>), cf_validatePend = None, cf_stateStore = False,
     cf_reconcileBlock = None, cf_onCommitCertificate = False, cf_verifyInvalidation = (\<lambda>_ _ _. False), cf_onInvalidate = None\<rparr>"

definition new_member :: "(nat, unit) cluster_member" where
  "new_member = \<lparr>cm_active = [], cm_executed = [], cm_appliedInvalidations = [], cm_cleanupQueue = [], cm_participants = [],
     cm_executedStore = [], cm_repo = \<lparr>rp_blocks = (\<lambda>_. empty_block_state), rp_listeners = [], rp_any = []\<rparr>,
     cm_events = [], cm_penalties = [], cm_certs = []\<rparr>"

definition demo_request :: "action_id \<Rightarrow> (nat, unit transaction) pend_request" where
  "demo_request a = \<lparr>pr_actionId = a, pr_rev = None, pr_transforms = emptyTransforms\<lparr>deletes := [''b'']\<rparr>,
     pr_policy = Pol_r, pr_transaction = None, pr_operationsHash = None\<rparr>"

definition demo_pend :: "action_id \<Rightarrow> (nat, unit) message" where
  "demo_pend a = \<lparr>mg_operations = [OpPend (demo_request a) None],
     mg_expiration = None, mg_coordinatingBlockIds = Some [''b'']\<rparr>"

definition demo_peers :: "string list \<Rightarrow> (string \<times> peer_info) list" where
  "demo_peers ps = map (\<lambda>p. (p, \<lparr>pi_multiaddrs = [], pi_publicKey = p\<rparr>)) ps"

definition demo_record :: "string list \<Rightarrow> action_id \<Rightarrow> (nat, unit) cluster_record" where
  "demo_record ps a =
     (let digest = membershipDigest demo_crypto (demo_peers ps)
      in \<lparr>rc_messageHash = computeClusterMessageHash demo_crypto (demo_pend a) (Some digest), rc_peers = demo_peers ps,
          rc_membershipVersion = Some 2, rc_membershipDigest = Some digest, rc_message = demo_pend a,
          rc_coordinatingBlockIds = Some [''b''], rc_promises = [], rc_commits = [], rc_suggestedClusterSize = Some (length ps),
          rc_minRequiredSize = None, rc_disputed = False, rc_disputeEvidence = None, rc_networkSizeHint = None,
          rc_networkSizeConfidence = None\<rparr>)"

definition demo_promised :: "string list \<Rightarrow> action_id \<Rightarrow> (nat, unit) cluster_record" where
  \<comment> \<open>the record with the promise of every peer\<close>
  "demo_promised ps a = (demo_record ps a)\<lparr>rc_promises := map (\<lambda>p. (p, Approve (signVote (demo_member p)
      (computePromiseHash demo_crypto (demo_record ps a)) ''approve'' None))) ps\<rparr>"

definition returned :: "'e + 'a \<Rightarrow> bool" where
  "returned x = (case x of Inl e \<Rightarrow> False | Inr a \<Rightarrow> True)"

lemma returnedD: "returned (fst z) \<Longrightarrow> \<exists>r m. z = (Inr r, m)"
  by (cases z; cases "fst z") (auto simp: returned_def)

definition held_x :: "(nat, unit) cluster_member" where
  \<comment> \<open>member A after it promised \<open>x\<close> to the cluster A, B, C\<close>
  "held_x = snd (processUpdate (demo_member ''A'') 5 (demo_record [''A'', ''B'', ''C''] ''x'') new_member)"

theorem delivery_is_answered_witness:
  "\<exists>r' m'. processUpdate (demo_member ''A'') 5 (demo_record [''A'', ''B'', ''C''] ''x'') new_member = (Inr r', m')
     \<and> settled (demo_member ''A'') r'"
proof -
  have "returned (fst (processUpdate (demo_member ''A'') 5 (demo_record [''A'', ''B'', ''C''] ''x'') new_member))" by code_simp
  then obtain r' m' where "processUpdate (demo_member ''A'') 5 (demo_record [''A'', ''B'', ''C''] ''x'') new_member = (Inr r', m')"
    using returnedD by blast
  then show ?thesis using delivery_is_answered by blast
qed

theorem votes_are_kept_witness:
  "\<exists>r' m' st. processUpdate (demo_member ''A'') 6 (demo_promised [''A'', ''B'', ''C''] ''x'') held_x = (Inr r', m')
     \<and> map_of (cm_active held_x) ''xABC'' = Some st \<and> rc_promises (ts_record st) \<noteq> []
     \<and> map_of (rc_promises (ts_record st)) \<subseteq>\<^sub>m map_of (rc_promises r')"
proof -
  let ?r = "demo_promised [''A'', ''B'', ''C''] ''x''"
  have "returned (fst (processUpdate (demo_member ''A'') 6 ?r held_x))" by code_simp
  then obtain r' m' where pu: "processUpdate (demo_member ''A'') 6 ?r held_x = (Inr r', m')" using returnedD by blast
  have h: "rc_messageHash ?r = ''xABC''" by code_simp
  have "(case map_of (cm_active held_x) ''xABC'' of None \<Rightarrow> False | Some st \<Rightarrow> rc_promises (ts_record st) \<noteq> [])" by code_simp
  then obtain st where st: "map_of (cm_active held_x) ''xABC'' = Some st" "rc_promises (ts_record st) \<noteq> []"
    by (auto split: option.splits)
  then show ?thesis using votes_are_kept [OF pu] h pu by auto
qed

theorem execution_needs_majority_witness:
  "\<exists>r' m'. processUpdate (demo_member ''A'') 5 (demo_record [''A''] ''x'') new_member = (Inr r', m')
     \<and> wasTransactionExecuted ''xA'' m' \<and> hasMajority (count_votes is_approve (rc_commits r')) (length (rc_peers r'))"
proof -
  let ?r = "demo_record [''A''] ''x''"
  have ex: "wasTransactionExecuted ''xA'' (snd (processUpdate (demo_member ''A'') 5 ?r new_member))" by code_simp
  obtain res m' where pu: "processUpdate (demo_member ''A'') 5 ?r new_member = (res, m')" by fastforce
  have new: "map_of (cm_executed new_member) ''xA'' = None" "map_of (cm_executedStore new_member) ''xA'' = None"
    by (simp_all add: new_member_def)
  have "wasTransactionExecuted ''xA'' m'" using ex pu by simp
  then show ?thesis using execution_needs_majority [OF pu new] pu by blast
qed

theorem rival_gets_conflict_vote_witness:
  "\<exists>r' m' sg h. processUpdate (demo_member ''A'') 6 (demo_record [''A'', ''B'', ''C''] ''y'') held_x = (Inr r', m')
     \<and> map_of (rc_promises r') ''A'' = Some (ConflictWith sg h) \<and> map_of (cm_active m') ''xABC'' \<noteq> None"
proof -
  let ?r = "demo_record [''A'', ''B'', ''C''] ''y''" and ?C = "demo_member ''A''"
  have "returned (fst (processUpdate ?C 6 ?r held_x))" by code_simp
  then obtain r' m' where pu: "processUpdate ?C 6 ?r held_x = (Inr r', m')" using returnedD by blast
  have "(case map_of (cm_active held_x) ''xABC'' of None \<Rightarrow> False
     | Some st \<Rightarrow> 6 \<le> ts_lastUpdate st + staleThresholdMs
         \<and> operationsConflict (mg_operations (rc_message (ts_record st))) (mg_operations (rc_message ?r))
         \<and> approvalCount ?r < approvalCount (ts_record st))" by code_simp
  then obtain st where st: "map_of (cm_active held_x) ''xABC'' = Some st" "6 \<le> ts_lastUpdate st + staleThresholdMs"
    "operationsConflict (mg_operations (rc_message (ts_record st))) (mg_operations (rc_message ?r))"
    "approvalCount ?r < approvalCount (ts_record st)" by (auto split: option.splits)
  have k: "map fst (cm_active held_x) = [''xABC'']" "rc_messageHash ?r = ''yABC''" by code_simp+
  then have a: "distinct (map fst (cm_active held_x))" "map_of (cm_active held_x) (rc_messageHash ?r) = None"
    by (simp_all add: map_of_eq_None_iff flip: set_map)
  have b: "map_of (rc_promises ?r) (cf_id ?C) = None" by (simp add: demo_record_def Let_def)
  have c: "\<not> dead ?C ?r" by code_simp
  have "cf_id ?C = ''A''" by (simp add: demo_member_def)
  then show ?thesis using rival_gets_conflict_vote [OF pu a b c st] pu by fastforce
qed

theorem super_majorities_overlap_witness:
  "voters is_approve (rc_promises (demo_promised [''A'', ''B'', ''C''] ''x''))
     \<inter> voters is_approve (rc_promises (demo_promised [''A'', ''B'', ''C''] ''y'')) \<noteq> {}
   \<and> fst (getTransactionPhase (demo_member ''A'') 5 (demo_promised [''A'', ''B'', ''C''] ''x'') held_x) \<notin> {Rejected, ConflictSuperseded}"
proof -
  let ?x = "demo_promised [''A'', ''B'', ''C''] ''x''" and ?y = "demo_promised [''A'', ''B'', ''C''] ''y''" and ?C = "demo_member ''A''"
  have "validateRecord demo_crypto 5 ?x = (None, [])" "validateRecord demo_crypto 5 ?y = (None, [])" by code_simp+
  moreover have "promised ?C ?x" "promised ?C ?y" by code_simp+
  moreover have "distinct (map fst (rc_promises ?x))" "distinct (map fst (rc_promises ?y))" by code_simp+
  moreover have "rc_peers ?x = demo_peers [''A'', ''B'', ''C'']" "rc_peers ?y = demo_peers [''A'', ''B'', ''C'']"
    by (simp_all add: demo_promised_def demo_record_def Let_def)
  moreover have "distinct (map fst (demo_peers [''A'', ''B'', ''C'']))" "demo_peers [''A'', ''B'', ''C''] \<noteq> []" by code_simp+
  moreover have "cf_threshold ?C > 1 / 2" by (simp add: demo_member_def DEFAULT_SUPER_MAJORITY_THRESHOLD_def)
  moreover have "\<not> hasMajority (count_votes is_reject (rc_commits ?x)) (length (rc_peers ?x))" by code_simp
  ultimately show ?thesis using super_majorities_overlap [of demo_crypto 5 ?x 5 ?y ?C 5 held_x] by simp
qed

end
