(* ===== verification/Cluster_Coordinator.thy ===== *)
theory Cluster_Coordinator
  imports Cluster_Member "HOL-Library.Multiset"
begin

text \<open>
  The coordinator of a cluster transaction: \<open>packages/db-p2p/src/repo/cluster-coordinator.ts\<close>, over the
  members of \<open>Cluster_Member\<close>.

  A cluster is a function from peer ids to member states, with a function to their configurations. The
  network is explicit: for every phase and peer there is a list of outcomes of the successive calls, each of
  which arrives, loses the request, or loses the response after the member has processed it; a call beyond the
  list arrives. The requests of one phase go to different members, so they are made in the order of the peers.
  Timers are not run: a scheduled retry is the field \<open>ct_retry\<close> of the transaction and \<open>retryCommits\<close> is its firing;
  \<open>removeTransaction\<close> is the firing of the deferred removal.
\<close>

section \<open>Configuration and state\<close>

record coordinator_cfg =
  co_superMajorityThreshold :: rat
  co_simpleMajorityThreshold :: rat
  co_minAbsoluteClusterSize :: nat
  co_clusterSize :: nat
  co_allowClusterDownsize :: bool
  co_allowUnvalidatedSmallCluster :: bool
  co_networkSizeEstimate :: "(nat \<times> rat) option"
  co_localPeer :: "string option"
  co_stateStore :: bool
  co_promiseImmediateRetries :: nat
  co_commitBroadcastImmediateRetries :: nat
  co_retryInitialIntervalMs :: rat
  co_retryBackoffFactor :: rat
  co_retryMaxIntervalMs :: rat
  co_retryMaxAttempts :: nat

record commit_retry =
  ry_pendingPeers :: "string list"
  ry_attempt :: nat
  ry_intervalMs :: rat

record ('v, 'y) coordinated =
  ct_record :: "('v, 'y) cluster_record"
  ct_lastUpdate :: nat
  ct_retry :: "commit_retry option"

datatype coordinator_phase = PhPromising | PhCommitting | PhBroadcasting

record ('v, 'y) persisted_state =
  pe_record :: "('v, 'y) cluster_record"
  pe_lastUpdate :: nat
  pe_phase :: coordinator_phase
  pe_retryState :: "commit_retry option"

record ('v, 'y) coordinator =
  cd_transactions :: "(string \<times> ('v, 'y) coordinated) list"
  cd_persisted :: "(string \<times> ('v, 'y) persisted_state) list"
  cd_penalties :: "penalty list"

datatype coordinator_error =
    ClusterTooSmall nat
  | BelowConfiguredSize nat
  | ValidatorRejection "(string \<times> string) list"
  | ConflictRaceLost "(string \<times> string) list"
  | NoSuperMajority nat nat

type_synonym ('v, 'y) cluster = "string \<Rightarrow> ('v, 'y) served_member"
type_synonym ('v, 'y) configs = "string \<Rightarrow> ('v, 'y) member_cfg"

section \<open>Calls\<close>

datatype reach = Delivered | RequestLost | ResponseLost

record network =
  nw_promise :: "string \<Rightarrow> reach list"
  nw_commit :: "string \<Rightarrow> reach list"
  nw_broadcast :: "string \<Rightarrow> reach list"
  nw_abandon :: "string \<Rightarrow> reach list"

definition deliver :: "('v, 'y) configs \<Rightarrow> nat \<Rightarrow> string \<Rightarrow> ('v, 'y) cluster_record \<Rightarrow> ('v, 'y) cluster
    \<Rightarrow> (error + ('v, 'y) cluster_record) \<times> ('v, 'y) cluster" where
  "deliver G now p r M = (case member_update (G p) now r (M p) of (res, m) \<Rightarrow> (res, M(p := m)))"

definition remote_call :: "('v, 'y) configs \<Rightarrow> nat \<Rightarrow> reach list \<Rightarrow> string \<Rightarrow> ('v, 'y) cluster_record \<Rightarrow> ('v, 'y) cluster
    \<Rightarrow> (error + ('v, 'y) cluster_record) \<times> ('v, 'y) cluster" where
  "remote_call G now os p r M =
     (case os of
        RequestLost # _ \<Rightarrow> (Inl (Err ''stream reset''), M)
      | ResponseLost # _ \<Rightarrow> (Inl (Err ''stream reset''), snd (deliver G now p r M))
      | _ \<Rightarrow> deliver G now p r M)"

fun remote_attempts :: "('v, 'y) configs \<Rightarrow> nat \<Rightarrow> nat \<Rightarrow> reach list \<Rightarrow> string \<Rightarrow> ('v, 'y) cluster_record \<Rightarrow> ('v, 'y) cluster
    \<Rightarrow> (error + ('v, 'y) cluster_record) \<times> ('v, 'y) cluster" where
  \<comment> \<open>the third argument counts the retries that are left\<close>
  "remote_attempts G now 0 os p r M = remote_call G now os p r M"
| "remote_attempts G now (Suc k) os p r M =
     (case remote_call G now os p r M of
        (Inr r', M') \<Rightarrow> (Inr r', M')
      | (Inl e, M') \<Rightarrow> remote_attempts G now k (tl os) p r M')"

definition updateMember :: "coordinator_cfg \<Rightarrow> ('v, 'y) configs \<Rightarrow> nat \<Rightarrow> (string \<Rightarrow> reach list) \<Rightarrow> nat \<Rightarrow> string
    \<Rightarrow> ('v, 'y) cluster_record \<Rightarrow> ('v, 'y) cluster \<Rightarrow> (error + ('v, 'y) cluster_record) \<times> ('v, 'y) cluster" where
  "updateMember Q G now net retries p r M =
     (if co_localPeer Q = Some p then deliver G now p r M else remote_attempts G now retries (net p) p r M)"

fun update_all :: "coordinator_cfg \<Rightarrow> ('v, 'y) configs \<Rightarrow> nat \<Rightarrow> (string \<Rightarrow> reach list) \<Rightarrow> nat \<Rightarrow> string list
    \<Rightarrow> ('v, 'y) cluster_record \<Rightarrow> ('v, 'y) cluster
    \<Rightarrow> (string \<times> (error + ('v, 'y) cluster_record)) list \<times> ('v, 'y) cluster" where
  \<comment> \<open>one phase: a call to every peer, with its result\<close>
  "update_all Q G now net retries [] r M = ([], M)"
| "update_all Q G now net retries (p # ps) r M =
     (case updateMember Q G now net retries p r M of
        (res, M') \<Rightarrow>
          (case update_all Q G now net retries ps r M' of
             (rs, M'') \<Rightarrow> ((p, res) # rs, M'')))"

definition answers :: "(string \<times> (error + 'a)) list \<Rightarrow> 'a list" where
  "answers rs = concat (map (\<lambda>(p, res). case res of Inl e \<Rightarrow> [] | Inr r \<Rightarrow> [r]) rs)"

definition failures :: "(string \<times> (error + 'a)) list \<Rightarrow> string list" where
  "failures rs = map fst (filter (\<lambda>(p, res). case res of Inl e \<Rightarrow> True | Inr r \<Rightarrow> False) rs)"

definition spread :: "votes \<Rightarrow> votes \<Rightarrow> votes" where
  \<comment> \<open>\<open>{ ...a, ...b }\<close>\<close>
  "spread a b = fold (\<lambda>(p, sg). AList.update p sg) b a"

section \<open>Bookkeeping\<close>

definition persistCoordinatorState :: "coordinator_cfg \<Rightarrow> nat \<Rightarrow> string \<Rightarrow> ('v, 'y) cluster_record \<Rightarrow> coordinator_phase
    \<Rightarrow> commit_retry option \<Rightarrow> ('v, 'y) coordinator \<Rightarrow> ('v, 'y) coordinator" where
  "persistCoordinatorState Q now h r ph retry d =
     (if co_stateStore Q
      then d\<lparr>cd_persisted := AList.update h \<lparr>pe_record = r, pe_lastUpdate = now, pe_phase = ph, pe_retryState = retry\<rparr> (cd_persisted d)\<rparr>
      else d)"

definition deleteCoordinatorState :: "coordinator_cfg \<Rightarrow> string \<Rightarrow> ('v, 'y) coordinator \<Rightarrow> ('v, 'y) coordinator" where
  "deleteCoordinatorState Q h d = (if co_stateStore Q then d\<lparr>cd_persisted := AList.delete h (cd_persisted d)\<rparr> else d)"

definition removeTransaction :: "coordinator_cfg \<Rightarrow> string \<Rightarrow> ('v, 'y) coordinator \<Rightarrow> ('v, 'y) coordinator" where
  \<comment> \<open>the callback of the removal timer\<close>
  "removeTransaction Q h d = deleteCoordinatorState Q h (d\<lparr>cd_transactions := AList.delete h (cd_transactions d)\<rparr>)"

definition updateTransactionRecord :: "nat \<Rightarrow> ('v, 'y) cluster_record \<Rightarrow> ('v, 'y) coordinator \<Rightarrow> ('v, 'y) coordinator" where
  "updateTransactionRecord now r d =
     (case map_of (cd_transactions d) (rc_messageHash r) of
        None \<Rightarrow> d
      | Some t \<Rightarrow> d\<lparr>cd_transactions := AList.update (rc_messageHash r) (t\<lparr>ct_record := r, ct_lastUpdate := now\<rparr>) (cd_transactions d)\<rparr>)"

definition clearRetry :: "string \<Rightarrow> ('v, 'y) coordinator \<Rightarrow> ('v, 'y) coordinator" where
  "clearRetry h d =
     (case map_of (cd_transactions d) h of
        None \<Rightarrow> d
      | Some t \<Rightarrow> d\<lparr>cd_transactions := AList.update h (t\<lparr>ct_retry := None\<rparr>) (cd_transactions d)\<rparr>)"

definition scheduleCommitRetry :: "coordinator_cfg \<Rightarrow> nat \<Rightarrow> string \<Rightarrow> string list \<Rightarrow> ('v, 'y) coordinator \<Rightarrow> ('v, 'y) coordinator" where
  "scheduleCommitRetry Q now h missingPeers d =
     (case map_of (cd_transactions d) h of
        None \<Rightarrow> d
      | Some t \<Rightarrow>
          (let nextAttempt = (case ct_retry t of Some e \<Rightarrow> ry_attempt e | None \<Rightarrow> 0) + 1
           in if nextAttempt > co_retryMaxAttempts Q then d
              else if missingPeers = [] then clearRetry h d
              else (let interval = (case ct_retry t of
                          Some e \<Rightarrow> min (ry_intervalMs e * co_retryBackoffFactor Q) (co_retryMaxIntervalMs Q)
                        | None \<Rightarrow> co_retryInitialIntervalMs Q);
                        retry = \<lparr>ry_pendingPeers = js_set missingPeers, ry_attempt = nextAttempt, ry_intervalMs = interval\<rparr>
                    in persistCoordinatorState Q now h (ct_record t) PhBroadcasting (Some retry)
                         (d\<lparr>cd_transactions := AList.update h (t\<lparr>ct_retry := Some retry\<rparr>) (cd_transactions d)\<rparr>))))"

section \<open>The phases of a transaction\<close>

definition makeRecord :: "coordinator_cfg \<Rightarrow> (string \<times> peer_info) list \<Rightarrow> string \<Rightarrow> ('v, 'y) message \<Rightarrow> string
    \<Rightarrow> ('v, 'y) cluster_record" where
  "makeRecord Q peers h msg digest =
     \<lparr>rc_messageHash = h, rc_peers = peers, rc_membershipVersion = Some 2, rc_membershipDigest = Some digest,
      rc_message = msg, rc_coordinatingBlockIds = mg_coordinatingBlockIds msg, rc_promises = [], rc_commits = [],
      rc_suggestedClusterSize = (if peers = [] then None else Some (length peers)),
      rc_minRequiredSize = (if co_allowClusterDownsize Q then None else Some (co_clusterSize Q)),
      rc_disputed = False, rc_disputeEvidence = None,
      rc_networkSizeHint = map_option fst (Option.bind (co_networkSizeEstimate Q) (\<lambda>e. if fst e > 0 then Some e else None)),
      rc_networkSizeConfidence = map_option snd (Option.bind (co_networkSizeEstimate Q) (\<lambda>e. if fst e > 0 then Some e else None))\<rparr>"

definition timeouts :: "string \<Rightarrow> string \<Rightarrow> (string \<times> (error + 'a)) list \<Rightarrow> penalty list" where
  "timeouts phase h rs = map (\<lambda>p. (p, ConsensusTimeout, phase @ '':'' @ h)) (failures rs)"

definition collectPromises :: "coordinator_cfg \<Rightarrow> ('v, 'y) configs \<Rightarrow> nat \<Rightarrow> network \<Rightarrow> ('v, 'y) cluster_record
    \<Rightarrow> ('v, 'y) cluster \<times> ('v, 'y) coordinator \<Rightarrow> ('v, 'y) cluster_record \<times> ('v, 'y) cluster \<times> ('v, 'y) coordinator" where
  "collectPromises Q G now net r = (\<lambda>(M, d).
     (case update_all Q G now (nw_promise net) (co_promiseImmediateRetries Q) (map fst (rc_peers r)) r M of
        (rs, M') \<Rightarrow>
          (let r' = r\<lparr>rc_promises := fold (\<lambda>x vs. spread vs (rc_promises x)) (answers rs) (rc_promises r)\<rparr>
           in (r', M', updateTransactionRecord now r' (d\<lparr>cd_penalties := cd_penalties d @ timeouts ''promise'' (rc_messageHash r) rs\<rparr>)))))"

definition collectCommits :: "coordinator_cfg \<Rightarrow> ('v, 'y) configs \<Rightarrow> nat \<Rightarrow> network \<Rightarrow> ('v, 'y) cluster_record
    \<Rightarrow> ('v, 'y) cluster \<times> ('v, 'y) coordinator
    \<Rightarrow> string list \<times> ('v, 'y) cluster_record \<times> ('v, 'y) cluster \<times> ('v, 'y) coordinator" where
  \<comment> \<open>the first part of \<open>commitTransaction\<close>: the commits are asked for without retries and merged\<close>
  "collectCommits Q G now net r = (\<lambda>(M, d).
     (case update_all Q G now (nw_commit net) 0 (map fst (rc_peers r)) r M of
        (rs, M') \<Rightarrow>
          (let r' = r\<lparr>rc_commits := fold (\<lambda>x vs. spread vs (rc_commits x)) (answers rs) (rc_commits r)\<rparr>
           in (failures rs, r', M',
               updateTransactionRecord now r' (d\<lparr>cd_penalties := cd_penalties d @ timeouts ''commit'' (rc_messageHash r) rs\<rparr>)))))"

definition broadcastMergedRecord :: "coordinator_cfg \<Rightarrow> ('v, 'y) configs \<Rightarrow> nat \<Rightarrow> network \<Rightarrow> ('v, 'y) cluster_record \<Rightarrow> ('v, 'y) cluster
    \<Rightarrow> string list \<times> ('v, 'y) cluster" where
  "broadcastMergedRecord Q G now net r M =
     (case update_all Q G now (nw_broadcast net) (co_commitBroadcastImmediateRetries Q) (map fst (rc_peers r)) r M of
        (rs, M') \<Rightarrow> (failures rs, M'))"

definition simpleMajority :: "coordinator_cfg \<Rightarrow> nat \<Rightarrow> nat" where
  "simpleMajority Q n = nat \<lfloor>of_nat n * co_simpleMajorityThreshold Q\<rfloor> + 1"

definition commitTransaction :: "coordinator_cfg \<Rightarrow> ('v, 'y) configs \<Rightarrow> nat \<Rightarrow> network \<Rightarrow> ('v, 'y) cluster_record
    \<Rightarrow> ('v, 'y) cluster \<times> ('v, 'y) coordinator \<Rightarrow> ('v, 'y) cluster_record \<times> ('v, 'y) cluster \<times> ('v, 'y) coordinator" where
  "commitTransaction Q G now net r s =
     (case collectCommits Q G now net r s of
        (missing, r', M, d) \<Rightarrow>
          if length (rc_commits r') \<ge> simpleMajority Q (length (rc_peers r')) then
            (case broadcastMergedRecord Q G now net r' M of
               (failed, M') \<Rightarrow>
                 (r', M', if failed \<noteq> [] then scheduleCommitRetry Q now (rc_messageHash r') failed d
                          else clearRetry (rc_messageHash r') d))
          else (r', M, if missing \<noteq> [] then scheduleCommitRetry Q now (rc_messageHash r') missing d
                       else clearRetry (rc_messageHash r') d))"

definition broadcastAbandonment :: "coordinator_cfg \<Rightarrow> ('v, 'y) configs \<Rightarrow> nat \<Rightarrow> network \<Rightarrow> ('v, 'y) cluster_record \<Rightarrow> ('v, 'y) cluster
    \<Rightarrow> ('v, 'y) cluster" where
  "broadcastAbandonment Q G now net r M = snd (update_all Q G now (nw_abandon net) 0 (map fst (rc_peers r)) r M)"

fun floor_log10 :: "nat \<Rightarrow> nat" where
  "floor_log10 n = (if n < 10 then 0 else Suc (floor_log10 (n div 10)))"

definition validateSmallCluster :: "coordinator_cfg \<Rightarrow> nat \<Rightarrow> bool" where
  "validateSmallCluster Q localSize =
     (case co_networkSizeEstimate Q of
        Some (estimate, confidence) \<Rightarrow>
          confidence > 1 / 2 \<and> \<bar>int (floor_log10 (estimate + 1)) - int (floor_log10 (localSize + 1))\<bar> \<le> 1
          \<or> co_allowUnvalidatedSmallCluster Q
      | None \<Rightarrow> co_allowUnvalidatedSmallCluster Q)"

definition reject_reasons :: "votes \<Rightarrow> (string \<times> string) list" where
  "reject_reasons vs = concat (map (\<lambda>(p, sg). case sg of Reject s r \<Rightarrow> [(p, case r of Some t \<Rightarrow> t | None \<Rightarrow> ''unknown'')] | _ \<Rightarrow> []) vs)"

definition conflict_winners :: "votes \<Rightarrow> (string \<times> string) list" where
  "conflict_winners vs = concat (map (\<lambda>(p, sg). case sg of ConflictWith s h \<Rightarrow> [(p, h)] | _ \<Rightarrow> []) vs)"

definition mark_disputed :: "('v, 'y) cluster_record \<Rightarrow> ('v, 'y) cluster_record" where
  "mark_disputed r = r\<lparr>rc_disputed := True,
     rc_disputeEvidence := Some (map fst (reject_reasons (rc_promises r)), reject_reasons (rc_promises r))\<rparr>"

definition executeTransaction :: "coordinator_cfg \<Rightarrow> ('v, 'y) configs \<Rightarrow> nat \<Rightarrow> network \<Rightarrow> ('v, 'y) cluster_record
    \<Rightarrow> ('v, 'y) cluster \<times> ('v, 'y) coordinator
    \<Rightarrow> (coordinator_error + ('v, 'y) cluster_record) \<times> ('v, 'y) cluster \<times> ('v, 'y) coordinator" where
  "executeTransaction Q G now net r s =
     (let peerCount = length (rc_peers r);
          sm = superMajority (co_superMajorityThreshold Q) peerCount
      in if peerCount < co_minAbsoluteClusterSize Q \<and> \<not> validateSmallCluster Q peerCount then (Inl (ClusterTooSmall peerCount), s)
         else if \<not> co_allowClusterDownsize Q \<and> peerCount < co_clusterSize Q then (Inl (BelowConfiguredSize peerCount), s)
         else (case collectPromises Q G now net r s of
                 (r1, M, d) \<Rightarrow>
                   (let approvals = count_votes is_approve (rc_promises r1);
                        rejections = count_votes is_reject (rc_promises r1);
                        conflicts = count_votes is_conflict (rc_promises r1);
                        maxAllowedRejections = int peerCount - int sm
                    in if int rejections > maxAllowedRejections then
                         (Inl (ValidatorRejection (reject_reasons (rc_promises r1))),
                          broadcastAbandonment Q G now net r1 M, updateTransactionRecord now r1 d)
                       else if conflicts > 0 \<and> approvals < sm then
                         (Inl (ConflictRaceLost (conflict_winners (rc_promises r1))),
                          if int (rejections + conflicts) > maxAllowedRejections then broadcastAbandonment Q G now net r1 M else M,
                          updateTransactionRecord now r1 d)
                       else if peerCount > 1 \<and> approvals < sm then
                         (Inl (NoSuperMajority approvals rejections), M, updateTransactionRecord now r1 d)
                       else (let r2 = (if rejections > 0 \<and> approvals \<ge> sm then mark_disputed r1 else r1)
                             in map_prod Inr id (commitTransaction Q G now net r2
                                  (M, persistCoordinatorState Q now (rc_messageHash r2) r2 PhCommitting None d))))))"

definition executeClusterTransaction :: "coordinator_cfg \<Rightarrow> ('v, 'y) configs \<Rightarrow> ('v, 'y) crypto \<Rightarrow> nat \<Rightarrow> network
    \<Rightarrow> (string \<times> peer_info) list \<Rightarrow> ('v, 'y) message \<Rightarrow> ('v, 'y) cluster \<times> ('v, 'y) coordinator
    \<Rightarrow> (coordinator_error + ('v, 'y) cluster_record \<times> bool) \<times> ('v, 'y) cluster \<times> ('v, 'y) coordinator" where
  \<comment> \<open>\<open>peers\<close> is what the key network finds for the block\<close>
  "executeClusterTransaction Q G K now net peers msg = (\<lambda>(M, d).
     (let digest = membershipDigest K peers;
          h = computeClusterMessageHash K msg (Some digest);
          r = makeRecord Q peers h msg digest;
          d1 = persistCoordinatorState Q now h r PhPromising None
                 (d\<lparr>cd_transactions := AList.update h \<lparr>ct_record = r, ct_lastUpdate = now, ct_retry = None\<rparr> (cd_transactions d)\<rparr>)
      in case executeTransaction Q G now net r (M, d1) of
           (Inl e, M', d') \<Rightarrow> (Inl e, M', d')
         | (Inr r', M', d') \<Rightarrow>
             (Inr (r', case co_localPeer Q of Some p \<Rightarrow> wasTransactionExecuted h (sv_member (M' p)) | None \<Rightarrow> False), M', d')))"

section \<open>Retries and recovery\<close>

definition retryCommits :: "coordinator_cfg \<Rightarrow> ('v, 'y) configs \<Rightarrow> nat \<Rightarrow> network \<Rightarrow> string
    \<Rightarrow> ('v, 'y) cluster \<times> ('v, 'y) coordinator \<Rightarrow> ('v, 'y) cluster \<times> ('v, 'y) coordinator" where
  "retryCommits Q G now net h = (\<lambda>(M, d).
     (case map_of (cd_transactions d) h of
        None \<Rightarrow> (M, d)
      | Some t \<Rightarrow>
          (case ct_retry t of
             None \<Rightarrow> (M, d)
           | Some retry \<Rightarrow>
               if ry_pendingPeers retry = [] then (M, clearRetry h d)
               else (case update_all Q G now (nw_commit net) 0 (ry_pendingPeers retry) (ct_record t) M of
                       (rs, M') \<Rightarrow>
                         (let r' = (ct_record t)\<lparr>rc_commits := fold (\<lambda>x vs. spread vs (rc_commits x)) (answers rs) (rc_commits (ct_record t))\<rparr>;
                              retry' = retry\<lparr>ry_pendingPeers := failures rs\<rparr>;
                              d' = d\<lparr>cd_transactions := AList.update h (t\<lparr>ct_record := r', ct_retry := Some retry'\<rparr>) (cd_transactions d)\<rparr>
                          in (M', if failures rs = [] then clearRetry h d' else scheduleCommitRetry Q now h (failures rs) d'))))))"

fun recover_loop :: "coordinator_cfg \<Rightarrow> nat \<Rightarrow> (string \<times> ('v, 'y) persisted_state) list \<Rightarrow> ('v, 'y) coordinator \<Rightarrow> ('v, 'y) coordinator" where
  "recover_loop Q now [] d = d"
| "recover_loop Q now ((h, st) # rest) d =
     recover_loop Q now rest
       (if expired (mg_expiration (rc_message (pe_record st))) now then deleteCoordinatorState Q h d
        else (case (pe_phase st, pe_retryState st) of
                (PhBroadcasting, Some retry) \<Rightarrow>
                  scheduleCommitRetry Q now h (ry_pendingPeers retry)
                    (d\<lparr>cd_transactions := AList.update h \<lparr>ct_record = pe_record st, ct_lastUpdate = pe_lastUpdate st, ct_retry = None\<rparr>
                          (cd_transactions d)\<rparr>)
              | _ \<Rightarrow> deleteCoordinatorState Q h d))"

definition recoverCoordinator :: "coordinator_cfg \<Rightarrow> nat \<Rightarrow> ('v, 'y) coordinator \<Rightarrow> ('v, 'y) coordinator" where
  "recoverCoordinator Q now d = (if co_stateStore Q then recover_loop Q now (cd_persisted d) d else d)"

section \<open>Bounded retries\<close>

definition retry_ok :: "coordinator_cfg \<Rightarrow> commit_retry option \<Rightarrow> bool" where
  "retry_ok Q e = (case e of None \<Rightarrow> True
     | Some y \<Rightarrow> 1 \<le> ry_attempt y \<and> ry_attempt y \<le> co_retryMaxAttempts Q \<and> ry_intervalMs y \<le> max (co_retryInitialIntervalMs Q) (co_retryMaxIntervalMs Q))"

lemma scheduleCommitRetry_bounds:
  assumes "map_of (cd_transactions d) h = Some t" and "retry_ok Q (ct_retry t)"
  shows "\<exists>t'. map_of (cd_transactions (scheduleCommitRetry Q now h ps d)) h = Some t' \<and> retry_ok Q (ct_retry t')"
  using assms
  by (auto simp: scheduleCommitRetry_def retry_ok_def clearRetry_def persistCoordinatorState_def Let_def update_conv' min_def max_def
      split: option.splits)

lemma retry_abort_keeps_transaction:
  assumes "map_of (cd_transactions d) h = Some t" and "ct_retry t = Some e" and "ry_attempt e \<ge> co_retryMaxAttempts Q"
  shows "scheduleCommitRetry Q now h ps d = d"
  using assms by (simp add: scheduleCommitRetry_def)

lemma recovery_restarts_attempts:
  assumes "co_stateStore Q" and "cd_persisted d = [(h, st)]" and "\<not> expired (mg_expiration (rc_message (pe_record st))) now"
    and "pe_phase st = PhBroadcasting" and "pe_retryState st = Some e" and "ry_pendingPeers e \<noteq> []" and "1 \<le> co_retryMaxAttempts Q"
  shows "\<exists>t. map_of (cd_transactions (recoverCoordinator Q now d)) h = Some t
    \<and> ct_retry t = Some \<lparr>ry_pendingPeers = js_set (ry_pendingPeers e), ry_attempt = 1, ry_intervalMs = co_retryInitialIntervalMs Q\<rparr>"
  using assms by (simp add: recoverCoordinator_def scheduleCommitRetry_def Let_def update_conv' persistCoordinatorState_def)

section \<open>A round without losses\<close>

definition honest :: "('v, 'y) crypto \<Rightarrow> rat \<Rightarrow> string \<Rightarrow> peer_info \<Rightarrow> ('v, 'y) member_cfg \<Rightarrow> bool" where
  \<comment> \<open>the member signs with the key its peer id names\<close>
  "honest K t p info C \<longleftrightarrow> cf_id C = p \<and> cf_crypto C = K \<and> cf_threshold C = t \<and> pi_publicKey info \<noteq> []
     \<and> (\<exists>k. cy_decodeKey K (pi_publicKey info) = Some k \<and> cy_binds K p k
            \<and> (\<forall>text. cy_verify K k text (cf_sign C text) = Some True))"

definition bound :: "('v, 'y) crypto \<Rightarrow> ('v, 'y) cluster_record \<Rightarrow> bool" where
  \<comment> \<open>a version-2 record whose hash binds its message and its peers\<close>
  "bound K r \<longleftrightarrow> rc_membershipVersion r = Some 2 \<and> rc_membershipDigest r = Some (membershipDigest K (rc_peers r))
     \<and> rc_messageHash r = computeClusterMessageHash K (rc_message r) (rc_membershipDigest r)"

definition my_promise :: "('v, 'y) crypto \<Rightarrow> ('v, 'y) configs \<Rightarrow> ('v, 'y) cluster_record \<Rightarrow> string \<Rightarrow> string \<times> signature" where
  "my_promise K G r p = (p, Approve (signVote (G p) (computePromiseHash K r) ''approve'' None))"

definition my_commit :: "('v, 'y) crypto \<Rightarrow> ('v, 'y) configs \<Rightarrow> ('v, 'y) cluster_record \<Rightarrow> string \<Rightarrow> string \<times> signature" where
  "my_commit K G r p = (p, Approve (signVote (G p) (computeCommitHash K r) ''approve'' None))"

lemma promise_hash_votes [simp]:
  "computePromiseHash K (r\<lparr>rc_promises := vs\<rparr>) = computePromiseHash K r"
  "computePromiseHash K (r\<lparr>rc_commits := ws\<rparr>) = computePromiseHash K r"
  "computeCommitHash K (r\<lparr>rc_commits := ws\<rparr>) = computeCommitHash K r"
  by (simp_all add: computePromiseHash_def computeCommitHash_def recordMembershipDigest_def)

lemma my_promise_fst [simp]: "fst (my_promise K G r p) = p" "fst (my_commit K G r p) = p"
  by (simp_all add: my_promise_def my_commit_def)

lemma my_promise_approve [simp]: "is_approve (snd (my_promise K G r p))" "is_approve (snd (my_commit K G r p))"
  by (simp_all add: my_promise_def my_commit_def)

lemma verify_honest:
  assumes "honest K t p info C" and "map_of (rc_peers r) p = Some info"
  shows "verifySignature K r p hash (Approve (signVote C hash ''approve'' None)) = Verified"
  using assms by (auto simp: verifySignature_def honest_def signVote_def)

lemma validateVotes_all:
  assumes "\<And>p sg. (p, sg) \<in> set vs \<Longrightarrow> verifySignature K r p hash sg = Verified"
  shows "validateVotes K r phase hash vs = (None, [])"
  using assms by (induction vs) auto

lemma validateRecord_bound:
  assumes "bound K r" and "\<not> expired (mg_expiration (rc_message r)) now"
    and "\<And>p sg. (p, sg) \<in> set (rc_promises r) \<Longrightarrow> verifySignature K r p (computePromiseHash K r) sg = Verified"
    and "\<And>p sg. (p, sg) \<in> set (rc_commits r) \<Longrightarrow> verifySignature K r p (computeCommitHash K r) sg = Verified"
  shows "validateRecord K now r = (None, [])"
  using assms by (simp add: validateRecord_def bound_def recordMembershipDigest_def validateSignatures_def validateVotes_all)

lemma count_votes_all: "(\<And>v. v \<in> set vs \<Longrightarrow> P (snd v)) \<Longrightarrow> count_votes P vs = length vs"
  by (simp add: count_votes_def filter_id_conv)

lemma count_votes_none: "(\<And>v. v \<in> set vs \<Longrightarrow> \<not> P (snd v)) \<Longrightarrow> count_votes P vs = 0"
  by (simp add: count_votes_def filter_empty_conv)

lemma approve_others: "is_approve sg \<Longrightarrow> \<not> is_reject sg \<and> \<not> is_conflict sg"
  by (cases sg) simp_all

lemma approvals_count:
  assumes "\<And>v. v \<in> set vs \<Longrightarrow> is_approve (snd v)"
  shows "count_votes is_approve vs = length vs" "count_votes is_reject vs = 0" "count_votes is_conflict vs = 0"
  using assms approve_others by (simp_all add: count_votes_all count_votes_none)

lemma superMajority_le:
  assumes "t \<le> 1"
  shows "superMajority t n \<le> n"
proof -
  have "of_nat n * t \<le> of_nat n" using assms mult_left_mono [of t 1 "of_nat n"] by simp
  then have "\<lceil>of_nat n * t\<rceil> \<le> int n" by (simp add: ceiling_le_iff)
  then show ?thesis by (simp add: superMajority_def nat_le_iff)
qed

lemma sort_key_perm:
  assumes "distinct (map fst xs)" and "set xs = set ys" and "distinct (map fst ys)"
  shows "sort_key fst xs = sort_key fst ys"
proof -
  have "distinct xs" "distinct ys" using assms(1,3) by (simp_all add: distinct_map)
  then have "mset xs = mset (sort_key fst ys)" using assms(2) set_eq_iff_mset_eq_distinct by fastforce
  moreover have "inj_on fst (set xs)" using assms(1) by (simp add: distinct_map)
  ultimately show ?thesis by (intro sort_key_inj_key_eq) simp_all
qed

lemma update_all_delivered:
  assumes "\<And>p. p \<in> set ps \<Longrightarrow> member_update (G p) now r (M p) = (Inr (f p), m p)" and "\<And>p. p \<in> set ps \<Longrightarrow> net p = []"
    and "distinct ps"
  shows "update_all Q G now net k ps r M = (map (\<lambda>p. (p, Inr (f p))) ps, \<lambda>p. if p \<in> set ps then m p else M p)"
  using assms
proof (induction ps arbitrary: M)
  case (Cons p ps)
  have "remote_attempts G now k [] p r M = (Inr (f p), M(p := m p))"
    using Cons.prems(1) [of p] by (cases k) (simp_all add: remote_call_def deliver_def)
  then have "updateMember Q G now net k p r M = (Inr (f p), M(p := m p))"
    using Cons.prems(1,2) [of p] by (simp add: updateMember_def deliver_def)
  moreover have "update_all Q G now net k ps r (M(p := m p))
      = (map (\<lambda>p. (p, Inr (f p))) ps, \<lambda>q. if q \<in> set ps then m q else (M(p := m p)) q)"
    using Cons.prems by (intro Cons.IH) auto
  ultimately show ?case by (auto simp: fun_eq_iff)
qed simp

lemma answers_all: "answers (map (\<lambda>p. (p, Inr (f p))) ps) = map f ps"
  by (induction ps) (simp_all add: answers_def)

lemma failures_none: "failures (map (\<lambda>p. (p, Inr (f p))) ps) = []"
  by (induction ps) (simp_all add: failures_def)

definition serves :: "('v, 'y) crypto \<Rightarrow> rat \<Rightarrow> nat \<Rightarrow> ('v, 'y) cluster_record \<Rightarrow> peer_info \<Rightarrow> string \<Rightarrow> ('v, 'y) member_cfg
    \<Rightarrow> ('v, 'y) cluster_member \<Rightarrow> bool" where
  \<comment> \<open>an honest member that holds nothing, has not seen the transaction, approves it and can apply it\<close>
  "serves K t now r info p C m \<longleftrightarrow> honest K t p info C \<and> cm_active m = []
     \<and> map_of (cm_executed m) (rc_messageHash r) = None \<and> map_of (cm_executedStore m) (rc_messageHash r) = None
     \<and> (\<exists>v m1. evaluatePromise C r m = (Inr v, m1) \<and> vr_valid v
          \<and> (\<forall>q m2. rc_message q = rc_message r \<longrightarrow> cm_repo m2 = cm_repo m1
                \<longrightarrow> fst (apply_all C now q (mg_operations (rc_message r)) m2) = Inr ()))"

lemma servesD:
  assumes "serves K t now r info p C m"
  shows "cf_id C = p" "cf_crypto C = K" "cf_threshold C = t" "cm_active m = []" "honest K t p info C"
    "map_of (cm_executed m) (rc_messageHash r) = None" "map_of (cm_executedStore m) (rc_messageHash r) = None"
  using assms by (simp_all add: serves_def honest_def)

definition after_promise :: "nat \<Rightarrow> ('v, 'y) cluster_record \<Rightarrow> ('v, 'y) member_cfg \<Rightarrow> ('v, 'y) cluster_member \<Rightarrow> ('v, 'y) cluster_record
    \<Rightarrow> ('v, 'y) cluster_member" where
  \<comment> \<open>a member that holds the record \<open>q\<close> it has just promised\<close>
  "after_promise now r C m q = persistParticipantState C now (rc_messageHash r) q
     ((snd (evaluatePromise C r m))\<lparr>cm_active := [(rc_messageHash r, \<lparr>ts_record = q, ts_lastUpdate = now\<rparr>)]\<rparr>)"

lemma superMajority_two: "t > 1 / 2 \<Longrightarrow> 2 \<le> n \<Longrightarrow> 2 \<le> superMajority t n"
  using superMajority_less_half [of t n] by linarith

lemma promise_delivery:
  assumes s: "serves K t now r info p C m" and b: "bound K r" "\<not> expired (mg_expiration (rc_message r)) now"
    and e: "rc_promises r = []" "rc_commits r = []" and t: "t > 1 / 2" "t \<le> 1" and n: "2 \<le> length (rc_peers r)"
    and C: "C = G p"
  shows "processUpdate C now r m = (Inr (r\<lparr>rc_promises := [my_promise K G r p]\<rparr>), after_promise now r C m (r\<lparr>rc_promises := [my_promise K G r p]\<rparr>))"
proof -
  let ?q = "r\<lparr>rc_promises := [my_promise K G r p]\<rparr>"
  note d = servesD [OF s]
  have sm: "2 \<le> superMajority t (length (rc_peers r))" "superMajority t (length (rc_peers r)) \<le> length (rc_peers r)"
    using superMajority_two [OF t(1) n] superMajority_le [OF t(2)] by simp_all
  have valid: "validateRecord (cf_crypto C) now r = (None, [])"
    using validateRecord_bound [OF b(1,2)] e d(2) by simp
  obtain v m1 where ev: "evaluatePromise C r m = (Inr v, m1)" "vr_valid v" using s by (auto simp: serves_def)
  have ph1: "getTransactionPhase C now r m = (OurPromiseNeeded, m)"
    using sm e d(3,4) n by (simp add: getTransactionPhase_def Let_def hasMajority_def findConflict_def)
  have q: "handlePromiseNeeded C r m = (Inr ?q, m1)"
    using ev e d(1,2) C by (simp add: handlePromiseNeeded_def Let_def add_promise_def my_promise_def)
  have "cm_active m1 = []" using handlePromiseNeeded_other(3) [OF q] d(4) by simp
  have ph2: "getTransactionPhase C now ?q m1 = (Promising, m1)"
    using sm e d(1,3) n by (simp add: getTransactionPhase_def Let_def hasMajority_def my_promise_def)
  have "phaseLoop C now MaxPhaseSteps True r m = (Inr (True, ?q), m1)"
    using ph1 q ph2 by (simp add: MaxPhaseSteps_def numeral_eq_Suc)
  then show ?thesis using valid d(4) ev(1) \<open>cm_active m1 = []\<close> by (simp add: processUpdate_def after_promise_def)
qed

lemma detectEquivocation_loop_same:
  assumes "\<And>p sg. (p, sg) \<in> set incoming \<Longrightarrow> map_of existing p = None \<or> map_of existing p = Some sg"
    and "distinct (map fst incoming)" and "\<And>p. p \<in> fst ` set incoming \<Longrightarrow> map_of existing p = None \<Longrightarrow> map_of merged p = None"
  shows "detectEquivocation_loop existing phase h incoming merged ps
    = (merged @ filter (\<lambda>v. map_of existing (fst v) = None) incoming, ps)"
  using assms
proof (induction incoming arbitrary: merged)
  case (Cons v vs)
  obtain q sg where v: "v = (q, sg)" by fastforce
  show ?case
  proof (cases "map_of existing q")
    case None
    have "map_of merged q = None" using Cons.prems(3) [of q] v None by simp
    then have "AList.update q sg merged = merged @ [(q, sg)]" by (rule update_new)
    moreover have "detectEquivocation_loop existing phase h vs (merged @ [(q, sg)]) ps
      = ((merged @ [(q, sg)]) @ filter (\<lambda>v. map_of existing (fst v) = None) vs, ps)"
    proof (rule Cons.IH)
      fix p assume "p \<in> fst ` set vs" and "map_of existing p = None"
      moreover have "p \<noteq> q" using Cons.prems(2) v \<open>p \<in> fst ` set vs\<close> by auto
      ultimately show "map_of (merged @ [(q, sg)]) p = None" using Cons.prems(3) [of p] by (simp add: map_add_def)
    qed (use Cons.prems in auto)
    ultimately show ?thesis using None v by simp
  next
    case (Some old)
    then have "old = sg" using Cons.prems(1) [of q sg] v by simp
    then show ?thesis using Some v Cons.IH [of merged] Cons.prems by simp
  qed
qed simp

lemma my_votes_verified:
  assumes "\<And>p. p \<in> fst ` set (rc_peers r) \<Longrightarrow> honest K t p (the (map_of (rc_peers r) p)) (G p)" and "p \<in> fst ` set (rc_peers r)"
  shows "verifySignature K r p hash (Approve (signVote (G p) hash ''approve'' None)) = Verified"
proof -
  obtain info where "map_of (rc_peers r) p = Some info" using assms(2) by (metis map_of_eq_None_iff not_None_eq)
  then show ?thesis using assms verify_honest by fastforce
qed

lemma verifySignature_votes [simp]:
  "verifySignature K (r\<lparr>rc_promises := vs\<rparr>) p h sg = verifySignature K r p h sg"
  "verifySignature K (r\<lparr>rc_commits := ws\<rparr>) p h sg = verifySignature K r p h sg"
  by (simp_all add: verifySignature_def)

lemma bound_votes [simp]:
  "bound K (r\<lparr>rc_promises := vs\<rparr>) = bound K r" "bound K (r\<lparr>rc_commits := ws\<rparr>) = bound K r"
  by (simp_all add: bound_def)

lemma commit_hash_perm:
  assumes "distinct (map fst vs)" and "set vs = set ws" and "distinct (map fst ws)"
  shows "computeCommitHash K (r\<lparr>rc_promises := vs\<rparr>) = computeCommitHash K (r\<lparr>rc_promises := ws\<rparr>)"
  using sort_key_perm [OF assms] by (simp add: computeCommitHash_def computeClusterCommitHash_def recordMembershipDigest_def)

lemma map_of_own:
  assumes "p \<in> set ps"
  shows "map_of (map (my_promise K G r) ps) p \<noteq> None" "map_of (map (my_commit K G r) ps) p \<noteq> None"
  using assms by (induction ps) (auto simp: my_promise_def my_commit_def)

lemma own_votes_count:
  "count_votes is_approve (map (my_promise K G r) ps) = length ps" "count_votes is_reject (map (my_promise K G r) ps) = 0"
  "count_votes is_conflict (map (my_promise K G r) ps) = 0"
  "count_votes is_approve (map (my_commit K G r) ps) = length ps" "count_votes is_reject (map (my_commit K G r) ps) = 0"
  by (induction ps) (simp_all add: count_votes_def my_promise_def my_commit_def)

lemma mergeRecords_own:
  assumes "distinct ps" and "p \<in> set ps" and "rc_commits r = []" and "bound K r"
  shows "mergeRecords K (r\<lparr>rc_promises := [my_promise K G r p]\<rparr>) (r\<lparr>rc_promises := map (my_promise K G r) ps\<rparr>)
    = Inr (r\<lparr>rc_promises := my_promise K G r p # map (my_promise K G r) (filter (\<lambda>q. q \<noteq> p) ps)\<rparr>, [])"
proof -
  have "detectEquivocation [my_promise K G r p] (map (my_promise K G r) ps) ''promise'' (rc_messageHash r)
      = ([my_promise K G r p] @ filter (\<lambda>v. map_of [my_promise K G r p] (fst v) = None) (map (my_promise K G r) ps), [])"
    unfolding detectEquivocation_def
    by (intro detectEquivocation_loop_same) (use assms(1) in \<open>auto simp: my_promise_def distinct_map inj_on_def comp_def\<close>)
  moreover have "filter (\<lambda>v. map_of [my_promise K G r p] (fst v) = None) (map (my_promise K G r) ps)
      = map (my_promise K G r) (filter (\<lambda>q. q \<noteq> p) ps)"
    by (simp add: filter_map comp_def my_promise_def)
  ultimately show ?thesis
    using assms(3,4) by (simp add: mergeRecords_def detectEquivocation_def bound_def)
qed

lemma commit_delivery:
  assumes s: "serves K t now r info p C m" and b: "bound K r" "\<not> expired (mg_expiration (rc_message r)) now"
    and e: "rc_promises r = []" "rc_commits r = []" and t: "t > 1 / 2" "t \<le> 1" and n: "2 \<le> length (rc_peers r)"
    and C: "C = G p" and d: "distinct (map fst (rc_peers r))" and p: "p \<in> fst ` set (rc_peers r)"
    and h: "\<And>p. p \<in> fst ` set (rc_peers r) \<Longrightarrow> honest K t p (the (map_of (rc_peers r) p)) (G p)"
    and r1: "r1 = r\<lparr>rc_promises := map (my_promise K G r) (map fst (rc_peers r))\<rparr>"
  shows "\<exists>q. processUpdate C now r1 (after_promise now r C m (r\<lparr>rc_promises := [my_promise K G r p]\<rparr>))
       = (Inr q, clearTransaction C (rc_messageHash r) (after_promise now r C m (r\<lparr>rc_promises := [my_promise K G r p]\<rparr>)))
     \<and> rc_commits q = [my_commit K G r1 p]"
proof -
  let ?ps = "map fst (rc_peers r)" and ?m = "after_promise now r C m (r\<lparr>rc_promises := [my_promise K G r p]\<rparr>)"
  let ?vs = "my_promise K G r p # map (my_promise K G r) (filter (\<lambda>q. q \<noteq> p) ?ps)"
  let ?c = "r\<lparr>rc_promises := ?vs\<rparr>"
  note sd = servesD [OF s]
  have sm: "superMajority t (length (rc_peers r)) \<le> length (rc_peers r)" by (rule superMajority_le [OF t(2)])
  have valid: "validateRecord (cf_crypto C) now r1 = (None, [])"
    using my_votes_verified [OF h] b e sd(2) unfolding r1 by (intro validateRecord_bound) (auto simp: my_promise_def)
  have act: "map_of (cm_active ?m) (rc_messageHash r1) = Some \<lparr>ts_record = r\<lparr>rc_promises := [my_promise K G r p]\<rparr>, ts_lastUpdate = now\<rparr>"
    by (simp add: after_promise_def persistParticipantState_def r1)
  have vs: "set ?vs = set (map (my_promise K G r) ?ps)" "distinct (map fst ?vs)" "distinct (map fst (map (my_promise K G r) ?ps))"
    using p d by (auto simp: comp_def)
  have len: "length ?vs = length (rc_peers r)"
    using distinct_card [OF vs(2)] distinct_card [OF vs(3)] vs(1) by (metis length_map set_map)
  have cnt: "count_votes is_approve ?vs = length (rc_peers r)" "count_votes is_reject ?vs = 0" "count_votes is_conflict ?vs = 0"
    using approvals_count [of ?vs] len my_promise_approve(1) by (metis (no_types, lifting) imageE list.set_map set_ConsD)+
  have ph1: "getTransactionPhase C now ?c ?m = (OurCommitNeeded, ?m)"
    using sm e sd(1,3) n cnt by (simp add: getTransactionPhase_def Let_def hasMajority_def my_promise_def)
  let ?q = "?c\<lparr>rc_commits := [my_commit K G r1 p]\<rparr>"
  have q: "handleCommitNeeded C ?c = ?q"
    using e sd(1,2) C commit_hash_perm [OF vs(2,1,3), of K r] by (simp add: handleCommitNeeded_def my_commit_def r1)
  have ph2: "getTransactionPhase C now ?q ?m = (Propagating, ?m)"
    using sm e sd(1,3) n cnt len by (simp add: getTransactionPhase_def Let_def hasMajority_def my_promise_def my_commit_def)
  have "phaseLoop C now MaxPhaseSteps True ?c ?m = (Inr (False, ?q), ?m)"
    using ph1 q ph2 by (simp add: MaxPhaseSteps_def numeral_eq_Suc)
  moreover have "mergeRecords (cf_crypto C) (r\<lparr>rc_promises := [my_promise K G r p]\<rparr>) r1 = Inr (?c, [])"
    using mergeRecords_own [of ?ps p r K G] d p e(2) b(1) sd(2) by (simp add: r1)
  ultimately have "processUpdate C now r1 ?m = (Inr ?q, clearTransaction C (rc_messageHash r1) ?m)"
    using valid act by (simp add: processUpdate_def)
  then show ?thesis by (intro exI [of _ ?q]) (simp add: r1)
qed

lemma consensus_delivery:
  assumes s: "serves K t now r info p C m" and b: "bound K r" "\<not> expired (mg_expiration (rc_message r)) now"
    and t: "t \<le> 1" and n: "2 \<le> length (rc_peers r)" and p: "p \<in> fst ` set (rc_peers r)"
    and h: "\<And>p. p \<in> fst ` set (rc_peers r) \<Longrightarrow> honest K t p (the (map_of (rc_peers r) p)) (G p)"
    and r1: "r1 = r\<lparr>rc_promises := map (my_promise K G r) (map fst (rc_peers r))\<rparr>"
    and r2: "r2 = r1\<lparr>rc_commits := map (my_commit K G r1) (map fst (rc_peers r))\<rparr>"
    and m1: "m1 = clearTransaction C (rc_messageHash r) (after_promise now r C m q)"
  shows "\<exists>m2. processUpdate C now r2 m1 = (Inr r2, m2) \<and> wasTransactionExecuted (rc_messageHash r) m2 \<and> cm_active m2 = []"
proof -
  let ?ps = "map fst (rc_peers r)" and ?h = "rc_messageHash r"
  note sd = servesD [OF s]
  obtain v m' where ev: "evaluatePromise C r m = (Inr v, m')"
    and ok: "\<And>q m2. rc_message q = rc_message r \<Longrightarrow> cm_repo m2 = cm_repo m'
       \<Longrightarrow> fst (apply_all C now q (mg_operations (rc_message r)) m2) = Inr ()"
    using s unfolding serves_def by blast
  have hp: "handlePromiseNeeded C r m = (Inr (fst (sum.projr (fst (handlePromiseNeeded C r m)), ())), m')"
    using ev by (simp add: handlePromiseNeeded_def Let_def)
  note same = handlePromiseNeeded_other [OF hp]
  have m1f: "cm_active m1 = []" "cm_executed m1 = cm_executed m" "cm_executedStore m1 = cm_executedStore m" "cm_repo m1 = cm_repo m'"
    using ev same by (simp_all add: m1 after_promise_def clearTransaction_def persistParticipantState_def)
  have valid: "validateRecord (cf_crypto C) now r2 = (None, [])"
    using my_votes_verified [OF h] b sd(2) unfolding r1 r2
    by (intro validateRecord_bound) (auto simp: my_promise_def my_commit_def)
  have cnt: "count_votes is_approve (rc_promises r2) = length (rc_peers r)" "count_votes is_reject (rc_promises r2) = 0"
    "count_votes is_conflict (rc_promises r2) = 0" "count_votes is_approve (rc_commits r2) = length (rc_peers r)"
    "count_votes is_reject (rc_commits r2) = 0"
    using own_votes_count [of K G r ?ps] own_votes_count [of K G r1 ?ps] by (simp_all add: r2 r1 del: map_map)
  have own: "map_of (rc_promises r2) p \<noteq> None" "map_of (rc_commits r2) p \<noteq> None"
    using map_of_own [of p ?ps K G] p by (simp_all add: r1 r2)
  have peers: "rc_peers r2 = rc_peers r" "length (rc_promises r2) = length (rc_peers r)" "rc_messageHash r2 = ?h" "rc_message r2 = rc_message r"
    by (simp_all add: r1 r2)
  have ph: "getTransactionPhase C now r2 m1 = (Consensus, m1)"
    using superMajority_le [OF t, of "length (rc_peers r)"] n cnt own peers sd(1,3)
    by (auto simp: getTransactionPhase_def Let_def hasMajority_def)
  let ?m = "m1\<lparr>cm_executed := AList.update ?h now (cm_executed m1)\<rparr>"
  obtain x m3 where ap: "apply_all C now r2 (mg_operations (rc_message r)) ?m = (x, m3)" by fastforce
  have "x = Inr ()" using ok [of r2 ?m] m1f peers ap by simp
  then have hc: "handleConsensus C now r2 m1 = (Inr (), markExecuted C now ?h m3)"
    using ap m1f sd(6,7) peers by (simp add: handleConsensus_def wasTransactionExecutedAsync_def)
  have m3: "cm_active m3 = []" "map_of (cm_executed m3) ?h \<noteq> None"
    using apply_all_other [OF ap] m1f by (simp_all add: update_conv')
  have "phaseLoop C now MaxPhaseSteps True r2 m1 = (Inr (False, r2), markExecuted C now ?h m3)"
    using ph hc by (simp add: MaxPhaseSteps_def numeral_eq_Suc)
  then have "processUpdate C now r2 m1 = (Inr r2, clearTransaction C ?h (markExecuted C now ?h m3))"
    using valid m1f peers by (simp add: processUpdate_def)
  then show ?thesis using m3
    by (intro exI [of _ "clearTransaction C ?h (markExecuted C now ?h m3)"])
       (simp add: wasTransactionExecuted_def clearTransaction_def markExecuted_def)
qed

lemma fold_spread_own:
  assumes "distinct (map fst vs @ map fst ws)" and "\<And>x. x \<in> set xs \<Longrightarrow> f x = [g x]" and "ws = map g xs"
  shows "fold (\<lambda>x vs. spread vs (f x)) xs vs = vs @ ws"
  using assms
proof (induction xs arbitrary: vs ws)
  case (Cons x xs)
  obtain p sg where g: "g x = (p, sg)" by fastforce
  have "map_of vs p = None" using Cons.prems(1,3) g by (force simp: map_of_eq_None_iff)
  then have "spread vs (f x) = vs @ [g x]" using Cons.prems(2) [of x] g by (simp add: spread_def update_new)
  then show ?case using Cons.IH [of "vs @ [g x]" "map g xs"] Cons.prems by (auto simp: comp_def)
qed simp

lemma simpleMajority_le:
  assumes "co_simpleMajorityThreshold Q < 1" and "0 < n"
  shows "simpleMajority Q n \<le> n"
proof -
  have "of_nat n * co_simpleMajorityThreshold Q < of_nat n" using assms mult_strict_left_mono [of _ 1 "of_nat n :: rat"] by simp
  then have "\<lfloor>of_nat n * co_simpleMajorityThreshold Q\<rfloor> < int n" by (simp add: floor_less_iff)
  then show ?thesis using assms(2) unfolding simpleMajority_def by linarith
qed

definition fair_round :: "('v, 'y) crypto \<Rightarrow> coordinator_cfg \<Rightarrow> ('v, 'y) configs \<Rightarrow> nat \<Rightarrow> network \<Rightarrow> ('v, 'y) cluster_record \<Rightarrow> ('v, 'y) cluster \<Rightarrow> bool" where
  \<comment> \<open>at least two peers, all of them ready to serve, thresholds in range, nothing lost\<close>
  "fair_round K Q G now net r M \<longleftrightarrow>
     2 \<le> length (rc_peers r) \<and> co_minAbsoluteClusterSize Q \<le> length (rc_peers r) \<and> co_clusterSize Q \<le> length (rc_peers r)
     \<and> distinct (map fst (rc_peers r)) \<and> \<not> expired (mg_expiration (rc_message r)) now
     \<and> 1 / 2 < co_superMajorityThreshold Q \<and> co_superMajorityThreshold Q \<le> 1 \<and> co_simpleMajorityThreshold Q < 1
     \<and> nw_promise net = (\<lambda>_. []) \<and> nw_commit net = (\<lambda>_. []) \<and> nw_broadcast net = (\<lambda>_. [])
     \<and> (\<forall>(p, info) \<in> set (rc_peers r). serves K (co_superMajorityThreshold Q) now r info p (G p) (sv_member (M p))
          \<and> calm (M p))"

lemma fair_roundD:
  assumes "fair_round K Q G now net r M"
  shows "2 \<le> length (rc_peers r)" "distinct (map fst (rc_peers r))" "\<not> expired (mg_expiration (rc_message r)) now"
    "1 / 2 < co_superMajorityThreshold Q" "co_superMajorityThreshold Q \<le> 1"
    and "p \<in> fst ` set (rc_peers r) \<Longrightarrow> serves K (co_superMajorityThreshold Q) now r (the (map_of (rc_peers r) p)) p (G p) (sv_member (M p))"
    and "p \<in> fst ` set (rc_peers r) \<Longrightarrow> honest K (co_superMajorityThreshold Q) p (the (map_of (rc_peers r) p)) (G p)"
    and "p \<in> fst ` set (rc_peers r) \<Longrightarrow> calm (M p)"
proof -
  show s: "serves K (co_superMajorityThreshold Q) now r (the (map_of (rc_peers r) p)) p (G p) (sv_member (M p))"
    if "p \<in> fst ` set (rc_peers r)"
  proof -
    obtain info where info: "(p, info) \<in> set (rc_peers r)" using \<open>p \<in> fst ` set (rc_peers r)\<close> by auto
    moreover have "map_of (rc_peers r) p = Some info" using info assms by (simp add: fair_round_def)
    ultimately show ?thesis using assms by (auto simp: fair_round_def)
  qed
  show "p \<in> fst ` set (rc_peers r) \<Longrightarrow> honest K (co_superMajorityThreshold Q) p (the (map_of (rc_peers r) p)) (G p)"
    using servesD(5) [OF s] .
qed (use assms in \<open>auto simp: fair_round_def\<close>)

definition members_are :: "('v, 'y) cluster_record \<Rightarrow> (string \<Rightarrow> ('v, 'y) cluster_member) \<Rightarrow> ('v, 'y) cluster \<Rightarrow> bool" where
  \<comment> \<open>the states of the peers, none of which remembers a failed update of the record\<close>
  "members_are r f M \<longleftrightarrow> (\<forall>p \<in> fst ` set (rc_peers r). sv_member (M p) = f p \<and> calm (M p))"

lemma phase_without_losses:
  assumes f: "fair_round K Q G now net r M" and N: "members_are r N S" and h: "rc_messageHash q = rc_messageHash r" and nw: "nw = (\<lambda>_. [])"
    and p: "\<And>p. p \<in> fst ` set (rc_peers r) \<Longrightarrow> processUpdate (G p) now q (N p) = (Inr (a p), m p)"
  shows "\<exists>S'. (\<forall>k. update_all Q G now nw k (map fst (rc_peers r)) q S = (map (\<lambda>p. (p, Inr (a p))) (map fst (rc_peers r)), S'))
    \<and> members_are r m S'"
proof -
  let ?ps = "map fst (rc_peers r)"
  obtain s' where s': "\<forall>p \<in> fst ` set (rc_peers r). member_update (G p) now q (S p) = (Inr (a p), s' p) \<and> sv_member (s' p) = m p \<and> calm (s' p)"
    using srv.serves_all [of "fst ` set (rc_peers r)" S G now q a m] N p unfolding members_are_def by auto
  have "update_all Q G now nw k ?ps q S = (map (\<lambda>p. (p, Inr (a p))) ?ps, \<lambda>p. if p \<in> set ?ps then s' p else S p)" for k
    using fair_roundD(2) [OF f] s' nw by (intro update_all_delivered) auto
  then show ?thesis using s' by (intro exI [of _ "\<lambda>p. if p \<in> set ?ps then s' p else S p"]) (auto simp: members_are_def)
qed

definition all_promised :: "('v, 'y) crypto \<Rightarrow> ('v, 'y) configs \<Rightarrow> ('v, 'y) cluster_record \<Rightarrow> ('v, 'y) cluster_record" where
  "all_promised K G r = r\<lparr>rc_promises := map (my_promise K G r) (map fst (rc_peers r))\<rparr>"

definition all_committed :: "('v, 'y) crypto \<Rightarrow> ('v, 'y) configs \<Rightarrow> ('v, 'y) cluster_record \<Rightarrow> ('v, 'y) cluster_record" where
  "all_committed K G r = (all_promised K G r)\<lparr>rc_commits := map (my_commit K G (all_promised K G r)) (map fst (rc_peers r))\<rparr>"

lemma all_promised_simps [simp]:
  "rc_peers (all_promised K G r) = rc_peers r" "rc_peers (all_committed K G r) = rc_peers r"
  "rc_commits (all_promised K G r) = rc_commits r" "rc_messageHash (all_promised K G r) = rc_messageHash r"
  "rc_messageHash (all_committed K G r) = rc_messageHash r"
  by (simp_all add: all_promised_def all_committed_def)

definition holding :: "nat \<Rightarrow> ('v, 'y) crypto \<Rightarrow> ('v, 'y) configs \<Rightarrow> ('v, 'y) cluster_record \<Rightarrow> ('v, 'y) cluster \<Rightarrow> string
    \<Rightarrow> ('v, 'y) cluster_member" where
  "holding now K G r M p = after_promise now r (G p) (sv_member (M p)) (r\<lparr>rc_promises := [my_promise K G r p]\<rparr>)"

lemma collectPromises_all:
  assumes f: "fair_round K Q G now net r M" and b: "bound K r" and e: "rc_promises r = []" "rc_commits r = []"
  shows "\<exists>S d'. collectPromises Q G now net r (M, d) = (all_promised K G r, S, d') \<and> members_are r (holding now K G r M) S"
proof -
  let ?ps = "map fst (rc_peers r)" and ?q = "\<lambda>p. r\<lparr>rc_promises := [my_promise K G r p]\<rparr>"
  have p: "processUpdate (G p) now r (sv_member (M p)) = (Inr (?q p), holding now K G r M p)" if "p \<in> fst ` set (rc_peers r)" for p
    using promise_delivery [where G = G, OF fair_roundD(6) [OF f that] b fair_roundD(3) [OF f] e fair_roundD(4,5,1) [OF f] refl]
    by (simp add: holding_def)
  have "members_are r (\<lambda>p. sv_member (M p)) M" using fair_roundD(8) [OF f] by (simp add: members_are_def)
  moreover have "nw_promise net = (\<lambda>_. [])" using f by (simp add: fair_round_def)
  ultimately obtain S where u: "\<And>k. update_all Q G now (nw_promise net) k ?ps r M = (map (\<lambda>p. (p, Inr (?q p))) ?ps, S)"
    and S: "members_are r (holding now K G r M) S"
    using phase_without_losses [OF f _ refl _ p] by blast
  have "fold (\<lambda>x vs. spread vs (rc_promises x)) (map ?q ?ps) (rc_promises r) = map (my_promise K G r) ?ps"
    using fold_spread_own [of "[]" "map (my_promise K G r) ?ps" ?ps "\<lambda>p. rc_promises (?q p)" "my_promise K G r"] fair_roundD(2) [OF f] e(1)
    by (simp add: fold_map comp_def)
  then show ?thesis using u S by (simp add: collectPromises_def answers_all Let_def all_promised_def del: map_map)
qed

lemma collectCommits_all:
  assumes f: "fair_round K Q G now net r M" and b: "bound K r" and e: "rc_promises r = []" "rc_commits r = []"
    and S: "members_are r (holding now K G r M) S"
  shows "\<exists>S' d'. collectCommits Q G now net (all_promised K G r) (S, d) = ([], all_committed K G r, S', d')
    \<and> members_are r (\<lambda>p. clearTransaction (G p) (rc_messageHash r) (holding now K G r M p)) S'"
proof -
  let ?ps = "map fst (rc_peers r)" and ?r = "all_promised K G r"
  have "\<forall>p. \<exists>q. p \<in> fst ` set (rc_peers r) \<longrightarrow> processUpdate (G p) now ?r (holding now K G r M p)
      = (Inr q, clearTransaction (G p) (rc_messageHash r) (holding now K G r M p)) \<and> rc_commits q = [my_commit K G ?r p]"
    using commit_delivery [where G = G, OF fair_roundD(6) [OF f] b fair_roundD(3) [OF f] e fair_roundD(4,5,1) [OF f] refl fair_roundD(2) [OF f] _
        fair_roundD(7) [OF f] all_promised_def]
    by (auto simp: holding_def)
  then obtain q where q: "\<And>p. p \<in> fst ` set (rc_peers r) \<Longrightarrow> processUpdate (G p) now ?r (holding now K G r M p)
      = (Inr (q p), clearTransaction (G p) (rc_messageHash r) (holding now K G r M p))"
    "\<And>p. p \<in> fst ` set (rc_peers r) \<Longrightarrow> rc_commits (q p) = [my_commit K G ?r p]"
    by metis
  have "nw_commit net = (\<lambda>_. [])" using f by (simp add: fair_round_def)
  then obtain S' where u: "\<And>k. update_all Q G now (nw_commit net) k ?ps ?r S = (map (\<lambda>p. (p, Inr (q p))) ?ps, S')"
    and S': "members_are r (\<lambda>p. clearTransaction (G p) (rc_messageHash r) (holding now K G r M p)) S'"
    using phase_without_losses [OF f S all_promised_simps(4) _ q(1)] by blast
  have "fold (\<lambda>x vs. spread vs (rc_commits x)) (map q ?ps) (rc_commits r) = map (my_commit K G ?r) ?ps"
    using fold_spread_own [of "[]" "map (my_commit K G ?r) ?ps" ?ps "\<lambda>p. rc_commits (q p)" "my_commit K G ?r"] fair_roundD(2) [OF f] e(2) q(2)
    by (simp add: fold_map comp_def)
  then show ?thesis
    using u S' by (simp add: collectCommits_def answers_all failures_none Let_def all_committed_def del: map_map)
qed

lemma broadcast_all:
  assumes f: "fair_round K Q G now net r M" and b: "bound K r"
    and S: "members_are r (\<lambda>p. clearTransaction (G p) (rc_messageHash r) (holding now K G r M p)) S"
  shows "\<exists>M'. broadcastMergedRecord Q G now net (all_committed K G r) S = ([], M')
    \<and> (\<forall>p \<in> fst ` set (rc_peers r). wasTransactionExecuted (rc_messageHash r) (sv_member (M' p)) \<and> cm_active (sv_member (M' p)) = [])"
proof -
  let ?ps = "map fst (rc_peers r)" and ?h = "rc_messageHash r" and ?r = "all_committed K G r"
  let ?N = "\<lambda>p. clearTransaction (G p) (rc_messageHash r) (holding now K G r M p)"
  have "\<forall>p. \<exists>m. p \<in> fst ` set (rc_peers r) \<longrightarrow> processUpdate (G p) now ?r (?N p) = (Inr ?r, m) \<and> wasTransactionExecuted ?h m \<and> cm_active m = []"
    using consensus_delivery [where G = G, OF fair_roundD(6) [OF f] b fair_roundD(3) [OF f] fair_roundD(5,1) [OF f] _ fair_roundD(7) [OF f]
        all_promised_def all_committed_def refl]
    by (auto simp: holding_def)
  then obtain m where m: "\<And>p. p \<in> fst ` set (rc_peers r) \<Longrightarrow> processUpdate (G p) now ?r (?N p) = (Inr ?r, m p)"
    "\<And>p. p \<in> fst ` set (rc_peers r) \<Longrightarrow> wasTransactionExecuted ?h (m p) \<and> cm_active (m p) = []"
    by metis
  have "nw_broadcast net = (\<lambda>_. [])" using f by (simp add: fair_round_def)
  then obtain S' where u: "\<And>k. update_all Q G now (nw_broadcast net) k ?ps ?r S = (map (\<lambda>p. (p, Inr ?r)) ?ps, S')"
    and S': "members_are r m S'"
    using phase_without_losses [OF f S all_promised_simps(5) _ m(1)] by blast
  have "broadcastMergedRecord Q G now net ?r S = ([], S')"
    using u failures_none [of "\<lambda>_. ?r"] by (simp add: broadcastMergedRecord_def del: map_map)
  then show ?thesis using m(2) S' by (auto simp: members_are_def)
qed

lemma round_without_losses:
  assumes f: "fair_round K Q G now net r M" and b: "bound K r" and e: "rc_promises r = []" "rc_commits r = []"
  shows "\<exists>M' d'. executeTransaction Q G now net r (M, d) = (Inr (all_committed K G r), M', d')
    \<and> (\<forall>p \<in> fst ` set (rc_peers r). wasTransactionExecuted (rc_messageHash r) (sv_member (M' p)) \<and> cm_active (sv_member (M' p)) = [])"
proof -
  let ?r1 = "all_promised K G r" and ?r2 = "all_committed K G r" and ?n = "length (rc_peers r)"
  obtain S1 d1 where c1: "collectPromises Q G now net r (M, d) = (?r1, S1, d1)" and S1: "members_are r (holding now K G r M) S1"
    using collectPromises_all [OF f b e] by blast
  define d2 where "d2 = persistCoordinatorState Q now (rc_messageHash r) ?r1 PhCommitting None d1"
  obtain S2 d3 where c2: "collectCommits Q G now net ?r1 (S1, d2) = ([], ?r2, S2, d3)"
    and S2: "members_are r (\<lambda>p. clearTransaction (G p) (rc_messageHash r) (holding now K G r M p)) S2"
    using collectCommits_all [OF f b e S1] by blast
  obtain M' where c3: "broadcastMergedRecord Q G now net ?r2 S2 = ([], M')"
    and M': "\<forall>p \<in> fst ` set (rc_peers r). wasTransactionExecuted (rc_messageHash r) (sv_member (M' p)) \<and> cm_active (sv_member (M' p)) = []"
    using broadcast_all [OF f b S2] by blast
  have "simpleMajority Q ?n \<le> ?n" using f by (intro simpleMajority_le) (auto simp: fair_round_def)
  then have c4: "commitTransaction Q G now net ?r1 (S1, d2) = (?r2, M', clearRetry (rc_messageHash r) d3)"
    using c2 c3 by (simp add: commitTransaction_def all_committed_def)
  have cnt: "count_votes is_approve (rc_promises ?r1) = ?n" "count_votes is_reject (rc_promises ?r1) = 0" "count_votes is_conflict (rc_promises ?r1) = 0"
    using own_votes_count [of K G r "map fst (rc_peers r)"] by (simp_all add: all_promised_def del: map_map)
  have "executeTransaction Q G now net r (M, d) = (Inr ?r2, M', clearRetry (rc_messageHash r) d3)"
    using f c1 c4 cnt superMajority_le [OF fair_roundD(5) [OF f], of ?n]
    by (simp add: executeTransaction_def Let_def fair_round_def d2_def)
  then show ?thesis using M' by blast
qed

text \<open>C5. When nothing is lost a transaction is executed everywhere. If every one of at least two peers is an honest
  member that holds no other transaction, approves this one and can apply it, and no call is lost, then
  \<open>executeClusterTransaction\<close> returns a record with the promise and the commit of every peer, in the order of the
  peers, every member has executed it, and no member still holds a reservation for it.\<close>
theorem lossless_round_executes:
  assumes "r = makeRecord Q peers (computeClusterMessageHash K msg (Some (membershipDigest K peers))) msg (membershipDigest K peers)"
    and "fair_round K Q G now net r M"
  shows "\<exists>r' b M' d'. executeClusterTransaction Q G K now net peers msg (M, d) = (Inr (r', b), M', d')
    \<and> map fst (rc_promises r') = map fst peers \<and> map fst (rc_commits r') = map fst peers
    \<and> list_all (is_approve \<circ> snd) (rc_promises r' @ rc_commits r')
    \<and> (\<forall>p \<in> set (map fst peers). wasTransactionExecuted (rc_messageHash r) (sv_member (M' p)) \<and> cm_active (sv_member (M' p)) = [])"
proof -
  let ?d = "persistCoordinatorState Q now (rc_messageHash r) r PhPromising None
     (d\<lparr>cd_transactions := AList.update (rc_messageHash r) \<lparr>ct_record = r, ct_lastUpdate = now, ct_retry = None\<rparr> (cd_transactions d)\<rparr>)"
  have hash: "computeClusterMessageHash K msg (Some (membershipDigest K peers)) = rc_messageHash r"
    by (simp add: assms(1) makeRecord_def)
  have r: "bound K r" "rc_promises r = []" "rc_commits r = []" "rc_peers r = peers"
    by (simp_all add: assms(1) makeRecord_def bound_def)
  obtain M' d' where ex: "executeTransaction Q G now net r (M, ?d) = (Inr (all_committed K G r), M', d')"
    and M': "\<forall>p \<in> fst ` set peers. wasTransactionExecuted (rc_messageHash r) (sv_member (M' p)) \<and> cm_active (sv_member (M' p)) = []"
    using round_without_losses [OF assms(2) r(1,2,3), of ?d] r(4) by auto
  let ?b = "case co_localPeer Q of Some p \<Rightarrow> wasTransactionExecuted (rc_messageHash r) (sv_member (M' p)) | None \<Rightarrow> False"
  have "executeClusterTransaction Q G K now net peers msg (M, d) = (Inr (all_committed K G r, ?b), M', d')"
    using ex unfolding executeClusterTransaction_def Let_def assms(1) [symmetric, unfolded hash] hash by simp
  moreover have "list_all (is_approve \<circ> snd) (rc_promises (all_committed K G r) @ rc_commits (all_committed K G r))"
    by (auto simp: list_all_iff all_committed_def all_promised_def my_promise_def my_commit_def)
  moreover have "map fst (rc_promises (all_committed K G r)) = map fst peers" "map fst (rc_commits (all_committed K G r)) = map fst peers"
    using r(4) by (simp_all add: all_committed_def all_promised_def comp_def)
  ultimately show ?thesis using M' by fastforce
qed

section \<open>Concrete rounds\<close>

definition demo_coordinator :: coordinator_cfg where
  "demo_coordinator = \<lparr>co_superMajorityThreshold = DEFAULT_SUPER_MAJORITY_THRESHOLD, co_simpleMajorityThreshold = 51 / 100,
     co_minAbsoluteClusterSize = 3, co_clusterSize = 3, co_allowClusterDownsize = True, co_allowUnvalidatedSmallCluster = False,
     co_networkSizeEstimate = None, co_localPeer = None, co_stateStore = False, co_promiseImmediateRetries = 1,
     co_commitBroadcastImmediateRetries = 1, co_retryInitialIntervalMs = 250, co_retryBackoffFactor = 2,
     co_retryMaxIntervalMs = 8000, co_retryMaxAttempts = 5\<rparr>"

definition net_ok :: network where
  "net_ok = \<lparr>nw_promise = (\<lambda>_. []), nw_commit = (\<lambda>_. []), nw_broadcast = (\<lambda>_. []), nw_abandon = (\<lambda>_. [])\<rparr>"

definition net_lost :: network where
  \<comment> \<open>both answers of D to the promise request are lost\<close>
  "net_lost = net_ok\<lparr>nw_promise := (\<lambda>p. if p = ''D'' then [ResponseLost, ResponseLost] else [])\<rparr>"

definition new_cluster :: "(nat, unit) cluster" where
  "new_cluster = (\<lambda>_. \<lparr>sv_member = new_member, sv_pendingUpdates = [], sv_timers = []\<rparr>)"

definition no_coordinator :: "(nat, unit) coordinator" where
  "no_coordinator = \<lparr>cd_transactions = [], cd_persisted = [], cd_penalties = []\<rparr>"

definition demo_abc :: "action_id \<Rightarrow> (nat, unit) cluster_record" where
  "demo_abc a = makeRecord demo_coordinator (demo_peers [''A'', ''B'', ''C''])
     (computeClusterMessageHash demo_crypto (demo_pend a) (Some (membershipDigest demo_crypto (demo_peers [''A'', ''B'', ''C'']))))
     (demo_pend a) (membershipDigest demo_crypto (demo_peers [''A'', ''B'', ''C'']))"

lemma demo_honest: "p \<noteq> [] \<Longrightarrow> honest demo_crypto DEFAULT_SUPER_MAJORITY_THRESHOLD p \<lparr>pi_multiaddrs = [], pi_publicKey = p\<rparr> (demo_member p)"
  by (simp add: honest_def demo_member_def demo_crypto_def)

lemma demo_applies:
  assumes "cm_repo m2 = cm_repo new_member" and "a \<in> {''x'', ''y''}"
  shows "fst (apply_all (demo_member p) now q (mg_operations (demo_pend a)) m2) = Inr ()"
proof -
  have "returned (fst (repo_pend None (demo_request ''x'') (rp_blocks (cm_repo new_member))))"
    "returned (fst (repo_pend None (demo_request ''y'') (rp_blocks (cm_repo new_member))))" by code_simp+
  then have "returned (fst (repo_pend None (demo_request a) (rp_blocks (cm_repo new_member))))" using assms(2) by auto
  then obtain res f where "repo_pend None (demo_request a) (rp_blocks (cm_repo new_member)) = (Inr res, f)" using returnedD by blast
  then show ?thesis using assms(1) by (simp add: demo_pend_def demo_member_def)
qed

lemma demo_evaluates:
  assumes "p \<in> {''A'', ''B'', ''C''}"
  shows "evaluatePromise (demo_member p) (demo_abc a) new_member = (Inr \<lparr>vr_valid = True, vr_reason = None\<rparr>, new_member)"
  using assms by (auto simp: evaluatePromise_def admitMembership_def deriveExpectedClusterView_def run_validator_def demo_member_def
      demo_abc_def demo_peers_def demo_pend_def demo_request_def makeRecord_def)

lemma demo_serves:
  assumes "p \<in> {''A'', ''B'', ''C''}" and "a \<in> {''x'', ''y''}"
  shows "serves demo_crypto DEFAULT_SUPER_MAJORITY_THRESHOLD now (demo_abc a) \<lparr>pi_multiaddrs = [], pi_publicKey = p\<rparr> p (demo_member p) new_member"
  unfolding serves_def using assms demo_honest [of p] demo_applies demo_evaluates [OF assms(1)]
  by (auto simp: new_member_def demo_abc_def makeRecord_def)

lemma demo_fair:
  assumes "members_are (demo_abc a) (\<lambda>_. new_member) M" and "a \<in> {''x'', ''y''}"
  shows "fair_round demo_crypto demo_coordinator demo_member now net_ok (demo_abc a) M"
proof -
  have "rc_peers (demo_abc a) = demo_peers [''A'', ''B'', ''C'']" "mg_expiration (rc_message (demo_abc a)) = None"
    by (simp_all add: demo_abc_def makeRecord_def demo_pend_def)
  then show ?thesis using demo_serves [of _ a now] assms
    by (auto simp: fair_round_def members_are_def demo_peers_def expired_def demo_coordinator_def net_ok_def DEFAULT_SUPER_MAJORITY_THRESHOLD_def)
qed

lemma new_cluster_members: "members_are r (\<lambda>_. new_member) new_cluster"
  by (simp add: members_are_def new_cluster_def calm_def)

theorem lossless_round_executes_witness:
  "\<exists>r' b M' d'. executeClusterTransaction demo_coordinator demo_member demo_crypto 5 net_ok (demo_peers [''A'', ''B'', ''C'']) (demo_pend ''x'')
      (new_cluster, no_coordinator) = (Inr (r', b), M', d')
    \<and> (\<forall>p \<in> {''A'', ''B'', ''C''}. wasTransactionExecuted ''xABC'' (sv_member (M' p)))"
proof -
  have f: "fair_round demo_crypto demo_coordinator demo_member 5 net_ok (demo_abc ''x'') new_cluster"
    by (rule demo_fair [OF new_cluster_members]) simp
   have "rc_messageHash (demo_abc ''x'') = ''xABC''" by code_simp
  moreover have "set (map fst (demo_peers [''A'', ''B'', ''C''])) = {''A'', ''B'', ''C''}" by (simp add: demo_peers_def)
  ultimately show ?thesis using lossless_round_executes [OF demo_abc_def f, where d = no_coordinator] by metis
qed

definition lost_round :: "(coordinator_error + (nat, unit) cluster_record \<times> bool) \<times> (nat, unit) cluster \<times> (nat, unit) coordinator" where
  "lost_round = executeClusterTransaction demo_coordinator demo_member demo_crypto 5 net_lost (demo_peers [''A'', ''B'', ''C'', ''D''])
     (demo_pend ''x'') (new_cluster, no_coordinator)"

lemma validateRecord_later:
  assumes "validateRecord K 0 r = (Some e, ps)"
  shows "validateRecord K now r = (Some e, ps)"
  using assms by (auto simp: validateRecord_def expired_def split: if_splits prod.splits option.splits)

text \<open>C26. A lost promise can keep a committed transaction from ever being executed. The cluster has four honest peers; the
  two answers of D to the promise request are lost, but D has promised and holds the record. The coordinator asks for the
  commits with the three promises it has; D signs its commit over the four promises it knows, and the merged record
  carries three. So the coordinator reports success with the commits of all four peers, but no member has executed
  anything, and none ever will with this record: whatever a member holds and whenever the record arrives, the member
  refuses it for the commit signature of D, and penalizes D.\<close>
theorem lost_promise_blocks_execution:
  "\<exists>r'. fst lost_round = Inr (r', False) \<and> map fst (rc_promises r') = [''A'', ''B'', ''C'']
      \<and> map fst (rc_commits r') = [''A'', ''B'', ''C'', ''D'']
      \<and> map (\<lambda>p. cm_executed (sv_member (fst (snd lost_round) p))) [''A'', ''B'', ''C'', ''D''] = [[], [], [], []]
      \<and> (\<forall>p now m. processUpdate (demo_member p) now r' m = (Inl (Err ''Invalid commit signature from D''),
           m\<lparr>cm_penalties := cm_penalties m @ [(''D'', InvalidSignature, ''commit:xABCD'')]\<rparr>))"
proof -
  have "(case fst lost_round of Inl e \<Rightarrow> False
      | Inr (r', b) \<Rightarrow> \<not> b \<and> map fst (rc_promises r') = [''A'', ''B'', ''C''] \<and> map fst (rc_commits r') = [''A'', ''B'', ''C'', ''D'']
          \<and> validateRecord demo_crypto 0 r'
              = (Some (Err ''Invalid commit signature from D''), [(''D'', InvalidSignature, ''commit:xABCD'')]))"
    by code_simp
  then obtain r' where r': "fst lost_round = Inr (r', False)" "map fst (rc_promises r') = [''A'', ''B'', ''C'']"
    "map fst (rc_commits r') = [''A'', ''B'', ''C'', ''D'']"
    "validateRecord demo_crypto 0 r' = (Some (Err ''Invalid commit signature from D''), [(''D'', InvalidSignature, ''commit:xABCD'')])"
    by (auto split: sum.splits prod.splits)
  have "processUpdate (demo_member p) now r' m = (Inl (Err ''Invalid commit signature from D''),
      m\<lparr>cm_penalties := cm_penalties m @ [(''D'', InvalidSignature, ''commit:xABCD'')]\<rparr>)" for p now m
    using validateRecord_later [OF r'(4), of now] by (simp add: processUpdate_def demo_member_def)
  moreover have "map (\<lambda>p. cm_executed (sv_member (fst (snd lost_round) p))) [''A'', ''B'', ''C'', ''D''] = [[], [], [], []]" by code_simp
  ultimately show ?thesis using r'(1-3) by auto
qed

definition two_rounds :: "(nat, unit) cluster_record \<times> (nat, unit) cluster_record \<times> (nat, unit) cluster" where
  \<comment> \<open>promises and commits of \<open>x\<close>, then of \<open>y\<close>; the broadcasts are still under way\<close>
  "two_rounds =
     (case collectPromises demo_coordinator demo_member 5 net_ok (demo_abc ''x'') (new_cluster, no_coordinator) of
        (x1, M1, d1) \<Rightarrow> (case collectCommits demo_coordinator demo_member 5 net_ok x1 (M1, d1) of
          (_, x2, M2, d2) \<Rightarrow> (case collectPromises demo_coordinator demo_member 7 net_ok (demo_abc ''y'') (M2, d2) of
            (y1, M3, d3) \<Rightarrow> (case collectCommits demo_coordinator demo_member 7 net_ok y1 (M3, d3) of
              (_, y2, M4, d4) \<Rightarrow> (x2, y2, M4)))))"

definition crossed_broadcasts :: "(nat, unit) cluster" where
  \<comment> \<open>the broadcasts reach A and B in different orders\<close>
  "crossed_broadcasts =
     (case two_rounds of (x2, y2, M) \<Rightarrow>
        snd (deliver demo_member 10 ''B'' x2 (snd (deliver demo_member 9 ''B'' y2
          (snd (deliver demo_member 10 ''A'' y2 (snd (deliver demo_member 9 ''A'' x2 M))))))))"

lemma demo_round:
  assumes "members_are (demo_abc a) (\<lambda>_. new_member) M" and "a \<in> {''x'', ''y''}"
  shows "\<exists>S S' d' d''. collectPromises demo_coordinator demo_member now net_ok (demo_abc a) (M, d) = (all_promised demo_crypto demo_member (demo_abc a), S, d')
    \<and> collectCommits demo_coordinator demo_member now net_ok (all_promised demo_crypto demo_member (demo_abc a)) (S, d')
        = ([], all_committed demo_crypto demo_member (demo_abc a), S', d'')
    \<and> members_are (demo_abc b) (\<lambda>_. new_member) S'"
proof -
  let ?r = "demo_abc a"
  note f = demo_fair [OF assms, of now]
  have r: "bound demo_crypto ?r" "rc_promises ?r = []" "rc_commits ?r = []" by (simp_all add: demo_abc_def makeRecord_def bound_def)
  obtain S d' where c: "collectPromises demo_coordinator demo_member now net_ok ?r (M, d) = (all_promised demo_crypto demo_member ?r, S, d')"
    and S: "members_are ?r (holding now demo_crypto demo_member ?r M) S" using collectPromises_all [OF f r] by blast
  obtain S' d'' where c': "collectCommits demo_coordinator demo_member now net_ok (all_promised demo_crypto demo_member ?r) (S, d')
      = ([], all_committed demo_crypto demo_member ?r, S', d'')"
    and S': "members_are ?r (\<lambda>p. clearTransaction (demo_member p) (rc_messageHash ?r) (holding now demo_crypto demo_member ?r M p)) S'"
    using collectCommits_all [OF f r S] by blast
  have peers: "fst ` set (rc_peers (demo_abc c)) = {''A'', ''B'', ''C''}" for c by (simp add: demo_abc_def makeRecord_def demo_peers_def)
  have "clearTransaction (demo_member p) (rc_messageHash ?r) (holding now demo_crypto demo_member ?r M p) = new_member"
    if "p \<in> {''A'', ''B'', ''C''}" for p
  proof -
    note ev = demo_evaluates [OF that, of a]
    have "sv_member (M p) = new_member" using assms(1) that unfolding members_are_def peers by auto
    moreover have "cf_stateStore (demo_member p) = False" by (simp add: demo_member_def)
    ultimately obtain X where "holding now demo_crypto demo_member ?r M p = new_member\<lparr>cm_active := [(rc_messageHash ?r, X)]\<rparr>"
      using ev by (simp add: holding_def after_promise_def persistParticipantState_def)
    then show ?thesis by (simp add: clearTransaction_def new_member_def demo_member_def)
  qed
  then have "members_are (demo_abc b) (\<lambda>_. new_member) S'" using S' unfolding members_are_def peers by auto
  then show ?thesis using c c' by blast
qed

lemma two_rounds_result:
  "\<exists>S. two_rounds = (all_committed demo_crypto demo_member (demo_abc ''x''), all_committed demo_crypto demo_member (demo_abc ''y''), S)
     \<and> members_are (demo_abc ''x'') (\<lambda>_. new_member) S"
proof -
  obtain S1 S2 d1 d2 where x: "collectPromises demo_coordinator demo_member 5 net_ok (demo_abc ''x'') (new_cluster, no_coordinator)
        = (all_promised demo_crypto demo_member (demo_abc ''x''), S1, d1)"
      "collectCommits demo_coordinator demo_member 5 net_ok (all_promised demo_crypto demo_member (demo_abc ''x'')) (S1, d1)
        = ([], all_committed demo_crypto demo_member (demo_abc ''x''), S2, d2)"
      "members_are (demo_abc ''y'') (\<lambda>_. new_member) S2"
    using demo_round [OF new_cluster_members, of "''x''" 5 no_coordinator "''y''"] by auto
  obtain S3 S4 d3 d4 where y: "collectPromises demo_coordinator demo_member 7 net_ok (demo_abc ''y'') (S2, d2)
        = (all_promised demo_crypto demo_member (demo_abc ''y''), S3, d3)"
      "collectCommits demo_coordinator demo_member 7 net_ok (all_promised demo_crypto demo_member (demo_abc ''y'')) (S3, d3)
        = ([], all_committed demo_crypto demo_member (demo_abc ''y''), S4, d4)"
      "members_are (demo_abc ''x'') (\<lambda>_. new_member) S4"
    using demo_round [OF x(3), of 7 d2 "''x''"] by auto
  then show ?thesis using x y by (simp add: two_rounds_def)
qed

definition executed_both :: "string \<Rightarrow> action_id \<Rightarrow> action_id \<Rightarrow> (nat, unit) cluster_member" where
  \<comment> \<open>a new member to which two agreed records are delivered\<close>
  "executed_both p a b = snd (processUpdate (demo_member p) 10 (all_committed demo_crypto demo_member (demo_abc b))
     (snd (processUpdate (demo_member p) 9 (all_committed demo_crypto demo_member (demo_abc a)) new_member)))"

lemma deliver_both:
  assumes "sv_member s = new_member" and "calm s"
    and "returned (fst (processUpdate (demo_member p) 9 (all_committed demo_crypto demo_member (demo_abc a)) new_member))"
    and "returned (fst (processUpdate (demo_member p) 10 (all_committed demo_crypto demo_member (demo_abc b))
     (snd (processUpdate (demo_member p) 9 (all_committed demo_crypto demo_member (demo_abc a)) new_member))))"
  shows "sv_member (snd (member_update (demo_member p) 10 (all_committed demo_crypto demo_member (demo_abc b))
     (snd (member_update (demo_member p) 9 (all_committed demo_crypto demo_member (demo_abc a)) s)))) = executed_both p a b"
proof -
  let ?a = "all_committed demo_crypto demo_member (demo_abc a)" and ?b = "all_committed demo_crypto demo_member (demo_abc b)"
  obtain r m where a: "processUpdate (demo_member p) 9 ?a new_member = (Inr r, m)" using returnedD [OF assms(3)] by blast
  obtain r' m' where b: "processUpdate (demo_member p) 10 ?b m = (Inr r', m')" using returnedD [OF assms(4)] a by auto
  show ?thesis using srv.two_deliveries [of s] assms(1,2) a b by (simp add: executed_both_def)
qed

text \<open>C27. Two conflicting transactions can both be committed, and the members that execute them can end with different
  blocks. A member drops its reservation as soon as it has signed the commit, before it has executed the transaction:
  between the commit phase of \<open>x\<close> and its broadcast, all members promise and commit the conflicting \<open>y\<close>, without a
  vote \<open>conflict\<close>. Both records have the commit of every peer; when their broadcasts cross, A and B execute both,
  and afterwards the block has \<open>x\<close> pending at A and \<open>y\<close> pending at B.\<close>
theorem rivals_both_commit:
  "(case two_rounds of (x2, y2, M) \<Rightarrow>
      operationsConflict (mg_operations (rc_message x2)) (mg_operations (rc_message y2))
      \<and> list_all (is_approve \<circ> snd) (rc_promises x2 @ rc_promises y2 @ rc_commits x2 @ rc_commits y2)
      \<and> map fst (rc_commits x2) = [''A'', ''B'', ''C''] \<and> map fst (rc_commits y2) = [''A'', ''B'', ''C''])
   \<and> map fst (cm_executed (sv_member (crossed_broadcasts ''A''))) = [''xABC'', ''yABC'']
   \<and> map fst (cm_executed (sv_member (crossed_broadcasts ''B''))) = [''yABC'', ''xABC'']
   \<and> map fst (bs_pending (rp_blocks (cm_repo (sv_member (crossed_broadcasts ''A''))) ''b'')) = [''x'']
   \<and> map fst (bs_pending (rp_blocks (cm_repo (sv_member (crossed_broadcasts ''B''))) ''b'')) = [''y'']"
proof -
  let ?x = "all_committed demo_crypto demo_member (demo_abc ''x'')" and ?y = "all_committed demo_crypto demo_member (demo_abc ''y'')"
  obtain S where S: "two_rounds = (?x, ?y, S)" "members_are (demo_abc ''x'') (\<lambda>_. new_member) S" using two_rounds_result by blast
  have "operationsConflict (mg_operations (rc_message ?x)) (mg_operations (rc_message ?y))
      \<and> list_all (is_approve \<circ> snd) (rc_promises ?x @ rc_promises ?y @ rc_commits ?x @ rc_commits ?y)
      \<and> map fst (rc_commits ?x) = [''A'', ''B'', ''C''] \<and> map fst (rc_commits ?y) = [''A'', ''B'', ''C'']"
    by code_simp
  moreover have new: "sv_member (S p) = new_member" "calm (S p)" if "p \<in> {''A'', ''B''}" for p
    using S(2) that by (auto simp: members_are_def demo_abc_def makeRecord_def demo_peers_def)
  moreover have "sv_member (crossed_broadcasts ''A'') = executed_both ''A'' ''x'' ''y''"
  proof -
    have ok: "returned (fst (processUpdate (demo_member ''A'') 9 ?x new_member))"
      "returned (fst (processUpdate (demo_member ''A'') 10 ?y (snd (processUpdate (demo_member ''A'') 9 ?x new_member))))"
      by code_simp+
    have "sv_member (snd (member_update (demo_member ''A'') 10 ?y (snd (member_update (demo_member ''A'') 9 ?x (S ''A'')))))
        = executed_both ''A'' ''x'' ''y''"
      by (rule deliver_both [OF new ok]) simp_all
    then show ?thesis by (auto simp: crossed_broadcasts_def S(1) deliver_def split: prod.split)
  qed
  moreover have "sv_member (crossed_broadcasts ''B'') = executed_both ''B'' ''y'' ''x''"
  proof -
    have ok: "returned (fst (processUpdate (demo_member ''B'') 9 ?y new_member))"
      "returned (fst (processUpdate (demo_member ''B'') 10 ?x (snd (processUpdate (demo_member ''B'') 9 ?y new_member))))"
      by code_simp+
    have "sv_member (snd (member_update (demo_member ''B'') 10 ?x (snd (member_update (demo_member ''B'') 9 ?y (S ''B'')))))
        = executed_both ''B'' ''y'' ''x''"
      by (rule deliver_both [OF new ok]) simp_all
    then show ?thesis by (auto simp: crossed_broadcasts_def S(1) deliver_def split: prod.split)
  qed
  moreover have "(let m = executed_both ''A'' ''x'' ''y'' in (map fst (cm_executed m), map fst (bs_pending (rp_blocks (cm_repo m) ''b''))))
      = ([''xABC'', ''yABC''], [''x''])" by code_simp
  moreover have "(let m = executed_both ''B'' ''y'' ''x'' in (map fst (cm_executed m), map fst (bs_pending (rp_blocks (cm_repo m) ''b''))))
      = ([''yABC'', ''xABC''], [''y''])" by code_simp
  ultimately show ?thesis unfolding S(1) Let_def prod.inject prod.case by simp
qed

end
