(* ===== verification/Batch_Coordinator.thy ===== *)
theory Batch_Coordinator
  imports Transform_Ops
begin

text \<open>
  Batches of block requests: \<open>packages/db-core/src/utility/batch-coordinator.ts\<close>. The blocks of a request are
  grouped by the peer that coordinates them; a batch whose call fails is split again over other peers, and the
  retries hang below the batch they replace.

  The calls and lookups are functions of a world \<open>'s\<close> that they may change; the clock is read from the world. The
  calls of a set run concurrently in the source and one after the other here, in the order of the set; a retry
  follows its failed call. A batch object is changed in place when its call completes, so here the finished
  batches are returned; a retry of a retry is attached to the same root.
\<close>

section \<open>Batches\<close>

datatype ('p, 'r) batch = Batch
  (bt_peer: string) (bt_blockId: block_id) (bt_payload: 'p) (bt_request: "(error + 'r) option")
  (bt_subsumedBy: "('p, 'r) batch list") (bt_excluded: "string list") (bt_coordinating: "block_id list option")

fun set_request :: "error + 'r \<Rightarrow> ('p, 'r) batch \<Rightarrow> ('p, 'r) batch" where
  "set_request x (Batch p i pl r ss ex co) = Batch p i pl (Some x) ss ex co"

fun add_subsumed :: "('p, 'r) batch list \<Rightarrow> ('p, 'r) batch \<Rightarrow> ('p, 'r) batch" where
  "add_subsumed bs (Batch p i pl r ss ex co) = Batch p i pl r (ss @ bs) ex co"

definition make_step :: "'p \<Rightarrow> ('p \<Rightarrow> block_id \<Rightarrow> 'p option \<Rightarrow> 'p) \<Rightarrow> string list \<Rightarrow> block_id \<times> string
    \<Rightarrow> (string \<times> ('p, 'r) batch) list \<Rightarrow> (string \<times> ('p, 'r) batch) list" where
  \<comment> \<open>the callback of \<open>reduce\<close>\<close>
  "make_step payload getBlockPayload excluded = (\<lambda>(i, p) acc.
     AList.update p
       (case map_of acc p of
          Some (Batch q j pl r ss ex co) \<Rightarrow> Batch q j (getBlockPayload payload i (Some pl)) r ss ex co
        | None \<Rightarrow> Batch p i (getBlockPayload payload i None) None [] excluded None) acc)"

definition makeBatchesByPeer :: "(block_id \<times> string) list \<Rightarrow> 'p \<Rightarrow> ('p \<Rightarrow> block_id \<Rightarrow> 'p option \<Rightarrow> 'p) \<Rightarrow> string list
    \<Rightarrow> ('p, 'r) batch list" where
  "makeBatchesByPeer blockPeers payload getBlockPayload excluded =
     map snd (fold (make_step payload getBlockPayload excluded) blockPeers [])"

function tree_nodes :: "('p, 'r) batch list \<Rightarrow> ('p, 'r) batch list" where
  \<comment> \<open>the loop over the stack, whose top is the head of the list\<close>
  "tree_nodes [] = []"
| "tree_nodes (b # stack) = b # tree_nodes (rev (bt_subsumedBy b) @ stack)"
  by pat_completeness auto
termination
proof (relation "measure (\<lambda>st. sum_list (map size st))")
  fix b :: "('p, 'r) batch" and stack
  have "sum_list (map size (bt_subsumedBy b)) < size b"
    by (cases b) (simp add: size_list_conv_sum_list)
  then show "(rev (bt_subsumedBy b) @ stack, b # stack) \<in> measure (\<lambda>st. sum_list (map size st))"
    by (simp add: rev_map [symmetric])
qed simp

definition allBatches :: "(('p, 'r) batch \<Rightarrow> bool) \<Rightarrow> ('p, 'r) batch list \<Rightarrow> ('p, 'r) batch list" where
  "allBatches P bs = filter P (tree_nodes (rev bs))"

definition responded :: "('p, 'r) batch \<Rightarrow> bool" where
  \<comment> \<open>\<open>batch.request?.isResponse\<close>\<close>
  "responded b = (case bt_request b of Some (Inr r) \<Rightarrow> True | _ \<Rightarrow> False)"

definition incompleteBatches :: "('p, 'r) batch list \<Rightarrow> ('p, 'r) batch list" where
  "incompleteBatches bs = filter (\<lambda>b. \<not> responded b) (tree_nodes (rev bs))"

definition everyBatch :: "('p, 'r) batch list \<Rightarrow> (('p, 'r) batch \<Rightarrow> bool) \<Rightarrow> bool" where
  \<comment> \<open>some node of the tree of every root satisfies the predicate\<close>
  "everyBatch bs P = list_all (\<lambda>root. list_ex P (tree_nodes [root])) bs"

definition mergeBlocks :: "block_id list \<Rightarrow> block_id \<Rightarrow> block_id list option \<Rightarrow> block_id list" where
  "mergeBlocks payload i m = (case m of Some bs \<Rightarrow> bs | None \<Rightarrow> []) @ [i]"

section \<open>Processing\<close>

record ('p, 'r, 's) batch_ops =
  bo_process :: "('p, 'r) batch \<Rightarrow> 's \<Rightarrow> (error + 'r) \<times> 's"
  bo_blockIds :: "('p, 'r) batch \<Rightarrow> block_id list"
  bo_payload :: "'p \<Rightarrow> block_id \<Rightarrow> 'p option \<Rightarrow> 'p"
  bo_expiration :: nat
  bo_now :: "'s \<Rightarrow> nat"
  bo_find :: "block_id \<Rightarrow> string list \<Rightarrow> 's \<Rightarrow> (error + string) \<times> 's"

fun find_all :: "(block_id \<Rightarrow> string list \<Rightarrow> 's \<Rightarrow> (error + string) \<times> 's) \<Rightarrow> string list \<Rightarrow> block_id list \<Rightarrow> 's
    \<Rightarrow> (error + (block_id \<times> string) list) \<times> 's" where
  \<comment> \<open>all lookups are started; the first failure is the result\<close>
  "find_all look excluded [] w = (Inr [], w)"
| "find_all look excluded (i # is) w =
     (case look i excluded w of
        (x, w1) \<Rightarrow> (case find_all look excluded is w1 of
                      (y, w2) \<Rightarrow> (case x of Inl e \<Rightarrow> Inl e | Inr p \<Rightarrow> map_sum id ((#) (i, p)) y, w2)))"

definition createBatchesForPayload :: "block_id list \<Rightarrow> 'p \<Rightarrow> ('p \<Rightarrow> block_id \<Rightarrow> 'p option \<Rightarrow> 'p) \<Rightarrow> string list
    \<Rightarrow> (block_id \<Rightarrow> string list \<Rightarrow> 's \<Rightarrow> (error + string) \<times> 's) \<Rightarrow> 's \<Rightarrow> (error + ('p, 'r) batch list) \<times> 's" where
  "createBatchesForPayload blockIds payload getBlockPayload excluded look w =
     (case find_all look excluded (js_set blockIds) w of
        (x, w1) \<Rightarrow> (map_sum id (\<lambda>bp. makeBatchesByPeer bp payload getBlockPayload excluded) x, w1))"

fun processSet :: "('p, 'r, 's) batch_ops \<Rightarrow> nat \<Rightarrow> ('p, 'r) batch list \<Rightarrow> 's
    \<Rightarrow> ((('p, 'r) batch \<times> ('p, 'r) batch list) list \<times> 's) option" where
  \<comment> \<open>every finished batch with the retries that belong below its root; the second argument bounds the depth of the retries\<close>
  "processSet B n [] w = Some ([], w)"
| "processSet B 0 (b # bs) w = None"
| "processSet B (Suc n) (b # bs) w =
     (case (case bo_process B b w of
              (Inr r, w1) \<Rightarrow> Some ((set_request (Inr r) b, []), w1)
            | (Inl e, w1) \<Rightarrow>
                if bo_expiration B > bo_now B w1 then
                  (case createBatchesForPayload (bo_blockIds B b) (bt_payload b) (bo_payload B) (bt_peer b # bt_excluded b) (bo_find B) w1 of
                     (Inl e', w2) \<Rightarrow> Some ((set_request (Inl e) b, []), w2)
                   | (Inr retries, w2) \<Rightarrow>
                       if retries \<noteq> [] \<and> bo_expiration B > bo_now B w2
                       then map_option (map_prod (\<lambda>rs. (set_request (Inl e) b, map fst rs @ concat (map snd rs))) id) (processSet B n retries w2)
                       else Some ((set_request (Inl e) b, []), w2))
                else Some ((set_request (Inl e) b, []), w1)) of
        None \<Rightarrow> None
      | Some (x, w') \<Rightarrow> map_option (map_prod ((#) x) id) (processSet B (Suc n) bs w'))"

definition processBatches :: "('p, 'r, 's) batch_ops \<Rightarrow> nat \<Rightarrow> ('p, 'r) batch list \<Rightarrow> 's \<Rightarrow> (('p, 'r) batch list \<times> 's) option" where
  "processBatches B n bs w = map_option (map_prod (map (\<lambda>(b, ext). add_subsumed ext b)) id) (processSet B n bs w)"

section \<open>Lemmas on batches\<close>

lemma batch_field_simps [simp]:
  "bt_payload (set_request x b) = bt_payload b" "bt_request (set_request x b) = Some x"
  "bt_subsumedBy (set_request x b) = bt_subsumedBy b" "bt_peer (set_request x b) = bt_peer b"
  "bt_blockId (set_request x b) = bt_blockId b"
  "bt_payload (add_subsumed bs b) = bt_payload b" "bt_request (add_subsumed bs b) = bt_request b"
  "bt_subsumedBy (add_subsumed bs b) = bt_subsumedBy b @ bs" "bt_peer (add_subsumed bs b) = bt_peer b"
  "bt_blockId (add_subsumed bs b) = bt_blockId b"
  by (cases b; simp)+

lemma list_all2_right: "list_all2 P xs ys \<Longrightarrow> y \<in> set ys \<Longrightarrow> \<exists>x \<in> set xs. P x y"
  by (induction xs ys rule: list_all2_induct) auto

lemma tree_nodes_append: "tree_nodes (as @ bs) = tree_nodes as @ tree_nodes bs"
  by (induction as rule: tree_nodes.induct) simp_all

lemma tree_nodes_leaves: "\<forall>b \<in> set bs. bt_subsumedBy b = [] \<Longrightarrow> tree_nodes bs = bs"
  by (induction bs) simp_all

lemma allBatches_True: "allBatches (\<lambda>_. True) bs = tree_nodes (rev bs)"
  by (simp add: allBatches_def)

lemma everyBatch_simps [simp]:
  "everyBatch [] P"
  "everyBatch (b # bs) P \<longleftrightarrow> list_ex P (tree_nodes [b]) \<and> everyBatch bs P"
  by (simp_all add: everyBatch_def)

definition group_payload :: "('p \<Rightarrow> block_id \<Rightarrow> 'p option \<Rightarrow> 'p) \<Rightarrow> 'p \<Rightarrow> block_id list \<Rightarrow> 'p" where
  \<comment> \<open>the payload of a batch with the given blocks\<close>
  "group_payload g payload is = foldl (\<lambda>m i. g payload i (Some m)) (g payload (hd is) None) (tl is)"

lemma group_payload_single [simp]: "group_payload g payload [i] = g payload i None"
  by (simp add: group_payload_def)

lemma group_payload_snoc:
  "group_payload g payload (is @ [i]) = (if is = [] then g payload i None else g payload i (Some (group_payload g payload is)))"
  by (simp add: group_payload_def)

definition blocks_of :: "(block_id \<times> string) list \<Rightarrow> string \<Rightarrow> block_id list" where
  "blocks_of bp p = map fst (filter (\<lambda>x. snd x = p) bp)"

lemma blocks_of_snoc: "blocks_of (bp @ [(i, q)]) p = blocks_of bp p @ (if q = p then [i] else [])"
  by (simp add: blocks_of_def)

lemma make_step_apply:
  "map_of (make_step payload g excluded (i, p) acc) =
     (map_of acc)(p \<mapsto> case map_of acc p of
        Some (Batch q j pl r ss ex co) \<Rightarrow> Batch q j (g payload i (Some pl)) r ss ex co
      | None \<Rightarrow> Batch p i (g payload i None) None [] excluded None)"
  by (simp add: make_step_def)

lemma make_steps_group:
  "map_of (fold (make_step payload g excluded) bp []) p =
     (if blocks_of bp p = [] then None
      else Some (Batch p (hd (blocks_of bp p)) (group_payload g payload (blocks_of bp p)) None [] excluded None))"
proof (induction bp arbitrary: p rule: rev_induct)
  case (snoc x bp)
  obtain i q where x: "x = (i, q)" by (cases x)
  show ?case
    by (cases "blocks_of bp q = []") (auto simp: x blocks_of_snoc make_step_apply snoc group_payload_snoc hd_append)
qed (simp add: blocks_of_def)

lemma make_steps_keys:
  "distinct (map fst acc) \<Longrightarrow> distinct (map fst (fold (make_step payload g excluded) bp acc))"
proof (induction bp arbitrary: acc)
  case (Cons x bp)
  then show ?case by (cases x) (simp add: make_step_def AList.distinct_update)
qed simp

lemma makeBatchesByPeer_iff:
  "b \<in> set (makeBatchesByPeer bp payload g excluded) \<longleftrightarrow>
     blocks_of bp (bt_peer b) \<noteq> [] \<and>
     b = Batch (bt_peer b) (hd (blocks_of bp (bt_peer b))) (group_payload g payload (blocks_of bp (bt_peer b))) None [] excluded None"
proof -
  let ?acc = "fold (make_step payload g excluded) bp []"
  have "b \<in> set (makeBatchesByPeer bp payload g excluded) \<longleftrightarrow> (\<exists>p. (p, b) \<in> set ?acc)"
    by (force simp: makeBatchesByPeer_def)
  also have "\<dots> \<longleftrightarrow> (\<exists>p. map_of ?acc p = Some b)"
    by (simp add: map_of_eq_Some_iff make_steps_keys)
  also have "\<dots> \<longleftrightarrow> blocks_of bp (bt_peer b) \<noteq> [] \<and>
      b = Batch (bt_peer b) (hd (blocks_of bp (bt_peer b))) (group_payload g payload (blocks_of bp (bt_peer b))) None [] excluded None"
    by (cases b) (auto simp: make_steps_group split: if_splits)
  finally show ?thesis .
qed

definition fresh_batch :: "string list \<Rightarrow> ('p \<Rightarrow> bool) \<Rightarrow> ('p, 'r) batch \<Rightarrow> bool" where
  "fresh_batch excluded J b \<longleftrightarrow> J (bt_payload b) \<and> bt_request b = None \<and> bt_subsumedBy b = [] \<and> bt_excluded b = excluded"

lemma distinct_blocks_of: "distinct (map fst bp) \<Longrightarrow> distinct (blocks_of bp p)"
  by (simp add: blocks_of_def distinct_map_filter)

lemma makeBatchesByPeer_fresh:
  assumes b: "b \<in> set (makeBatchesByPeer bp payload g excluded)" and bp: "distinct (map fst bp)"
    and J: "\<And>is. is \<noteq> [] \<Longrightarrow> distinct is \<Longrightarrow> set is \<subseteq> fst ` set bp \<Longrightarrow> J (group_payload g payload is)"
  shows "fresh_batch excluded J b"
proof -
  let ?is = "blocks_of bp (bt_peer b)"
  have c: "?is \<noteq> []" "b = Batch (bt_peer b) (hd ?is) (group_payload g payload ?is) None [] excluded None"
    using b [unfolded makeBatchesByPeer_iff] by blast+
  have "set ?is \<subseteq> fst ` set bp" by (auto simp: blocks_of_def)
  then have "J (group_payload g payload ?is)" by (rule J [OF c(1) distinct_blocks_of [OF bp]])
  then show ?thesis by (subst c(2)) (simp add: fresh_batch_def)
qed

lemma makeBatchesByPeer_peers: "distinct (map bt_peer (makeBatchesByPeer bp payload g excluded :: ('p, 'r) batch list))"
proof -
  let ?acc = "fold (make_step payload g excluded) bp [] :: (string \<times> ('p, 'r) batch) list"
  have d: "distinct (map fst ?acc)" by (rule make_steps_keys) simp
  have "bt_peer (snd x) = fst x" if "x \<in> set ?acc" for x
  proof -
    have "map_of ?acc (fst x) = Some (snd x)" by (rule map_of_is_SomeI [OF d]) (use that in simp)
    then have "snd x = Batch (fst x) (hd (blocks_of bp (fst x))) (group_payload g payload (blocks_of bp (fst x))) None [] excluded None"
      by (simp add: make_steps_group split: if_splits)
    then show ?thesis by simp
  qed
  then have "map bt_peer (makeBatchesByPeer bp payload g excluded :: ('p, 'r) batch list) = map fst ?acc"
    by (simp add: makeBatchesByPeer_def)
  with d show ?thesis by simp
qed

lemma find_all_keys: "find_all look excluded is w = (Inr bp, w') \<Longrightarrow> map fst bp = is"
proof (induction "is" arbitrary: w bp w')
  case (Cons i "is")
  then show ?case by (auto simp: map_sum_def split: prod.splits sum.splits)
qed simp

lemma group_mergeBlocks: "is \<noteq> [] \<Longrightarrow> group_payload mergeBlocks payload is = is"
proof (induction "is" rule: rev_induct)
  case (snoc i "is")
  then show ?case by (cases "is = []") (simp_all add: group_payload_snoc mergeBlocks_def)
qed simp

lemma everyBatch_node: "everyBatch bs P \<Longrightarrow> b \<in> set bs \<Longrightarrow> \<exists>c \<in> set (allBatches (\<lambda>_. True) bs). P c"
proof (induction bs)
  case (Cons a bs)
  then show ?case
    by (cases "b = a") (auto simp: allBatches_True tree_nodes_append list_ex_iff)
qed simp

lemma find_all_rel:
  assumes "\<And>w. R w w" and "\<And>w w' w''. R w w' \<Longrightarrow> R w' w'' \<Longrightarrow> R w w''" and "\<And>i ex w p w'. look i ex w = (p, w') \<Longrightarrow> R w w'"
  shows "find_all look ex is w = (x, w') \<Longrightarrow> R w w'"
  by (induction "is" arbitrary: w x w') (auto simp: assms(1) split: prod.splits dest!: assms(3) intro: assms(2))

lemma createBatches_rel:
  assumes "\<And>w. R w w" and "\<And>w w' w''. R w w' \<Longrightarrow> R w' w'' \<Longrightarrow> R w w''" and "\<And>i ex w p w'. look i ex w = (p, w') \<Longrightarrow> R w w'"
    and "createBatchesForPayload ids payload g ex look w = (x, w')"
  shows "R w w'"
  using assms(4) find_all_rel [of R look, OF assms(1-3)] by (auto simp: createBatchesForPayload_def split: prod.splits)

lemma createBatches_made:
  assumes "createBatchesForPayload ids payload g ex look w = (Inr batches, w')"
  obtains bp where "find_all look ex (js_set ids) w = (Inr bp, w')" "map fst bp = js_set ids"
    "batches = makeBatchesByPeer bp payload g ex"
  using assms by (auto simp: createBatchesForPayload_def map_sum_def split: prod.splits sum.splits dest: find_all_keys)

lemma createBatches_fresh:
  assumes "createBatchesForPayload ids payload g ex look w = (Inr batches, w')" and "b \<in> set batches"
    and "\<And>is. is \<noteq> [] \<Longrightarrow> distinct is \<Longrightarrow> set is \<subseteq> set ids \<Longrightarrow> J (group_payload g payload is)"
  shows "fresh_batch ex J b"
proof -
  obtain bp where bp: "map fst bp = js_set ids" "batches = makeBatchesByPeer bp payload g ex"
    using createBatches_made [OF assms(1)] by metis
  moreover have "fst ` set bp = set ids" using arg_cong [OF bp(1), of set] by simp
  ultimately show ?thesis using assms(2,3) by (intro makeBatchesByPeer_fresh [of b bp payload g ex J]) auto
qed

lemma createBatches_covers:
  assumes "createBatchesForPayload ids payload g ex look w = (Inr batches, w')" and "i \<in> set ids"
  shows "\<exists>b \<in> set batches. \<exists>is. i \<in> set is \<and> distinct is \<and> set is \<subseteq> set ids \<and> bt_payload b = group_payload g payload is"
proof -
  obtain bp where bp: "map fst bp = js_set ids" "batches = makeBatchesByPeer bp payload g ex"
    using createBatches_made [OF assms(1)] by metis
  then obtain p where p: "(i, p) \<in> set bp" using assms(2) set_js_set [of ids] by (metis (no_types) imageE list.set_map prod.collapse)
  let ?is = "blocks_of bp p"
  have i: "i \<in> set ?is" using p by (force simp: blocks_of_def)
  then have "Batch p (hd ?is) (group_payload g payload ?is) None [] ex None \<in> set batches"
    by (auto simp: bp(2) makeBatchesByPeer_iff)
  moreover have "set ?is \<subseteq> set ids" using arg_cong [OF bp(1), of set] by (auto simp: blocks_of_def)
  moreover have "distinct ?is" by (rule distinct_blocks_of) (simp add: bp(1))
  ultimately show ?thesis using i by (metis batch.sel(3))
qed

section \<open>The contract of processing\<close>

text \<open>
  What a caller learns from \<open>processBatches\<close>: the world it ends in is reached by the calls it made, and every batch of the
  retry trees is finished with the outcome of a call on its payload.
\<close>

locale batch_run =
  fixes B :: "('p, 'r, 's) batch_ops" and J :: "'p \<Rightarrow> bool" and R :: "'s \<Rightarrow> 's \<Rightarrow> bool"
    and G :: "'p \<Rightarrow> error + 'r \<Rightarrow> 's \<Rightarrow> bool" and w0 :: 's
  assumes R_refl: "R w w"
    and R_trans: "R w w' \<Longrightarrow> R w' w'' \<Longrightarrow> R w w''"
    and find_R: "bo_find B i ex w = (p, w') \<Longrightarrow> R w w'"
    and process_R: "J (bt_payload b) \<Longrightarrow> R w0 w \<Longrightarrow> bo_process B b w = (x, w') \<Longrightarrow> R w w' \<and> G (bt_payload b) x w'"
    and G_R: "G q x w \<Longrightarrow> R w w' \<Longrightarrow> G q x w'"
    and payload_group: "J (bt_payload b) \<Longrightarrow> is \<noteq> [] \<Longrightarrow> distinct is \<Longrightarrow> set is \<subseteq> set (bo_blockIds B b)
      \<Longrightarrow> J (group_payload (bo_payload B) (bt_payload b) is)"
begin

definition settled :: "'s \<Rightarrow> ('p, 'r) batch \<Rightarrow> bool" where
  "settled w b \<longleftrightarrow> bt_subsumedBy b = [] \<and> (\<exists>x. bt_request b = Some x \<and> G (bt_payload b) x w)"

lemma settled_R: "settled w b \<Longrightarrow> R w w' \<Longrightarrow> settled w' b"
  using G_R by (auto simp: settled_def)

lemma createBatches_R:
  assumes "createBatchesForPayload ids payload g ex (bo_find B) w = (x, w')"
  shows "R w w'"
  by (rule createBatches_rel [OF _ _ _ assms, of R]) (fact R_refl, rule R_trans, assumption+, rule find_R, assumption)

lemma retries_fresh:
  assumes "J (bt_payload b)"
    and "createBatchesForPayload (bo_blockIds B b) (bt_payload b) (bo_payload B) ex (bo_find B) w = (Inr retries, w')"
    and "r \<in> set retries"
  shows "fresh_batch ex J r"
  using createBatches_fresh [OF assms(2,3)] payload_group [OF assms(1)] by blast

definition outcome :: "'s \<Rightarrow> ('p, 'r) batch \<Rightarrow> ('p, 'r) batch \<times> ('p, 'r) batch list \<Rightarrow> bool" where
  "outcome w b out \<longleftrightarrow> (\<exists>x. fst out = set_request x b \<and> ((\<exists>r. x = Inr r) \<longrightarrow> snd out = []))
     \<and> settled w (fst out) \<and> (\<forall>d \<in> set (snd out). settled w d)"

lemma outcome_R: "outcome w b out \<Longrightarrow> R w w' \<Longrightarrow> outcome w' b out"
  unfolding outcome_def using settled_R by blast

lemma processSet_run:
  "processSet B n bs w = Some (out, w') \<Longrightarrow> R w0 w \<Longrightarrow> \<forall>b \<in> set bs. J (bt_payload b) \<and> bt_subsumedBy b = []
   \<Longrightarrow> R w w' \<and> list_all2 (outcome w') bs out"
proof (induction n arbitrary: bs w out w')
  case 0
  then show ?case by (cases bs) (simp_all add: R_refl)
next
  case (Suc n)
  note retried = Suc.IH
  from Suc.prems show ?case
  proof (induction bs arbitrary: w out)
    case (Cons b bs)
    let ?ex = "bt_peer b # bt_excluded b"
    let ?create = "createBatchesForPayload (bo_blockIds B b) (bt_payload b) (bo_payload B) ?ex (bo_find B)"
    have b: "J (bt_payload b)" "bt_subsumedBy b = []" using Cons.prems(3) by auto
    obtain x w1 where call: "bo_process B b w = (x, w1)" by (cases "bo_process B b w")
    have w1: "R w w1" "G (bt_payload b) x w1" using process_R [OF b(1) Cons.prems(2) call] by auto
    have fin: "settled w2 (set_request x b)" if "R w1 w2" for w2
      using G_R [OF w1(2) that] b(2) by (simp add: settled_def)
    obtain y wm rest where y: "processSet B (Suc n) bs wm = Some (rest, w')" "out = y # rest" "R w wm" "outcome wm b y"
    proof (cases x)
      case (Inr r)
      then obtain rest where "processSet B (Suc n) bs w1 = Some (rest, w')" "out = (set_request x b, []) # rest"
        using Cons.prems(1) call by auto
      then show thesis using fin [OF R_refl] w1(1) by (intro that [of w1 rest]) (auto simp: outcome_def)
    next
      case (Inl e)
      obtain c :: "error + ('p, 'r) batch list" and w2 where create: "?create w1 = (c, w2)" by (metis surj_pair)
      have w2: "R w w2" "R w1 w2" using createBatches_R [OF create] w1(1) R_trans by blast+
      consider (stop) wm where "wm = w1 \<or> wm = w2" "out \<noteq> []" "hd out = (set_request (Inl e) b, [])" "processSet B (Suc n) bs wm = Some (tl out, w')"
        | (retry) retries rs wm where "c = Inr retries" "processSet B n retries w2 = Some (rs, wm)" "out \<noteq> []"
            "hd out = (set_request (Inl e) b, map fst rs @ concat (map snd rs))" "processSet B (Suc n) bs wm = Some (tl out, w')"
        using Cons.prems(1) by (auto simp: call Inl create split: option.splits sum.splits if_splits) blast+
      then show thesis
      proof cases
        case stop
        then have "R w wm" "outcome wm b (hd out)"
          using w1 w2 R_refl fin by (auto simp: outcome_def Inl)
        with stop show thesis by (intro that [of wm "tl out" "hd out"] hd_Cons_tl [symmetric]) auto
      next
        case (retry retries rs wm)
        have fresh: "\<forall>r \<in> set retries. J (bt_payload r) \<and> bt_subsumedBy r = []"
          using retries_fresh [OF b(1) create [unfolded retry(1)]] by (auto simp: fresh_batch_def)
        have run: "R w2 wm \<and> list_all2 (outcome wm) retries rs"
          by (rule retried [OF retry(2) R_trans [OF Cons.prems(2) w2(1)] fresh])
        then have "\<forall>z \<in> set rs. settled wm (fst z) \<and> (\<forall>d \<in> set (snd z). settled wm d)"
          using list_all2_right [of "outcome wm" retries rs] by (auto simp: outcome_def)
        then have "outcome wm b (hd out)"
          using retry(4) fin [OF R_trans [OF w2(2)], of wm] run by (auto simp: outcome_def Inl)
        then show thesis using retry run w2(1) R_trans by (intro that [of wm "tl out" "hd out"] hd_Cons_tl [symmetric]) auto
      qed
    qed
    have IH: "R wm w' \<and> list_all2 (outcome w') bs rest"
      by (rule Cons.IH [OF y(1) R_trans [OF Cons.prems(2) y(3)]]) (use Cons.prems in auto)
    then show ?case using y R_trans outcome_R by auto
  qed (simp add: R_refl)
qed

lemma tree_nodes_outcome:
  assumes "list_all2 (outcome w) bs out"
  shows "\<forall>b \<in> set (tree_nodes (rev (map (\<lambda>(b, ext). add_subsumed ext b) out))). \<exists>x. bt_request b = Some x \<and> G (bt_payload b) x w"
  using assms
proof (induction bs out rule: list_all2_induct)
  case (Cons b bs y out)
  have "tree_nodes (rev (snd y)) = rev (snd y)"
    using Cons(1) by (intro tree_nodes_leaves) (auto simp: outcome_def settled_def)
  then have "tree_nodes [add_subsumed (snd y) (fst y)] = add_subsumed (snd y) (fst y) # rev (snd y)"
    using Cons(1) by (simp add: outcome_def settled_def)
  then show ?case using Cons by (auto simp: tree_nodes_append case_prod_beta outcome_def settled_def)
qed simp

lemma processBatches_run:
  assumes "processBatches B n bs w = Some (out, w')" and "R w0 w"
    and "\<forall>b \<in> set bs. J (bt_payload b) \<and> bt_subsumedBy b = []"
  shows "R w w'"
    and "\<forall>b \<in> set (allBatches (\<lambda>_. True) out). \<exists>x. bt_request b = Some x \<and> G (bt_payload b) x w'"
    and "map bt_payload out = map bt_payload bs"
    and "\<forall>b \<in> set out. responded b \<longrightarrow> bt_subsumedBy b = []"
proof -
  obtain res where res: "processSet B n bs w = Some (res, w')" "out = map (\<lambda>(b, ext). add_subsumed ext b) res"
    using assms(1) by (auto simp: processBatches_def)
  note run = processSet_run [OF res(1) assms(2,3)]
  then show "R w w'" by blast
  show "\<forall>b \<in> set (allBatches (\<lambda>_. True) out). \<exists>x. bt_request b = Some x \<and> G (bt_payload b) x w'"
    using tree_nodes_outcome [of w' bs res] run by (simp add: allBatches_True res(2))
  show "map bt_payload out = map bt_payload bs"
    using run by (auto simp: res(2) list_all2_conv_all_nth outcome_def case_prod_beta intro!: nth_equalityI)
  show "\<forall>b \<in> set out. responded b \<longrightarrow> bt_subsumedBy b = []"
  proof (intro ballI impI)
    fix b assume "b \<in> set out" "responded b"
    then obtain c y where "y \<in> set res" "b = add_subsumed (snd y) (fst y)" "outcome w' c y"
      using run list_all2_right [of "outcome w'" bs res] by (auto simp: res(2)) blast
    with \<open>responded b\<close> show "bt_subsumedBy b = []"
      by (auto simp: outcome_def settled_def responded_def split: sum.splits) (metis sumE)
  qed
qed

end

section \<open>Retries end\<close>

text \<open>
  \<open>findCoordinator\<close> may name a peer that was already tried, so what ends the retries is the clock: a batch is tried again only
  before the expiration, and a call that fails has taken time.
\<close>

definition clock_advances :: "('p, 'r, 's) batch_ops \<Rightarrow> bool" where
  "clock_advances B \<longleftrightarrow>
     (\<forall>i ex w p w'. bo_find B i ex w = (p, w') \<longrightarrow> bo_now B w \<le> bo_now B w')
     \<and> (\<forall>b w r w'. bo_process B b w = (Inr r, w') \<longrightarrow> bo_now B w \<le> bo_now B w')
     \<and> (\<forall>b w e w'. bo_process B b w = (Inl e, w') \<longrightarrow> bo_now B w < bo_now B w')"

lemma createBatches_clock:
  assumes "clock_advances B" and "createBatchesForPayload ids payload g ex (bo_find B) w = (x, w')"
  shows "bo_now B w \<le> bo_now B w'"
  using assms(1) by (intro createBatches_rel [OF _ _ _ assms(2), of "\<lambda>w w'. bo_now B w \<le> bo_now B w'"])
    (auto simp: clock_advances_def)

lemma processSet_returns:
  fixes B :: "('p, 'r, 's) batch_ops"
  assumes clock: "clock_advances B"
  shows "bo_expiration B - bo_now B w < n \<Longrightarrow> \<exists>out w'. processSet B n bs w = Some (out, w') \<and> bo_now B w \<le> bo_now B w'"
proof (induction n arbitrary: bs w)
  case (Suc n)
  note retried = Suc.IH
  from Suc.prems show ?case
  proof (induction bs arbitrary: w)
    case (Cons b bs)
    let ?create = "createBatchesForPayload (bo_blockIds B b) (bt_payload b) (bo_payload B) (bt_peer b # bt_excluded b) (bo_find B)"
    have rest: "\<exists>out w'. processSet B (Suc n) bs w1 = Some (out, w') \<and> bo_now B w \<le> bo_now B w'" if "bo_now B w \<le> bo_now B w1" for w1
      using Cons.IH [of w1] Cons.prems that by (meson diff_le_mono2 le_less_trans order_trans)
    obtain x w1 where call: "bo_process B b w = (x, w1)" by (cases "bo_process B b w")
    show ?case
    proof (cases x)
      case (Inr r)
      then have "bo_now B w \<le> bo_now B w1" using call clock by (auto simp: clock_advances_def)
      from rest [OF this] show ?thesis using Inr by (auto simp: call)
    next
      case (Inl e)
      then have w1: "bo_now B w < bo_now B w1" using call clock by (auto simp: clock_advances_def)
      obtain c :: "error + ('p, 'r) batch list" and w2 where create: "?create w1 = (c, w2)" by (metis surj_pair)
      have w2: "bo_now B w1 \<le> bo_now B w2" by (rule createBatches_clock [OF clock create])
      obtain rs wm where wm: "bo_expiration B > bo_now B w2 \<Longrightarrow> processSet B n (projr c) w2 = Some (rs, wm)" "bo_expiration B > bo_now B w2 \<Longrightarrow> bo_now B w2 \<le> bo_now B wm"
        using retried [of w2 "projr c"] Cons.prems w1 w2 by (cases "bo_expiration B > bo_now B w2") fastforce+
      show ?thesis
        using rest [of w1] rest [of w2] rest [of wm] w1 w2 wm
        by (cases c; cases "bo_expiration B > bo_now B w1"; cases "bo_expiration B > bo_now B w2") (auto simp: call Inl create)
    qed
  qed simp
qed simp

lemma processBatches_returns:
  assumes "clock_advances B" and "bo_expiration B - bo_now B w < n"
  shows "\<exists>out w'. processBatches B n bs w = Some (out, w') \<and> bo_now B w \<le> bo_now B w'"
  using processSet_returns [OF assms, of bs] by (auto simp: processBatches_def)

end
