(* ===== verification/Network_Transactor.thy ===== *)
theory Network_Transactor
  imports Batch_Coordinator Storage_Repo "HOL-Library.Multiset"
begin

text \<open>
  The network transactor: \<open>packages/db-core/src/transactor/network-transactor.ts\<close>, which sends the requests of a
  client to the peers that coordinate the blocks, and \<open>transact\<close> of \<open>transactor-source.ts\<close>, which pends and commits.

  The key network, the repositories of the peers and the clock are the functions of \<open>net_env\<close>, on a world \<open>'s\<close>. The
  transactor's own state is the cache of coordinators per transaction. An operation returns \<open>None\<close> when the depth
  it was given does not suffice for the retries, and otherwise a thrown error or a result. The cancellation after a
  failed pend runs in the background in the source; it is the last step here.
\<close>

section \<open>Requests and answers\<close>

record 'v action_transforms_opt =
  ao_actionId :: action_id
  ao_rev :: "nat option"
  ao_transforms :: "'v transforms"

type_synonym 'v action_pending = "block_id \<times> action_id \<times> 'v transform option"

record ('v, 'x) net_pend_request = "('v, 'x) pend_request" +
  np_priority :: "nat option"

record 'v stale_failure =
  sf_reason :: "string option"
  sf_missing :: "'v action_transforms_opt list option"
  sf_pending :: "'v action_pending list option"
  sf_conflict :: "bool option"
  sf_staleAt :: "stale_at option"

datatype 'v net_pend_result = NPendSuccess "'v action_pending list" "block_id list" | NPendStale "'v stale_failure"

datatype 'v net_commit_result = NCommitSuccess | NCommitStale "'v stale_failure"

datatype unavailable_reason = CohortUnreachable | PeersUnreachable | ClaimedElsewhere | Unmaterializable

record 'v net_entry =
  en_block :: "'v block option"
  en_latest :: "action_rev option"
  en_pendings :: "action_id list option"
  en_materializedRev :: "nat option"
  en_unavailable :: "unavailable_reason option"
  en_unconfirmedAheadRev :: "nat option"

type_synonym 'v get_results = "(block_id \<times> 'v net_entry) list"

record net_commit_request =
  nc_headerId :: "block_id option"
  nc_tailId :: block_id
  nc_blockIds :: "block_id list"
  nc_actionId :: action_id
  nc_rev :: nat

datatype net_error =
    Thrown error                    \<comment> \<open>an error of the key network, as it was thrown\<close>
  | PeersIncomplete "error option"  \<comment> \<open>\<open>Error("Some peers did not complete: ...")\<close> with its \<open>cause\<close>\<close>

datatype coordinator_intent = ReadIntent | WriteIntent

record ('v, 'x, 's) net_env =
  ne_timeoutMs :: nat
  ne_abortOrCancelTimeoutMs :: nat
  ne_now :: "'s \<Rightarrow> nat"
  ne_findCluster :: "block_id \<Rightarrow> 's \<Rightarrow> (error + string list) \<times> 's"
  ne_findCoordinator :: "block_id \<Rightarrow> string list \<Rightarrow> coordinator_intent \<Rightarrow> 's \<Rightarrow> (error + string) \<times> 's"
  ne_recordCoordinator :: "block_id \<Rightarrow> string \<Rightarrow> 's \<Rightarrow> 's"
  ne_get :: "string \<Rightarrow> block_id list \<Rightarrow> action_context option \<Rightarrow> nat \<Rightarrow> 's \<Rightarrow> (error + 'v get_results) \<times> 's"
  ne_pend :: "string \<Rightarrow> ('v, 'x) net_pend_request \<Rightarrow> nat \<Rightarrow> block_id list option \<Rightarrow> 's \<Rightarrow> (error + 'v net_pend_result) \<times> 's"
  ne_commit :: "string \<Rightarrow> commit_request \<Rightarrow> nat \<Rightarrow> 's \<Rightarrow> (error + 'v net_commit_result) \<times> 's"
  ne_cancel :: "string \<Rightarrow> action_id \<Rightarrow> block_id list \<Rightarrow> nat \<Rightarrow> 's \<Rightarrow> (error + unit) \<times> 's"

type_synonym coordinator_cache = "(action_id \<times> (block_id \<times> string) list \<times> nat) list"

section \<open>Coordinators\<close>

definition MAX_TXN_COORDINATOR_CACHE_ENTRIES :: nat where
  "MAX_TXN_COORDINATOR_CACHE_ENTRIES = 1000"

definition resolveCoordinator :: "('v, 'x, 's) net_env \<Rightarrow> coordinator_cache \<Rightarrow> action_id option \<Rightarrow> coordinator_intent
    \<Rightarrow> block_id \<Rightarrow> string list \<Rightarrow> 's \<Rightarrow> (error + string) \<times> 's" where
  "resolveCoordinator E cache a intent i excluded w =
     (case Option.bind a (\<lambda>a. Option.bind (map_of cache a) (\<lambda>(cs, _). map_of cs i)) of
        Some p \<Rightarrow> if p \<notin> set excluded then (Inr p, w) else ne_findCoordinator E i excluded intent w
      | None \<Rightarrow> ne_findCoordinator E i excluded intent w)"

fun evict_oldest :: "nat \<Rightarrow> action_id \<Rightarrow> coordinator_cache \<Rightarrow> coordinator_cache" where
  "evict_oldest limit a [] = []"
| "evict_oldest limit a (e # cache) =
     (if length (e # cache) > limit \<and> fst e \<noteq> a then evict_oldest limit a cache else e # cache)"

definition txnCoordinatorsFor :: "('v, 'x, 's) net_env \<Rightarrow> nat \<Rightarrow> action_id \<Rightarrow> coordinator_cache \<Rightarrow> coordinator_cache" where
  "txnCoordinatorsFor E now a cache =
     (let swept = filter (\<lambda>(k, cs, expires). \<not> expires \<le> now) cache;
          ttlMs = max (ne_timeoutMs E * 2) 60000
      in case map_of swept a of
           Some (cs, _) \<Rightarrow> AList.update a (cs, now + ttlMs) swept
         | None \<Rightarrow> evict_oldest MAX_TXN_COORDINATOR_CACHE_ENTRIES a (swept @ [(a, [], now + ttlMs)]))"

definition record_coordinators :: "action_id \<Rightarrow> (block_id list \<times> string) list \<Rightarrow> coordinator_cache \<Rightarrow> coordinator_cache" where
  \<comment> \<open>the loop that fills the map of the transaction\<close>
  "record_coordinators a assigned cache =
     (case map_of cache a of
        None \<Rightarrow> cache
      | Some (cs, expires) \<Rightarrow>
          AList.update a (fold (\<lambda>(is, p) cs. fold (\<lambda>i. AList.update i p) is cs) assigned cs, expires) cache)"

section \<open>Consolidation\<close>

fun clusters_of :: "('v, 'x, 's) net_env \<Rightarrow> block_id list \<Rightarrow> 's \<Rightarrow> (block_id \<times> string list) list \<times> block_id list \<times> 's" where
  "clusters_of E [] w = ([], [], w)"
| "clusters_of E (i # is) w =
     (case ne_findCluster E i w of
        (x, w1) \<Rightarrow> (case clusters_of E is w1 of
                      (cs, fallback, w2) \<Rightarrow>
                        (case x of Inr ps \<Rightarrow> ((i, js_set ps) # cs, fallback, w2) | Inl e \<Rightarrow> (cs, i # fallback, w2))))"

definition peer_blocks :: "(block_id \<times> string list) list \<Rightarrow> (string \<times> block_id list) list" where
  "peer_blocks cs = fold (\<lambda>(i, ps) acc. fold (\<lambda>p acc. AList.update p ((case map_of acc p of Some bs \<Rightarrow> bs | None \<Rightarrow> []) @ [i]) acc) ps acc) cs []"

definition best_peer :: "(string \<times> block_id list) list \<Rightarrow> block_id list \<Rightarrow> (string \<times> block_id list) option" where
  \<comment> \<open>the first peer that covers the most uncovered blocks, with those blocks\<close>
  "best_peer pb uncovered =
     fold (\<lambda>(p, bs) best.
       (let covered = filter (\<lambda>i. i \<in> set uncovered) bs
        in case best of
             None \<Rightarrow> if covered \<noteq> [] then Some (p, covered) else None
           | Some (q, cov) \<Rightarrow> if length covered > length cov then Some (p, covered) else best)) pb None"

lemma best_peer_covered:
  "best_peer pb uncovered = Some (p, cov) \<Longrightarrow> cov \<noteq> [] \<and> set cov \<subseteq> set uncovered \<and> (\<exists>bs. (p, bs) \<in> set pb \<and> cov = filter (\<lambda>i. i \<in> set uncovered) bs)"
proof -
  let ?f = "\<lambda>(p, bs) best. (let covered = filter (\<lambda>i. i \<in> set uncovered) bs
        in case best of
             None \<Rightarrow> if covered \<noteq> [] then Some (p, covered) else None
           | Some (q, cov) \<Rightarrow> if length covered > length cov then Some (p, covered) else best)"
  let ?ok = "\<lambda>xs p cov. cov \<noteq> [] \<and> set cov \<subseteq> set uncovered \<and> (\<exists>bs. (p, bs) \<in> set xs \<and> cov = filter (\<lambda>i. i \<in> set uncovered) bs)"
  have "fold ?f xs best = Some (p, cov) \<Longrightarrow> ?ok xs p cov \<or> best = Some (p, cov)" for xs best
  proof (induction xs arbitrary: best)
    case (Cons x xs)
    then have "?ok xs p cov \<or> ?f x best = Some (p, cov)" by simp
    then show ?case by (cases x) (auto simp: Let_def split: option.splits if_splits)
  qed simp
  then show "best_peer pb uncovered = Some (p, cov) \<Longrightarrow> ?ok pb p cov" unfolding best_peer_def by blast
qed

function greedy_cover :: "(string \<times> block_id list) list \<Rightarrow> block_id list \<Rightarrow> (string \<times> block_id list) list
    \<Rightarrow> (string \<times> block_id list) list \<times> block_id list" where
  \<comment> \<open>the assignments, and the blocks no peer covers\<close>
  "greedy_cover pb uncovered assignments =
     (if uncovered = [] then (assignments, [])
      else (case best_peer pb uncovered of
              None \<Rightarrow> (assignments, uncovered)
            | Some (p, cov) \<Rightarrow> greedy_cover pb (filter (\<lambda>i. i \<notin> set cov) uncovered) (AList.update p cov assignments)))"
  by pat_completeness auto
termination
proof (relation "measure (\<lambda>(pb, uncovered, assignments). length uncovered)")
  fix pb :: "(string \<times> block_id list) list" and uncovered assignments x p cov
  assume "best_peer pb uncovered = Some x" and "(p, cov) = x"
  then have "cov \<noteq> []" "set cov \<subseteq> set uncovered" using best_peer_covered by (metis)+
  then have "\<exists>i \<in> set uncovered. i \<in> set cov" by (cases cov) auto
  then have "length (filter (\<lambda>i. i \<notin> set cov) uncovered) < length uncovered" by (auto intro: length_filter_less)
  then show "((pb, filter (\<lambda>i. i \<notin> set cov) uncovered, AList.update p cov assignments), pb, uncovered, assignments)
      \<in> measure (\<lambda>(pb, uncovered, assignments). length uncovered)" by simp
qed simp

declare greedy_cover.simps [simp del]

lemma greedy_cover_code [code]:
  "greedy_cover pb [] assignments = (assignments, [])"
  "greedy_cover pb (i # is) assignments =
     (case best_peer pb (i # is) of
        None \<Rightarrow> (assignments, i # is)
      | Some (p, cov) \<Rightarrow> greedy_cover pb (filter (\<lambda>i. i \<notin> set cov) (i # is)) (AList.update p cov assignments))"
  by (simp_all only: greedy_cover.simps [of pb "[]"] greedy_cover.simps [of pb "i # is"] list.distinct if_True if_False simp_thms)

definition transformForBlock :: "'v transforms \<Rightarrow> block_id \<Rightarrow> 'v transforms option \<Rightarrow> 'v transforms" where
  "transformForBlock payload i m =
     (case m of Some ts \<Rightarrow> concatTransform ts i (transformForBlockId payload i)
      | None \<Rightarrow> transformsFromTransform (transformForBlockId payload i) i)"

definition add_fallback :: "block_id \<times> string \<Rightarrow> (string \<times> block_id list) list \<Rightarrow> (string \<times> block_id list) list" where
  "add_fallback = (\<lambda>(i, p) asg. AList.update p ((case map_of asg p of Some bs \<Rightarrow> bs | None \<Rightarrow> []) @ [i]) asg)"

definition assignment_batch :: "'v transforms \<Rightarrow> string \<times> block_id list \<Rightarrow> ('v transforms, 'r) batch" where
  "assignment_batch transforms = (\<lambda>(p, is).
     Batch p (hd is) (foldl (\<lambda>acc i. transformForBlock transforms i (Some acc)) emptyTransforms is) None [] [] (Some is))"

definition consolidateCoordinators :: "('v, 'x, 's) net_env \<Rightarrow> block_id list \<Rightarrow> 'v transforms \<Rightarrow> 's
    \<Rightarrow> (error + ('v transforms, 'r) batch list) \<times> 's" where
  "consolidateCoordinators E blockIds transforms w =
     (case clusters_of E blockIds w of
        (cs, fallback, w1) \<Rightarrow>
          (case greedy_cover (peer_blocks cs) (map fst cs) [] of
             (asg, uncovered) \<Rightarrow>
               (case find_all (\<lambda>i ex. ne_findCoordinator E i ex WriteIntent) [] (fallback @ uncovered) w1 of
                  (x, w2) \<Rightarrow> (map_sum id (\<lambda>fb. map (assignment_batch transforms) (fold add_fallback fb asg)) x, w2))))"

section \<open>Failures\<close>

definition first_some :: "'a option list \<Rightarrow> 'a option" where
  "first_some xs = (case filter (\<lambda>x. x \<noteq> None) xs of [] \<Rightarrow> None | x # _ \<Rightarrow> x)"

definition batch_error :: "('p, 'r) batch \<Rightarrow> error option" where
  "batch_error b = (case bt_request b of Some (Inl e) \<Rightarrow> Some e | _ \<Rightarrow> None)"

definition firstBatchError :: "('p, 'r) batch list \<Rightarrow> ('p, 'r) batch list \<Rightarrow> error option" where
  \<comment> \<open>of the root batches and of all the batches below them\<close>
  "firstBatchError roots nodes = first_some (map batch_error roots @ map batch_error nodes)"

definition distinctBlockActionTransforms :: "'v action_transforms_opt list \<Rightarrow> 'v action_transforms_opt list" where
  "distinctBlockActionTransforms blockActions =
     map (\<lambda>(a, actions). \<lparr>ao_actionId = a, ao_rev = None, ao_transforms = concatTransforms (map ao_transforms actions)\<rparr>)
       (groupBy blockActions ao_actionId)"

definition missing_of :: "'v stale_failure list \<Rightarrow> 'v action_transforms_opt list" where
  "missing_of fs = distinctBlockActionTransforms (concat (map (\<lambda>f. case sf_missing f of Some m \<Rightarrow> m | None \<Rightarrow> []) fs))"

section \<open>Cancelling\<close>

definition cancel_ops :: "('v, 'x, 's) net_env \<Rightarrow> action_id \<Rightarrow> nat \<Rightarrow> (block_id list, unit, 's) batch_ops" where
  "cancel_ops E a expiration =
     \<lparr>bo_process = \<lambda>b. ne_cancel E (bt_peer b) a (bt_payload b) expiration,
      bo_blockIds = bt_payload, bo_payload = mergeBlocks, bo_expiration = expiration, bo_now = ne_now E,
      bo_find = \<lambda>i ex. ne_findCoordinator E i ex WriteIntent\<rparr>"

definition cancelBatch :: "('v, 'x, 's) net_env \<Rightarrow> nat \<Rightarrow> ('p, 'r) batch list \<Rightarrow> block_id list \<Rightarrow> action_id \<Rightarrow> 's \<Rightarrow> 's option" where
  "cancelBatch E n batches blockIds a w =
     map_option snd (processBatches (cancel_ops E a (ne_now E w + ne_abortOrCancelTimeoutMs E)) n
       (makeBatchesByPeer (map (\<lambda>b. (bt_blockId b, bt_peer b)) (allBatches (\<lambda>_. True) batches)) blockIds mergeBlocks []) w)"

definition net_cancel :: "('v, 'x, 's) net_env \<Rightarrow> nat \<Rightarrow> action_id \<Rightarrow> block_id list \<Rightarrow> 's \<Rightarrow> ((net_error + unit) \<times> 's) option" where
  "net_cancel E n a blockIds w =
     (case createBatchesForPayload blockIds blockIds mergeBlocks [] (\<lambda>i ex. ne_findCoordinator E i ex WriteIntent) w of
        (Inl e, w1) \<Rightarrow> Some (Inl (Thrown e), w1)
      | (Inr batches, w1) \<Rightarrow>
          map_option (\<lambda>(_, w2). (Inr (), w2))
            (processBatches (cancel_ops E a (ne_now E w1 + ne_abortOrCancelTimeoutMs E)) n batches w1))"

section \<open>Pending\<close>

definition pend_ops :: "('v, 'x, 's) net_env \<Rightarrow> ('v, 'x) net_pend_request \<Rightarrow> nat \<Rightarrow> ('v transforms, 'v net_pend_result, 's) batch_ops" where
  "pend_ops E rq expiration =
     \<lparr>bo_process = \<lambda>b. ne_pend E (bt_peer b) (rq\<lparr>pr_transforms := bt_payload b\<rparr>) expiration (bt_coordinating b),
      bo_blockIds = \<lambda>b. blockIdsForTransforms (bt_payload b), bo_payload = transformForBlock, bo_expiration = expiration,
      bo_now = ne_now E, bo_find = \<lambda>i ex. ne_findCoordinator E i ex WriteIntent\<rparr>"

definition pend_ok :: "('p, 'v net_pend_result) batch \<Rightarrow> bool" where
  \<comment> \<open>\<open>b.request?.isResponse && b.request!.response!.success\<close>\<close>
  "pend_ok b = (case bt_request b of Some (Inr (NPendSuccess _ _)) \<Rightarrow> True | _ \<Rightarrow> False)"

definition pend_stale :: "('p, 'v net_pend_result) batch \<Rightarrow> 'v stale_failure list" where
  "pend_stale b = (case bt_request b of Some (Inr (NPendStale f)) \<Rightarrow> [f] | _ \<Rightarrow> [])"

definition pend_pendings :: "('p, 'v net_pend_result) batch \<Rightarrow> 'v action_pending list" where
  "pend_pendings b = (case bt_request b of Some (Inr (NPendSuccess ps _)) \<Rightarrow> ps | _ \<Rightarrow> [])"

definition stale_response :: "'v stale_failure list \<Rightarrow> 'v stale_failure" where
  \<comment> \<open>the failure of a pend, rebuilt from the failures of its batches\<close>
  "stale_response stale =
     \<lparr>sf_reason = first_some (map sf_reason stale), sf_missing = Some (missing_of stale), sf_pending = None,
      sf_conflict = Some (list_ex (\<lambda>f. isConflictFailure (sf_conflict f) (sf_missing f) (sf_pending f)) stale),
      sf_staleAt = highestStaleAt (map sf_staleAt stale)\<rparr>"

definition pend_process :: "('v, 'x, 's) net_env \<Rightarrow> nat \<Rightarrow> ('v, 'x) net_pend_request \<Rightarrow> coordinator_cache
    \<Rightarrow> ('v transforms, 'v net_pend_result) batch list \<Rightarrow> 's \<Rightarrow> ((net_error + 'v net_pend_result) \<times> coordinator_cache \<times> 's) option" where
  \<comment> \<open>from the batches on\<close>
  "pend_process E n rq cache batches w1 =
     (let blockIds = blockIdsForTransforms (pr_transforms rq); a = pr_actionId rq
      in case processBatches (pend_ops E rq (ne_now E w1 + ne_timeoutMs E)) n batches w1 of
           None \<Rightarrow> None
         | Some (done, w2) \<Rightarrow>
             (let nodes = allBatches (\<lambda>_. True) done;
                  w3 = fold (\<lambda>b. ne_recordCoordinator E (bt_blockId b) (bt_peer b)) nodes w2
              in if everyBatch done pend_ok then
                   (let completed = filter pend_ok nodes
                    in Some (Inr (NPendSuccess (concat (map pend_pendings completed)) blockIds),
                             record_coordinators a (map (\<lambda>b. (blockIdsForTransforms (bt_payload b), bt_peer b)) completed)
                               (txnCoordinatorsFor E (ne_now E w3) a cache), w3))
                 else map_option (\<lambda>w4.
                        (case concat (map pend_stale nodes) of
                           [] \<Rightarrow> Inl (PeersIncomplete (firstBatchError done nodes))
                         | stale \<Rightarrow> Inr (NPendStale (stale_response stale)), cache, w4))
                        (cancelBatch E n done blockIds a w3)))"

definition net_pend :: "('v, 'x, 's) net_env \<Rightarrow> nat \<Rightarrow> ('v, 'x) net_pend_request \<Rightarrow> coordinator_cache \<Rightarrow> 's
    \<Rightarrow> ((net_error + 'v net_pend_result) \<times> coordinator_cache \<times> 's) option" where
  "net_pend E n rq cache w =
     (case consolidateCoordinators E (blockIdsForTransforms (pr_transforms rq)) (pr_transforms rq) w of
        (Inl e, w1) \<Rightarrow> Some (Inl (Thrown e), cache, w1)
      | (Inr batches, w1) \<Rightarrow> pend_process E n rq cache batches w1)"

section \<open>Committing\<close>

definition commit_ops :: "('v, 'x, 's) net_env \<Rightarrow> coordinator_cache \<Rightarrow> commit_request \<Rightarrow> nat
    \<Rightarrow> (block_id list, 'v net_commit_result, 's) batch_ops" where
  "commit_ops E cache rq expiration =
     \<lparr>bo_process = \<lambda>b. ne_commit E (bt_peer b) (rq\<lparr>cr_blockIds := bt_payload b\<rparr>) expiration,
      bo_blockIds = bt_payload, bo_payload = mergeBlocks, bo_expiration = expiration, bo_now = ne_now E,
      bo_find = resolveCoordinator E cache (Some (cr_actionId rq)) WriteIntent\<rparr>"

definition commit_ok :: "('p, 'v net_commit_result) batch \<Rightarrow> bool" where
  "commit_ok b = (case bt_request b of Some (Inr NCommitSuccess) \<Rightarrow> True | _ \<Rightarrow> False)"

definition commit_stale :: "('p, 'v net_commit_result) batch \<Rightarrow> 'v stale_failure list" where
  "commit_stale b = (case bt_request b of Some (Inr (NCommitStale f)) \<Rightarrow> [f] | _ \<Rightarrow> [])"

definition commitBlocks :: "('v, 'x, 's) net_env \<Rightarrow> nat \<Rightarrow> coordinator_cache \<Rightarrow> commit_request \<Rightarrow> 's
    \<Rightarrow> ((error + (block_id list, 'v net_commit_result) batch list \<times> net_error option) \<times> 's) option" where
  "commitBlocks E n cache rq w =
     (let ops = commit_ops E cache rq (ne_now E w + ne_timeoutMs E)
      in case createBatchesForPayload (cr_blockIds rq) (cr_blockIds rq) mergeBlocks [] (bo_find ops) w of
           (Inl e, w1) \<Rightarrow> Some (Inl e, w1)
         | (Inr batches, w1) \<Rightarrow>
             map_option (\<lambda>(done, w2).
               (Inr (done, if everyBatch done commit_ok then None
                           else Some (PeersIncomplete (firstBatchError done (allBatches (\<lambda>_. True) done)))), w2))
               (processBatches ops n batches w1))"

definition commitBlock :: "('v, 'x, 's) net_env \<Rightarrow> nat \<Rightarrow> coordinator_cache \<Rightarrow> block_id \<Rightarrow> action_id \<Rightarrow> nat \<Rightarrow> block_id \<Rightarrow> 's
    \<Rightarrow> ((net_error + 'v net_commit_result) \<times> 's) option" where
  "commitBlock E n cache i a r tail w =
     map_option (\<lambda>(x, w1).
       (case x of
          Inl e \<Rightarrow> Inl (Thrown e)
        | Inr (batches, None) \<Rightarrow> Inr NCommitSuccess
        | Inr (batches, Some e) \<Rightarrow>
            (case concat (map commit_stale (allBatches (\<lambda>_. True) batches)) of
               [] \<Rightarrow> Inl e
             | stale \<Rightarrow> Inr (NCommitStale \<lparr>sf_reason = None, sf_missing = Some (missing_of stale), sf_pending = None,
                                          sf_conflict = None, sf_staleAt = highestStaleAt (map sf_staleAt stale)\<rparr>)), w1))
       (commitBlocks E n cache \<lparr>cr_blockIds = [i], cr_actionId = a, cr_rev = r, cr_tailId = tail\<rparr> w)"

definition commit_remaining :: "('v, 'x, 's) net_env \<Rightarrow> nat \<Rightarrow> coordinator_cache \<Rightarrow> net_commit_request \<Rightarrow> 's
    \<Rightarrow> ((net_error + 'v net_commit_result) \<times> 's) option" where
  "commit_remaining E n cache rq w =
     (let ids = nc_blockIds rq;
          remaining = filter (\<lambda>i. i \<noteq> nc_tailId rq \<and> \<not> (nc_headerId rq = Some i \<and> i \<noteq> [] \<and> i \<notin> set ids)) ids
      in if remaining = [] then Some (Inr NCommitSuccess, w)
         else map_option (map_prod (\<lambda>x. case x of Inl e \<Rightarrow> Inl (Thrown e) | Inr _ \<Rightarrow> Inr NCommitSuccess) id)
           (commitBlocks E n cache \<lparr>cr_blockIds = remaining, cr_actionId = nc_actionId rq, cr_rev = nc_rev rq, cr_tailId = nc_tailId rq\<rparr> w))"

definition commit_then :: "((net_error + 'v net_commit_result) \<times> 's) option \<Rightarrow> ('s \<Rightarrow> ((net_error + 'v net_commit_result) \<times> 's) option)
    \<Rightarrow> ((net_error + 'v net_commit_result) \<times> 's) option" where
  \<comment> \<open>a step after which only a success continues\<close>
  "commit_then m f = (case m of Some (Inr NCommitSuccess, w) \<Rightarrow> f w | _ \<Rightarrow> m)"

definition net_commit :: "('v, 'x, 's) net_env \<Rightarrow> nat \<Rightarrow> coordinator_cache \<Rightarrow> net_commit_request \<Rightarrow> 's
    \<Rightarrow> ((net_error + 'v net_commit_result) \<times> 's) option" where
  "net_commit E n cache rq w =
     (let block = (\<lambda>i. commitBlock E n cache i (nc_actionId rq) (nc_rev rq) (nc_tailId rq))
      in commit_then
           (case nc_headerId rq of
              Some h \<Rightarrow> if h \<noteq> [] \<and> h \<notin> set (nc_blockIds rq) then block h w else Some (Inr NCommitSuccess, w)
            | None \<Rightarrow> Some (Inr NCommitSuccess, w))
           (\<lambda>w1. commit_then (block (nc_tailId rq) w1) (commit_remaining E n cache rq)))"

section \<open>Reading\<close>

definition filterGets :: "block_id list \<Rightarrow> block_id \<Rightarrow> block_id list option \<Rightarrow> block_id list" where
  \<comment> \<open>the payload callback of \<open>get\<close>\<close>
  "filterGets gets i m = (case m of Some g \<Rightarrow> g | None \<Rightarrow> []) @ filter (\<lambda>j. j = i) gets"

definition get_ops :: "('v, 'x, 's) net_env \<Rightarrow> action_context option \<Rightarrow> nat \<Rightarrow> (block_id list, 'v get_results, 's) batch_ops" where
  "get_ops E context expiration =
     \<lparr>bo_process = \<lambda>b. ne_get E (bt_peer b) (bt_payload b) context expiration,
      bo_blockIds = bt_payload, bo_payload = filterGets, bo_expiration = expiration, bo_now = ne_now E,
      bo_find = \<lambda>i ex. ne_findCoordinator E i ex ReadIntent\<rparr>"

definition answer_of :: "(block_id list, 'v get_results) batch \<Rightarrow> 'v get_results" where
  "answer_of b = (case bt_request b of Some (Inr r) \<Rightarrow> r | _ \<Rightarrow> [])"

definition isAuthoritative :: "(block_id list, 'v get_results) batch \<Rightarrow> bool" where
  "isAuthoritative b \<longleftrightarrow> responded b \<and> list_all (\<lambda>i. case map_of (answer_of b) i of
       Some e \<Rightarrow> en_unavailable e = None \<and> en_unconfirmedAheadRev e = None | None \<Rightarrow> False) (bt_payload b)"

fun unavailableRank :: "unavailable_reason \<Rightarrow> nat" where
  "unavailableRank CohortUnreachable = 0"
| "unavailableRank PeersUnreachable = 1"
| "unavailableRank _ = 2"

definition rankOf :: "'v net_entry \<Rightarrow> nat" where
  "rankOf e =
     (if en_block e \<noteq> None then (if en_unconfirmedAheadRev e = None then 6 else 5)
      else case en_unavailable e of
             Some reason \<Rightarrow> unavailableRank reason
           | None \<Rightarrow> if en_unconfirmedAheadRev e = None then 4 else 3)"

definition merge_entry :: "block_id \<times> 'v net_entry \<Rightarrow> 'v get_results \<Rightarrow> 'v get_results" where
  "merge_entry = (\<lambda>(i, res) acc.
     (case map_of acc i of
        None \<Rightarrow> AList.update i res acc
      | Some existing \<Rightarrow> if rankOf res > rankOf existing then AList.update i res acc else acc))"

definition resultEntries :: "(block_id list, 'v get_results) batch list \<Rightarrow> 'v get_results" where
  "resultEntries nodes = fold merge_entry (concat (map answer_of nodes)) []"

fun second_chance :: "(block_id list, 'v get_results, 's) batch_ops \<Rightarrow> nat \<Rightarrow> (block_id list, 'v get_results) batch list \<Rightarrow> 's
    \<Rightarrow> ((block_id list, 'v get_results) batch list \<times> error option \<times> 's) option" where
  \<comment> \<open>the batches with their retries below them, in the order in which \<open>allBatches\<close> visits them afterwards\<close>
  "second_chance B n [] w = Some ([], None, w)"
| "second_chance B n (b # bs) w =
     (case (if isAuthoritative b then Some ([], None, w)
            else (case createBatchesForPayload (bt_payload b) (bt_payload b) (bo_payload B) (js_set (bt_peer b # bt_excluded b)) (bo_find B) w of
                    (Inl e, w1) \<Rightarrow> Some ([], Some e, w1)
                  | (Inr retries, w1) \<Rightarrow>
                      map_option (\<lambda>(done, w2). (allBatches (\<lambda>_. True) done, None, w2)) (processBatches B n retries w1))) of
        None \<Rightarrow> None
      | Some (found, err, w') \<Rightarrow>
          map_option (\<lambda>(rest, err', w''). (b # found @ rest, first_some [err, err'], w'')) (second_chance B n bs w'))"

definition net_get :: "('v, 'x, 's) net_env \<Rightarrow> nat \<Rightarrow> block_id list \<Rightarrow> action_context option \<Rightarrow> 's
    \<Rightarrow> ((net_error + 'v get_results) \<times> 's) option" where
  "net_get E n blockIds context w =
     (let ids = js_set blockIds
      in case createBatchesForPayload ids ids filterGets [] (\<lambda>i ex. ne_findCoordinator E i ex ReadIntent) w of
           (Inl e, w1) \<Rightarrow> Some (Inl (Thrown e), w1)
         | (Inr batches, w1) \<Rightarrow>
             (let ops = get_ops E context (ne_now E w1 + ne_timeoutMs E)
              in case processBatches ops n batches w1 of
                   None \<Rightarrow> None
                 | Some (done, w2) \<Rightarrow>
                     (let nodes = allBatches (\<lambda>_. True) done
                      in map_option (\<lambda>(nodes', err, w3).
                           (if list_all (\<lambda>i. map_of (resultEntries nodes') i \<noteq> None) ids then Inr (resultEntries nodes')
                            else Inl (PeersIncomplete (first_some [firstBatchError done nodes', err])), w3))
                           (if ne_now E w2 < bo_expiration ops then second_chance ops n nodes w2 else Some (nodes, None, w2)))))"

definition queryClusterNominees :: "('v, 'x, 's) net_env \<Rightarrow> block_id \<Rightarrow> 's \<Rightarrow> (error + string list) \<times> 's" where
  "queryClusterNominees E = ne_findCluster E"

section \<open>What is sent\<close>

text \<open>
  The runs of an operation: \<open>net_step\<close> is one call of the environment, \<open>net_run E A\<close> a sequence of lookups and of the
  requests that \<open>A\<close> allows. A statement on runs holds for every behaviour of the peers.
\<close>

datatype ('v, 'x) sent =
    Lookup
  | SentGet string "block_id list"
  | SentPend string "('v, 'x) net_pend_request"
  | SentCommit string commit_request
  | SentCancel string action_id "block_id list"

inductive net_step :: "('v, 'x, 's) net_env \<Rightarrow> ('v, 'x) sent \<Rightarrow> 's \<Rightarrow> 's \<Rightarrow> bool" for E where
  step_cluster: "ne_findCluster E i w = (x, w') \<Longrightarrow> net_step E Lookup w w'"
| step_coordinator: "ne_findCoordinator E i ex it w = (y, w') \<Longrightarrow> net_step E Lookup w w'"
| step_record: "net_step E Lookup w (ne_recordCoordinator E i p w)"
| step_get: "ne_get E p ids cx t w = (g, w') \<Longrightarrow> net_step E (SentGet p ids) w w'"
| step_pend: "ne_pend E p rq t co w = (r, w') \<Longrightarrow> net_step E (SentPend p rq) w w'"
| step_commit: "ne_commit E p cr t w = (c, w') \<Longrightarrow> net_step E (SentCommit p cr) w w'"
| step_cancel: "ne_cancel E p a ids t w = (u, w') \<Longrightarrow> net_step E (SentCancel p a ids) w w'"

definition net_run :: "('v, 'x, 's) net_env \<Rightarrow> (('v, 'x) sent \<Rightarrow> bool) \<Rightarrow> 's \<Rightarrow> 's \<Rightarrow> bool" where
  "net_run E A = rtranclp (\<lambda>w w'. \<exists>c. (c = Lookup \<or> A c) \<and> net_step E c w w')"

lemma net_run_refl [simp]: "net_run E A w w"
  by (simp add: net_run_def)

lemma net_run_trans: "net_run E A w w' \<Longrightarrow> net_run E A w' w'' \<Longrightarrow> net_run E A w w''"
  unfolding net_run_def by (rule rtranclp_trans)

lemma net_run_step: "net_step E c w w' \<Longrightarrow> c = Lookup \<or> A c \<Longrightarrow> net_run E A w w'"
  unfolding net_run_def by (intro r_into_rtranclp) blast

lemma net_run_lookup: "ne_findCoordinator E i ex it w = (y, w') \<Longrightarrow> net_run E A w w'"
  by (rule net_run_step [OF step_coordinator]) simp_all

lemma net_run_mono: "net_run E A w w' \<Longrightarrow> (\<And>c. A c \<Longrightarrow> A' c) \<Longrightarrow> net_run E A' w w'"
  unfolding net_run_def by (erule rtranclp_mono [THEN predicate2D, rotated]) blast

lemma net_run_invariant:
  assumes "net_run E A w w'" and "P w"
    and "\<And>c w w'. c = Lookup \<or> A c \<Longrightarrow> net_step E c w w' \<Longrightarrow> P w \<Longrightarrow> P w'"
  shows "P w'"
  using assms(1,2) unfolding net_run_def by (induction rule: rtranclp_induct) (use assms(3) in blast)+

lemma resolveCoordinator_run: "resolveCoordinator E cache a it i ex w = (y, w') \<Longrightarrow> net_run E A w w'"
  by (auto simp: resolveCoordinator_def split: option.splits if_splits intro: net_run_lookup)

definition sub_blocks :: "block_id set \<Rightarrow> block_id list \<Rightarrow> bool" where
  "sub_blocks S is \<longleftrightarrow> is \<noteq> [] \<and> distinct is \<and> set is \<subseteq> S"

lemma sub_blocks_single: "sub_blocks {i} is \<longleftrightarrow> is = [i]"
  by (cases "is") (auto simp: sub_blocks_def dest: subset_singletonD)

definition commits_of :: "commit_request \<Rightarrow> ('v, 'x) sent \<Rightarrow> bool" where
  \<comment> \<open>commits of some of the request's blocks\<close>
  "commits_of rq c \<longleftrightarrow> (\<exists>p is. sub_blocks (set (cr_blockIds rq)) is \<and> c = SentCommit p (rq\<lparr>cr_blockIds := is\<rparr>))"

definition commit_answered :: "('v, 'x, 's) net_env \<Rightarrow> commit_request \<Rightarrow> 's \<Rightarrow> block_id list \<Rightarrow> error + 'v net_commit_result \<Rightarrow> 's \<Rightarrow> bool" where
  \<comment> \<open>between the worlds a peer answered a commit of the blocks\<close>
  "commit_answered E rq w is x w' \<longleftrightarrow> sub_blocks (set (cr_blockIds rq)) is
     \<and> (\<exists>p t w1 w2. net_run E (commits_of rq) w w1 \<and> ne_commit E p (rq\<lparr>cr_blockIds := is\<rparr>) t w1 = (x, w2) \<and> net_run E (commits_of rq) w2 w')"

interpretation commit_run: batch_run "commit_ops E cache rq t" "sub_blocks (set (cr_blockIds rq))" "net_run E (commits_of rq)"
  "commit_answered E rq w0" w0 for E :: "('v, 'x, 's) net_env" and cache rq t w0
proof
  fix w w' w'' :: 's and b :: "(block_id list, 'v net_commit_result) batch" and x i ex p q m "is"
  show "net_run E (commits_of rq) w w" by simp
  show "net_run E (commits_of rq) w w' \<Longrightarrow> net_run E (commits_of rq) w' w'' \<Longrightarrow> net_run E (commits_of rq) w w''" by (rule net_run_trans)
  show "bo_find (commit_ops E cache rq t) i ex w = (p, w') \<Longrightarrow> net_run E (commits_of rq) w w'"
    by (simp add: commit_ops_def resolveCoordinator_run)
  show "commit_answered E rq w0 q x w \<Longrightarrow> net_run E (commits_of rq) w w' \<Longrightarrow> commit_answered E rq w0 q x w'"
    by (meson commit_answered_def net_run_trans)
  show "sub_blocks (set (cr_blockIds rq)) (bt_payload b) \<Longrightarrow> is \<noteq> [] \<Longrightarrow> distinct is \<Longrightarrow> set is \<subseteq> set (bo_blockIds (commit_ops E cache rq t) b)
      \<Longrightarrow> sub_blocks (set (cr_blockIds rq)) (group_payload (bo_payload (commit_ops E cache rq t)) (bt_payload b) is)"
    by (auto simp: commit_ops_def group_mergeBlocks sub_blocks_def)
  assume b: "sub_blocks (set (cr_blockIds rq)) (bt_payload b)" and w: "net_run E (commits_of rq) w0 w"
    and call: "bo_process (commit_ops E cache rq t) b w = (x, w')"
  then have "ne_commit E (bt_peer b) (rq\<lparr>cr_blockIds := bt_payload b\<rparr>) t w = (x, w')" by (simp add: commit_ops_def)
  moreover from this have "net_run E (commits_of rq) w w'"
    by (rule net_run_step [OF step_commit]) (use b in \<open>auto simp: commits_of_def\<close>)
  ultimately show "net_run E (commits_of rq) w w' \<and> commit_answered E rq w0 (bt_payload b) x w'"
    using b w unfolding commit_answered_def by (metis net_run_refl)
qed

lemma createBatches_lookups:
  assumes "createBatchesForPayload ids payload g ex (resolveCoordinator E cache a it) w = (x, w')"
  shows "net_run E A w w'"
  by (rule createBatches_rel [OF _ _ _ assms, of "net_run E A"]) (auto intro: net_run_trans resolveCoordinator_run)

lemma commitBlocks_cases:
  assumes "commitBlocks E n cache rq w = Some (x, w')"
  obtains (unassigned) e where "x = Inl e" "net_run E (\<lambda>_. False) w w'"
  | (sent) out where "x = Inr (out, if everyBatch out commit_ok then None else Some (PeersIncomplete (firstBatchError out (allBatches (\<lambda>_. True) out))))"
      "net_run E (commits_of rq) w w'"
      "\<forall>b \<in> set (allBatches (\<lambda>_. True) out). \<exists>y. bt_request b = Some y \<and> commit_answered E rq w (bt_payload b) y w'"
      "\<forall>i \<in> set (cr_blockIds rq). \<exists>b \<in> set out. i \<in> set (bt_payload b)"
proof -
  let ?ops = "commit_ops E cache rq (ne_now E w + ne_timeoutMs E)"
  let ?create = "createBatchesForPayload (cr_blockIds rq) (cr_blockIds rq) mergeBlocks [] (bo_find ?ops) w"
  obtain c :: "error + (block_id list, 'a net_commit_result) batch list" and w1 where create: "?create = (c, w1)"
    by (metis surj_pair)
  show thesis
  proof (cases c)
    case (Inl e)
    with assms create show thesis
      by (intro unassigned [of e]) (auto simp: commitBlocks_def commit_ops_def intro: createBatches_lookups)
  next
    case (Inr batches)
    then obtain out where out: "processBatches ?ops n batches w1 = Some (out, w')"
        "x = Inr (out, if everyBatch out commit_ok then None else Some (PeersIncomplete (firstBatchError out (allBatches (\<lambda>_. True) out))))"
      using assms create by (auto simp: commitBlocks_def)
    have w1: "net_run E (commits_of rq) w w1" using createBatches_lookups create by (auto simp: commit_ops_def)
    have fresh: "\<forall>b \<in> set batches. sub_blocks (set (cr_blockIds rq)) (bt_payload b) \<and> bt_subsumedBy b = []"
      using createBatches_fresh [OF create [unfolded Inr], of _ "sub_blocks (set (cr_blockIds rq))"]
      by (auto simp: fresh_batch_def group_mergeBlocks sub_blocks_def)
    note run = commit_run.processBatches_run [OF out(1) w1 fresh]
    have "\<forall>i \<in> set (cr_blockIds rq). \<exists>b \<in> set batches. i \<in> set (bt_payload b)"
      using createBatches_covers [OF create [unfolded Inr]] by (metis empty_iff group_mergeBlocks list.set(1))
    then have "\<forall>i \<in> set (cr_blockIds rq). \<exists>b \<in> set out. i \<in> set (bt_payload b)"
      using run(3) by (metis (mono_tags) imageE imageI list.set_map)
    with out run(1,2) net_run_trans [OF w1] show thesis by (intro sent) auto
  qed
qed

lemma commitBlock_run:
  assumes "commitBlock E n cache i a r tail w = Some (res, w')"
  shows "net_run E (commits_of \<lparr>cr_blockIds = [i], cr_actionId = a, cr_rev = r, cr_tailId = tail\<rparr>) w w'"
    and "res = Inr NCommitSuccess \<Longrightarrow>
      commit_answered E \<lparr>cr_blockIds = [i], cr_actionId = a, cr_rev = r, cr_tailId = tail\<rparr> w [i] (Inr NCommitSuccess) w'"
proof -
  let ?rq = "\<lparr>cr_blockIds = [i], cr_actionId = a, cr_rev = r, cr_tailId = tail\<rparr>"
  obtain x where x: "commitBlocks E n cache ?rq w = Some (x, w')" using assms by (auto simp: commitBlock_def)
  have "net_run E (commits_of ?rq) w w' \<and> (res = Inr NCommitSuccess \<longrightarrow> commit_answered E ?rq w [i] (Inr NCommitSuccess) w')"
    using x
  proof (cases rule: commitBlocks_cases)
    case (unassigned e)
    then show ?thesis using assms x by (auto simp: commitBlock_def intro: net_run_mono)
  next
    case (sent out)
    have "commit_answered E ?rq w [i] (Inr NCommitSuccess) w'" if "res = Inr NCommitSuccess"
    proof -
      have "everyBatch out commit_ok"
        using that assms x sent(1) by (auto simp: commitBlock_def split: if_splits list.splits)
      moreover obtain b where "b \<in> set out" using sent(4) by auto
      ultimately obtain c where c: "c \<in> set (allBatches (\<lambda>_. True) out)" "commit_ok c" using everyBatch_node by blast
      then obtain y where y: "bt_request c = Some y" "commit_answered E ?rq w (bt_payload c) y w'" using sent(3) by blast
      moreover have "y = Inr NCommitSuccess" using c(2) y(1) by (auto simp: commit_ok_def split: sum.splits net_commit_result.splits)
      moreover have "bt_payload c = [i]" using y(2) by (simp add: commit_answered_def sub_blocks_single)
      ultimately show ?thesis by simp
    qed
    with sent(2) show ?thesis by blast
  qed
  then show "net_run E (commits_of ?rq) w w'" and "res = Inr NCommitSuccess \<Longrightarrow> commit_answered E ?rq w [i] (Inr NCommitSuccess) w'" by auto
qed

definition block_commit :: "net_commit_request \<Rightarrow> block_id list \<Rightarrow> commit_request" where
  \<comment> \<open>the commit of some blocks that a client's request sends\<close>
  "block_commit rq is = \<lparr>cr_blockIds = is, cr_actionId = nc_actionId rq, cr_rev = nc_rev rq, cr_tailId = nc_tailId rq\<rparr>"

definition separate_header :: "net_commit_request \<Rightarrow> block_id option" where
  \<comment> \<open>the header is committed by itself only when it is given and not one of the block ids\<close>
  "separate_header rq = (case nc_headerId rq of Some h \<Rightarrow> if h \<noteq> [] \<and> h \<notin> set (nc_blockIds rq) then Some h else None | None \<Rightarrow> None)"

lemma net_commit_cases:
  assumes "net_commit E n cache rq w = Some (res, w')"
  obtains (header) h where "separate_header rq = Some h" "res \<noteq> Inr NCommitSuccess" "net_run E (commits_of (block_commit rq [h])) w w'"
  | (tail) wh where "case separate_header rq of Some h \<Rightarrow> commit_answered E (block_commit rq [h]) w [h] (Inr NCommitSuccess) wh | None \<Rightarrow> wh = w"
      "res \<noteq> Inr NCommitSuccess" "net_run E (commits_of (block_commit rq [nc_tailId rq])) wh w'"
  | (rest) wh wt where "case separate_header rq of Some h \<Rightarrow> commit_answered E (block_commit rq [h]) w [h] (Inr NCommitSuccess) wh | None \<Rightarrow> wh = w"
      "commit_answered E (block_commit rq [nc_tailId rq]) wh [nc_tailId rq] (Inr NCommitSuccess) wt"
      "commit_remaining E n cache rq wt = Some (res, w')"
proof -
  let ?block = "\<lambda>i. commitBlock E n cache i (nc_actionId rq) (nc_rev rq) (nc_tailId rq)"
  have from_tail: thesis
    if wh: "case separate_header rq of Some h \<Rightarrow> commit_answered E (block_commit rq [h]) w [h] (Inr NCommitSuccess) wh | None \<Rightarrow> wh = w"
      and t: "commit_then (?block (nc_tailId rq) wh) (commit_remaining E n cache rq) = Some (res, w')" for wh
  proof -
    obtain y wt where y: "?block (nc_tailId rq) wh = Some (y, wt)" using t by (cases "?block (nc_tailId rq) wh") (auto simp: commit_then_def)
    note run = commitBlock_run [OF y, folded block_commit_def]
    show thesis
    proof (cases "y = Inr NCommitSuccess")
      case True
      then show thesis using rest [OF wh run(2) [OF True]] t y by (auto simp: commit_then_def)
    next
      case False
      then have "res = y" "w' = wt" using t y by (auto simp: commit_then_def split: sum.splits net_commit_result.splits)
      then show thesis using tail [OF wh] False run(1) by blast
    qed
  qed
  show thesis
  proof (cases "separate_header rq")
    case None
    then show thesis using assms
      by (intro from_tail [of w]) (auto simp: net_commit_def separate_header_def commit_then_def Let_def split: option.splits if_splits)
  next
    case (Some h)
    then have h: "commit_then (?block h w) (\<lambda>w1. commit_then (?block (nc_tailId rq) w1) (commit_remaining E n cache rq)) = Some (res, w')"
      using assms by (auto simp: net_commit_def separate_header_def Let_def split: option.splits if_splits)
    then obtain y wh where y: "?block h w = Some (y, wh)" by (cases "?block h w") (auto simp: commit_then_def)
    note run = commitBlock_run [OF y, folded block_commit_def]
    show thesis
    proof (cases "y = Inr NCommitSuccess")
      case True
      then show thesis using from_tail [of wh] run(2) [OF True] h y Some by (auto simp: commit_then_def)
    next
      case False
      then have "res = y" "w' = wh" using h y by (auto simp: commit_then_def split: sum.splits net_commit_result.splits)
      then show thesis using header [OF Some] False run(1) by blast
    qed
  qed
qed

lemma commits_of_block_commit: "commits_of (block_commit rq [i]) c \<Longrightarrow> \<exists>p. c = SentCommit p (block_commit rq [i])"
  by (auto simp: commits_of_def block_commit_def sub_blocks_single)

lemma commit_remaining_run:
  assumes "commit_remaining E n cache rq w = Some (res, w')"
  shows "net_run E (\<lambda>c. \<exists>p is. c = SentCommit p (block_commit rq is) \<and> set is \<subseteq> set (nc_blockIds rq) - {nc_tailId rq}) w w'"
    and "res \<noteq> Inr NCommitSuccess \<Longrightarrow> net_run E (\<lambda>_. False) w w'"
proof -
  let ?rest = "filter (\<lambda>i. i \<noteq> nc_tailId rq \<and> \<not> (nc_headerId rq = Some i \<and> i \<noteq> [] \<and> i \<notin> set (nc_blockIds rq))) (nc_blockIds rq)"
  let ?A = "\<lambda>c. \<exists>p is. c = SentCommit p (block_commit rq is) \<and> set is \<subseteq> set (nc_blockIds rq) - {nc_tailId rq}"
  have "net_run E ?A w w' \<and> (res \<noteq> Inr NCommitSuccess \<longrightarrow> net_run E (\<lambda>_. False) w w')"
  proof (cases "?rest = []")
    case True
    then show ?thesis using assms by (simp add: commit_remaining_def)
  next
    case False
    then obtain x where x: "commitBlocks E n cache (block_commit rq ?rest) w = Some (x, w')"
        "res = (case x of Inl e \<Rightarrow> Inl (Thrown e) | Inr _ \<Rightarrow> Inr NCommitSuccess)"
      using assms by (auto simp: commit_remaining_def block_commit_def Let_def)
    from x(1) show ?thesis
    proof (cases rule: commitBlocks_cases)
      case (unassigned e)
      then show ?thesis by (auto intro: net_run_mono)
    next
      case (sent out)
      have "?A c" if c: "commits_of (block_commit rq ?rest) c" for c
      proof -
        obtain p "is" where "c = SentCommit p (block_commit rq is)" "set is \<subseteq> set ?rest"
          using c unfolding commits_of_def block_commit_def sub_blocks_def by auto
        moreover have "set ?rest \<subseteq> set (nc_blockIds rq) - {nc_tailId rq}" by auto
        ultimately show ?thesis by blast
      qed
      then have "net_run E ?A w w'" by (rule net_run_mono [OF sent(2)])
      with sent(1) x(2) show ?thesis by simp
    qed
  qed
  then show "net_run E ?A w w'" and "res \<noteq> Inr NCommitSuccess \<Longrightarrow> net_run E (\<lambda>_. False) w w'" by auto
qed

lemma commit_answered_run: "commit_answered E rq w is x w' \<Longrightarrow> net_run E (commits_of rq) w w'"
proof -
  assume "commit_answered E rq w is x w'"
  then obtain p t w1 w2 where "sub_blocks (set (cr_blockIds rq)) is" and run: "net_run E (commits_of rq) w w1" "net_run E (commits_of rq) w2 w'"
      and call: "ne_commit E p (rq\<lparr>cr_blockIds := is\<rparr>) t w1 = (x, w2)" by (auto simp: commit_answered_def)
  then have "net_run E (commits_of rq) w1 w2" by (intro net_run_step [OF step_commit [OF call]]) (auto simp: commits_of_def)
  with run show ?thesis by (meson net_run_trans)
qed

section \<open>A network for examples\<close>

text \<open>
  The world is the list of the requests sent so far, newest first, and its length is the time. \<open>cl\<close> gives the peers of a
  block's cluster, \<open>up\<close> the peers that answer, \<open>stale\<close> the blocks on which a peer reports a stale revision and \<open>content\<close>
  what a peer reads.
\<close>

type_synonym trace = "(nat, unit) sent list"

definition trace_env :: "(block_id \<Rightarrow> string list) \<Rightarrow> (string \<Rightarrow> bool) \<Rightarrow> (block_id list \<Rightarrow> bool) \<Rightarrow> (string \<Rightarrow> block_id \<Rightarrow> nat net_entry)
    \<Rightarrow> (nat, unit, trace) net_env" where
  "trace_env cl up stale content =
     (let answer = (\<lambda>p c x w. (if up p then Inr x else Inl (Err ''unreachable''), c # w));
          failure = \<lparr>sf_reason = Some ''stale'', sf_missing = None, sf_pending = None, sf_conflict = None, sf_staleAt = None\<rparr>
      in \<lparr>ne_timeoutMs = 20, ne_abortOrCancelTimeoutMs = 10, ne_now = length,
          ne_findCluster = \<lambda>i w. (Inr (cl i), w),
          ne_findCoordinator = \<lambda>i ex it w. (case filter (\<lambda>p. p \<notin> set ex) (cl i) of [] \<Rightarrow> Inl (Err ''no coordinator'') | p # _ \<Rightarrow> Inr p, w),
          ne_recordCoordinator = \<lambda>i p w. w,
          ne_get = \<lambda>p ids cx t. (\<lambda>w. (if up p then Inr (map (\<lambda>i. (i, content p i)) ids) else Inl (Err ''unreachable''), SentGet p ids # w)),
          ne_pend = \<lambda>p rq t co. answer p (SentPend p rq) (if stale (blockIdsForTransforms (pr_transforms rq)) then NPendStale failure
                      else NPendSuccess [] (blockIdsForTransforms (pr_transforms rq))),
          ne_commit = \<lambda>p cr t. (\<lambda>w. (if up p then Inr (if stale (cr_blockIds cr) then NCommitStale failure else NCommitSuccess) else Inl (Err ''unreachable''), SentCommit p cr # w)),
          ne_cancel = \<lambda>p a ids t. (\<lambda>w. (if up p then Inr () else Inl (Err ''unreachable''), SentCancel p a ids # w))\<rparr>)"

definition absent_entry :: "nat net_entry" where
  "absent_entry = \<lparr>en_block = None, en_latest = None, en_pendings = None, en_materializedRev = None, en_unavailable = None, en_unconfirmedAheadRev = None\<rparr>"

section \<open>Properties of commits\<close>

text \<open>C11. A commit that does not succeed, whether it reports a stale revision or throws, has sent commits of the collection's
  header and of the log's tail only: every other block of the action stays pending, whatever the peers answered.\<close>

theorem failed_commit_sent_only_header_and_tail:
  assumes "net_commit E n cache rq w = Some (res, w')" and "res \<noteq> Inr NCommitSuccess"
  shows "net_run E (\<lambda>c. \<exists>p i. c = SentCommit p (block_commit rq [i]) \<and> (i = nc_tailId rq \<or> nc_headerId rq = Some i)) w w'"
    (is "net_run E ?A w w'")
proof -
  have only_tail: "commits_of (block_commit rq [nc_tailId rq]) c \<Longrightarrow> ?A c" for c
    by (drule commits_of_block_commit) blast
  have head: "commits_of (block_commit rq [h]) c \<Longrightarrow> separate_header rq = Some h \<Longrightarrow> ?A c" for c h
    by (drule commits_of_block_commit) (auto simp: separate_header_def split: option.splits if_splits)
  have to_tail: "net_run E ?A w wh"
    if "case separate_header rq of Some h \<Rightarrow> commit_answered E (block_commit rq [h]) w [h] (Inr NCommitSuccess) wh | None \<Rightarrow> wh = w" for wh
    using that by (cases "separate_header rq") (auto dest!: commit_answered_run intro: net_run_mono head)
  from assms(1) show ?thesis
  proof (cases rule: net_commit_cases)
    case (header h)
    then show ?thesis by (auto intro: net_run_mono head)
  next
    case (tail wh)
    from net_run_trans [OF to_tail [OF tail(1)] net_run_mono [OF tail(3) only_tail]] show ?thesis .
  next
    case (rest wh wt)
    have "net_run E ?A wh wt" by (rule net_run_mono [OF commit_answered_run [OF rest(2)] only_tail])
    moreover have "net_run E ?A wt w'" by (rule net_run_mono [OF commit_remaining_run(2) [OF rest(3) assms(2)]]) simp
    ultimately show ?thesis using to_tail [OF rest(1)] by (meson net_run_trans)
  qed
qed

definition sample_commit :: net_commit_request where
  "sample_commit = \<lparr>nc_headerId = Some ''h'', nc_tailId = ''t'', nc_blockIds = [''t'', ''b''], nc_actionId = ''a'', nc_rev = 1\<rparr>"

definition stale_tail_env :: "(nat, unit, trace) net_env" where
  "stale_tail_env = trace_env (\<lambda>_. [''p'', ''q'']) (\<lambda>p. p = ''q'') (\<lambda>is. is = [''t'']) (\<lambda>_ _. absent_entry)"

fun commit_view :: "((net_error + 'v net_commit_result) \<times> ('v, 'x) sent list) option \<Rightarrow> (bool option \<times> (string \<times> block_id list) list) option" where
  \<comment> \<open>whether it succeeded, failed or threw, and the commits sent, oldest first\<close>
  "commit_view None = None"
| "commit_view (Some (r, w)) =
     Some (case r of Inl _ \<Rightarrow> None | Inr NCommitSuccess \<Rightarrow> Some True | Inr _ \<Rightarrow> Some False,
           rev (concat (map (\<lambda>c. case c of SentCommit p cr \<Rightarrow> [(p, cr_blockIds cr)] | _ \<Rightarrow> []) w)))"

lemma commit_view_success: "commit_view x = Some (Some True, l) \<Longrightarrow> \<exists>w. x = Some (Inr NCommitSuccess, w)"
  by (cases x rule: commit_view.cases) (auto split: sum.splits net_commit_result.splits)

lemma commit_view_stale: "commit_view x = Some (Some False, l) \<Longrightarrow> \<exists>f w. x = Some (Inr (NCommitStale f), w)"
  by (cases x rule: commit_view.cases) (auto split: sum.splits net_commit_result.splits)

lemma stale_tail_run:
  "commit_view (net_commit stale_tail_env 3 [] sample_commit []) = Some (Some False, [(''p'', [''h'']), (''q'', [''h'']), (''p'', [''t'']), (''q'', [''t''])])"
  by code_simp

theorem failed_commit_sent_only_header_and_tail_witness:
  "\<exists>f w'. net_commit stale_tail_env 3 [] sample_commit [] = Some (Inr (NCommitStale f), w') \<and>
     net_run stale_tail_env (\<lambda>c. \<exists>p i. c = SentCommit p (block_commit sample_commit [i]) \<and> (i = nc_tailId sample_commit \<or> nc_headerId sample_commit = Some i)) [] w'"
proof -
  obtain f w' where "net_commit stale_tail_env 3 [] sample_commit [] = Some (Inr (NCommitStale f), w')"
    using commit_view_stale [OF stale_tail_run] by blast
  with failed_commit_sent_only_header_and_tail [OF this] show ?thesis by blast
qed

definition tail_first :: "('v, 'x, 's) net_env \<Rightarrow> net_commit_request \<Rightarrow> 's \<Rightarrow> 's \<Rightarrow> bool" where
  \<comment> \<open>a peer acknowledged the commit of a separate header alone, then one that of the tail alone; only then were other blocks sent\<close>
  "tail_first E rq w w' \<longleftrightarrow>
     (\<exists>wh wt. (case separate_header rq of Some h \<Rightarrow> commit_answered E (block_commit rq [h]) w [h] (Inr NCommitSuccess) wh | None \<Rightarrow> wh = w)
       \<and> commit_answered E (block_commit rq [nc_tailId rq]) wh [nc_tailId rq] (Inr NCommitSuccess) wt
       \<and> net_run E (\<lambda>c. \<exists>p is. c = SentCommit p (block_commit rq is) \<and> set is \<subseteq> set (nc_blockIds rq) - {nc_tailId rq}) wt w')"

lemma net_commit_tail_first:
  assumes "net_commit E n cache rq w = Some (Inr NCommitSuccess, w')"
  shows "tail_first E rq w w'"
  using assms
proof (cases rule: net_commit_cases)
  case (rest wh wt)
  show ?thesis unfolding tail_first_def
    by (intro exI conjI) (fact rest(1), fact rest(2), rule commit_remaining_run(1) [OF rest(3)])
qed simp_all


definition lossy_env :: "(nat, unit, trace) net_env" where
  "lossy_env = trace_env (\<lambda>_. [''p'', ''q'']) (\<lambda>p. p = ''q'') (\<lambda>_. False) (\<lambda>_ _. absent_entry)"

lemma lossy_commit_run:
  "commit_view (net_commit lossy_env 3 [] sample_commit [])
   = Some (Some True, [(''p'', [''h'']), (''q'', [''h'']), (''p'', [''t'']), (''q'', [''t'']), (''p'', [''b'']), (''q'', [''b''])])"
  by code_simp


definition lost_route_env :: "(nat, unit, trace) net_env" where
  "lost_route_env = trace_env (\<lambda>i. if i = ''b'' then [] else [''q'']) (\<lambda>_. True) (\<lambda>_. False) (\<lambda>_ _. absent_entry)"

text \<open>A commit can throw although the tail is committed: when the lookup of a coordinator for another block fails, the error leaves
  \<open>commit\<close>, while an error of the commit of those blocks is swallowed. The caller then cancels an action that took effect.\<close>

theorem commit_throws_after_tail_committed:
  "commit_view (net_commit lost_route_env 3 [] sample_commit []) = Some (None, [(''q'', [''h'']), (''q'', [''t''])])
   \<and> fst (ne_commit lost_route_env ''q'' (block_commit sample_commit [''t'']) 20 w) = Inr NCommitSuccess"
proof
  show "commit_view (net_commit lost_route_env 3 [] sample_commit []) = Some (None, [(''q'', [''h'']), (''q'', [''t''])])" by code_simp
  show "fst (ne_commit lost_route_env ''q'' (block_commit sample_commit [''t'']) 20 w) = Inr NCommitSuccess"
    by (simp add: lost_route_env_def trace_env_def Let_def)
qed

section \<open>Every operation returns\<close>

definition net_clock :: "('v, 'x, 's) net_env \<Rightarrow> bool" where
  \<comment> \<open>no call turns the clock back, and a call of a peer that fails has taken time\<close>
  "net_clock E \<longleftrightarrow> (\<forall>c w w'. net_step E c w w' \<longrightarrow> ne_now E w \<le> ne_now E w')
     \<and> (\<forall>p ids cx t w e w'. ne_get E p ids cx t w = (Inl e, w') \<longrightarrow> ne_now E w < ne_now E w')
     \<and> (\<forall>p rq t co w e w'. ne_pend E p rq t co w = (Inl e, w') \<longrightarrow> ne_now E w < ne_now E w')
     \<and> (\<forall>p cr t w e w'. ne_commit E p cr t w = (Inl e, w') \<longrightarrow> ne_now E w < ne_now E w')
     \<and> (\<forall>p a ids t w e w'. ne_cancel E p a ids t w = (Inl e, w') \<longrightarrow> ne_now E w < ne_now E w')"

lemma net_clock_step: "net_clock E \<Longrightarrow> net_step E c w w' \<Longrightarrow> ne_now E w \<le> ne_now E w'"
  unfolding net_clock_def by metis

lemma net_clock_lookup:
  assumes "net_clock E"
  shows "ne_findCoordinator E i ex it w = (y, w') \<Longrightarrow> ne_now E w \<le> ne_now E w'"
    and "resolveCoordinator E cache a it i ex w = (y, w') \<Longrightarrow> ne_now E w \<le> ne_now E w'"
proof -
  have look: "ne_findCoordinator E i ex it w = (y, w') \<Longrightarrow> ne_now E w \<le> ne_now E w'" for i ex it w y w'
    by (rule net_clock_step [OF assms step_coordinator])
  then show "ne_findCoordinator E i ex it w = (y, w') \<Longrightarrow> ne_now E w \<le> ne_now E w'" .
  show "resolveCoordinator E cache a it i ex w = (y, w') \<Longrightarrow> ne_now E w \<le> ne_now E w'"
    by (auto simp: resolveCoordinator_def split: option.splits if_splits dest: look)
qed

lemma ops_clock:
  assumes "net_clock E"
  shows "clock_advances (cancel_ops E a t)" "clock_advances (pend_ops E rq t)" "clock_advances (commit_ops E cache cr t)" "clock_advances (get_ops E cx t)"
  unfolding clock_advances_def cancel_ops_def pend_ops_def commit_ops_def get_ops_def batch_ops.simps
  by (safe, (drule net_clock_lookup [OF assms] | drule net_clock_step [OF assms step_cancel] net_clock_step [OF assms step_pend]
        net_clock_step [OF assms step_commit] net_clock_step [OF assms step_get], assumption
      | (use assms in \<open>simp add: net_clock_def\<close>))+)

lemma ops_now [simp]:
  "bo_now (cancel_ops E a t) = ne_now E" "bo_now (pend_ops E rq t) = ne_now E" "bo_now (commit_ops E cache cr t) = ne_now E" "bo_now (get_ops E cx t) = ne_now E"
  "bo_expiration (cancel_ops E a t) = t" "bo_expiration (pend_ops E rq t) = t" "bo_expiration (commit_ops E cache cr t) = t" "bo_expiration (get_ops E cx t) = t"
  by (simp_all add: cancel_ops_def pend_ops_def commit_ops_def get_ops_def)

lemma batches_return:
  assumes "clock_advances B" and "bo_expiration B = bo_now B w0 + t" and "bo_now B w0 \<le> bo_now B w" and "t < n"
  shows "\<exists>out w'. processBatches B n bs w = Some (out, w') \<and> bo_now B w \<le> bo_now B w'"
  by (rule processBatches_returns [OF assms(1)]) (use assms(2-4) in linarith)

lemma cancel_returns:
  assumes "net_clock E" and "ne_abortOrCancelTimeoutMs E < n"
  shows "\<exists>w'. cancelBatch E n batches ids a w = Some w'" and "\<exists>r. net_cancel E n a ids w = Some r"
proof -
  have run: "\<exists>out w'. processBatches (cancel_ops E a (ne_now E w + ne_abortOrCancelTimeoutMs E)) n bs w = Some (out, w')" for bs w
    using batches_return [OF ops_clock(1) [OF assms(1)] _ order_refl assms(2), of a "ne_now E w + ne_abortOrCancelTimeoutMs E" w bs] by auto
  show "\<exists>w'. cancelBatch E n batches ids a w = Some w'"
  proof -
    obtain out w' where "processBatches (cancel_ops E a (ne_now E w + ne_abortOrCancelTimeoutMs E)) n
        (makeBatchesByPeer (map (\<lambda>b. (bt_blockId b, bt_peer b)) (allBatches (\<lambda>_. True) batches)) ids mergeBlocks []) w = Some (out, w')"
      using run by blast
    then show ?thesis by (simp add: cancelBatch_def)
  qed
  show "\<exists>r. net_cancel E n a ids w = Some r"
  proof -
    let ?look = "\<lambda>i ex. ne_findCoordinator E i ex WriteIntent"
    obtain c w1 where c: "createBatchesForPayload ids ids mergeBlocks [] ?look w = (c :: error + (block_id list, unit) batch list, w1)" by (metis surj_pair)
    obtain out w' where "processBatches (cancel_ops E a (ne_now E w1 + ne_abortOrCancelTimeoutMs E)) n (projr c) w1 = Some (out, w')" using run by blast
    with c show ?thesis by (cases c) (auto simp: net_cancel_def)
  qed
qed

lemma net_pend_returns:
  assumes "net_clock E" and "ne_timeoutMs E < n" and "ne_abortOrCancelTimeoutMs E < n"
  shows "\<exists>r. net_pend E n rq cache w = Some r"
proof -
  have run: "\<exists>out w'. processBatches (pend_ops E rq (ne_now E w + ne_timeoutMs E)) n bs w = Some (out, w')" for bs w
    using batches_return [OF ops_clock(2) [OF assms(1)] _ order_refl assms(2), of rq "ne_now E w + ne_timeoutMs E" w bs] by auto
  obtain c w1 where c: "consolidateCoordinators E (blockIdsForTransforms (pr_transforms rq)) (pr_transforms rq) w
      = (c :: error + ('a transforms, 'a net_pend_result) batch list, w1)" by (metis surj_pair)
  show ?thesis
  proof (cases c)
    case (Inr batches)
    obtain out w2 where out: "processBatches (pend_ops E rq (ne_now E w1 + ne_timeoutMs E)) n batches w1 = Some (out, w2)" using run by blast
    show ?thesis
    proof (cases "everyBatch out pend_ok")
      case True
      then show ?thesis using c Inr out by (simp add: net_pend_def pend_process_def Let_def)
    next
      case False
      obtain w4 where "cancelBatch E n out (blockIdsForTransforms (pr_transforms rq)) (pr_actionId rq)
          (fold (\<lambda>b. ne_recordCoordinator E (bt_blockId b) (bt_peer b)) (allBatches (\<lambda>_. True) out) w2) = Some w4"
        using cancel_returns(1) [OF assms(1,3)] by blast
      then show ?thesis using c Inr out False by (simp add: net_pend_def pend_process_def Let_def)
    qed
  qed (simp add: net_pend_def c Let_def)
qed

lemma commitBlocks_returns:
  assumes "net_clock E" and "ne_timeoutMs E < n"
  shows "\<exists>r. commitBlocks E n cache rq w = Some r"
proof -
  let ?ops = "commit_ops E cache rq (ne_now E w + ne_timeoutMs E)"
  obtain c w1 where c: "createBatchesForPayload (cr_blockIds rq) (cr_blockIds rq) mergeBlocks [] (bo_find ?ops) w
      = (c :: error + (block_id list, 'a net_commit_result) batch list, w1)" by (metis surj_pair)
  have "ne_now E w \<le> ne_now E w1" using createBatches_clock [OF ops_clock(3) [OF assms(1)] c] by simp
  then obtain out w' where "processBatches ?ops n (projr c) w1 = Some (out, w')"
    using batches_return [OF ops_clock(3) [OF assms(1)] _ _ assms(2), of cache rq "ne_now E w + ne_timeoutMs E" w w1 "projr c"] by auto
  then show ?thesis using c by (cases c) (auto simp: commitBlocks_def Let_def)
qed

lemma net_commit_returns:
  assumes "net_clock E" and "ne_timeoutMs E < n"
  shows "\<exists>r. net_commit E n cache rq w = Some r"
proof -
  have block: "\<exists>x. commitBlock E n cache i a r tl w = Some x" for i a r tl w
    using commitBlocks_returns [OF assms, of cache "\<lparr>cr_blockIds = [i], cr_actionId = a, cr_rev = r, cr_tailId = tl\<rparr>" w]
    by (auto simp: commitBlock_def)
  have rest: "\<exists>r. commit_remaining E n cache rq w = Some r" for w
    unfolding commit_remaining_def Let_def using commitBlocks_returns [OF assms, of cache _ w] by fastforce
  have seq: "\<exists>r. commit_then m f = Some r" if "\<exists>r. m = Some r" "\<And>w. \<exists>r. f w = Some r" for m f
    using that by (auto simp: commit_then_def split: option.splits prod.splits sum.splits net_commit_result.splits)
  let ?block = "\<lambda>i. commitBlock E n cache i (nc_actionId rq) (nc_rev rq) (nc_tailId rq)"
  have "\<exists>r. (case nc_headerId rq of Some h \<Rightarrow> if h \<noteq> [] \<and> h \<notin> set (nc_blockIds rq) then ?block h w else Some (Inr NCommitSuccess, w)
      | None \<Rightarrow> Some (Inr NCommitSuccess, w)) = Some r"
    using block by (cases "nc_headerId rq") (simp_all del: split_paired_Ex)
  then show ?thesis unfolding net_commit_def Let_def by (intro seq block rest)
qed

lemma second_chance_returns:
  assumes "clock_advances B"
  shows "bo_expiration B - bo_now B w < n \<Longrightarrow> \<exists>r. second_chance B n bs w = Some r"
proof (induction bs arbitrary: w)
  case (Cons b bs)
  let ?create = "createBatchesForPayload (bt_payload b) (bt_payload b) (bo_payload B) (js_set (bt_peer b # bt_excluded b)) (bo_find B) w"
  obtain c w1 where c: "?create = (c :: error + (block_id list, 'a get_results) batch list, w1)" by (metis surj_pair)
  have w1: "bo_now B w \<le> bo_now B w1" by (rule createBatches_clock [OF assms c])
  have later: "\<exists>r. second_chance B n bs w' = Some r" if "bo_now B w \<le> bo_now B w'" for w'
    using Cons.IH [of w'] Cons.prems that by (meson diff_le_mono2 le_less_trans)
  obtain out w2 where out: "processBatches B n (projr c) w1 = Some (out, w2)" "bo_now B w1 \<le> bo_now B w2"
    using processBatches_returns [OF assms, of w1 n "projr c"] Cons.prems w1 by (meson diff_le_mono2 le_less_trans)
  show ?case
    using later [of w] later [of w1] later [of w2] w1 out c by (cases c) auto
qed simp

lemma net_get_returns:
  assumes "net_clock E" and "ne_timeoutMs E < n"
  shows "\<exists>r. net_get E n ids cx w = Some r"
proof -
  let ?look = "\<lambda>i ex. ne_findCoordinator E i ex ReadIntent"
  obtain c w1 where c: "createBatchesForPayload (js_set ids) (js_set ids) filterGets [] ?look w
      = (c :: error + (block_id list, 'a get_results) batch list, w1)" by (metis surj_pair)
  let ?ops = "get_ops E cx (ne_now E w1 + ne_timeoutMs E)"
  note clock = ops_clock(4) [OF assms(1)]
  obtain out w2 where out: "processBatches ?ops n (projr c) w1 = Some (out, w2)" "ne_now E w1 \<le> ne_now E w2"
    using batches_return [OF clock _ order_refl assms(2), of cx "ne_now E w1 + ne_timeoutMs E" w1 "projr c"] by auto
  have "bo_expiration ?ops - bo_now ?ops w2 < n" using out(2) assms(2) unfolding ops_now by linarith
  then obtain r where "second_chance ?ops n (allBatches (\<lambda>_. True) out) w2 = Some r"
    using second_chance_returns [OF clock] by blast
  then show ?thesis using c out by (cases c) (simp_all add: net_get_def Let_def del: split_paired_Ex)
qed

text \<open>C16. No operation of the transactor runs for ever, although a lookup may name a peer that already failed: when a failed call
  takes time, a retry depth above the timeouts is enough for pend, commit, cancel and get to return.\<close>

theorem transactor_operations_return:
  assumes "net_clock E" and "ne_timeoutMs E < n" and "ne_abortOrCancelTimeoutMs E < n"
  shows "net_pend E n prq cache w \<noteq> None \<and> net_commit E n cache crq w \<noteq> None \<and> net_cancel E n a ids w \<noteq> None \<and> net_get E n ids cx w \<noteq> None"
  using net_pend_returns [OF assms, of prq cache w] net_commit_returns [OF assms(1,2), of cache crq w]
    cancel_returns(2) [OF assms(1,3), of a ids w] net_get_returns [OF assms(1,2), of ids cx w] by fastforce

lemma trace_env_clock: "net_clock (trace_env cl up stale content)"
  unfolding net_clock_def by (auto simp: trace_env_def Let_def elim!: net_step.cases split: if_splits)

theorem transactor_operations_return_witness:
  "net_commit lossy_env 21 [] sample_commit [] \<noteq> None \<and> net_get lossy_env 21 [''x''] None [] \<noteq> None"
proof -
  have "net_clock lossy_env" by (simp add: lossy_env_def trace_env_clock)
  moreover have "ne_timeoutMs lossy_env < 21" "ne_abortOrCancelTimeoutMs lossy_env < 21" by (simp_all add: lossy_env_def trace_env_def Let_def)
  ultimately show ?thesis using transactor_operations_return [of lossy_env 21] by blast
qed

section \<open>The batches of a pend\<close>

definition no_transform :: "'v transform" where
  "no_transform = \<lparr>t_insert = None, t_updates = None, t_delete = False\<rparr>"

definition restricts_to :: "'v transforms \<Rightarrow> block_id set \<Rightarrow> 'v transforms \<Rightarrow> bool" where
  \<comment> \<open>the mutations of exactly the given blocks\<close>
  "restricts_to T S t \<longleftrightarrow> (\<forall>i. transformForBlockId t i = (if i \<in> S then transformForBlockId T i else no_transform))"

lemma transformsFromTransform_dict: "transforms_dict (transformsFromTransform t i)"
  by (auto simp: transforms_dict_def transformsFromTransform_def split: option.splits)

lemma restricts_to_concat:
  assumes "restricts_to T S t" and "i \<notin> S" and "transformForBlockId T' i = transformForBlockId T i"
  shows "restricts_to T (insert i S) (concatTransform t i (transformForBlockId T' i))"
  unfolding restricts_to_def
proof
  fix j
  have t: "transformForBlockId t j = (if j \<in> S then transformForBlockId T j else no_transform)" using assms(1) by (simp add: restricts_to_def)
  show "transformForBlockId (concatTransform t i (transformForBlockId T' i)) j = (if j \<in> insert i S then transformForBlockId T j else no_transform)"
    unfolding concatTransform_def transformForBlockId_merge [OF transformsFromTransform_dict] assms(3)
    using t assms(2) by (cases "j = i") (auto simp: transformForBlockId_def no_transform_def transformsFromTransform_def split: option.splits if_splits)
qed

lemma in_blockIds_iff: "j \<in> set (blockIdsForTransforms u) \<longleftrightarrow> transformForBlockId u j \<noteq> no_transform"
  by (auto simp: blockIdsForTransforms_def transformForBlockId_def map_of_eq_None_iff no_transform_def)

lemma restricts_to_ids: "restricts_to T S t \<Longrightarrow> set (blockIdsForTransforms t) = S \<inter> set (blockIdsForTransforms T)"
  by (simp add: restricts_to_def in_blockIds_iff set_eq_iff)

lemma transformForBlock_simps:
  "transformForBlock T i None = transformsFromTransform (transformForBlockId T i) i"
  "transformForBlock T i (Some m) = concatTransform m i (transformForBlockId T i)"
  by (simp_all add: transformForBlock_def)

lemma assignment_payload:
  "distinct is \<Longrightarrow> restricts_to T (set is) (foldl (\<lambda>acc i. transformForBlock T i (Some acc)) emptyTransforms is)"
proof (induction "is" rule: rev_induct)
  case Nil
  show ?case by (simp add: restricts_to_def transformForBlockId_def emptyTransforms_def no_transform_def)
next
  case (snoc i "is")
  then show ?case using restricts_to_concat [of T "set is" _ i T] by (simp add: transformForBlock_simps)
qed

lemma group_transformForBlock:
  assumes "restricts_to T S t" and "is \<noteq> []" and "distinct is" and "set is \<subseteq> S"
  shows "restricts_to T (set is) (group_payload transformForBlock t is)"
  using assms(2-4)
proof (induction "is" rule: rev_induct)
  case (snoc i "is")
  have i: "transformForBlockId t i = transformForBlockId T i" using snoc.prems assms(1) by (simp add: restricts_to_def)
  show ?case
  proof (cases "is = []")
    case True
    have "restricts_to T {i} (transformsFromTransform (transformForBlockId T i) i)"
      unfolding restricts_to_def
      by (auto simp: transformForBlockId_def no_transform_def transformsFromTransform_def split: option.splits)
    then show ?thesis by (simp add: True transformForBlock_simps i)
  next
    case False
    then have "restricts_to T (set is) (group_payload transformForBlock t is)" using snoc by simp
    from restricts_to_concat [OF this _ i] False snoc.prems show ?thesis
      by (simp add: group_payload_snoc transformForBlock_simps)
  qed
qed simp

lemma clusters_of_blocks:
  "clusters_of E is w = (cs, fallback, w') \<Longrightarrow> mset (map fst cs @ fallback) = mset is \<and> (\<forall>x \<in> set cs. distinct (snd x))"
proof (induction "is" arbitrary: w cs fallback w')
  case (Cons i "is")
  obtain x w1 cs1 fb1 w2 where "ne_findCluster E i w = (x, w1)" "clusters_of E is w1 = (cs1, fb1, w2)" by (metis prod_cases3 surj_pair)
  with Cons.IH [of w1 cs1 fb1 w2] Cons.prems show ?case by (cases x) auto
qed simp

lemma peer_blocks_distinct:
  assumes "distinct (map fst cs)" and "\<forall>x \<in> set cs. distinct (snd x)"
  shows "distinct (map fst (peer_blocks cs))" and "\<forall>(p, bs) \<in> set (peer_blocks cs). distinct bs"
proof -
  let ?add = "\<lambda>i p acc. AList.update p ((case map_of acc p of Some bs \<Rightarrow> bs | None \<Rightarrow> []) @ [i]) acc"
  let ?block = "\<lambda>(i, ps) acc. fold (?add i) ps acc"
  have add: "distinct (map fst (fold (?add i) ps acc)) \<and>
      (\<forall>q. map_of (fold (?add i) ps acc) q = (if q \<in> set ps then Some ((case map_of acc q of Some bs \<Rightarrow> bs | None \<Rightarrow> []) @ [i]) else map_of acc q))"
    if "distinct ps" "distinct (map fst acc)" for i :: block_id and ps :: "string list" and acc
    using that by (induction ps arbitrary: acc) (auto simp: AList.distinct_update)
  have blocks: "distinct (map fst (fold ?block cs acc)) \<and> (\<forall>q bs. map_of (fold ?block cs acc) q = Some bs \<longrightarrow> distinct bs)"
    if "distinct (map fst acc)" "\<forall>q bs. map_of acc q = Some bs \<longrightarrow> distinct bs \<and> set bs \<inter> fst ` set cs = {}"
      "distinct (map fst cs)" "\<forall>x \<in> set cs. distinct (snd x)" for acc and cs :: "(block_id \<times> string list) list"
    using that
  proof (induction cs arbitrary: acc)
    case (Cons x cs)
    obtain i ps where x: "x = (i, ps)" by (cases x)
    have ps: "distinct ps" using Cons.prems(4) by (simp add: x)
    have "\<forall>q bs. map_of (fold (?add i) ps acc) q = Some bs \<longrightarrow> distinct bs \<and> set bs \<inter> fst ` set cs = {}"
    proof (intro allI impI)
      fix q bs assume bs: "map_of (fold (?add i) ps acc) q = Some bs"
      have i: "i \<notin> fst ` set cs" using Cons.prems(3) by (simp add: x)
      have old: "distinct old \<and> i \<notin> set old \<and> set old \<inter> fst ` set cs = {}" if "map_of acc q = Some old" for old
        using Cons.prems(2) [rule_format, OF that] by (simp add: x)
      have "Some bs = (if q \<in> set ps then Some ((case map_of acc q of Some bs \<Rightarrow> bs | None \<Rightarrow> []) @ [i]) else map_of acc q)"
        using add [OF ps Cons.prems(1), of i] bs by simp
      then consider "bs = [i]" | o1 where "map_of acc q = Some o1" "bs = o1 @ [i]" | "map_of acc q = Some bs"
        by (cases "map_of acc q"; cases "q \<in> set ps") simp_all
      then show "distinct bs \<and> set bs \<inter> fst ` set cs = {}"
      proof cases
        case 1
        then show ?thesis using i by simp
      next
        case (2 o1)
        then show ?thesis using old [OF 2(1)] i by (simp add: Int_Un_distrib2)
      next
        case 3
        then show ?thesis using old by blast
      qed
    qed
    note new = this
    have eq: "fold ?block (x # cs) acc = fold ?block cs (fold (?add i) ps acc)" by (simp add: x)
    show ?case unfolding eq
      by (rule Cons.IH [OF conjunct1 [OF add [OF ps Cons.prems(1), of i]] new]) (use Cons.prems(3,4) in auto)
  next
    case Nil
    then show ?case unfolding fold_simps by blast
  qed
  have all: "distinct (map fst (peer_blocks cs)) \<and> (\<forall>q bs. map_of (peer_blocks cs) q = Some bs \<longrightarrow> distinct bs)"
    unfolding peer_blocks_def by (rule blocks [OF _ _ assms]) simp_all
  then have d: "distinct (map fst (peer_blocks cs))" and bs: "map_of (peer_blocks cs) q = Some bs \<Longrightarrow> distinct bs" for q bs
    by blast+
  show "distinct (map fst (peer_blocks cs))" by (rule d)
  show "\<forall>(p, bs) \<in> set (peer_blocks cs). distinct bs"
    using bs map_of_is_SomeI [OF d] by blast
qed

lemma update_new_key: "k \<notin> fst ` set al \<Longrightarrow> AList.update k v al = al @ [(k, v)]"
  by (induction al) auto

definition assigned :: "(string \<times> block_id list) list \<Rightarrow> block_id list \<Rightarrow> block_id set \<Rightarrow> bool" where
  \<comment> \<open>every block of the set has one coordinator, or is still uncovered\<close>
  "assigned asg uncovered S \<longleftrightarrow> distinct (map fst asg) \<and> distinct (concat (map snd asg) @ uncovered)
     \<and> set (concat (map snd asg) @ uncovered) = S \<and> (\<forall>x \<in> set asg. snd x \<noteq> [])"

lemma assigned_move:
  assumes "assigned asg uncovered S" and "p \<notin> fst ` set asg" and "cov \<noteq> []" and "distinct cov" and "set cov \<subseteq> set uncovered"
  shows "assigned (AList.update p cov asg) (filter (\<lambda>i. i \<notin> set cov) uncovered) S"
  using assms by (auto simp: assigned_def update_new_key)

lemma assigned_add:
  "assigned asg rest A \<Longrightarrow> distinct bs \<Longrightarrow> A \<inter> set bs = {} \<Longrightarrow> assigned asg (bs @ rest) (A \<union> set bs)"
  unfolding assigned_def distinct_append set_append by blast

lemma greedy_cover_assigned:
  "greedy_cover pb uncovered asg = (asg', rest) \<Longrightarrow> assigned asg uncovered S
    \<Longrightarrow> \<forall>(p, bs) \<in> set pb. p \<in> fst ` set asg \<longrightarrow> set bs \<inter> set uncovered = {}
    \<Longrightarrow> distinct (map fst pb) \<Longrightarrow> \<forall>(p, bs) \<in> set pb. distinct bs \<Longrightarrow> assigned asg' rest S"
proof (induction pb uncovered asg arbitrary: asg' rest rule: greedy_cover.induct)
  case (1 pb uncovered asg)
  show ?case
  proof (cases "uncovered = [] \<or> best_peer pb uncovered = None")
    case True
    then have "greedy_cover pb uncovered asg = (asg, uncovered)" by (subst greedy_cover.simps) auto
    then show ?thesis using "1.prems"(1,2) by simp
  next
    case False
    then obtain p cov where best: "best_peer pb uncovered = Some (p, cov)" by auto
    let ?unc = "filter (\<lambda>i. i \<notin> set cov) uncovered"
    have g: "greedy_cover pb ?unc (AList.update p cov asg) = (asg', rest)"
      using "1.prems"(1) False best by (subst (asm) greedy_cover.simps) simp
    obtain bs where bs: "(p, bs) \<in> set pb" "cov = filter (\<lambda>i. i \<in> set uncovered) bs" "cov \<noteq> []" "set cov \<subseteq> set uncovered"
      using best_peer_covered [OF best] by blast
    have p: "p \<notin> fst ` set asg" using bspec [OF "1.prems"(3) bs(1)] bs(2,3) by (auto simp: filter_empty_conv)
    have "distinct cov" using bspec [OF "1.prems"(5) bs(1)] bs(2) by simp
    then have cov: "assigned (AList.update p cov asg) ?unc S" by (rule assigned_move [OF "1.prems"(2) p bs(3) _ bs(4)])
    have "set cs \<inter> set ?unc = {}" if q: "(q, cs) \<in> set pb" "q \<in> fst ` set (AList.update p cov asg)" for q cs
    proof (cases "q = p")
      case True
      then have "cs = bs" using "1.prems"(4) q(1) bs(1) eq_key_imp_eq_value by metis
      then show ?thesis using bs(2) by auto
    next
      case False
      then have "q \<in> fst ` set asg" using q(2) by (simp add: update_new_key [OF p])
      then show ?thesis using bspec [OF "1.prems"(3) q(1)] by auto
    qed
    then have "\<forall>(q, cs) \<in> set pb. q \<in> fst ` set (AList.update p cov asg) \<longrightarrow> set cs \<inter> set ?unc = {}" by blast
    from "1.IH" [OF _ best _ g cov this "1.prems"(4,5)] False show ?thesis by simp
  qed
qed

lemma assigned_fallback:
  "assigned asg (map fst fb) S \<Longrightarrow> assigned (fold add_fallback fb asg) [] S"
proof (induction fb arbitrary: asg)
  case (Cons x fb)
  obtain i p where x: "x = (i, p)" by (cases x)
  have "assigned (add_fallback (i, p) asg) (map fst fb) S"
  proof (cases "map_of asg p")
    case None
    then have "p \<notin> fst ` set asg" by (simp add: map_of_eq_None_iff)
    then show ?thesis using Cons.prems by (auto simp: x assigned_def add_fallback_def None update_new_key)
  next
    case (Some bs)
    have d: "distinct (map fst asg)" using Cons.prems by (simp add: assigned_def)
    obtain as1 as2 where asg: "asg = as1 @ (p, bs) # as2" using split_list [OF map_of_SomeD [OF Some]] by blast
    have "AList.update p (bs @ [i]) asg = as1 @ (p, bs @ [i]) # as2"
      using d unfolding asg by (induction as1) auto
    then show ?thesis using Cons.prems Some by (auto simp: x assigned_def add_fallback_def asg)
  qed
  then show ?case using Cons.IH by (simp add: x)
qed simp

lemma consolidate_assigned:
  assumes "consolidateCoordinators E ids T w = (Inr batches, w')" and "distinct ids"
  obtains asg where "assigned asg [] (set ids)" "batches = map (assignment_batch T) asg"
proof -
  obtain cs fallback w1 where cs: "clusters_of E ids w = (cs, fallback, w1)" by (metis prod_cases3)
  note blocks = clusters_of_blocks [OF cs]
  have d: "distinct (map fst cs @ fallback)" "set (map fst cs @ fallback) = set ids"
    using blocks assms(2) by (metis mset_eq_imp_distinct_iff, metis mset_eq_setD)
  obtain asg rest where greedy: "greedy_cover (peer_blocks cs) (map fst cs) [] = (asg, rest)" by (metis surj_pair)
  have "assigned asg rest (set (map fst cs))"
    by (rule greedy_cover_assigned [OF greedy]) (use d(1) blocks peer_blocks_distinct [of cs] in \<open>auto simp: assigned_def\<close>)
  from assigned_add [OF this, of fallback] d have "assigned asg (fallback @ rest) (set ids)" by simp
  moreover obtain fb where fb: "find_all (\<lambda>i ex. ne_findCoordinator E i ex WriteIntent) [] (fallback @ rest) w1 = (Inr fb, w')"
      "batches = map (assignment_batch T) (fold add_fallback fb asg)"
    using assms(1) cs greedy by (auto simp: consolidateCoordinators_def map_sum_def split: prod.splits sum.splits)
  ultimately have "assigned (fold add_fallback fb asg) [] (set ids)"
    using assigned_fallback find_all_keys [OF fb(1)] by metis
  then show thesis using that fb(2) by blast
qed

text \<open>C14. The batches of a pend partition its blocks: each block of the transforms is coordinated by exactly one batch, no two batches
  go to the same peer, and the payload of a batch has exactly the mutations of its own blocks, whatever clusters and coordinators the
  key network names.\<close>

theorem pend_batches_partition_blocks:
  fixes batches :: "('v transforms, 'r) batch list"
  assumes "consolidateCoordinators E (blockIdsForTransforms T) T w = (Inr batches, w')"
  shows "distinct (map bt_peer batches)
     \<and> distinct (concat (map (\<lambda>b. the (bt_coordinating b)) batches))
     \<and> set (concat (map (\<lambda>b. the (bt_coordinating b)) batches)) = set (blockIdsForTransforms T)
     \<and> (\<forall>b \<in> set batches. restricts_to T (set (the (bt_coordinating b))) (bt_payload b))"
proof -
  have "distinct (blockIdsForTransforms T)" by (simp add: blockIdsForTransforms_def)
  from consolidate_assigned [OF assms this] obtain asg where asg: "assigned asg [] (set (blockIdsForTransforms T))"
      and b: "batches = map (assignment_batch T) asg" by metis
  have co: "map (\<lambda>b. the (bt_coordinating b)) batches = map snd asg" "map bt_peer batches = map fst asg"
    by (simp_all add: b assignment_batch_def case_prod_beta)
  have "restricts_to T (set (snd x)) (bt_payload (assignment_batch T x :: ('v transforms, 'r) batch))" if "x \<in> set asg" for x
  proof -
    have "distinct (snd x)" using asg that by (auto simp: assigned_def distinct_concat_iff)
    then show ?thesis by (simp add: assignment_batch_def case_prod_beta assignment_payload)
  qed
  then have "\<forall>b \<in> set batches. restricts_to T (set (the (bt_coordinating b))) (bt_payload b)"
    by (simp add: b assignment_batch_def case_prod_beta)
  then show ?thesis using asg unfolding co by (simp add: assigned_def)
qed

definition sample_transforms :: "nat transforms" where
  "sample_transforms = \<lparr>inserts = [], updates = [(''x'', []), (''y'', []), (''z'', [])], deletes = [''u'']\<rparr>"

definition sample_clusters :: "block_id \<Rightarrow> string list" where
  "sample_clusters i = (if i = ''x'' then [''p'', ''q''] else if i = ''y'' then [''q''] else if i = ''z'' then [''r''] else [''p''])"

lemma sample_blocks: "blockIdsForTransforms sample_transforms = [''x'', ''y'', ''z'', ''u'']"
  by code_simp

lemma sample_greedy:
  "greedy_cover (peer_blocks [(''x'', [''p'', ''q'']), (''y'', [''q'']), (''z'', [''r'']), (''u'', [''p''])]) [''x'', ''y'', ''z'', ''u''] []
   = ([(''p'', [''x'', ''u'']), (''q'', [''y'']), (''r'', [''z''])], [])"
  by code_simp

lemma sample_consolidated:
  "consolidateCoordinators (trace_env sample_clusters up stale content) [''x'', ''y'', ''z'', ''u''] T w
   = (Inr (map (assignment_batch T) [(''p'', [''x'', ''u'']), (''q'', [''y'']), (''r'', [''z''])]), w)"
proof -
  have "clusters_of (trace_env sample_clusters up stale content) [''x'', ''y'', ''z'', ''u''] w
      = ([(''x'', [''p'', ''q'']), (''y'', [''q'']), (''z'', [''r'']), (''u'', [''p''])], [], w)"
    by (simp add: trace_env_def Let_def sample_clusters_def)
  then show ?thesis unfolding consolidateCoordinators_def by (simp add: sample_greedy)
qed

theorem pend_batches_partition_blocks_witness:
  "let E = trace_env sample_clusters (\<lambda>_. True) (\<lambda>_. False) (\<lambda>_ _. absent_entry);
       batches = projr (fst (consolidateCoordinators E (blockIdsForTransforms sample_transforms) sample_transforms [])) :: (nat transforms, unit) batch list
   in map (\<lambda>b. (bt_peer b, bt_coordinating b)) batches = [(''p'', Some [''x'', ''u'']), (''q'', Some [''y'']), (''r'', Some [''z''])]
      \<and> (\<forall>b \<in> set batches. restricts_to sample_transforms (set (the (bt_coordinating b))) (bt_payload b))"
  unfolding Let_def
proof (intro conjI)
  let ?E = "trace_env sample_clusters (\<lambda>_. True) (\<lambda>_. False) (\<lambda>_ _. absent_entry)"
  let ?batches = "map (assignment_batch sample_transforms) [(''p'', [''x'', ''u'']), (''q'', [''y'']), (''r'', [''z''])] :: (nat transforms, unit) batch list"
  have c: "consolidateCoordinators ?E (blockIdsForTransforms sample_transforms) sample_transforms [] = (Inr ?batches, [])"
    by (simp only: sample_blocks sample_consolidated)
  show "map (\<lambda>b. (bt_peer b, bt_coordinating b)) (projr (fst (consolidateCoordinators ?E (blockIdsForTransforms sample_transforms) sample_transforms [])) :: (nat transforms, unit) batch list)
      = [(''p'', Some [''x'', ''u'']), (''q'', Some [''y'']), (''r'', Some [''z''])]"
    unfolding c by (simp add: assignment_batch_def)
  show "\<forall>b \<in> set (projr (fst (consolidateCoordinators ?E (blockIdsForTransforms sample_transforms) sample_transforms [])) :: (nat transforms, unit) batch list).
      restricts_to sample_transforms (set (the (bt_coordinating b))) (bt_payload b)"
    using pend_batches_partition_blocks [OF c] unfolding c by simp
qed

section \<open>What a pend leaves behind\<close>

definition pend_log :: "('v, 'x) sent list \<Rightarrow> (string \<times> string \<times> block_id list) list" where
  \<comment> \<open>the requests that change a peer, oldest first\<close>
  "pend_log w = rev (concat (map (\<lambda>c. case c of SentPend p rq \<Rightarrow> [(''pend'', p, blockIdsForTransforms (pr_transforms rq))]
     | SentCancel p a is \<Rightarrow> [(''cancel'', p, is)] | _ \<Rightarrow> []) w))"

definition pend_answer :: "net_error + 'v net_pend_result \<Rightarrow> bool option" where
  \<comment> \<open>\<open>Some True\<close>: success, \<open>Some False\<close>: stale, \<open>None\<close>: thrown\<close>
  "pend_answer r = (case r of Inl _ \<Rightarrow> None | Inr (NPendSuccess _ _) \<Rightarrow> Some True | Inr _ \<Rightarrow> Some False)"

lemma pend_answer_success: "pend_answer r = Some True \<Longrightarrow> \<exists>ps ids. r = Inr (NPendSuccess ps ids)"
  by (auto simp: pend_answer_def split: sum.splits net_pend_result.splits)

lemma trace_hints [simp]: "fold (\<lambda>b. ne_recordCoordinator (trace_env cl up stale content) (bt_blockId b) (bt_peer b)) bs w = w"
  by (induction bs) (simp_all add: trace_env_def Let_def)

lemma trace_pend_success:
  fixes cl up stale content
  defines "E \<equiv> trace_env cl up stale content"
  assumes "consolidateCoordinators E (blockIdsForTransforms (pr_transforms rq)) (pr_transforms rq) w = (Inr batches, w)"
    and "map_option (\<lambda>(bs, w). (everyBatch bs pend_ok, pend_log w)) (processBatches (pend_ops E rq (length w + 20)) n batches w) = Some (True, l)"
  shows "\<exists>r c w'. net_pend E n rq cache w = Some (r, c, w') \<and> pend_answer r = Some True \<and> pend_log w' = l"
proof -
  have "ne_now E w + ne_timeoutMs E = length w + 20" by (simp add: E_def trace_env_def Let_def)
  then show ?thesis
    using assms(2,3) by (auto simp: net_pend_def pend_process_def Let_def E_def trace_hints pend_answer_def)
qed

lemma trace_pend_failure:
  fixes cl up stale content
  defines "E \<equiv> trace_env cl up stale content"
  assumes "consolidateCoordinators E (blockIdsForTransforms (pr_transforms rq)) (pr_transforms rq) w = (Inr batches, w)"
    and "Option.bind (processBatches (pend_ops E rq (length w + 20)) n batches w) (\<lambda>(bs, w).
        map_option (\<lambda>w. (everyBatch bs pend_ok, concat (map pend_stale (allBatches (\<lambda>_. True) bs)) = [], pend_log w))
          (cancelBatch E n bs (blockIdsForTransforms (pr_transforms rq)) (pr_actionId rq) w)) = Some (False, False, l)"
  shows "\<exists>r c w'. net_pend E n rq cache w = Some (r, c, w') \<and> pend_answer r = Some False \<and> pend_log w' = l"
proof -
  have "ne_now E w + ne_timeoutMs E = length w + 20" by (simp add: E_def trace_env_def Let_def)
  then show ?thesis
    using assms(2,3) by (auto simp: net_pend_def pend_process_def Let_def E_def trace_hints pend_answer_def bind_eq_Some_conv split: list.splits)
qed

definition sample_pend :: "block_id list \<Rightarrow> (nat, unit) net_pend_request" where
  "sample_pend is = \<lparr>pr_actionId = ''a'', pr_rev = Some 1, pr_transforms = \<lparr>inserts = [], updates = map (\<lambda>i. (i, [])) is, deletes = []\<rparr>,
     pr_policy = Pol_r, pr_transaction = None, pr_operationsHash = None, np_priority = None\<rparr>"

definition split_env :: "(nat, unit, trace) net_env" where
  "split_env = trace_env (\<lambda>i. if i = ''x'' then [''p'', ''q''] else [''p'', ''r'']) (\<lambda>p. p = ''q'') (\<lambda>_. False) (\<lambda>_ _. absent_entry)"

definition half_stale_env :: "(nat, unit, trace) net_env" where
  "half_stale_env = trace_env (\<lambda>i. if i = ''z'' then [''q''] else [''p'']) (\<lambda>_. True) (\<lambda>is. ''z'' \<in> set is) (\<lambda>_ _. absent_entry)"

lemma split_consolidated: "consolidateCoordinators split_env [''x'', ''y''] T w = (Inr [assignment_batch T (''p'', [''x'', ''y''])], w)"
proof -
  have "clusters_of split_env [''x'', ''y''] w = ([(''x'', [''p'', ''q'']), (''y'', [''p'', ''r''])], [], w)"
    by (simp add: split_env_def trace_env_def Let_def)
  moreover have "greedy_cover (peer_blocks [(''x'', [''p'', ''q'']), (''y'', [''p'', ''r''])]) [''x'', ''y''] [] = ([(''p'', [''x'', ''y''])], [])"
    by code_simp
  ultimately show ?thesis unfolding consolidateCoordinators_def by simp
qed

lemma half_stale_consolidated:
  "consolidateCoordinators half_stale_env [''x'', ''y'', ''z''] T w = (Inr (map (assignment_batch T) [(''p'', [''x'', ''y'']), (''q'', [''z''])]), w)"
proof -
  have "clusters_of half_stale_env [''x'', ''y'', ''z''] w = ([(''x'', [''p'']), (''y'', [''p'']), (''z'', [''q''])], [], w)"
    by (simp add: half_stale_env_def trace_env_def Let_def)
  moreover have "greedy_cover (peer_blocks [(''x'', [''p'']), (''y'', [''p'']), (''z'', [''q''])]) [''x'', ''y'', ''z''] [] = ([(''p'', [''x'', ''y'']), (''q'', [''z''])], [])"
    by code_simp
  ultimately show ?thesis unfolding consolidateCoordinators_def by simp
qed

text \<open>C28. A pend can report success although a block of it was pended nowhere: when the peer of a batch with two blocks fails, the
  blocks are retried apart, and one retry that succeeds makes the whole batch count as done although the other block's peer failed too
  (\<open>everyBatch\<close> asks for some node of the retry tree, not for every block).\<close>

theorem pend_succeeds_with_lost_block:
  "\<exists>r c w'. net_pend split_env 3 (sample_pend [''x'', ''y'']) [] [] = Some (r, c, w') \<and> pend_answer r = Some True
     \<and> pend_log w' = [(''pend'', ''p'', [''x'', ''y'']), (''pend'', ''q'', [''x'']), (''pend'', ''r'', [''y''])]
     \<and> fst (ne_pend split_env ''r'' (sample_pend [''y'']) 20 None w') = Inl (Err ''unreachable'')"
proof -
  have blocks: "blockIdsForTransforms (pr_transforms (sample_pend [''x'', ''y''])) = [''x'', ''y'']" by code_simp
  have "map_option (\<lambda>(bs, w). (everyBatch bs pend_ok, pend_log w)) (processBatches (pend_ops split_env (sample_pend [''x'', ''y'']) 20) 3
      [assignment_batch (pr_transforms (sample_pend [''x'', ''y''])) (''p'', [''x'', ''y''])] [])
      = Some (True, [(''pend'', ''p'', [''x'', ''y'']), (''pend'', ''q'', [''x'']), (''pend'', ''r'', [''y''])])"
    by code_simp
  then have "\<exists>r c w'. net_pend split_env 3 (sample_pend [''x'', ''y'']) [] [] = Some (r, c, w') \<and> pend_answer r = Some True
     \<and> pend_log w' = [(''pend'', ''p'', [''x'', ''y'']), (''pend'', ''q'', [''x'']), (''pend'', ''r'', [''y''])]"
    using split_consolidated [of "pr_transforms (sample_pend [''x'', ''y''])" "[]"] blocks unfolding split_env_def
    by (intro trace_pend_success) simp_all
  moreover have "fst (ne_pend split_env ''r'' rq t co w') = Inl (Err ''unreachable'')" for rq t co w'
    by (simp add: split_env_def trace_env_def Let_def)
  ultimately show ?thesis by blast
qed

text \<open>A pend that fails cancels only the first block of each batch: of two blocks that one peer holds pending for the action, the
  second stays pending although the failure is reported as stale (\<open>cancelBatch\<close> groups the batches by their anchor block).\<close>

theorem failed_pend_leaves_block_pending:
  "\<exists>r c w'. net_pend half_stale_env 3 (sample_pend [''x'', ''y'', ''z'']) [] [] = Some (r, c, w') \<and> pend_answer r = Some False
     \<and> pend_log w' = [(''pend'', ''p'', [''x'', ''y'']), (''pend'', ''q'', [''z'']), (''cancel'', ''q'', [''z'']), (''cancel'', ''p'', [''x''])]"
proof -
  have blocks: "blockIdsForTransforms (pr_transforms (sample_pend [''x'', ''y'', ''z''])) = [''x'', ''y'', ''z'']" by code_simp
  have "Option.bind (processBatches (pend_ops half_stale_env (sample_pend [''x'', ''y'', ''z'']) 20) 3
      (map (assignment_batch (pr_transforms (sample_pend [''x'', ''y'', ''z'']))) [(''p'', [''x'', ''y'']), (''q'', [''z''])]) []) (\<lambda>(bs, w).
        map_option (\<lambda>w. (everyBatch bs pend_ok, List.null (concat (map pend_stale (allBatches (\<lambda>_. True) bs))), pend_log w))
          (cancelBatch half_stale_env 3 bs [''x'', ''y'', ''z''] ''a'' w))
      = Some (False, False, [(''pend'', ''p'', [''x'', ''y'']), (''pend'', ''q'', [''z'']), (''cancel'', ''q'', [''z'']), (''cancel'', ''p'', [''x''])])"
    by code_simp
  then show ?thesis
    using half_stale_consolidated [of "pr_transforms (sample_pend [''x'', ''y'', ''z''])" "[]"] blocks unfolding half_stale_env_def List.null_iff
    by (intro trace_pend_failure) (simp_all add: sample_pend_def)
qed

section \<open>What a successful pend means\<close>

definition part_of :: "'v transforms \<Rightarrow> 'v transforms \<Rightarrow> bool" where
  \<comment> \<open>the mutations of some blocks of the first transforms\<close>
  "part_of T t \<longleftrightarrow> (\<exists>S. restricts_to T S t)"

lemma part_of_restricts: "part_of T t \<Longrightarrow> restricts_to T (set (blockIdsForTransforms t)) t"
proof -
  assume "part_of T t"
  then obtain S where S: "restricts_to T S t" by (auto simp: part_of_def)
  show ?thesis
    unfolding restricts_to_def
  proof
    fix i
    show "transformForBlockId t i = (if i \<in> set (blockIdsForTransforms t) then transformForBlockId T i else no_transform)"
      using S by (auto simp: restricts_to_def in_blockIds_iff split: if_splits)
  qed
qed

lemma part_of_group:
  assumes "part_of T t" and "is \<noteq> []" and "distinct is" and "set is \<subseteq> set (blockIdsForTransforms t)"
  shows "part_of T (group_payload transformForBlock t is)"
  using group_transformForBlock [OF part_of_restricts [OF assms(1)] assms(2-4)] by (auto simp: part_of_def)

definition pends_of :: "('v, 'x) net_pend_request \<Rightarrow> ('v, 'x) sent \<Rightarrow> bool" where
  "pends_of rq c \<longleftrightarrow> (\<exists>p t. part_of (pr_transforms rq) t \<and> c = SentPend p (rq\<lparr>pr_transforms := t\<rparr>))"

definition pend_answered :: "('v, 'x, 's) net_env \<Rightarrow> ('v, 'x) net_pend_request \<Rightarrow> 's \<Rightarrow> 'v transforms \<Rightarrow> error + 'v net_pend_result \<Rightarrow> 's \<Rightarrow> bool" where
  \<comment> \<open>between the worlds a peer answered a pend of the transforms\<close>
  "pend_answered E rq w t x w' \<longleftrightarrow> part_of (pr_transforms rq) t
     \<and> (\<exists>p e co w1 w2. net_run E (pends_of rq) w w1 \<and> ne_pend E p (rq\<lparr>pr_transforms := t\<rparr>) e co w1 = (x, w2) \<and> net_run E (pends_of rq) w2 w')"

interpretation pend_run: batch_run "pend_ops E rq t" "part_of (pr_transforms rq)" "net_run E (pends_of rq)" "pend_answered E rq w0" w0
  for E :: "('v, 'x, 's) net_env" and rq t w0
proof
  fix w w' w'' :: 's and b :: "('v transforms, 'v net_pend_result) batch" and x i ex p q m "is"
  show "net_run E (pends_of rq) w w" by simp
  show "net_run E (pends_of rq) w w' \<Longrightarrow> net_run E (pends_of rq) w' w'' \<Longrightarrow> net_run E (pends_of rq) w w''" by (rule net_run_trans)
  show "bo_find (pend_ops E rq t) i ex w = (p, w') \<Longrightarrow> net_run E (pends_of rq) w w'" by (simp add: pend_ops_def net_run_lookup)
  show "pend_answered E rq w0 q x w \<Longrightarrow> net_run E (pends_of rq) w w' \<Longrightarrow> pend_answered E rq w0 q x w'"
    by (meson pend_answered_def net_run_trans)
  show "part_of (pr_transforms rq) (bt_payload b) \<Longrightarrow> is \<noteq> [] \<Longrightarrow> distinct is \<Longrightarrow> set is \<subseteq> set (bo_blockIds (pend_ops E rq t) b)
      \<Longrightarrow> part_of (pr_transforms rq) (group_payload (bo_payload (pend_ops E rq t)) (bt_payload b) is)"
    by (simp add: pend_ops_def part_of_group)
  assume b: "part_of (pr_transforms rq) (bt_payload b)" and w: "net_run E (pends_of rq) w0 w"
    and call: "bo_process (pend_ops E rq t) b w = (x, w')"
  then have "ne_pend E (bt_peer b) (rq\<lparr>pr_transforms := bt_payload b\<rparr>) t (bt_coordinating b) w = (x, w')" by (simp add: pend_ops_def)
  moreover from this have "net_run E (pends_of rq) w w'"
    by (rule net_run_step [OF step_pend]) (use b in \<open>auto simp: pends_of_def\<close>)
  ultimately show "net_run E (pends_of rq) w w' \<and> pend_answered E rq w0 (bt_payload b) x w'"
    using b w unfolding pend_answered_def by (metis net_run_refl)
qed

lemma clusters_of_run: "clusters_of E is w = (cs, fb, w') \<Longrightarrow> net_run E A w w'"
proof (induction "is" arbitrary: w cs fb w')
  case (Cons i "is")
  obtain x w1 cs1 fb1 w2 where c: "ne_findCluster E i w = (x, w1)" "clusters_of E is w1 = (cs1, fb1, w2)" by (metis prod_cases3 surj_pair)
  have "net_run E A w w1" by (rule net_run_step [OF step_cluster [OF c(1)]]) simp
  with Cons.IH [OF c(2)] have "net_run E A w w2" by (rule net_run_trans [rotated])
  with c Cons.prems show ?case by (cases x) simp_all
qed simp

lemma consolidate_run: "consolidateCoordinators E ids T w = (x, w') \<Longrightarrow> net_run E A w w'"
proof -
  assume x: "consolidateCoordinators E ids T w = (x, w')"
  let ?look = "\<lambda>i ex. ne_findCoordinator E i ex WriteIntent"
  obtain cs fb w1 where cs: "clusters_of E ids w = (cs, fb, w1)" by (metis prod_cases3)
  obtain asg rest where g: "greedy_cover (peer_blocks cs) (map fst cs) [] = (asg, rest)" by (metis surj_pair)
  obtain y w2 where y: "find_all ?look [] (fb @ rest) w1 = (y, w2)" by (metis surj_pair)
  have "net_run E A w1 w2" by (rule find_all_rel [of "net_run E A" ?look, OF _ _ _ y]) (auto intro: net_run_trans net_run_lookup)
  moreover have "w' = w2" using x cs g y by (simp add: consolidateCoordinators_def)
  ultimately show ?thesis using clusters_of_run [OF cs] net_run_trans by metis
qed

lemma net_run_hints: "net_run E A w (fold (\<lambda>b. ne_recordCoordinator E (bt_blockId b) (bt_peer b)) bs w)"
proof (induction bs arbitrary: w)
  case (Cons b bs)
  have "net_run E A w (ne_recordCoordinator E (bt_blockId b) (bt_peer b) w)" by (rule net_run_step [OF step_record]) simp
  with Cons show ?case using net_run_trans by fastforce
qed simp

lemma net_pend_success_cases:
  assumes "net_pend E n rq cache w = Some (Inr (NPendSuccess ps ids), cache', w')"
  obtains batches w1 out w2 where
    "consolidateCoordinators E (blockIdsForTransforms (pr_transforms rq)) (pr_transforms rq) w = (Inr batches, w1)"
    "processBatches (pend_ops E rq (ne_now E w1 + ne_timeoutMs E)) n batches w1 = Some (out, w2)"
    "everyBatch out pend_ok" "w' = fold (\<lambda>b. ne_recordCoordinator E (bt_blockId b) (bt_peer b)) (allBatches (\<lambda>_. True) out) w2"
    "ids = blockIdsForTransforms (pr_transforms rq)"
  using assms by (auto simp: net_pend_def pend_process_def Let_def split: prod.splits sum.splits option.splits if_splits list.splits)

lemma root_in_allBatches: "b \<in> set bs \<Longrightarrow> b \<in> set (allBatches (\<lambda>_. True) bs)"
  by (induction bs) (auto simp: allBatches_True tree_nodes_append)

text \<open>C15. When the peers answer, a pend that reports success has every block of the transforms pending: for each of them some peer
  acknowledged a pend with exactly that block's mutation.\<close>

theorem successful_pend_reaches_every_block:
  assumes "\<And>p q t co w e w'. ne_pend E p q t co w \<noteq> (Inl e, w')"
    and "net_pend E n rq cache w = Some (Inr (NPendSuccess ps ids), cache', w')"
    and "i \<in> set (blockIdsForTransforms (pr_transforms rq))"
  shows "\<exists>t ps' ids'. transformForBlockId t i = transformForBlockId (pr_transforms rq) i
     \<and> pend_answered E rq w t (Inr (NPendSuccess ps' ids')) w'"
proof -
  from assms(2) obtain batches w1 out w2 where c: "consolidateCoordinators E (blockIdsForTransforms (pr_transforms rq)) (pr_transforms rq) w = (Inr batches, w1)"
    and out: "processBatches (pend_ops E rq (ne_now E w1 + ne_timeoutMs E)) n batches w1 = Some (out, w2)" "everyBatch out pend_ok"
    and w': "w' = fold (\<lambda>b. ne_recordCoordinator E (bt_blockId b) (bt_peer b)) (allBatches (\<lambda>_. True) out) w2"
    by (rule net_pend_success_cases)
  let ?T = "pr_transforms rq"
  have "distinct (blockIdsForTransforms ?T)" by (simp add: blockIdsForTransforms_def)
  from consolidate_assigned [OF c this] obtain asg where asg: "assigned asg [] (set (blockIdsForTransforms ?T))"
      and b: "batches = map (assignment_batch ?T) asg" by metis
  have part: "restricts_to ?T (set (snd x)) (bt_payload (assignment_batch ?T x :: ('a transforms, 'a net_pend_result) batch))" if "x \<in> set asg" for x
    using asg that by (auto simp: assigned_def distinct_concat_iff assignment_batch_def case_prod_beta assignment_payload)
  have fresh: "\<forall>b \<in> set batches. part_of ?T (bt_payload b) \<and> bt_subsumedBy b = []"
    using part by (auto simp: b part_of_def) (auto simp: assignment_batch_def)
  note run = pend_run.processBatches_run [OF out(1) consolidate_run [OF c] fresh]
  have "i \<in> (\<Union>x \<in> set asg. set (snd x))" using asg assms(3) by (simp add: assigned_def)
  then obtain x where x: "x \<in> set asg" "i \<in> set (snd x)" by blast
  then have "bt_payload (assignment_batch ?T x :: ('a transforms, 'a net_pend_result) batch) \<in> set (map bt_payload out)" by (simp add: run(3) b)
  then obtain root where root: "root \<in> set out" "bt_payload root = bt_payload (assignment_batch ?T x :: ('a transforms, 'a net_pend_result) batch)" by auto
  obtain y where y: "bt_request root = Some y" "pend_answered E rq w (bt_payload root) y w2"
    using run(2) root_in_allBatches [OF root(1)] by blast
  then have "responded root" using assms(1) by (auto simp: responded_def pend_answered_def split: sum.splits)
  then have "tree_nodes [root] = [root]" using run(4) root(1) by simp
  then have "pend_ok root" using out(2) root(1) unfolding everyBatch_def list_all_iff by fastforce
  then obtain ps' ids' where "y = Inr (NPendSuccess ps' ids')"
    using y(1) by (auto simp: pend_ok_def split: sum.splits net_pend_result.splits)
  moreover have "pend_answered E rq w (bt_payload root) y w'"
    using pend_run.G_R [OF y(2) net_run_hints] by (simp add: w')
  moreover have "transformForBlockId (bt_payload root) i = transformForBlockId ?T i"
    using part [OF x(1)] x(2) root(2) by (simp add: restricts_to_def)
  ultimately show ?thesis by blast
qed

definition calm_env :: "(nat, unit, trace) net_env" where
  "calm_env = trace_env (\<lambda>i. if i = ''x'' then [''p'', ''q''] else [''p'', ''r'']) (\<lambda>_. True) (\<lambda>_. False) (\<lambda>_ _. absent_entry)"

lemma calm_pend: "\<exists>r c w'. net_pend calm_env 1 (sample_pend [''x'', ''y'']) [] [] = Some (r, c, w') \<and> pend_answer r = Some True \<and> pend_log w' = [(''pend'', ''p'', [''x'', ''y''])]"
proof -
  let ?rq = "sample_pend [''x'', ''y'']"
  have blocks: "blockIdsForTransforms (pr_transforms ?rq) = [''x'', ''y'']" by code_simp
  have "clusters_of calm_env [''x'', ''y''] w = ([(''x'', [''p'', ''q'']), (''y'', [''p'', ''r''])], [], w)" for w
    by (simp add: calm_env_def trace_env_def Let_def)
  moreover have "greedy_cover (peer_blocks [(''x'', [''p'', ''q'']), (''y'', [''p'', ''r''])]) [''x'', ''y''] [] = ([(''p'', [''x'', ''y''])], [])"
    by code_simp
  ultimately have c: "consolidateCoordinators calm_env [''x'', ''y''] T w = (Inr [assignment_batch T (''p'', [''x'', ''y''])], w)" for T w
    unfolding consolidateCoordinators_def by simp
  have "map_option (\<lambda>(bs, w). (everyBatch bs pend_ok, pend_log w)) (processBatches (pend_ops calm_env ?rq 20) 1
      [assignment_batch (pr_transforms ?rq) (''p'', [''x'', ''y''])] []) = Some (True, [(''pend'', ''p'', [''x'', ''y''])])"
    by code_simp
  then show ?thesis
    using c [of "pr_transforms ?rq" "[]"] blocks unfolding calm_env_def by (intro trace_pend_success) simp_all
qed

theorem successful_pend_reaches_every_block_witness:
  "\<exists>w' t ps' ids'. transformForBlockId t ''y'' = transformForBlockId (pr_transforms (sample_pend [''x'', ''y''])) ''y''
     \<and> pend_answered calm_env (sample_pend [''x'', ''y'']) [] t (Inr (NPendSuccess ps' ids')) w'"
proof -
  let ?rq = "sample_pend [''x'', ''y'']"
  obtain ps ids c w' where p: "net_pend calm_env 1 ?rq [] [] = Some (Inr (NPendSuccess ps ids), c, w')"
    using calm_pend pend_answer_success by blast
  have blocks: "blockIdsForTransforms (pr_transforms ?rq) = [''x'', ''y'']" by code_simp
  have "\<exists>t ps' ids'. transformForBlockId t ''y'' = transformForBlockId (pr_transforms ?rq) ''y'' \<and> pend_answered calm_env ?rq [] t (Inr (NPendSuccess ps' ids')) w'"
    by (rule successful_pend_reaches_every_block [OF _ p]) (simp_all add: blocks, simp add: calm_env_def trace_env_def Let_def)
  then show ?thesis by blast
qed

section \<open>Merging the answers of a read\<close>

definition entries_for :: "block_id \<Rightarrow> 'v get_results \<Rightarrow> 'v net_entry list" where
  "entries_for i answers = map snd (filter (\<lambda>x. fst x = i) answers)"

fun better :: "'v net_entry option \<Rightarrow> 'v net_entry \<Rightarrow> 'v net_entry option" where
  "better None e = Some e"
| "better (Some d) e = Some (if rankOf e > rankOf d then e else d)"

lemma map_of_merge_entry: "map_of (merge_entry (i, e) acc) j = (if j = i then better (map_of acc i) e else map_of acc j)"
  by (cases "map_of acc i") (auto simp: merge_entry_def)

lemma map_of_merge: "map_of (fold merge_entry answers acc) i = foldl better (map_of acc i) (entries_for i answers)"
proof (induction answers arbitrary: acc)
  case (Cons x answers)
  obtain j e where "x = (j, e)" by (cases x)
  then show ?case by (simp add: Cons map_of_merge_entry entries_for_def)
qed (simp add: entries_for_def)

definition best_entry :: "'v net_entry list \<Rightarrow> 'v net_entry \<Rightarrow> bool" where
  \<comment> \<open>the first of the entries with the highest rank\<close>
  "best_entry es e \<longleftrightarrow> (\<exists>pre post. es = pre @ e # post \<and> (\<forall>d \<in> set pre. rankOf d < rankOf e) \<and> (\<forall>d \<in> set post. rankOf d \<le> rankOf e))"

lemma best_entry_snoc:
  assumes "best_entry es d"
  shows "best_entry (es @ [e]) (if rankOf e > rankOf d then e else d)"
proof -
  obtain pre post where es: "es = pre @ d # post" "\<forall>c \<in> set pre. rankOf c < rankOf d" "\<forall>c \<in> set post. rankOf c \<le> rankOf d"
    using assms by (auto simp: best_entry_def)
  show ?thesis
  proof (cases "rankOf e > rankOf d")
    case True
    then have "\<forall>c \<in> set es. rankOf c < rankOf e" using es by auto
    then have "best_entry (es @ [e]) e" unfolding best_entry_def by (intro exI [of _ es] exI [of _ "[]"]) simp
    then show ?thesis by (simp add: True)
  next
    case False
    then have "best_entry (es @ [e]) d"
      unfolding best_entry_def using es by (intro exI [of _ pre] exI [of _ "post @ [e]"]) auto
    then show ?thesis by (simp add: False)
  qed
qed

lemma better_best: "case foldl better None es of None \<Rightarrow> es = [] | Some e \<Rightarrow> best_entry es e"
proof (induction es rule: rev_induct)
  case (snoc e es)
  show ?case
  proof (cases "foldl better None es")
    case None
    then have "es = []" using snoc by simp
    moreover have "best_entry [e] e" unfolding best_entry_def by (intro exI [of _ "[]"]) simp
    ultimately show ?thesis by simp
  next
    case (Some d)
    then have "best_entry es d" using snoc by simp
    from best_entry_snoc [OF this, of e] show ?thesis by (simp add: Some)
  qed
qed simp

text \<open>C18. A read merges the answers of the peers by how much they establish: for every block the result is the first of its answers
  with the highest rank, so a confirmed block is never masked by one a peer could not confirm, nor an answer by an inability to answer,
  in whatever order the peers replied; and a block without any answer has no entry.\<close>

theorem resultEntries_best:
  "case map_of (resultEntries nodes) i of
     None \<Rightarrow> entries_for i (concat (map answer_of nodes)) = []
   | Some e \<Rightarrow> best_entry (entries_for i (concat (map answer_of nodes))) e"
  using better_best [of "entries_for i (concat (map answer_of nodes))"] by (simp add: resultEntries_def map_of_merge)

lemma group_filterGets:
  assumes "distinct gets" and "is \<noteq> []" and "set is \<subseteq> set gets"
  shows "group_payload filterGets gets is = is"
  using assms(2,3)
proof (induction "is" rule: rev_induct)
  case (snoc i "is")
  have "i \<in> set gets" using snoc.prems by simp
  with assms(1) have "filter (\<lambda>j. j = i) gets = [i]"
    by (induction gets) (auto simp: filter_empty_conv)
  then show ?case using snoc by (cases "is = []") (simp_all add: group_payload_snoc filterGets_def)
qed simp

definition gets_of :: "block_id set \<Rightarrow> ('v, 'x) sent \<Rightarrow> bool" where
  "gets_of S c \<longleftrightarrow> (\<exists>p is. sub_blocks S is \<and> c = SentGet p is)"

definition get_answered :: "('v, 'x, 's) net_env \<Rightarrow> block_id set \<Rightarrow> action_context option \<Rightarrow> 's \<Rightarrow> block_id list \<Rightarrow> error + 'v get_results \<Rightarrow> 's \<Rightarrow> bool" where
  \<comment> \<open>between the worlds a peer answered a get of the blocks\<close>
  "get_answered E S cx w is x w' \<longleftrightarrow> sub_blocks S is
     \<and> (\<exists>p t w1 w2. net_run E (gets_of S) w w1 \<and> ne_get E p is cx t w1 = (x, w2) \<and> net_run E (gets_of S) w2 w')"

interpretation get_run: batch_run "get_ops E cx t" "sub_blocks S" "net_run E (gets_of S)" "get_answered E S cx w0" w0
  for E :: "('v, 'x, 's) net_env" and cx t S w0
proof
  fix w w' w'' :: 's and b :: "(block_id list, 'v get_results) batch" and x i ex p q m "is"
  show "net_run E (gets_of S) w w" by simp
  show "net_run E (gets_of S) w w' \<Longrightarrow> net_run E (gets_of S) w' w'' \<Longrightarrow> net_run E (gets_of S) w w''" by (rule net_run_trans)
  show "bo_find (get_ops E cx t) i ex w = (p, w') \<Longrightarrow> net_run E (gets_of S) w w'" by (simp add: get_ops_def net_run_lookup)
  show "get_answered E S cx w0 q x w \<Longrightarrow> net_run E (gets_of S) w w' \<Longrightarrow> get_answered E S cx w0 q x w'"
    by (meson get_answered_def net_run_trans)
  show "sub_blocks S (bt_payload b) \<Longrightarrow> is \<noteq> [] \<Longrightarrow> distinct is \<Longrightarrow> set is \<subseteq> set (bo_blockIds (get_ops E cx t) b)
      \<Longrightarrow> sub_blocks S (group_payload (bo_payload (get_ops E cx t)) (bt_payload b) is)"
    by (auto simp: get_ops_def group_filterGets sub_blocks_def)
  assume b: "sub_blocks S (bt_payload b)" and w: "net_run E (gets_of S) w0 w" and call: "bo_process (get_ops E cx t) b w = (x, w')"
  then have "ne_get E (bt_peer b) (bt_payload b) cx t w = (x, w')" by (simp add: get_ops_def)
  moreover from this have "net_run E (gets_of S) w w'" by (rule net_run_step [OF step_get]) (use b in \<open>auto simp: gets_of_def\<close>)
  ultimately show "net_run E (gets_of S) w w' \<and> get_answered E S cx w0 (bt_payload b) x w'"
    using b w unfolding get_answered_def by (metis net_run_refl)
qed

definition got :: "('v, 'x, 's) net_env \<Rightarrow> block_id set \<Rightarrow> action_context option \<Rightarrow> 's \<Rightarrow> 's \<Rightarrow> (block_id list, 'v get_results) batch \<Rightarrow> bool" where
  "got E S cx w w' b \<longleftrightarrow> (\<exists>x. bt_request b = Some x \<and> get_answered E S cx w (bt_payload b) x w')"

lemma got_run: "got E S cx w w1 b \<Longrightarrow> net_run E (gets_of S) w1 w2 \<Longrightarrow> got E S cx w w2 b"
  by (auto simp: got_def intro: get_run.G_R)

lemma get_payload_fresh:
  assumes "createBatchesForPayload ids ids filterGets ex look w = (Inr batches, w')" and "distinct ids" and "set ids \<subseteq> S"
  shows "\<forall>b \<in> set batches. sub_blocks S (bt_payload b) \<and> bt_subsumedBy b = []"
  using createBatches_fresh [OF assms(1), of _ "sub_blocks S"] assms(2,3)
  by (auto simp: fresh_batch_def group_filterGets sub_blocks_def)

lemma second_chance_run:
  "second_chance (get_ops E cx t) n bs w1 = Some (nodes, err, w') \<Longrightarrow> net_run E (gets_of S) w w1 \<Longrightarrow> \<forall>b \<in> set bs. got E S cx w w1 b
   \<Longrightarrow> net_run E (gets_of S) w1 w' \<and> (\<forall>b \<in> set nodes. got E S cx w w' b)"
proof (induction bs arbitrary: w1 nodes err)
  case (Cons b bs)
  let ?B = "get_ops E cx t"
  let ?create = "createBatchesForPayload (bt_payload b) (bt_payload b) (bo_payload ?B) (js_set (bt_peer b # bt_excluded b)) (bo_find ?B) w1"
  obtain c w2 where c: "?create = (c :: error + (block_id list, 'a get_results) batch list, w2)" by (metis surj_pair)
  have w2: "net_run E (gets_of S) w1 w2" by (rule get_run.createBatches_R [OF c])
  obtain found wm rest err' where rest: "second_chance ?B n bs wm = Some (rest, err', w')" "nodes = b # found @ rest"
      and found: "net_run E (gets_of S) w1 wm" "\<forall>d \<in> set found. got E S cx w wm d"
  proof (cases "isAuthoritative b")
    case True
    then show thesis using Cons.prems(1) that [of w1 _ _ "[]"] by auto
  next
    case False
    show thesis
    proof (cases c)
      case (Inl e)
      then show thesis using Cons.prems(1) False c w2 that [of w2 _ _ "[]"] by auto
    next
      case (Inr retries)
      obtain out wm where out: "processBatches ?B n retries w2 = Some (out, wm)"
          and r: "\<exists>rest err'. second_chance ?B n bs wm = Some (rest, err', w') \<and> nodes = b # allBatches (\<lambda>_. True) out @ rest"
        using Cons.prems(1) False c Inr by (auto split: option.splits)
      have b: "distinct (bt_payload b)" "set (bt_payload b) \<subseteq> S"
        using Cons.prems(3) by (auto simp: got_def get_answered_def sub_blocks_def)
      have fresh: "\<forall>b \<in> set retries. sub_blocks S (bt_payload b) \<and> bt_subsumedBy b = []"
        by (rule get_payload_fresh [OF _ b]) (use c Inr in \<open>simp add: get_ops_def\<close>)
      note run = get_run.processBatches_run [OF out net_run_trans [OF Cons.prems(2) w2] fresh]
      from r obtain rest err' where "second_chance ?B n bs wm = Some (rest, err', w')" "nodes = b # allBatches (\<lambda>_. True) out @ rest" by blast
      then show thesis using run(1,2) net_run_trans [OF w2 run(1)] by (intro that) (auto simp: got_def)
    qed
  qed
  have wm: "net_run E (gets_of S) w wm" by (rule net_run_trans [OF Cons.prems(2) found(1)])
  have IH: "net_run E (gets_of S) wm w' \<and> (\<forall>b \<in> set rest. got E S cx w w' b)"
    by (rule Cons.IH [OF rest(1) wm]) (use Cons.prems(3) in \<open>auto intro: got_run [OF _ found(1)]\<close>)
  then show ?case using found Cons.prems(3) rest(2) got_run net_run_trans by fastforce
qed simp

lemma distinct_merge: "distinct (map fst acc) \<Longrightarrow> distinct (map fst (fold merge_entry xs acc))"
proof (induction xs arbitrary: acc)
  case (Cons x xs)
  then show ?case by (cases x) (auto simp: merge_entry_def AList.distinct_update split: option.splits)
qed simp

lemma resultEntries_answered:
  "(i, e) \<in> set (resultEntries nodes) \<Longrightarrow> \<exists>b \<in> set nodes. (i, e) \<in> set (answer_of b)"
proof -
  have d: "distinct (map fst (resultEntries nodes))" by (simp add: resultEntries_def distinct_merge)
  assume "(i, e) \<in> set (resultEntries nodes)"
  then have "map_of (resultEntries nodes) i = Some e" by (rule map_of_is_SomeI [OF d])
  with better_best [of "entries_for i (concat (map answer_of nodes))"] have "best_entry (entries_for i (concat (map answer_of nodes))) e"
    by (simp add: resultEntries_def map_of_merge)
  then have "e \<in> set (entries_for i (concat (map answer_of nodes)))" by (auto simp: best_entry_def)
  then show ?thesis by (auto simp: entries_for_def)
qed

text \<open>C17. A read changes nothing and invents nothing: it sends only lookups and gets of requested blocks; when it returns, every
  requested block has an entry, and every entry is one that some peer answered in this read.\<close>

theorem read_returns_answers:
  assumes "net_get E n ids cx w = Some (x, w')"
  shows "net_run E (gets_of (set ids)) w w'
     \<and> (\<forall>res. x = Inr res \<longrightarrow> set ids \<subseteq> fst ` set res
          \<and> (\<forall>(i, e) \<in> set res. \<exists>is r. (i, e) \<in> set r \<and> get_answered E (set ids) cx w is (Inr r) w'))"
proof -
  let ?look = "\<lambda>i ex. ne_findCoordinator E i ex ReadIntent" and ?S = "set ids"
  obtain c w1 where c: "createBatchesForPayload (js_set ids) (js_set ids) filterGets [] ?look w
      = (c :: error + (block_id list, 'a get_results) batch list, w1)" by (metis surj_pair)
  have w1: "net_run E (gets_of ?S) w w1"
    by (rule createBatches_rel [OF _ _ _ c, of "net_run E (gets_of ?S)"]) (auto intro: net_run_trans net_run_lookup)
  show ?thesis
  proof (cases c)
    case (Inl e)
    then show ?thesis using assms c w1 by (auto simp: net_get_def Let_def)
  next
    case (Inr batches)
    let ?ops = "get_ops E cx (ne_now E w1 + ne_timeoutMs E)"
    obtain out w2 nodes err where out: "processBatches ?ops n batches w1 = Some (out, w2)"
        and nodes: "(if ne_now E w2 < ne_now E w1 + ne_timeoutMs E then second_chance ?ops n (allBatches (\<lambda>_. True) out) w2
                     else Some (allBatches (\<lambda>_. True) out, None, w2)) = Some (nodes, err, w')"
        and x: "x = (if list_all (\<lambda>i. map_of (resultEntries nodes) i \<noteq> None) (js_set ids) then Inr (resultEntries nodes)
                     else Inl (PeersIncomplete (first_some [firstBatchError out nodes, err])))"
      using assms c Inr by (auto simp: net_get_def Let_def split: option.splits)
    have fresh: "\<forall>b \<in> set batches. sub_blocks ?S (bt_payload b) \<and> bt_subsumedBy b = []"
      by (rule get_payload_fresh [OF c [unfolded Inr]]) simp_all
    note run = get_run.processBatches_run [OF out w1 fresh, folded got_def]
    have w2: "net_run E (gets_of ?S) w w2" by (rule net_run_trans [OF w1 run(1)])
    have all: "net_run E (gets_of ?S) w2 w' \<and> (\<forall>b \<in> set nodes. got E ?S cx w w' b)"
      using nodes second_chance_run [OF _ w2 run(2)] run(2) by (auto split: if_splits)
    have "\<exists>is r. (i, e) \<in> set r \<and> get_answered E ?S cx w is (Inr r) w'" if "(i, e) \<in> set (resultEntries nodes)" for i e
      using resultEntries_answered [OF that] all by (fastforce simp: got_def answer_of_def split: option.splits sum.splits)
    moreover have "set ids \<subseteq> fst ` set res" if "x = Inr res" for res
      using that x by (auto simp: list_all_iff map_of_eq_None_iff split: if_splits)
    ultimately show ?thesis using x all net_run_trans [OF w2] by (auto split: if_splits)
  qed
qed

theorem read_returns_answers_witness:
  "\<exists>res w'. net_get lossy_env 3 [''x''] None [] = Some (Inr res, w') \<and> net_run lossy_env (gets_of {''x''}) [] w' \<and> ''x'' \<in> fst ` set res"
proof -
  have "map_option (\<lambda>(r, w). isl r) (net_get lossy_env 3 [''x''] None []) = Some False" by code_simp
  then obtain res w' where g: "net_get lossy_env 3 [''x''] None [] = Some (Inr res, w')" by (auto simp: isl_def) (metis sumE)
  with read_returns_answers [OF g] show ?thesis by auto
qed

section \<open>The coordinator cache\<close>

definition cache_ok :: "coordinator_cache \<Rightarrow> bool" where
  "cache_ok cache \<longleftrightarrow> distinct (map fst cache) \<and> length cache \<le> MAX_TXN_COORDINATOR_CACHE_ENTRIES"

lemma length_update_key: "map_of al k = Some v \<Longrightarrow> length (AList.update k u al) = length al"
  by (induction al) (auto split: if_splits)

lemma evict_oldest_distinct: "distinct (map fst cache) \<Longrightarrow> distinct (map fst (evict_oldest limit a cache))"
  by (induction cache) simp_all

lemma evict_oldest_bound:
  "a \<notin> fst ` set cache \<Longrightarrow> 0 < limit \<Longrightarrow> length (evict_oldest limit a (cache @ [(a, x)])) \<le> limit
    \<and> (a, x) \<in> set (evict_oldest limit a (cache @ [(a, x)]))"
  by (induction cache) auto

lemma txnCoordinatorsFor_ok:
  assumes "cache_ok cache"
  shows "cache_ok (txnCoordinatorsFor E now a cache)" and "\<exists>cs. map_of (txnCoordinatorsFor E now a cache) a = Some cs"
proof -
  let ?swept = "filter (\<lambda>(k, cs, expires). \<not> expires \<le> now) cache"
  let ?ttl = "max (ne_timeoutMs E * 2) 60000"
  have swept: "distinct (map fst ?swept)" "length ?swept \<le> MAX_TXN_COORDINATOR_CACHE_ENTRIES"
    using assms le_trans [OF length_filter_le] by (auto simp: cache_ok_def distinct_map_filter)
  have "cache_ok (txnCoordinatorsFor E now a cache) \<and> (\<exists>cs. map_of (txnCoordinatorsFor E now a cache) a = Some cs)"
  proof (cases "map_of ?swept a")
    case None
    then have new: "a \<notin> fst ` set ?swept" by (simp add: map_of_eq_None_iff)
    let ?all = "?swept @ [(a, [], now + ?ttl)]"
    let ?kept = "evict_oldest MAX_TXN_COORDINATOR_CACHE_ENTRIES a ?all"
    have eq: "txnCoordinatorsFor E now a cache = ?kept" using None by (simp add: txnCoordinatorsFor_def Let_def)
    have b: "length ?kept \<le> MAX_TXN_COORDINATOR_CACHE_ENTRIES" "(a, [], now + ?ttl) \<in> set ?kept"
      using evict_oldest_bound [OF new, of MAX_TXN_COORDINATOR_CACHE_ENTRIES] by (simp_all add: MAX_TXN_COORDINATOR_CACHE_ENTRIES_def)
    have "distinct (map fst ?all)" using swept(1) new by auto
    then have "distinct (map fst ?kept)" by (rule evict_oldest_distinct)
    then have "map_of ?kept a = Some ([], now + ?ttl)" "cache_ok ?kept"
      using b by (simp add: map_of_is_SomeI, simp add: cache_ok_def)
    then show ?thesis unfolding eq by blast
  next
    case (Some x)
    obtain cs t where x: "x = (cs, t)" by (cases x)
    have "txnCoordinatorsFor E now a cache = AList.update a (cs, now + ?ttl) ?swept"
      using Some by (simp add: txnCoordinatorsFor_def Let_def x)
    then show ?thesis using swept by (simp add: cache_ok_def AList.distinct_update length_update_key [OF Some])
  qed
  then show "cache_ok (txnCoordinatorsFor E now a cache)" and "\<exists>cs. map_of (txnCoordinatorsFor E now a cache) a = Some cs" by auto
qed

lemma record_coordinators_ok: "cache_ok cache \<Longrightarrow> cache_ok (record_coordinators a asg cache)"
  by (auto simp: record_coordinators_def cache_ok_def AList.distinct_update length_update_key split: option.splits)

lemma net_pend_cache:
  assumes "net_pend E n rq cache w = Some (r, cache', w')"
  obtains (kept) "pend_answer r \<noteq> Some True" "cache' = cache"
  | (recorded) now asg where "pend_answer r = Some True"
      "cache' = record_coordinators (pr_actionId rq) asg (txnCoordinatorsFor E now (pr_actionId rq) cache)"
  using assms by (auto simp: net_pend_def pend_process_def Let_def pend_answer_def split: prod.splits sum.splits option.splits if_splits list.splits)

text \<open>The cache of coordinators stays bounded: a pend, whatever its outcome, keeps at most 1000 transactions in it, each once;
  only a successful pend changes it, and then the new transaction has its entry, even when older ones had to be evicted.\<close>

theorem coordinator_cache_bounded:
  assumes "cache_ok cache" and "net_pend E n rq cache w = Some (r, cache', w')"
  shows "cache_ok cache' \<and> (if pend_answer r = Some True then \<exists>cs. map_of cache' (pr_actionId rq) = Some cs else cache' = cache)"
  using assms(2)
proof (cases rule: net_pend_cache)
  case kept
  then show ?thesis using assms(1) by simp
next
  case (recorded now asg)
  let ?cache = "txnCoordinatorsFor E now (pr_actionId rq) cache"
  obtain cs t where "map_of ?cache (pr_actionId rq) = Some (cs, t)" using txnCoordinatorsFor_ok(2) [OF assms(1)] by fast
  then have "\<exists>cs. map_of cache' (pr_actionId rq) = Some cs" by (simp add: recorded(2) record_coordinators_def)
  moreover have "cache_ok cache'" unfolding recorded(2) by (intro record_coordinators_ok txnCoordinatorsFor_ok(1) assms(1))
  ultimately show ?thesis using recorded(1) by simp
qed

theorem coordinator_cache_bounded_witness:
  "\<exists>r cache' w'. net_pend calm_env 1 (sample_pend [''x'', ''y'']) [] [] = Some (r, cache', w') \<and> pend_answer r = Some True
     \<and> cache_ok cache' \<and> (\<exists>cs. map_of cache' ''a'' = Some cs)"
proof -
  obtain r cache' w' where p: "net_pend calm_env 1 (sample_pend [''x'', ''y'']) [] [] = Some (r, cache', w')" and r: "pend_answer r = Some True"
    using calm_pend by blast
  have "cache_ok []" by (simp add: cache_ok_def)
  from coordinator_cache_bounded [OF this p] p r show ?thesis by (simp add: sample_pend_def)
qed

end
