(* ===== verification/Transactor_Source.thy ===== *)
theory Transactor_Source
  imports Network_Transactor Cache_Source
begin

text \<open>
  The block source of a collection: \<open>packages/db-core/src/transactor/transactor-source.ts\<close>. It reads blocks through a
  transactor and remembers which revision it read, and \<open>transact\<close> pends and commits an action.

  The transactor is the record of its operations (\<open>ITransactor\<close>); \<open>network_transactor\<close> is the one of \<open>Network_Transactor\<close>, on
  its cache of coordinators and the world. An operation is \<open>None\<close> when the retry depth it was given does not suffice.
\<close>

section \<open>Transactors\<close>

record ('v, 'x, 's) transactor_ops =
  tx_get :: "block_id list \<Rightarrow> action_context option \<Rightarrow> 's \<Rightarrow> ((net_error + 'v get_results) \<times> 's) option"
  tx_pend :: "('v, 'x) net_pend_request \<Rightarrow> 's \<Rightarrow> ((net_error + 'v net_pend_result) \<times> 's) option"
  tx_commit :: "net_commit_request \<Rightarrow> 's \<Rightarrow> ((net_error + 'v net_commit_result) \<times> 's) option"
  tx_cancel :: "action_id \<Rightarrow> block_id list \<Rightarrow> 's \<Rightarrow> ((net_error + unit) \<times> 's) option"

definition network_transactor :: "('v, 'x, 's) net_env \<Rightarrow> nat \<Rightarrow> ('v, 'x, coordinator_cache \<times> 's) transactor_ops" where
  "network_transactor E n =
     \<lparr>tx_get = \<lambda>ids cx (cache, w). map_option (map_prod id (Pair cache)) (net_get E n ids cx w),
      tx_pend = \<lambda>rq (cache, w). net_pend E n rq cache w,
      tx_commit = \<lambda>rq (cache, w). map_option (map_prod id (Pair cache)) (net_commit E n cache rq w),
      tx_cancel = \<lambda>a ids (cache, w). map_option (map_prod id (Pair cache)) (net_cancel E n a ids w)\<rparr>"

section \<open>Reading\<close>

datatype source_error = BlockUnavailableError block_id unavailable_reason | BlockPossiblyStaleError block_id nat | TransactorError net_error

record source_state =
  ss_collectionId :: block_id
  ss_actionContext :: "action_context option"
  ss_readRevisions :: "block_id \<rightharpoonup> nat"
  ss_collector :: collector

definition source_createBlockHeader :: "source_state \<Rightarrow> string \<Rightarrow> block_id option \<Rightarrow> block_id \<Rightarrow> block_header" where
  \<comment> \<open>the last argument is the id \<open>generateId\<close> would draw\<close>
  "source_createBlockHeader s type newId drawn =
     \<lparr>hdr_id = (case newId of Some i \<Rightarrow> i | None \<Rightarrow> drawn), hdr_type = type, hdr_collectionId = ss_collectionId s\<rparr>"

definition doubted :: "source_state \<Rightarrow> 'v net_entry \<Rightarrow> nat option" where
  \<comment> \<open>the claimed revision that the view of the source should contain\<close>
  "doubted s e = (case en_unconfirmedAheadRev e of
       None \<Rightarrow> None
     | Some r \<Rightarrow> (case ss_actionContext s of
                    None \<Rightarrow> Some r
                  | Some cx \<Rightarrow> if cx_rev cx \<ge> r then Some r else None))"

definition read_entry :: "block_id \<Rightarrow> read_purpose \<Rightarrow> 'v net_entry \<Rightarrow> source_state \<Rightarrow> (source_error + 'v block option) \<times> source_state" where
  "read_entry i purpose e s =
     (case (en_block e, en_unavailable e) of
        (None, Some reason) \<Rightarrow> (Inl (BlockUnavailableError i reason), s)
      | _ \<Rightarrow>
        (case doubted s e of
           Some r \<Rightarrow> (Inl (BlockPossiblyStaleError i r), s)
         | None \<Rightarrow>
             (case en_block e of
                None \<Rightarrow> (Inr None, s)
              | Some b \<Rightarrow>
                  (let r = (case en_materializedRev e of Some r \<Rightarrow> r
                              | None \<Rightarrow> (case en_latest e of Some l \<Rightarrow> ar_rev l | None \<Rightarrow> 0))
                   in (Inr (Some b), s\<lparr>ss_collector := record_read i r purpose (ss_collector s),
                                       ss_readRevisions := (ss_readRevisions s)(i \<mapsto> r)\<rparr>)))))"

definition source_tryGet :: "('v, 'x, 's) transactor_ops \<Rightarrow> block_id \<Rightarrow> read_purpose \<Rightarrow> source_state \<Rightarrow> 's
    \<Rightarrow> ((source_error + 'v block option) \<times> source_state \<times> 's) option" where
  "source_tryGet T i purpose s w =
     map_option (\<lambda>(x, w').
       (case x of
          Inl e \<Rightarrow> (Inl (TransactorError e), s, w')
        | Inr result \<Rightarrow>
            (case map_of result i of
               None \<Rightarrow> (Inr None, s, w')
             | Some e \<Rightarrow> (case read_entry i purpose e s of (r, s') \<Rightarrow> (r, s', w')))))
       (tx_get T [i] (ss_actionContext s) w)"

definition getReadRevision :: "source_state \<Rightarrow> block_id \<Rightarrow> nat option" where
  "getReadRevision s i = ss_readRevisions s i"

definition source_getReadDependencies :: "source_state \<Rightarrow> (block_id \<times> nat) list" where
  "source_getReadDependencies s = getReadDependencies (ss_collector s)"

definition clearReadDependencies :: "source_state \<Rightarrow> source_state" where
  "clearReadDependencies s = s\<lparr>ss_collector := []\<rparr>"

section \<open>Transacting\<close>

definition cancel_and_throw :: "('v, 'x, 's) transactor_ops \<Rightarrow> action_id \<Rightarrow> block_id list \<Rightarrow> net_error \<Rightarrow> 's
    \<Rightarrow> ((net_error + 'v stale_failure option) \<times> 's) option" where
  \<comment> \<open>the handler of an error: a cancel that throws replaces it\<close>
  "cancel_and_throw T a ids e w =
     map_option (\<lambda>(x, w'). (case x of Inl e' \<Rightarrow> Inl e' | Inr _ \<Rightarrow> Inl e, w')) (tx_cancel T a ids w)"

definition transact :: "('v, 'x, 's) transactor_ops \<Rightarrow> 'v transforms \<Rightarrow> action_id \<Rightarrow> nat \<Rightarrow> block_id \<Rightarrow> block_id \<Rightarrow> nat \<Rightarrow> 's
    \<Rightarrow> ((net_error + 'v stale_failure option) \<times> 's) option" where
  "transact T transform a r headerId tailId priority w =
     Option.bind (tx_pend T \<lparr>pr_actionId = a, pr_rev = Some r, pr_transforms = transform, pr_policy = Pol_r, pr_transaction = None,
                             pr_operationsHash = None, np_priority = (if priority > 0 then Some priority else None)\<rparr> w)
       (\<lambda>(pendResult, w1).
         (case pendResult of
            Inl e \<Rightarrow> Some (Inl e, w1)
          | Inr (NPendStale f) \<Rightarrow> Some (Inr (Some f), w1)
          | Inr (NPendSuccess pending blockIds) \<Rightarrow>
              Option.bind (tx_commit T \<lparr>nc_headerId = (if headerId \<in> fst ` set (inserts transform) then Some headerId else None),
                                        nc_tailId = tailId, nc_blockIds = blockIds, nc_actionId = a, nc_rev = r\<rparr> w1)
                (\<lambda>(commitResult, w2).
                  (case commitResult of
                     Inl e \<Rightarrow> cancel_and_throw T a blockIds e w2
                   | Inr NCommitSuccess \<Rightarrow> Some (Inr None, w2)
                   | Inr (NCommitStale f) \<Rightarrow>
                       Option.bind (tx_cancel T a blockIds w2)
                         (\<lambda>(x, w3). (case x of Inr _ \<Rightarrow> Some (Inr (Some f), w3)
                                      | Inl e \<Rightarrow> cancel_and_throw T a blockIds e w3))))))"

section \<open>What a client of a transactor relies on\<close>

definition transact_pend :: "'v transforms \<Rightarrow> action_id \<Rightarrow> nat \<Rightarrow> nat \<Rightarrow> ('v, 'x) net_pend_request" where
  "transact_pend transform a r priority =
     \<lparr>pr_actionId = a, pr_rev = Some r, pr_transforms = transform, pr_policy = Pol_r, pr_transaction = None,
      pr_operationsHash = None, np_priority = (if priority > 0 then Some priority else None)\<rparr>"

definition transact_commit :: "'v transforms \<Rightarrow> action_id \<Rightarrow> nat \<Rightarrow> block_id \<Rightarrow> block_id \<Rightarrow> net_commit_request" where
  "transact_commit transform a r headerId tailId =
     \<lparr>nc_headerId = (if headerId \<in> fst ` set (inserts transform) then Some headerId else None), nc_tailId = tailId,
      nc_blockIds = blockIdsForTransforms transform, nc_actionId = a, nc_rev = r\<rparr>"

locale block_transactor =
  fixes T :: "('v, 'x, 's) transactor_ops" and pended :: "('v, 'x) net_pend_request \<Rightarrow> 's \<Rightarrow> 's \<Rightarrow> bool"
    and committed :: "net_commit_request \<Rightarrow> 's \<Rightarrow> 's \<Rightarrow> bool"
  assumes pend_success: "tx_pend T rq s = Some (Inr (NPendSuccess ps ids), s') \<Longrightarrow> ids = blockIdsForTransforms (pr_transforms rq) \<and> pended rq s s'"
    and commit_success: "tx_commit T cr s = Some (Inr NCommitSuccess, s') \<Longrightarrow> committed cr s s'"
begin

lemma transact_cases:
  assumes "transact T transform a r headerId tailId priority s = Some (res, s')"
  obtains (not_pended) x where "tx_pend T (transact_pend transform a r priority) s = Some (x, s')"
      "case x of Inl e \<Rightarrow> res = Inl e | Inr (NPendStale f) \<Rightarrow> res = Inr (Some f) | Inr (NPendSuccess _ _) \<Rightarrow> False"
  | (committed) s1 where "pended (transact_pend transform a r priority) s s1" "res = Inr None"
      "committed (transact_commit transform a r headerId tailId) s1 s'"
  | (cancelled) s1 x s2 y s3 where "pended (transact_pend transform a r priority) s s1"
      "(\<exists>e. res = Inl e) \<or> (\<exists>f. x = Inr (NCommitStale f) \<and> res = Inr (Some f))"
      "tx_commit T (transact_commit transform a r headerId tailId) s1 = Some (x, s2)" "x \<noteq> Inr NCommitSuccess"
      "s3 = s2 \<or> (\<exists>z. tx_cancel T a (blockIdsForTransforms transform) s2 = Some (z, s3))"
      "tx_cancel T a (blockIdsForTransforms transform) s3 = Some (y, s')"
proof -
  let ?rq = "transact_pend transform a r priority"
  obtain p s1 where p: "tx_pend T ?rq s = Some (p, s1)"
    using assms by (auto simp: transact_def transact_pend_def bind_eq_Some_conv)
  show thesis
  proof (cases "\<exists>ps ids. p = Inr (NPendSuccess ps ids)")
    case False
    then have "s' = s1" "case p of Inl e \<Rightarrow> res = Inl e | Inr (NPendStale f) \<Rightarrow> res = Inr (Some f) | Inr (NPendSuccess _ _) \<Rightarrow> False"
      using assms p by (auto simp: transact_def transact_pend_def split: sum.splits net_pend_result.splits)
    then show thesis using not_pended p by blast
  next
    case True
    then obtain ps ids where p': "p = Inr (NPendSuccess ps ids)" by blast
    have ids: "ids = blockIdsForTransforms transform" and pd: "pended ?rq s s1"
      using pend_success [OF p [unfolded p']] by (auto simp: transact_pend_def)
    obtain x s2 where x: "tx_commit T (transact_commit transform a r headerId tailId) s1 = Some (x, s2)"
      using assms p p' ids by (auto simp: transact_def transact_pend_def transact_commit_def bind_eq_Some_conv)
    show thesis
    proof (cases "x = Inr NCommitSuccess")
      case True
      then have "res = Inr None" "s' = s2"
        using assms p p' ids x by (auto simp: transact_def transact_pend_def transact_commit_def)
      then show thesis using committed [OF pd] commit_success [OF x [unfolded True]] by blast
    next
      case False
      have thrown: "(\<exists>e. res = Inl e) \<and> (\<exists>y. tx_cancel T a (blockIdsForTransforms transform) s3 = Some (y, s'))"
        if ct: "cancel_and_throw T a (blockIdsForTransforms transform) e s3 = Some (res, s')" for e s3
      proof -
        obtain y s4 where "tx_cancel T a (blockIdsForTransforms transform) s3 = Some (y, s4)"
          using ct by (auto simp: cancel_and_throw_def)
        with ct show ?thesis by (cases y) (auto simp: cancel_and_throw_def)
      qed
      consider (throw) e where "cancel_and_throw T a (blockIdsForTransforms transform) e s2 = Some (res, s')"
        | (stale) f z s3 where "x = Inr (NCommitStale f)" "tx_cancel T a (blockIdsForTransforms transform) s2 = Some (z, s3)"
            "(case z of Inr _ \<Rightarrow> Some (Inr (Some f), s3) | Inl e \<Rightarrow> cancel_and_throw T a (blockIdsForTransforms transform) e s3) = Some (res, s')"
      proof (cases x)
        case (Inl e)
        then show thesis using assms p p' ids x throw by (simp add: transact_def transact_pend_def transact_commit_def)
      next
        case (Inr c)
        then obtain f where "x = Inr (NCommitStale f)" using False by (cases c) auto
        then show thesis using assms p p' ids x stale
          by (simp add: transact_def transact_pend_def transact_commit_def bind_eq_Some_conv split_paired_Ex) blast
      qed
      then show thesis
      proof cases
        case throw
        then show thesis using thrown [of e s2] cancelled [OF pd _ x False, of s2] by blast
      next
        case (stale f z s3)
        then show thesis using thrown [of _ s3] cancelled [OF pd _ x False, of s2 z] cancelled [OF pd _ x False, of s3]
          by (cases z; fastforce)
      qed
    qed
  qed
qed

end

definition net_committed :: "('v, 'x, 's) net_env \<Rightarrow> net_commit_request \<Rightarrow> coordinator_cache \<times> 's \<Rightarrow> coordinator_cache \<times> 's \<Rightarrow> bool" where
  "net_committed E cr s s' \<longleftrightarrow> fst s' = fst s \<and> tail_first E cr (snd s) (snd s')"

definition net_pended :: "('v, 'x, 's) net_env \<Rightarrow> nat \<Rightarrow> ('v, 'x) net_pend_request \<Rightarrow> coordinator_cache \<times> 's \<Rightarrow> coordinator_cache \<times> 's \<Rightarrow> bool" where
  "net_pended E n rq s s' \<longleftrightarrow> (\<exists>ps. net_pend E n rq (fst s) (snd s) = Some (Inr (NPendSuccess ps (blockIdsForTransforms (pr_transforms rq))), s'))"

interpretation nt: block_transactor "network_transactor E n" "net_pended E n" "net_committed E" for E n
proof
  fix rq s ps ids s' cr
  show "ids = blockIdsForTransforms (pr_transforms rq) \<and> net_pended E n rq s s'"
    if p: "tx_pend (network_transactor E n) rq s = Some (Inr (NPendSuccess ps ids), s')"
  proof -
    obtain cache w cache' w' where s: "s = (cache, w)" "s' = (cache', w')" by (cases s; cases s')
    have "net_pend E n rq cache w = Some (Inr (NPendSuccess ps ids), cache', w')" using p by (simp add: network_transactor_def s)
    moreover from this have "ids = blockIdsForTransforms (pr_transforms rq)" by (rule net_pend_success_cases)
    ultimately show ?thesis by (auto simp: net_pended_def s)
  qed
  show "net_committed E cr s s'" if "tx_commit (network_transactor E n) cr s = Some (Inr NCommitSuccess, s')"
    using that by (cases s) (auto simp: network_transactor_def net_committed_def dest: net_commit_tail_first)
qed

lemma network_returns:
  assumes "net_clock E" and "ne_timeoutMs E < n" and "ne_abortOrCancelTimeoutMs E < n"
  shows "\<exists>r. tx_pend (network_transactor E n) rq s = Some r" and "\<exists>r. tx_commit (network_transactor E n) cr s = Some r"
    and "\<exists>r. tx_cancel (network_transactor E n) a ids s = Some r" and "\<exists>r. tx_get (network_transactor E n) ids cx s = Some r"
  using net_pend_returns [OF assms, of rq "fst s" "snd s"] net_commit_returns [OF assms(1,2), of "fst s" cr "snd s"]
    cancel_returns(2) [OF assms(1,3), of a ids "snd s"] net_get_returns [OF assms(1,2), of ids cx "snd s"]
  by (auto simp: network_transactor_def case_prod_beta)

lemma bind_returns: "m \<noteq> None \<Longrightarrow> (\<And>x y. f (x, y) \<noteq> None) \<Longrightarrow> Option.bind m f \<noteq> None"
  by (cases m) auto

lemma transact_total:
  assumes pend: "\<And>rq s. tx_pend T rq s \<noteq> None" and commit: "\<And>cr s. tx_commit T cr s \<noteq> None" and cancel: "\<And>a ids s. tx_cancel T a ids s \<noteq> None"
  shows "transact T transform a r headerId tailId priority s \<noteq> None"
proof -
  have ct: "cancel_and_throw T a ids e s \<noteq> None" for ids e s using cancel by (simp add: cancel_and_throw_def)
  have stale: "Option.bind (tx_cancel T a ids w) (\<lambda>(x, w3). case x of Inr _ \<Rightarrow> Some (Inr (Some f), w3)
      | Inl e \<Rightarrow> cancel_and_throw T a ids e w3) \<noteq> None" for ids w f
    by (rule bind_returns [OF cancel]) (simp add: ct del: not_None_eq split: sum.split)
  have step: "Option.bind (tx_commit T cr w) (\<lambda>(x, w2). case x of Inl e \<Rightarrow> cancel_and_throw T a ids e w2
      | Inr NCommitSuccess \<Rightarrow> Some (Inr None, w2)
      | Inr (NCommitStale f) \<Rightarrow> Option.bind (tx_cancel T a ids w2)
          (\<lambda>(x, w3). case x of Inr _ \<Rightarrow> Some (Inr (Some f), w3) | Inl e \<Rightarrow> cancel_and_throw T a ids e w3)) \<noteq> None" for cr ids w
    by (rule bind_returns [OF commit]) (simp add: ct stale del: not_None_eq split: sum.split net_commit_result.split)
  show ?thesis unfolding transact_def
    by (rule bind_returns [OF pend]) (simp add: step del: not_None_eq split: sum.split net_pend_result.split)
qed

lemma transact_returns:
  assumes "net_clock E" and "ne_timeoutMs E < n" and "ne_abortOrCancelTimeoutMs E < n"
  shows "transact (network_transactor E n) transform a r headerId tailId priority s \<noteq> None"
  by (rule transact_total) (use network_returns [OF assms] in auto)

section \<open>Properties\<close>

text \<open>C13. \<open>transact\<close> over the network has three outcomes. It reports success exactly when the blocks of the action were pended and the commit
  was acknowledged, tail first. When the pend is refused or throws, that is the result and nothing else is sent, neither
  a commit nor a cancel of its own. When the blocks were pended and the commit is refused or throws, the last thing it does is to cancel all blocks
  of the action, and the result is the refusal or an error.\<close>

theorem transact_commits_or_cancels:
  assumes "transact (network_transactor E n) transform a r headerId tailId priority (cache, w) = Some (res, s')"
  shows "(res = Inr None \<and> (\<exists>cache1 w1. net_pended E n (transact_pend transform a r priority) (cache, w) (cache1, w1)
             \<and> fst s' = cache1 \<and> tail_first E (transact_commit transform a r headerId tailId) w1 (snd s')))
       \<or> (\<exists>x. net_pend E n (transact_pend transform a r priority) cache w = Some (x, s')
            \<and> (case x of Inl e \<Rightarrow> res = Inl e | Inr (NPendStale f) \<Rightarrow> res = Inr (Some f) | Inr (NPendSuccess _ _) \<Rightarrow> False))
       \<or> (\<exists>s1 x s2 s3 y. net_pended E n (transact_pend transform a r priority) (cache, w) s1
            \<and> tx_commit (network_transactor E n) (transact_commit transform a r headerId tailId) s1 = Some (x, s2) \<and> x \<noteq> Inr NCommitSuccess
            \<and> ((\<exists>e. res = Inl e) \<or> (\<exists>f. x = Inr (NCommitStale f) \<and> res = Inr (Some f)))
            \<and> (s3 = s2 \<or> (\<exists>z. tx_cancel (network_transactor E n) a (blockIdsForTransforms transform) s2 = Some (z, s3)))
            \<and> tx_cancel (network_transactor E n) a (blockIdsForTransforms transform) s3 = Some (y, s'))"
  using assms
proof (cases rule: nt.transact_cases)
  case (not_pended x)
  then show ?thesis by (auto simp: network_transactor_def)
next
  case (committed s1)
  then show ?thesis by (cases s1) (auto simp: net_committed_def)
next
  case (cancelled s1 x s2 y s3)
  then show ?thesis by metis
qed

definition race_env :: "bool \<Rightarrow> (nat, unit, unit) net_env" where
  \<comment> \<open>one peer, which has the blocks at revision 7; the argument says whether it accepts commits\<close>
  "race_env accepts =
     \<lparr>ne_timeoutMs = 20, ne_abortOrCancelTimeoutMs = 10, ne_now = \<lambda>w. 0, ne_findCluster = \<lambda>i w. (Inr [''p''], w),
      ne_findCoordinator = \<lambda>i ex it w. (Inr ''p'', w), ne_recordCoordinator = \<lambda>i p w. w,
      ne_get = \<lambda>p ids cx t w. (Inr (map (\<lambda>i. (i, absent_entry\<lparr>en_block := Some \<lparr>header = \<lparr>hdr_id = i, hdr_type = ''T'', hdr_collectionId = ''c''\<rparr>, attrs = Map.empty\<rparr>,
                                 en_latest := Some \<lparr>ar_actionId = ''a'', ar_rev = 7\<rparr>\<rparr>)) ids), w),
      ne_pend = \<lambda>p rq t co w. (Inr (NPendSuccess [] (blockIdsForTransforms (pr_transforms rq))), w),
      ne_commit = \<lambda>p cr t w. (Inr (if accepts then NCommitSuccess
                    else NCommitStale \<lparr>sf_reason = None, sf_missing = None, sf_pending = None, sf_conflict = None, sf_staleAt = None\<rparr>), w),
      ne_cancel = \<lambda>p a ids t w. (Inr (), w)\<rparr>"


definition race_transforms :: "nat transforms" where
  "race_transforms = \<lparr>inserts = [], updates = [(''x'', [])], deletes = []\<rparr>"

lemma race_pend:
  "net_pend (race_env accepts) 1 (transact_pend race_transforms ''a'' 1 0) [] ()
     = pend_process (race_env accepts) 1 (transact_pend race_transforms ''a'' 1 0) [] [assignment_batch race_transforms (''p'', [''x''])] ()"
proof -
  have "clusters_of (race_env accepts) [''x''] () = ([(''x'', [''p''])], [], ())" by (simp add: race_env_def)
  moreover have "greedy_cover (peer_blocks [(''x'', [''p''])]) [''x''] [] = ([(''p'', [''x''])], [])" by code_simp
  moreover have "blockIdsForTransforms race_transforms = [''x'']" by code_simp
  ultimately show ?thesis by (simp add: net_pend_def consolidateCoordinators_def transact_pend_def)
qed

lemma race_env_simps [simp]:
  "ne_findCoordinator (race_env accepts) i ex it w = (Inr ''p'', w)" "ne_now (race_env accepts) w = 0" "ne_timeoutMs (race_env accepts) = 20"
  "ne_commit (race_env accepts) p cr t w = (Inr (if accepts then NCommitSuccess
     else NCommitStale \<lparr>sf_reason = None, sf_missing = None, sf_pending = None, sf_conflict = None, sf_staleAt = None\<rparr>), w)"
  by (simp_all add: race_env_def)

lemma race_pended: "\<exists>c. net_pended (race_env accepts) 1 (transact_pend race_transforms ''a'' 1 0) ([], ()) (c, ())"
proof -
  have ids: "blockIdsForTransforms race_transforms = [''x'']" by code_simp
  have "map_option (\<lambda>(bs, w). everyBatch bs pend_ok) (processBatches (pend_ops (race_env True) (transact_pend race_transforms ''a'' 1 0) 20) 1
      [assignment_batch race_transforms (''p'', [''x''])] ()) = Some True" by code_simp
  moreover have "map_option (\<lambda>(bs, w). everyBatch bs pend_ok) (processBatches (pend_ops (race_env False) (transact_pend race_transforms ''a'' 1 0) 20) 1
      [assignment_batch race_transforms (''p'', [''x''])] ()) = Some True" by code_simp
  ultimately have "map_option (\<lambda>(bs, w). everyBatch bs pend_ok) (processBatches (pend_ops (race_env accepts) (transact_pend race_transforms ''a'' 1 0) 20) 1
      [assignment_batch race_transforms (''p'', [''x''])] ()) = Some True" by (cases accepts) simp_all
  then show ?thesis unfolding net_pended_def fst_conv snd_conv race_pend
    by (auto simp: pend_process_def Let_def ids transact_pend_def)
qed

lemma race_commit:
  "net_commit (race_env accepts) 1 c (transact_commit race_transforms ''a'' 1 ''h'' ''x'') ()
     = Some (Inr (if accepts then NCommitSuccess else NCommitStale \<lparr>sf_reason = None, sf_missing = Some [], sf_pending = None, sf_conflict = None, sf_staleAt = None\<rparr>), ())"
proof -
  have ids: "blockIdsForTransforms race_transforms = [''x'']" by code_simp
  have ins: "inserts race_transforms = []" by (simp add: race_transforms_def)
  obtain p where p: "resolveCoordinator (race_env accepts) c (Some ''a'') WriteIntent ''x'' [] () = (Inr p, ())"
    unfolding resolveCoordinator_def by (cases "Option.bind (Some ''a'') (\<lambda>a. Option.bind (map_of c a) (\<lambda>(cs, _). map_of cs ''x''))") simp_all
  have b: "createBatchesForPayload [''x''] [''x''] mergeBlocks [] (resolveCoordinator (race_env accepts) c (Some ''a'') WriteIntent) ()
      = (Inr [Batch p ''x'' [''x''] None [] [] None :: (block_id list, nat net_commit_result) batch], ())"
    by (simp add: createBatchesForPayload_def makeBatchesByPeer_def mergeBlocks_def p make_step_def)
  note defs = net_commit_def transact_commit_def commit_then_def commitBlock_def commitBlocks_def commit_ops_def
        processBatches_def commit_remaining_def everyBatch_def commit_ok_def commit_stale_def allBatches_def missing_of_def
        distinctBlockActionTransforms_def highestStaleAt_def groupBy_def ids ins Let_def
  show ?thesis
  proof (cases accepts)
    case True
    then show ?thesis using b by (simp add: defs)
  next
    case False
    then show ?thesis using b by (simp add: defs)
  qed
qed
theorem transact_commits_or_cancels_witness:
  "(\<exists>c w1. net_pended (race_env True) 1 (transact_pend race_transforms ''a'' 1 0) ([], ()) (c, w1)
      \<and> tail_first (race_env True) (transact_commit race_transforms ''a'' 1 ''h'' ''x'') w1 ())
   \<and> (\<exists>f s3 y s'. transact (network_transactor (race_env False) 1) race_transforms ''a'' 1 ''h'' ''x'' 0 ([], ()) = Some (Inr (Some f), s')
      \<and> tx_cancel (network_transactor (race_env False) 1) ''a'' [''x''] s3 = Some (y, s'))"
proof
  have ids: "blockIdsForTransforms race_transforms = [''x'']" by code_simp
  have run: "transact (network_transactor (race_env accepts) 1) race_transforms ''a'' 1 ''h'' ''x'' 0 ([], ()) =
      (if accepts then Some (Inr None, c, ()) else Option.bind (tx_cancel (network_transactor (race_env False) 1) ''a'' [''x''] (c, ()))
         (\<lambda>(x, s). case x of Inr _ \<Rightarrow> Some (Inr (Some \<lparr>sf_reason = None, sf_missing = Some [], sf_pending = None, sf_conflict = None, sf_staleAt = None\<rparr>), s)
            | Inl e \<Rightarrow> cancel_and_throw (network_transactor (race_env False) 1) ''a'' [''x''] e s))"
    if "net_pended (race_env accepts) 1 (transact_pend race_transforms ''a'' 1 0) ([], ()) (c, ())" for accepts c
  proof -
    have n: "tx_pend (network_transactor E n) rq (c, w) = net_pend E n rq c w"
        "tx_commit (network_transactor E n) cr (c, w) = map_option (map_prod id (Pair c)) (net_commit E n c cr w)" for E :: "(nat, unit, unit) net_env" and n rq c w cr
      by (simp_all add: network_transactor_def)
    have ins: "inserts race_transforms = []" by (simp add: race_transforms_def)
    show ?thesis using that race_commit [of accepts c] ids
      by (cases accepts) (auto simp: transact_def net_pended_def n ins transact_pend_def transact_commit_def simp del: One_nat_def)
  qed
  obtain c where c: "net_pended (race_env True) 1 (transact_pend race_transforms ''a'' 1 0) ([], ()) (c, ())" using race_pended by blast
  have t: "transact (network_transactor (race_env True) 1) race_transforms ''a'' 1 ''h'' ''x'' 0 ([], ()) = Some (Inr None, c, ())" using run [OF c] by simp
  have "\<not> (case x of Inl e \<Rightarrow> Inr None = (Inl e :: net_error + nat stale_failure option) | Inr (NPendStale f) \<Rightarrow> Inr None = (Inr (Some f) :: net_error + nat stale_failure option)
      | Inr (NPendSuccess _ _) \<Rightarrow> False)" for x :: "net_error + nat net_pend_result"
    by (auto split: sum.split net_pend_result.split)
  with transact_commits_or_cancels [OF t] show "\<exists>c w1. net_pended (race_env True) 1 (transact_pend race_transforms ''a'' 1 0) ([], ()) (c, w1)
      \<and> tail_first (race_env True) (transact_commit race_transforms ''a'' 1 ''h'' ''x'') w1 ()"
    unfolding fst_conv snd_conv by blast
  obtain d where d: "net_pended (race_env False) 1 (transact_pend race_transforms ''a'' 1 0) ([], ()) (d, ())" using race_pended by blast
  have "map_option (\<lambda>(x, w). x) (net_cancel (race_env False) 1 ''a'' [''x''] ()) = Some (Inr ())" by code_simp
  then have "\<exists>f s'. transact (network_transactor (race_env False) 1) race_transforms ''a'' 1 ''h'' ''x'' 0 ([], ()) = Some (Inr (Some f), s')"
    using run [OF d] by (auto simp: network_transactor_def)
  then obtain f s' where t: "transact (network_transactor (race_env False) 1) race_transforms ''a'' 1 ''h'' ''x'' 0 ([], ()) = Some (Inr (Some f), s')" by blast
  obtain ps ids where p: "net_pend (race_env False) 1 (transact_pend race_transforms ''a'' 1 0) [] () = Some (Inr (NPendSuccess ps ids), d, ())"
    using d by (auto simp: net_pended_def)
  from transact_commits_or_cancels [OF t] have "\<exists>s3 y. tx_cancel (network_transactor (race_env False) 1) ''a'' (blockIdsForTransforms race_transforms) s3 = Some (y, s')"
    unfolding p by auto
  then show "\<exists>f s3 y s'. transact (network_transactor (race_env False) 1) race_transforms ''a'' 1 ''h'' ''x'' 0 ([], ()) = Some (Inr (Some f), s')
      \<and> tx_cancel (network_transactor (race_env False) 1) ''a'' [''x''] s3 = Some (y, s')" using t ids by auto
qed

text \<open>The header of a new collection is one of the blocks of the action, so that no commit of \<open>transact\<close> has a separate header: the header
  is committed with the other blocks, after the tail.\<close>

theorem transact_never_commits_header_first: "separate_header (transact_commit transform a r headerId tailId) = None"
  by (auto simp: separate_header_def transact_commit_def blockIdsForTransforms_def)

definition served_revision :: "'v net_entry \<Rightarrow> nat" where
  \<comment> \<open>the revision of the served content, or of the latest commit when the entry does not say it\<close>
  "served_revision e = (case (en_materializedRev e, en_latest e) of (Some r, _) \<Rightarrow> r | (None, Some l) \<Rightarrow> ar_rev l | (None, None) \<Rightarrow> 0)"

text \<open>C19. A read through the source never poses as an answer it is not. A block is returned only when its content is not doubted for
  the view of the source, and then it is recorded, with its purpose, at the revision it was materialized at, or else at the latest revision of its entry, or
  else at 0; an error or an absent block records nothing. A block is reported absent only when the transactor did not say that it could not find out, and
  each error is the one the transactor's answer calls for.\<close>

theorem tryGet_answers_are_confirmed:
  assumes "source_tryGet T i purpose s w = Some (x, s', w')"
  shows "case x of
      Inr (Some b) \<Rightarrow> (\<exists>res e. let r = served_revision e in tx_get T [i] (ss_actionContext s) w = Some (Inr res, w') \<and> map_of res i = Some e \<and> en_block e = Some b
          \<and> doubted s e = None
          \<and> getReadRevision s' i = Some r \<and> ss_collector s' = record_read i r purpose (ss_collector s))
    | Inr None \<Rightarrow> s' = s \<and> (\<exists>res. tx_get T [i] (ss_actionContext s) w = Some (Inr res, w')
          \<and> (map_of res i = None \<or> (\<exists>e. map_of res i = Some e \<and> en_block e = None \<and> en_unavailable e = None \<and> doubted s e = None)))
    | Inl (BlockUnavailableError j reason) \<Rightarrow> s' = s \<and> j = i \<and> (\<exists>res e. tx_get T [i] (ss_actionContext s) w = Some (Inr res, w')
          \<and> map_of res i = Some e \<and> en_block e = None \<and> en_unavailable e = Some reason)
    | Inl (BlockPossiblyStaleError j r) \<Rightarrow> s' = s \<and> j = i \<and> (\<exists>res e. tx_get T [i] (ss_actionContext s) w = Some (Inr res, w')
          \<and> map_of res i = Some e \<and> doubted s e = Some r)
    | Inl (TransactorError err) \<Rightarrow> s' = s \<and> tx_get T [i] (ss_actionContext s) w = Some (Inl err, w')"
proof -
  obtain y w1 where y1: "tx_get T [i] (ss_actionContext s) w = Some (y, w1)" using assms by (auto simp: source_tryGet_def)
  then have "w1 = w'"
    using assms by (cases y) (auto simp: source_tryGet_def split: option.splits prod.splits)
  with y1 have y: "tx_get T [i] (ss_actionContext s) w = Some (y, w')" by simp
  show ?thesis
  proof (cases y)
    case (Inl e)
    then show ?thesis using assms y by (auto simp: source_tryGet_def)
  next
    case (Inr res)
    show ?thesis
    proof (cases "map_of res i")
      case None
      then show ?thesis using assms y Inr by (auto simp: source_tryGet_def)
    next
      case (Some e)
      then have "read_entry i purpose e s = (x, s')" using assms y Inr by (auto simp: source_tryGet_def split: prod.splits)
      then show ?thesis using y Inr Some
        by (cases "en_block e"; cases "en_unavailable e"; cases "doubted s e"; cases "en_materializedRev e")
          (auto simp: read_entry_def getReadRevision_def served_revision_def Let_def)
    qed
  qed
qed

definition sample_source :: source_state where
  "sample_source = \<lparr>ss_collectionId = ''c'', ss_actionContext = None, ss_readRevisions = Map.empty, ss_collector = []\<rparr>"

theorem tryGet_answers_are_confirmed_witness:
  "\<exists>b s' w'. source_tryGet (network_transactor (race_env True) 1) ''x'' Value sample_source ([], ()) = Some (Inr (Some b), s', w')
     \<and> getReadRevision s' ''x'' = Some 7 \<and> ss_collector s' = record_read ''x'' 7 Value []"
proof -
  let ?e = "absent_entry\<lparr>en_block := Some \<lparr>header = \<lparr>hdr_id = ''x'', hdr_type = ''T'', hdr_collectionId = ''c''\<rparr>, attrs = Map.empty\<rparr>,
     en_latest := Some \<lparr>ar_actionId = ''a'', ar_rev = 7\<rparr>\<rparr>"
  have "map_option (\<lambda>(x, s', _). case x of Inr (Some b) \<Rightarrow> getReadRevision s' ''x'' = Some 7 | _ \<Rightarrow> False)
      (source_tryGet (network_transactor (race_env True) 1) ''x'' Value sample_source ([], ())) = Some True"
    by code_simp
  then obtain x s' w' where x: "source_tryGet (network_transactor (race_env True) 1) ''x'' Value sample_source ([], ()) = Some (x, s', w')"
      "case x of Inr (Some b) \<Rightarrow> getReadRevision s' ''x'' = Some 7 | _ \<Rightarrow> False" by auto
  then obtain b where b: "source_tryGet (network_transactor (race_env True) 1) ''x'' Value sample_source ([], ()) = Some (Inr (Some b), s', w')"
      "getReadRevision s' ''x'' = Some 7" by (auto split: sum.splits option.splits)
  from tryGet_answers_are_confirmed [OF b(1)] b(2) have "ss_collector s' = record_read ''x'' 7 Value (ss_collector sample_source)" by (auto simp: Let_def)
  then have "ss_collector s' = record_read ''x'' 7 Value []" by (simp add: sample_source_def)
  then show ?thesis using b by blast
qed

end
