(* ===== verification/Collection_Ops.thy ===== *)
theory Collection_Ops
  imports Transactor_Source Action_Log Cluster_Record Complex_Main
begin

text \<open>
  Collections: \<open>packages/db-core/src/collection/collection.ts\<close> with the retry delays of
  \<open>packages/db-core/src/utility/backoff.ts\<close>. A collection stages actions in a tracker, and pushes them to the transactor
  as one log entry with the blocks it touched (\<open>sync\<close>), after taking in what others committed (\<open>update\<close>).

  The handlers of the actions are code of the application and the log is code on blocks; both see the blocks through a
  \<open>BlockStore\<close> only. Such code is a tree of store operations (\<open>prog\<close>), which \<open>run_prog\<close> performs on a tracker. The
  trackers, the cache and the source below it are those of \<open>Tracker_Store\<close>, \<open>Cache_Source\<close> and \<open>Transactor_Source\<close>,
  composed as the constructors compose them. The latch of a collection makes its operations sequential.
\<close>

section \<open>Transactors that return\<close>

record ('v, 'x, 's) itransactor =
  it_get :: "block_id list \<Rightarrow> action_context option \<Rightarrow> 's \<Rightarrow> (net_error + 'v get_results) \<times> 's"
  it_pend :: "('v, 'x) net_pend_request \<Rightarrow> 's \<Rightarrow> (net_error + 'v net_pend_result) \<times> 's"
  it_commit :: "net_commit_request \<Rightarrow> 's \<Rightarrow> (net_error + 'v net_commit_result) \<times> 's"
  it_cancel :: "action_id \<Rightarrow> block_id list \<Rightarrow> 's \<Rightarrow> (net_error + unit) \<times> 's"
  it_queryClusterNominees :: "(block_id \<Rightarrow> 's \<Rightarrow> (net_error + string list) \<times> 's) option"

definition as_ops :: "('v, 'x, 's) itransactor \<Rightarrow> ('v, 'x, 's) transactor_ops" where
  "as_ops T = \<lparr>tx_get = \<lambda>ids cx w. Some (it_get T ids cx w), tx_pend = \<lambda>rq w. Some (it_pend T rq w),
               tx_commit = \<lambda>rq w. Some (it_commit T rq w), tx_cancel = \<lambda>a ids w. Some (it_cancel T a ids w)\<rparr>"

definition network_itransactor :: "('v, 'x, 's) net_env \<Rightarrow> nat \<Rightarrow> ('v, 'x, coordinator_cache \<times> 's) itransactor" where
  "network_itransactor E n =
     \<lparr>it_get = \<lambda>ids cx s. the (tx_get (network_transactor E n) ids cx s),
      it_pend = \<lambda>rq s. the (tx_pend (network_transactor E n) rq s),
      it_commit = \<lambda>rq s. the (tx_commit (network_transactor E n) rq s),
      it_cancel = \<lambda>a ids s. the (tx_cancel (network_transactor E n) a ids s),
      it_queryClusterNominees = Some (\<lambda>i (cache, w). case queryClusterNominees E i w of
         (Inl e, w') \<Rightarrow> (Inl (Thrown e), cache, w') | (Inr ps, w') \<Rightarrow> (Inr ps, cache, w'))\<rparr>"

fun net_error_of :: "net_error \<Rightarrow> error" where
  "net_error_of (Thrown e) = e"
| "net_error_of (PeersIncomplete _) = Err ''Some peers did not complete''"

fun source_error_of :: "source_error \<Rightarrow> error" where
  "source_error_of (BlockUnavailableError i _) = Err (''Block unavailable: '' @ i)"
| "source_error_of (BlockPossiblyStaleError i _) = Err (''Block possibly stale: '' @ i)"
| "source_error_of (TransactorError e) = net_error_of e"

section \<open>Code on a block store\<close>

datatype ('v, 'r) prog =
    Return 'r
  | Throw error
  | TryGet block_id read_purpose "'v block option \<Rightarrow> ('v, 'r) prog"
  | Insert "'v block" "('v, 'r) prog"
  | Update block_id "'v operation" "('v, 'r) prog"
  | Delete block_id "('v, 'r) prog"
  | GenerateId "block_id \<Rightarrow> ('v, 'r) prog"
  | MarkReadValue block_id "('v, 'r) prog"
  | BlockIds "block_id list \<Rightarrow> ('v, 'r) prog"  \<comment> \<open>the blocks the tracker has transformed so far\<close>

record ('w, 'v) block_source =
  so_source :: "('w, 'v) source_ops"
  so_generateId :: "'w \<Rightarrow> block_id \<times> 'w"
  so_markReadValue :: "block_id \<Rightarrow> 'w \<Rightarrow> 'w"

primrec run_prog :: "('w, 'v) block_source \<Rightarrow> ('v, 'r) prog \<Rightarrow> 'v tracker \<Rightarrow> 'w \<Rightarrow> (error + 'r) \<times> 'v tracker \<times> 'w" where
  "run_prog S (Return r) = (\<lambda>t w. (Inr r, t, w))"
| "run_prog S (Throw e) = (\<lambda>t w. (Inl e, t, w))"
| "run_prog S (TryGet i p k) = (\<lambda>t w.
     (case tracker_tryGet (so_source S) w t i p of
        (Inl e, w', t') \<Rightarrow> (Inl e, t', w')
      | (Inr ob, w', t') \<Rightarrow> run_prog S (k ob) t' w'))"
| "run_prog S (Insert b k) = (\<lambda>t w. run_prog S k (tracker_insert b t) w)"
| "run_prog S (Update i op k) = (\<lambda>t w.
     (case tracker_update i op t of (Some e, t') \<Rightarrow> (Inl e, t', w) | (None, t') \<Rightarrow> run_prog S k t' w))"
| "run_prog S (Delete i k) = (\<lambda>t w. run_prog S k (tracker_delete i t) w)"
| "run_prog S (GenerateId k) = (\<lambda>t w. case so_generateId S w of (i, w') \<Rightarrow> run_prog S (k i) t w')"
| "run_prog S (MarkReadValue i k) = (\<lambda>t w. run_prog S k t (so_markReadValue S i w))"
| "run_prog S (BlockIds k) = (\<lambda>t w. run_prog S (k (transformedBlockIds t)) t w)"

definition tracker_source :: "('w, 'v) block_source \<Rightarrow> ('v tracker \<times> 'w, 'v) block_source" where
  \<comment> \<open>a tracker as the source of another one: it has no \<open>getGeneration\<close>\<close>
  "tracker_source S =
     \<lparr>so_source = \<lparr>src_tryGet = \<lambda>(t, w) i p. (case tracker_tryGet (so_source S) w t i p of (x, w', t') \<Rightarrow> (x, t', w')),
                   src_getGeneration = \<lambda>_ _. None\<rparr>,
      so_generateId = \<lambda>(t, w). (case so_generateId S w of (i, w') \<Rightarrow> (i, t, w')),
      so_markReadValue = \<lambda>i (t, w). (t, so_markReadValue S i w)\<rparr>"

section \<open>The state and the environment of a collection\<close>

datatype 'a verdict = Keep | Replace 'a | Discard  \<comment> \<open>the same instance, another one, \<open>undefined\<close>\<close>

record ('v, 'x, 'a, 's) col_env =
  ce_transactor :: "('v, 'x, 's) itransactor"
  ce_draw :: "'s \<Rightarrow> string \<times> 's"
  ce_now :: "'s \<Rightarrow> nat"
  ce_aborted :: "'s \<Rightarrow> error option"
  ce_rand :: "'s \<Rightarrow> rat \<times> 's"
  ce_sleep :: "rat \<Rightarrow> 's \<Rightarrow> error option \<times> 's"
  ce_handler :: "'a \<Rightarrow> ('v, unit) prog option"
  ce_filterConflict :: "('a \<Rightarrow> 'a list \<Rightarrow> 'a verdict) option"
  ce_createHeaderBlock :: "block_id \<Rightarrow> ('v, 'v block) prog"
  ce_tailId :: "'v block \<Rightarrow> block_id option"
  ce_openLog :: "block_id \<Rightarrow> ('v, bool) prog"
  ce_getActionContext :: "block_id \<Rightarrow> ('v, action_context option) prog"
  ce_addActions :: "block_id \<Rightarrow> 'a list \<Rightarrow> action_id \<Rightarrow> nat \<Rightarrow> collection_id list \<Rightarrow> (block_id \<times> nat) list option \<Rightarrow> ('v, block_id) prog"
  ce_getFrom :: "block_id \<Rightarrow> nat \<Rightarrow> ('v, 'a action_entry list \<times> action_context option) prog"
  ce_getInvalidationsFrom :: "block_id \<Rightarrow> nat \<Rightarrow> ('v, invalidation_entry list) prog"
  ce_selectEntries :: "block_id \<Rightarrow> bool \<Rightarrow> ('v, 'a log_entry list) prog"

record ('v, 'a) collection =
  col_id :: collection_id
  col_pending :: "'a list"
  col_source :: source_state
  col_cache :: "'v cache_source"
  col_tracker :: "'v tracker"

abbreviation col_transforms :: "('v, 'a) collection \<Rightarrow> 'v transforms" where
  "col_transforms c \<equiv> trk_transforms (col_tracker c)"

abbreviation col_context :: "('v, 'a) collection \<Rightarrow> action_context option" where
  "col_context c \<equiv> ss_actionContext (col_source c)"

section \<open>Sources\<close>

definition source_read :: "('v, 'x, 's) itransactor \<Rightarrow> source_state \<times> 's \<Rightarrow> block_id \<Rightarrow> read_purpose
    \<Rightarrow> (error + 'v block option) \<times> source_state \<times> 's" where
  "source_read T sw i p = (case the (source_tryGet (as_ops T) i p (fst sw) (snd sw)) of
     (x, s', w') \<Rightarrow> (map_sum source_error_of id x, s', w'))"

definition plain_source :: "('v, 'x, 'a, 's) col_env \<Rightarrow> (source_state \<times> 's, 'v) block_source" where
  \<comment> \<open>a tracker directly on a \<open>TransactorSource\<close>, with no cache and a collector that is not read\<close>
  "plain_source E =
     \<lparr>so_source = \<lparr>src_tryGet = source_read (ce_transactor E), src_getGeneration = \<lambda>_ _. None\<rparr>,
      so_generateId = \<lambda>(s, w). (case ce_draw E w of (i, w') \<Rightarrow> (i, s, w')),
      so_markReadValue = \<lambda>i sw. sw\<rparr>"

type_synonym ('v, 's) cached_state = "source_state \<times> 'v cache_source \<times> 's"

definition cached_read :: "('v, 'x, 's) itransactor \<Rightarrow> ('v, 's) cached_state \<Rightarrow> block_id \<Rightarrow> read_purpose
    \<Rightarrow> (error + 'v block option) \<times> ('v, 's) cached_state" where
  \<comment> \<open>the cache on the source; the two share one collector of read dependencies\<close>
  "cached_read T z i p = (case z of (s, c, w) \<Rightarrow>
     (case map_of (lru_entries (cs_cache c)) i of
        Some _ \<Rightarrow>
          (case cache_tryGet (getReadRevision s) i p (c\<lparr>cs_collector := ss_collector s\<rparr>) of
             (ob, c') \<Rightarrow> (Inr ob, s\<lparr>ss_collector := cs_collector c'\<rparr>, c', w))
      | None \<Rightarrow>
          (case source_read T (s, w) i p of
             (Inl e, s', w') \<Rightarrow> (Inl e, s', c, w')
           | (Inr ob, s', w') \<Rightarrow>
               (case cache_tryGet (getReadRevision s') i p (c\<lparr>cs_content := \<lambda>_. ob, cs_collector := ss_collector s'\<rparr>) of
                  (ob', c') \<Rightarrow> (Inr ob', s'\<lparr>ss_collector := cs_collector c'\<rparr>, c', w')))))"

definition cached_source :: "('v, 'x, 'a, 's) col_env \<Rightarrow> (('v, 's) cached_state, 'v) block_source" where
  "cached_source E =
     \<lparr>so_source = \<lparr>src_tryGet = cached_read (ce_transactor E), src_getGeneration = \<lambda>(s, c, w) i. Some (getGeneration c i)\<rparr>,
      so_generateId = \<lambda>(s, c, w). (case ce_draw E w of (i, w') \<Rightarrow> (i, s, c, w')),
      so_markReadValue = \<lambda>i (s, c, w). (s\<lparr>ss_collector := markValue i (ss_collector s)\<rparr>, c, w)\<rparr>"

definition on_tracker :: "('v, 'x, 'a, 's) col_env \<Rightarrow> ('v, 'r) prog \<Rightarrow> ('v, 'a) collection \<Rightarrow> 's
    \<Rightarrow> (error + 'r) \<times> ('v, 'a) collection \<times> 's" where
  \<comment> \<open>code that is given the tracker of the collection\<close>
  "on_tracker E m c w = (case run_prog (cached_source E) m (col_tracker c) (col_source c, col_cache c, w) of
     (x, t', s', k', w') \<Rightarrow> (x, c\<lparr>col_tracker := t', col_source := s', col_cache := k'\<rparr>, w'))"

section \<open>Acting\<close>

fun run_handlers :: "('v, 'x, 'a, 's) col_env \<Rightarrow> 'a list \<Rightarrow> 'v tracker \<Rightarrow> 'v tracker \<times> ('v, 's) cached_state
    \<Rightarrow> error option \<times> 'v tracker \<times> 'v tracker \<times> ('v, 's) cached_state" where
  \<comment> \<open>the loop over the actions, on an atomic scope over the tracker\<close>
  "run_handlers E [] atomic z = (None, atomic, z)"
| "run_handlers E (a # as) atomic z =
     (case ce_handler E a of
        None \<Rightarrow> (Some (Err ''No handler for action type ''), atomic, z)
      | Some h \<Rightarrow>
          (case run_prog (tracker_source (cached_source E)) h atomic z of
             (Inl e, atomic', z') \<Rightarrow> (Some e, atomic', z')
           | (Inr _, atomic', z') \<Rightarrow> run_handlers E as atomic' z'))"

definition internalTransact :: "('v, 'x, 'a, 's) col_env \<Rightarrow> 'a list \<Rightarrow> ('v, 'a) collection \<Rightarrow> 's
    \<Rightarrow> error option \<times> ('v, 'a) collection \<times> 's" where
  "internalTransact E as c w =
     (case run_handlers E as (new_tracker emptyTransforms) (col_tracker c, col_source c, col_cache c, w) of
        (Some e, _, t', s', k', w') \<Rightarrow> (Some e, c\<lparr>col_tracker := t', col_source := s', col_cache := k'\<rparr>, w')
      | (None, atomic, t', s', k', w') \<Rightarrow>
          (case atomic_commit atomic t' of
             (x, t'') \<Rightarrow> (x, c\<lparr>col_tracker := t'', col_source := s', col_cache := k'\<rparr>, w')))"

definition act :: "('v, 'x, 'a, 's) col_env \<Rightarrow> 'a list \<Rightarrow> ('v, 'a) collection \<Rightarrow> 's \<Rightarrow> error option \<times> ('v, 'a) collection \<times> 's" where
  "act E as c w =
     (case internalTransact E as c w of
        (Some e, c', w') \<Rightarrow> (Some e, c', w')
      | (None, c', w') \<Rightarrow> (None, c'\<lparr>col_pending := col_pending c' @ as\<rparr>, w'))"

fun replay_loop :: "('v, 'x, 'a, 's) col_env \<Rightarrow> 'a list \<Rightarrow> ('v, 'a) collection \<Rightarrow> 's \<Rightarrow> error option \<times> ('v, 'a) collection \<times> 's" where
  "replay_loop E [] c w = (None, c, w)"
| "replay_loop E (a # as) c w =
     (case internalTransact E [a] c w of
        (Some e, c', w') \<Rightarrow> (Some e, c', w')
      | (None, c', w') \<Rightarrow> replay_loop E as c' w')"

definition reset_tracker :: "'v transforms \<Rightarrow> ('v, 'a) collection \<Rightarrow> ('v, 'a) collection" where
  "reset_tracker t c = c\<lparr>col_tracker := snd (tracker_reset t (col_tracker c))\<rparr>"

definition replayActions :: "('v, 'x, 'a, 's) col_env \<Rightarrow> ('v, 'a) collection \<Rightarrow> 's \<Rightarrow> error option \<times> ('v, 'a) collection \<times> 's" where
  "replayActions E c w = replay_loop E (col_pending c) (reset_tracker emptyTransforms c) w"

section \<open>Staged state and revisions\<close>

record ('v, 'a) collection_snapshot =
  sn_transforms :: "'v transforms"
  sn_pending :: "'a list"
  sn_context :: "action_context option"

definition snapshotPending :: "('v, 'a) collection \<Rightarrow> ('v, 'a) collection_snapshot" where
  "snapshotPending c = \<lparr>sn_transforms = col_transforms c, sn_pending = col_pending c, sn_context = col_context c\<rparr>"

definition restorePending :: "('v, 'a) collection_snapshot \<Rightarrow> ('v, 'a) collection \<Rightarrow> ('v, 'a) collection" where
  "restorePending sn c = (reset_tracker (sn_transforms sn) c)\<lparr>col_pending := sn_pending sn\<rparr>"

definition hasUnsyncedChanges :: "('v, 'a) collection \<Rightarrow> bool" where
  "hasUnsyncedChanges c \<longleftrightarrow> col_pending c \<noteq> [] \<or> \<not> isTransformsEmpty (col_transforms c)"

definition clearPendingActions :: "('v, 'a) collection \<Rightarrow> ('v, 'a) collection" where
  "clearPendingActions c = c\<lparr>col_pending := []\<rparr>"

definition applyCommittedToCache :: "'v transforms \<Rightarrow> nat \<Rightarrow> ('v, 'a) collection \<Rightarrow> error option \<times> ('v, 'a) collection" where
  "applyCommittedToCache t r c = (case transformCache t r (col_cache c) of (x, k') \<Rightarrow> (x, c\<lparr>col_cache := k'\<rparr>))"

definition held_rev :: "action_context option \<Rightarrow> nat" where
  "held_rev cx = (case cx of Some x \<Rightarrow> cx_rev x | None \<Rightarrow> 0)"

definition getNextRev :: "('v, 'a) collection \<Rightarrow> nat" where
  "getNextRev c = held_rev (col_context c) + 1"

definition set_context :: "action_context option \<Rightarrow> ('v, 'a) collection \<Rightarrow> ('v, 'a) collection" where
  "set_context cx c = c\<lparr>col_source := (col_source c)\<lparr>ss_actionContext := cx\<rparr>\<rparr>"

definition committed_context :: "action_context option \<Rightarrow> action_id \<Rightarrow> nat \<Rightarrow> action_context" where
  "committed_context cx a r =
     \<lparr>cx_committed = (case cx of Some x \<Rightarrow> cx_committed x | None \<Rightarrow> []) @ [\<lparr>ar_actionId = a, ar_rev = r\<rparr>], cx_rev = r, cx_actionId = None\<rparr>"

definition recordCommitted :: "action_id \<Rightarrow> ('v, 'a) collection \<Rightarrow> nat \<times> ('v, 'a) collection" where
  "recordCommitted a c = (let r = getNextRev c in (r, set_context (Some (committed_context (col_context c) a r)) c))"

definition advanceContext :: "action_context option \<Rightarrow> source_state \<Rightarrow> source_state" where
  "advanceContext next s =
     (case next of
        None \<Rightarrow> s
      | Some nx \<Rightarrow>
          (case ss_actionContext s of
             Some current \<Rightarrow> if cx_rev nx < cx_rev current then s else s\<lparr>ss_actionContext := Some nx\<rparr>
           | None \<Rightarrow> s\<lparr>ss_actionContext := Some nx\<rparr>))"

section \<open>Opening\<close>

definition new_source :: "collection_id \<Rightarrow> action_context option \<Rightarrow> collector \<Rightarrow> source_state" where
  "new_source i cx coll = \<lparr>ss_collectionId = i, ss_actionContext = cx, ss_readRevisions = Map.empty, ss_collector = coll\<rparr>"

definition DefaultMaxSize :: nat where
  "DefaultMaxSize = 128"

definition bootstrapContext :: "('v, 'x, 's) itransactor \<Rightarrow> block_id option \<Rightarrow> source_state \<Rightarrow> 's \<Rightarrow> error option \<times> source_state \<times> 's" where
  \<comment> \<open>the second argument is \<open>header.tailId\<close>\<close>
  "bootstrapContext T tid s w =
     (case tid of
        None \<Rightarrow> (None, s, w)
      | Some i \<Rightarrow>
          (case it_get T [i] None w of
             (Inl e, w') \<Rightarrow> (Some (net_error_of e), s, w')
           | (Inr result, w') \<Rightarrow>
               (case map_of result i of
                  None \<Rightarrow> (None, s, w')
                | Some entry \<Rightarrow>
                    (case (en_unavailable entry, en_block entry) of
                       (Some reason, None) \<Rightarrow> (Some (source_error_of (BlockUnavailableError i reason)), s, w')
                     | _ \<Rightarrow>
                         (case en_unconfirmedAheadRev entry of
                            Some r \<Rightarrow> (Some (source_error_of (BlockPossiblyStaleError i r)), s, w')
                          | None \<Rightarrow>
                              (case en_latest entry of
                                 None \<Rightarrow> (None, s, w')
                               | Some l \<Rightarrow> (None, s\<lparr>ss_actionContext := Some \<lparr>cx_committed = [l], cx_rev = ar_rev l, cx_actionId = None\<rparr>\<rparr>, w')))))))"

definition probeHeader :: "('v, 'x, 'a, 's) col_env \<Rightarrow> collection_id \<Rightarrow> 's
    \<Rightarrow> (error + 'v block option) \<times> ('v, 'a) collection \<times> 's" where
  "probeHeader E i w =
     (let c = \<lparr>col_id = i, col_pending = [], col_source = new_source i None [],
               col_cache = new_cache (\<lambda>_. None) DefaultMaxSize [] [], col_tracker = new_tracker emptyTransforms\<rparr>
      in case source_read (ce_transactor E) (col_source c, w) i Value of (x, s', w') \<Rightarrow> (x, c\<lparr>col_source := s'\<rparr>, w'))"

definition attachToLog :: "('v, 'x, 'a, 's) col_env \<Rightarrow> 'v block \<Rightarrow> ('v, 'a) collection \<Rightarrow> 's \<Rightarrow> error option \<times> ('v, 'a) collection \<times> 's" where
  "attachToLog E hb c w =
     (case bootstrapContext (ce_transactor E) (ce_tailId E hb) (col_source c) w of
        (Some e, s1, w1) \<Rightarrow> (Some e, c\<lparr>col_source := s1\<rparr>, w1)
      | (None, s1, w1) \<Rightarrow>
          (case on_tracker E (ce_openLog E (col_id c)) (c\<lparr>col_source := s1\<rparr>) w1 of
             (Inl e, c2, w2) \<Rightarrow> (Some e, c2, w2)
           | (Inr False, c2, w2) \<Rightarrow> (Some (Err ''Log not found for collection ''), c2, w2)
           | (Inr True, c2, w2) \<Rightarrow>
               (case on_tracker E (ce_getActionContext E (col_id c)) c2 w2 of
                  (Inl e, c3, w3) \<Rightarrow> (Some e, c3, w3)
                | (Inr next, c3, w3) \<Rightarrow> (None, c3\<lparr>col_source := advanceContext next (col_source c3)\<rparr>, w3))))"

definition open_collection :: "('v, 'x, 'a, 's) col_env \<Rightarrow> collection_id \<Rightarrow> 's \<Rightarrow> (error + ('v, 'a) collection option) \<times> 's" where
  "open_collection E i w =
     (case probeHeader E i w of
        (Inl e, c, w1) \<Rightarrow> (Inl e, w1)
      | (Inr None, c, w1) \<Rightarrow> (Inr None, w1)
      | (Inr (Some hb), c, w1) \<Rightarrow>
          (case attachToLog E hb c w1 of (Some e, c2, w2) \<Rightarrow> (Inl e, w2) | (None, c2, w2) \<Rightarrow> (Inr (Some c2), w2)))"

definition createOrOpen :: "('v, 'x, 'a, 's) col_env \<Rightarrow> collection_id \<Rightarrow> 's \<Rightarrow> (error + ('v, 'a) collection) \<times> 's" where
  "createOrOpen E i w =
     (case probeHeader E i w of
        (Inl e, c, w1) \<Rightarrow> (Inl e, w1)
      | (Inr (Some hb), c, w1) \<Rightarrow>
          (case attachToLog E hb c w1 of (Some e, c2, w2) \<Rightarrow> (Inl e, w2) | (None, c2, w2) \<Rightarrow> (Inr c2, w2))
      | (Inr None, c, w1) \<Rightarrow>
          (case on_tracker E (ce_createHeaderBlock E i) c w1 of
             (Inl e, c2, w2) \<Rightarrow> (Inl e, w2)
           | (Inr hb, c2, w2) \<Rightarrow>
               (case on_tracker E (ce_openLog E i) (set_context None (c2\<lparr>col_tracker := tracker_insert hb (col_tracker c2)\<rparr>)) w2 of
                  (Inl e, c3, w3) \<Rightarrow> (Inl e, w3)
                | (Inr _, c3, w3) \<Rightarrow> (Inr c3, w3))))"

definition createReadTracker :: "'v transforms \<Rightarrow> bool \<Rightarrow> action_context option \<Rightarrow> ('v, 'a) collection
    \<Rightarrow> 'v tracker \<times> source_state \<times> 'v cache_source" where
  \<comment> \<open>\<open>recordReads\<close> shares the collector; otherwise the reads of the view are not recorded\<close>
  "createReadTracker t recordReads pinContext c =
     (let collector = (if recordReads then ss_collector (col_source c) else []);
          pin = (case pinContext of Some cx \<Rightarrow> Some cx | None \<Rightarrow> col_context c);
          seed = (case pinContext of Some cx \<Rightarrow> filter (\<lambda>(_, _, r). r \<le> cx_rev cx) (snapshotEntries (col_cache c))
                    | None \<Rightarrow> snapshotEntries (col_cache c))
      in (new_tracker t, new_source (col_id c) pin collector, new_cache (\<lambda>_. None) DefaultMaxSize collector seed))"

section \<open>Taking in what others committed\<close>

definition doFilterConflict :: "('v, 'x, 'a, 's) col_env \<Rightarrow> 'a \<Rightarrow> 'a list \<Rightarrow> 'a verdict" where
  "doFilterConflict E a potential = (case ce_filterConflict E of Some f \<Rightarrow> f a potential | None \<Rightarrow> Keep)"

fun effective :: "'a \<Rightarrow> 'a verdict \<Rightarrow> 'a list" where
  "effective a Keep = [a]"
| "effective a (Replace b) = [b]"
| "effective a Discard = []"

fun is_keep :: "'a verdict \<Rightarrow> bool" where
  "is_keep Keep = True"
| "is_keep _ = False"

definition absorb_entry :: "('v, 'x, 'a, 's) col_env \<Rightarrow> 'a action_entry \<Rightarrow> ('v, 'a) collection \<times> bool \<Rightarrow> ('v, 'a) collection \<times> bool" where
  \<comment> \<open>one round of the loop over the entries, with \<open>anyConflicts\<close>\<close>
  "absorb_entry E entry cb = (case cb of (c, anyConflicts) \<Rightarrow>
     (let verdict = (\<lambda>p. doFilterConflict E p (ae_actions entry));
          after = concat (map (\<lambda>p. effective p (verdict p)) (col_pending c));
          mutated = list_ex (\<lambda>p. \<not> is_keep (verdict p)) (col_pending c)
      in (c\<lparr>col_pending := after, col_cache := clear_ids (ae_blockIds entry) (col_cache c)\<rparr>,
          anyConflicts \<or> mutated \<or> tracker_conflicts (set (ae_blockIds entry)) (col_tracker c) \<noteq> [])))"

definition absorb_invalidations :: "invalidation_entry list \<Rightarrow> ('v, 'a) collection \<times> bool \<Rightarrow> ('v, 'a) collection \<times> bool" where
  "absorb_invalidations ivs cb = (case cb of (c, anyConflicts) \<Rightarrow>
     (if ivs = [] then (c, anyConflicts)
      else (c\<lparr>col_cache := clear_ids (js_set (concat (map (\<lambda>iv. map rb_blockId (iv_reverted iv)) ivs))) (col_cache c)\<rparr>,
            anyConflicts \<or> col_pending c \<noteq> [])))"

definition probe_latest :: "('v, 'x, 'a, 's) col_env \<Rightarrow> ('v, 'a) collection \<Rightarrow> 's
    \<Rightarrow> (error + 'v tracker \<times> source_state) \<times> 's" where
  \<comment> \<open>a source that sees to the end of the log, with the context of the committed tail\<close>
  "probe_latest E c w =
     (case run_prog (plain_source E) (TryGet (col_id c) Value Return) (new_tracker emptyTransforms) (new_source (col_id c) None [], w) of
        (Inl e, t, s, w1) \<Rightarrow> (Inl e, w1)
      | (Inr (Some hb), t, s, w1) \<Rightarrow>
          (case bootstrapContext (ce_transactor E) (ce_tailId E hb) s w1 of
             (Some e, s2, w2) \<Rightarrow> (Inl e, w2) | (None, s2, w2) \<Rightarrow> (Inr (t, s2), w2))
      | (Inr None, t, s, w1) \<Rightarrow>
          (case col_context c of
             Some cx \<Rightarrow> (Inl (Err ''CollectionHeaderVanishedError''), w1)
           | None \<Rightarrow> (Inr (t, s), w1)))"

definition read_entries :: "('v, 'x, 'a, 's) col_env \<Rightarrow> ('v, 'a) collection \<Rightarrow> 'v tracker \<Rightarrow> source_state \<Rightarrow> 's
    \<Rightarrow> (error + bool \<times> 'a action_entry list \<times> action_context option) \<times> 'v tracker \<times> source_state \<times> 's" where
  "read_entries E c t s w =
     (case run_prog (plain_source E) (ce_openLog E (col_id c)) t (s, w) of
        (Inl e, t1, s1, w1) \<Rightarrow> (Inl e, t1, s1, w1)
      | (Inr False, t1, s1, w1) \<Rightarrow> (Inr (False, [], None), t1, s1, w1)
      | (Inr True, t1, s1, w1) \<Rightarrow>
          (case run_prog (plain_source E) (ce_getFrom E (col_id c) (held_rev (col_context c))) t1 (s1, w1) of
             (Inl e, t2, s2, w2) \<Rightarrow> (Inl e, t2, s2, w2)
           | (Inr (es, cx), t2, s2, w2) \<Rightarrow> (Inr (True, es, cx), t2, s2, w2)))"

definition read_invalidations :: "('v, 'x, 'a, 's) col_env \<Rightarrow> bool \<Rightarrow> ('v, 'a) collection \<Rightarrow> 'v tracker \<Rightarrow> source_state \<Rightarrow> 's
    \<Rightarrow> (error + invalidation_entry list) \<times> 's" where
  "read_invalidations E opened c t s w =
     (if opened then (case run_prog (plain_source E) (ce_getInvalidationsFrom E (col_id c) (held_rev (col_context c))) t (s, w) of
                        (x, t1, s1, w1) \<Rightarrow> (x, w1))
      else (Inr [], w))"

definition updateInternal :: "('v, 'x, 'a, 's) col_env \<Rightarrow> ('v, 'a) collection \<Rightarrow> 's \<Rightarrow> error option \<times> ('v, 'a) collection \<times> 's" where
  "updateInternal E c w =
     (case probe_latest E c w of
        (Inl e, w1) \<Rightarrow> (Some e, c, w1)
      | (Inr (t, s), w1) \<Rightarrow>
          (case read_entries E c t s w1 of
             (Inl e, _, _, w2) \<Rightarrow> (Some e, c, w2)
           | (Inr (opened, es, cx), t2, s2, w2) \<Rightarrow>
               (case fold (absorb_entry E) es (c, False) of
                  (c3, anyConflicts) \<Rightarrow>
                    (case read_invalidations E opened c t2 s2 w2 of
                       (Inl e, w3) \<Rightarrow> (Some e, c3, w3)
                     | (Inr ivs, w3) \<Rightarrow>
                         (case absorb_invalidations ivs (c3, anyConflicts) of
                            (c4, anyConflicts') \<Rightarrow>
                              (let c5 = c4\<lparr>col_source := advanceContext cx (col_source c4)\<rparr>
                               in if anyConflicts' then replayActions E c5 w3 else (None, c5, w3)))))))"

section \<open>Synchronizing\<close>

definition jitteredBackoffMs :: "nat \<Rightarrow> nat \<Rightarrow> nat \<Rightarrow> rat \<Rightarrow> rat" where
  \<comment> \<open>with the default growth 2 and jitter 1/2\<close>
  "jitteredBackoffMs attempt baseMs capMs rand = of_nat (min (baseMs * 2 ^ attempt) capMs) * (1 - 1 / 2 * rand)"

record sync_options =
  sy_maxAttempts :: "nat option"
  sy_baseBackoffMs :: "nat option"
  sy_maxBackoffMs :: "nat option"
  sy_deadlineMs :: "nat option"

definition opt_or :: "'b option \<Rightarrow> 'b \<Rightarrow> 'b" where
  \<comment> \<open>\<open>x ?? d\<close>\<close>
  "opt_or x d = (case x of Some y \<Rightarrow> y | None \<Rightarrow> d)"

definition or_else :: "'b option \<Rightarrow> 'b option \<Rightarrow> 'b option" where
  "or_else x y = (case x of Some v \<Rightarrow> Some v | None \<Rightarrow> y)"

definition DefaultMaxAttempts :: nat where "DefaultMaxAttempts = 10"

definition max_attempts :: "sync_options \<Rightarrow> nat" where
  "max_attempts opts = opt_or (sy_maxAttempts opts) DefaultMaxAttempts"

definition backoff :: "('v, 'x, 'a, 's) col_env \<Rightarrow> sync_options \<Rightarrow> nat \<Rightarrow> 's \<Rightarrow> error option \<times> 's" where
  "backoff E opts attempt w =
     (case ce_rand E w of (r, w1) \<Rightarrow>
        ce_sleep E (jitteredBackoffMs attempt (opt_or (sy_baseBackoffMs opts) 100) (opt_or (sy_maxBackoffMs opts) 5000) r) w1)"

definition past_deadline :: "('v, 'x, 'a, 's) col_env \<Rightarrow> sync_options \<Rightarrow> nat \<Rightarrow> 's \<Rightarrow> bool" where
  "past_deadline E opts startedAt w = (case sy_deadlineMs opts of Some d \<Rightarrow> ce_now E w \<ge> startedAt + d | None \<Rightarrow> False)"

datatype sync_error = SyncFailed error | SyncRetryExhaustedError nat "string option" "stale_at option"

definition sync_attempt :: "('v, 'x, 'a, 's) col_env \<Rightarrow> action_id \<Rightarrow> nat \<Rightarrow> ('v, 'a) collection \<Rightarrow> 's
    \<Rightarrow> (error + 'v stale_failure option \<times> 'v transforms) \<times> ('v, 'a) collection \<times> 's" where
  \<comment> \<open>log the pending actions in a copy of the tracker, and transact its transforms\<close>
  "sync_attempt E a fails c w =
     (let scratch = c\<lparr>col_tracker := new_tracker (col_transforms c)\<rparr>;
          back = (\<lambda>c'. c'\<lparr>col_tracker := col_tracker c\<rparr>)
      in case on_tracker E (ce_openLog E (col_id c)) scratch w of
           (Inl e, c1, w1) \<Rightarrow> (Inl e, back c1, w1)
         | (Inr False, c1, w1) \<Rightarrow> (Inl (Err ''Log not found for collection ''), back c1, w1)
         | (Inr True, c1, w1) \<Rightarrow>
             (case on_tracker E (ce_addActions E (col_id c) (col_pending c) a (getNextRev c) [] None) c1 w1 of
                (Inl e, c2, w2) \<Rightarrow> (Inl e, back c2, w2)
              | (Inr tid, c2, w2) \<Rightarrow>
                  (case the (transact (as_ops (ce_transactor E)) (col_transforms c2) a (getNextRev c) (col_id c) tid
                               (clampPriority (Some (Num (of_nat fails)))) w2) of
                     (Inl e, w3) \<Rightarrow> (Inl (net_error_of e), back c2, w3)
                   | (Inr stale, w3) \<Rightarrow> (Inr (stale, col_transforms c2), back c2, w3))))"

definition sync_success :: "('v, 'x, 'a, 's) col_env \<Rightarrow> action_id \<Rightarrow> nat \<Rightarrow> nat \<Rightarrow> 'v transforms \<Rightarrow> ('v, 'a) collection \<Rightarrow> 's
    \<Rightarrow> error option \<times> ('v, 'a) collection \<times> 's" where
  \<comment> \<open>\<open>n\<close> is the length of the copy of \<open>pending\<close> that was logged\<close>
  "sync_success E a newRev n t c w =
     (case replayActions E (c\<lparr>col_pending := drop n (col_pending c)\<rparr>) w of
        (Some e, c1, w1) \<Rightarrow> (Some e, c1, w1)
      | (None, c1, w1) \<Rightarrow>
          (case applyCommittedToCache t newRev c1 of
             (Some e, c2) \<Rightarrow> (Some e, c2, w1)
           | (None, c2) \<Rightarrow> (None, set_context (Some (committed_context (col_context c2) a newRev)) c2, w1)))"

lemma hasUnsynced_simps [simp]:
  "hasUnsyncedChanges (c\<lparr>col_cache := k\<rparr>) = hasUnsyncedChanges c" "hasUnsyncedChanges (set_context cx c) = hasUnsyncedChanges c"
  by (simp_all add: hasUnsyncedChanges_def set_context_def)

lemma on_tracker_keeps: "on_tracker E m c w = (x, c', w') \<Longrightarrow> col_pending c' = col_pending c \<and> col_id c' = col_id c"
  by (auto simp: on_tracker_def split: prod.splits)

lemma sync_attempt_keeps:
  assumes "sync_attempt E a fails c w = (x, c', w')"
  shows "col_pending c' = col_pending c \<and> col_id c' = col_id c \<and> col_tracker c' = col_tracker c"
  using assms
  by (auto simp: sync_attempt_def Let_def simp del: clampPriority.simps split: prod.splits sum.splits bool.splits dest!: on_tracker_keeps)

lemma sync_success_clears:
  assumes "sync_success E a newRev n t c w = (None, c', w')" and "length (col_pending c) \<le> n"
  shows "\<not> hasUnsyncedChanges c'"
  using assms
  by (auto simp: sync_success_def replayActions_def applyCommittedToCache_def reset_tracker_def tracker_reset_def hasUnsyncedChanges_def
      set_context_def isTransformsEmpty_def emptyTransforms_def split: prod.splits option.splits)

function sync_loop :: "('v, 'x, 'a, 's) col_env \<Rightarrow> sync_options \<Rightarrow> nat \<Rightarrow> action_id \<Rightarrow> nat \<Rightarrow> string option \<Rightarrow> stale_at option
    \<Rightarrow> ('v, 'a) collection \<Rightarrow> 's \<Rightarrow> sync_error option \<times> ('v, 'a) collection \<times> 's" where
  "sync_loop E opts startedAt a fails lastReason lastStaleAt c w =
     (if \<not> hasUnsyncedChanges c then (None, c, w)
      else case ce_aborted E w of Some e \<Rightarrow> (Some (SyncFailed e), c, w)
      | None \<Rightarrow>
      (if past_deadline E opts startedAt w then (Some (SyncRetryExhaustedError fails (Some (opt_or lastReason ''deadline exceeded'')) lastStaleAt), c, w)
       else case sync_attempt E a fails c w of
          (Inl e, c1, w1) \<Rightarrow> (Some (SyncFailed e), c1, w1)
        | (Inr (Some f, _), c1, w1) \<Rightarrow>
            (let reason = or_else (sf_reason f) lastReason; staleAt = or_else (sf_staleAt f) lastStaleAt
             in if fails + 1 \<ge> max_attempts opts then (Some (SyncRetryExhaustedError (fails + 1) reason staleAt), c1, w1)
                else case backoff E opts fails w1 of
                    (Some e, w2) \<Rightarrow> (Some (SyncFailed e), c1, w2)
                  | (None, w2) \<Rightarrow>
                      (case updateInternal E c1 w2 of
                         (Some e, c3, w3) \<Rightarrow> (Some (SyncFailed e), c3, w3)
                       | (None, c3, w3) \<Rightarrow> sync_loop E opts startedAt a (fails + 1) reason staleAt c3 w3))
        | (Inr (None, t), c1, w1) \<Rightarrow>
            (case sync_success E a (getNextRev c) (length (col_pending c)) t c1 w1 of
               (Some e, c2, w2) \<Rightarrow> (Some (SyncFailed e), c2, w2)
             | (None, c2, w2) \<Rightarrow> sync_loop E opts startedAt a 0 None None c2 w2)))"
  by pat_completeness auto

termination
  by (relation "measure (\<lambda>(E, opts, _, _, fails, _, _, c, _). if hasUnsyncedChanges c then Suc (max_attempts opts - fails) else 0)")
    (auto simp: Let_def dest!: sym [of _ "sync_attempt _ _ _ _ _"] sym [of _ "sync_success _ _ _ _ _ _ _"] sync_attempt_keeps sync_success_clears)

declare sync_loop.simps [simp del]

definition sync :: "('v, 'x, 'a, 's) col_env \<Rightarrow> sync_options \<Rightarrow> ('v, 'a) collection \<Rightarrow> 's \<Rightarrow> sync_error option \<times> ('v, 'a) collection \<times> 's" where
  "sync E opts c w = (case ce_draw E w of (a, w1) \<Rightarrow> sync_loop E opts (ce_now E w1) a 0 None None c w1)"

definition updateAndSync :: "('v, 'x, 'a, 's) col_env \<Rightarrow> sync_options \<Rightarrow> ('v, 'a) collection \<Rightarrow> 's
    \<Rightarrow> sync_error option \<times> ('v, 'a) collection \<times> 's" where
  "updateAndSync E opts c w =
     (case updateInternal E c w of
        (Some e, c1, w1) \<Rightarrow> (Some (SyncFailed e), c1, w1)
      | (None, c1, w1) \<Rightarrow> sync E opts c1 w1)"

definition selectLog :: "('v, 'x, 'a, 's) col_env \<Rightarrow> bool \<Rightarrow> ('v, 'a) collection \<Rightarrow> 's \<Rightarrow> (error + 'a list) \<times> ('v, 'a) collection \<times> 's" where
  "selectLog E forward c w =
     (case on_tracker E (ce_openLog E (col_id c)) c w of
        (Inl e, c1, w1) \<Rightarrow> (Inl e, c1, w1)
      | (Inr False, c1, w1) \<Rightarrow> (Inl (Err ''Log not found for collection ''), c1, w1)
      | (Inr True, c1, w1) \<Rightarrow>
          (case on_tracker E (ce_selectEntries E (col_id c) forward) c1 w1 of
             (Inl e, c2, w2) \<Rightarrow> (Inl e, c2, w2)
           | (Inr es, c2, w2) \<Rightarrow>
               (Inr (concat (map (\<lambda>en. case le_action en of None \<Rightarrow> [] | Some x \<Rightarrow> if forward then ae_actions x else rev (ae_actions x)) es)), c2, w2)))"

section \<open>What code on the blocks leaves alone\<close>

locale kept_source =
  fixes S :: "('w, 'v) block_source" and same :: "'w \<Rightarrow> 'w \<Rightarrow> bool"
  assumes same_refl: "same w w" and same_trans: "same w1 w2 \<Longrightarrow> same w2 w3 \<Longrightarrow> same w1 w3"
    and same_get: "src_tryGet (so_source S) w i p = (x, w') \<Longrightarrow> same w w'"
    and same_id: "so_generateId S w = (i, w') \<Longrightarrow> same w w'"
    and same_mark: "same w (so_markReadValue S i w)"
begin

lemma same_tracker_get: "tracker_tryGet (so_source S) w t i p = (x, w', t') \<Longrightarrow> same w w'"
  by (auto simp: tracker_tryGet_def tracker_load_def Let_def intro: same_refl same_get
      split: prod.splits option.splits sum.splits if_splits)

lemma same_run: "run_prog S m t w = (x, t', w') \<Longrightarrow> same w w'"
proof (induction m arbitrary: t w)
  case (TryGet i p k)
  obtain y w1 t1 where g: "tracker_tryGet (so_source S) w t i p = (y, w1, t1)" by (metis prod_cases3)
  then have "same w w1" by (rule same_tracker_get)
  moreover have "same w1 w'"
    using TryGet g by (cases y) (auto intro: same_refl, blast)
  ultimately show ?case by (rule same_trans)
next
  case (GenerateId k)
  obtain i w1 where g: "so_generateId S w = (i, w1)" by (metis surj_pair)
  then have "same w1 w'" using GenerateId by simp blast
  then show ?case by (rule same_trans [OF same_id [OF g]])
next
  case (MarkReadValue i k)
  then show ?case using same_trans [OF same_mark] by simp blast
next
  case (BlockIds k)
  then show ?case by simp blast
qed (auto intro: same_refl split: prod.splits option.splits)

end

lemma tracker_tryGet_transforms:
  "tracker_tryGet S w t i p = (x, w', t') \<Longrightarrow> trk_transforms t' = trk_transforms t"
  by (auto simp: tracker_tryGet_def tracker_load_def Let_def split: prod.splits option.splits sum.splits if_splits)

definition same_context :: "source_state \<Rightarrow> source_state \<Rightarrow> bool" where
  "same_context s s' \<longleftrightarrow> ss_actionContext s' = ss_actionContext s \<and> ss_collectionId s' = ss_collectionId s"

lemma source_read_context:
  assumes "source_read T sw i p = (x, s', w')"
  shows "same_context (fst sw) s'"
  using assms
  by (auto simp: source_read_def source_tryGet_def as_ops_def read_entry_def same_context_def Let_def
      split: prod.splits sum.splits option.splits)

interpretation ps: kept_source "plain_source E" "\<lambda>z z'. same_context (fst z) (fst z')" for E
  by unfold_locales
    (auto simp: same_context_def plain_source_def split: prod.splits dest: source_read_context [unfolded same_context_def])

interpretation cs: kept_source "cached_source E" "\<lambda>z z'. same_context (fst z) (fst z')" for E
proof
  fix z i p x z'
  assume "src_tryGet (so_source (cached_source E)) z i p = (x, z')"
  then show "same_context (fst z) (fst z')"
    by (auto simp: cached_source_def cached_read_def same_context_def split: prod.splits option.splits sum.splits
        dest: source_read_context [unfolded same_context_def])
qed (auto simp: same_context_def cached_source_def split: prod.splits)

interpretation ts: kept_source "tracker_source (cached_source E)"
    "\<lambda>z z'. trk_transforms (fst z') = trk_transforms (fst z) \<and> same_context (fst (snd z)) (fst (snd z'))" for E
proof
  fix z i p x z'
  assume "src_tryGet (so_source (tracker_source (cached_source E))) z i p = (x, z')"
  then show "trk_transforms (fst z') = trk_transforms (fst z) \<and> same_context (fst (snd z)) (fst (snd z'))"
    by (auto simp: tracker_source_def split: prod.splits dest: tracker_tryGet_transforms cs.same_tracker_get)
qed (auto simp: same_context_def cached_source_def tracker_source_def split: prod.splits)


section \<open>What the operations keep\<close>

definition kept :: "('v, 'a) collection \<Rightarrow> ('v, 'a) collection \<Rightarrow> bool" where
  \<comment> \<open>the identity and the revision of the collection\<close>
  "kept c c' \<longleftrightarrow> col_id c' = col_id c \<and> same_context (col_source c) (col_source c')"

lemma kept_refl [simp]: "kept c c"
  and kept_trans [trans]: "kept c1 c2 \<Longrightarrow> kept c2 c3 \<Longrightarrow> kept c1 c3"
  and kept_updates [simp]: "kept c (c'\<lparr>col_tracker := t\<rparr>) = kept c c'" "kept c (c'\<lparr>col_pending := ps\<rparr>) = kept c c'"
    "kept c (c'\<lparr>col_cache := k\<rparr>) = kept c c'" "kept (c\<lparr>col_tracker := t\<rparr>) c' = kept c c'" "kept (c\<lparr>col_pending := ps\<rparr>) c' = kept c c'"
    "kept c (reset_tracker tr c') = kept c c'" "kept (reset_tracker tr c) c' = kept c c'"
  by (auto simp: kept_def same_context_def reset_tracker_def)

lemma kept_context: "kept c c' \<Longrightarrow> col_context c' = col_context c"
  by (simp add: kept_def same_context_def)

lemma on_tracker_kept: "on_tracker E m c w = (x, c', w') \<Longrightarrow> kept c c' \<and> col_pending c' = col_pending c"
  by (auto simp: on_tracker_def kept_def split: prod.splits dest: cs.same_run)

lemma run_handlers_keep:
  "run_handlers E as ac z = (e, ac', z') \<Longrightarrow> trk_transforms (fst z') = trk_transforms (fst z) \<and> same_context (fst (snd z)) (fst (snd z'))"
proof (induction E as ac z rule: run_handlers.induct)
  case (2 E a as ac z)
  show ?case
  proof (cases "ce_handler E a")
    case (Some h)
    obtain x ac1 z1 where r: "run_prog (tracker_source (cached_source E)) h ac z = (x, ac1, z1)" by (metis prod_cases3)
    from ts.same_run [OF r] 2(2) r Some 2(1) [OF Some r [symmetric]] show ?thesis
      by (cases x) (auto simp: same_context_def)
  qed (use 2(2) in \<open>auto simp: same_context_def\<close>)
qed (auto simp: same_context_def)

lemma internalTransact_cases:
  assumes "internalTransact E as c w = (e, c', w')"
  shows "kept c c' \<and> col_pending c' = col_pending c
    \<and> (e \<noteq> None \<and> col_transforms c' = col_transforms c
       \<or> (\<exists>atomic t. trk_transforms t = col_transforms c \<and> atomic_commit atomic t = (e, col_tracker c')))"
proof -
  obtain x ac t s k w1 where r: "run_handlers E as (new_tracker emptyTransforms) (col_tracker c, col_source c, col_cache c, w) = (x, ac, t, s, k, w1)"
    by (metis prod_cases6)
  note keep = run_handlers_keep [OF r]
  show ?thesis
  proof (cases x)
    case (Some err)
    then show ?thesis using assms r keep by (auto simp: internalTransact_def kept_def)
  next
    case None
    obtain y t2 where "atomic_commit ac t = (y, t2)" by (metis surj_pair)
    with None show ?thesis using assms r keep by (auto simp: internalTransact_def kept_def)
  qed
qed

lemmas internalTransact_kept = internalTransact_cases [THEN conjunct1]

lemma replay_loop_kept: "replay_loop E as c w = (e, c', w') \<Longrightarrow> kept c c' \<and> col_pending c' = col_pending c"
proof (induction E as c w rule: replay_loop.induct)
  case (2 E a as c w)
  obtain x c1 w1 where t: "internalTransact E [a] c w = (x, c1, w1)" by (metis prod_cases3)
  with internalTransact_cases [OF t] 2 show ?case by (cases x) (auto intro: kept_trans)
qed simp

lemma replayActions_kept: "replayActions E c w = (e, c', w') \<Longrightarrow> kept c c' \<and> col_pending c' = col_pending c"
  by (auto simp: replayActions_def reset_tracker_def dest!: replay_loop_kept)

lemma absorb_entry_kept: "kept c (fst (fold (absorb_entry E) es (c', b))) = kept c c'"
  by (induction es arbitrary: c' b) (auto simp: absorb_entry_def Let_def)

lemma absorb_invalidations_kept: "kept c (fst (absorb_invalidations ivs (c', b))) = kept c c'"
  "col_pending (fst (absorb_invalidations ivs (c', b))) = col_pending c'"
  by (simp_all add: absorb_invalidations_def)

definition not_lowered :: "('v, 'a) collection \<Rightarrow> ('v, 'a) collection \<Rightarrow> bool" where
  "not_lowered c c' \<longleftrightarrow> col_id c' = col_id c \<and> held_rev (col_context c) \<le> held_rev (col_context c') \<and> (col_context c' = None \<longrightarrow> col_context c = None)"

lemma kept_not_lowered: "kept c c' \<Longrightarrow> not_lowered c c'"
  by (simp add: kept_def same_context_def not_lowered_def)

lemma not_lowered_trans [trans]: "not_lowered c1 c2 \<Longrightarrow> not_lowered c2 c3 \<Longrightarrow> not_lowered c1 c3"
  by (auto simp: not_lowered_def)

lemma advance_not_lowered: "not_lowered c (c\<lparr>col_source := advanceContext cx (col_source c)\<rparr>)"
  by (auto simp: not_lowered_def advanceContext_def held_rev_def split: option.splits)

lemma updateInternal_not_lowered:
  assumes "updateInternal E c w = (e, c', w')"
  shows "not_lowered c c'"
proof -
  obtain x w1 where p: "probe_latest E c w = (x, w1)" by (metis surj_pair)
  show ?thesis
  proof (cases x)
    case (Inl err)
    then show ?thesis using assms p by (auto simp: updateInternal_def kept_not_lowered)
  next
    case (Inr ts)
    obtain t s y t2 s2 w2 where ts: "ts = (t, s)" and r: "read_entries E c t s w1 = (y, t2, s2, w2)" by (metis prod_cases4 surj_pair)
    show ?thesis
    proof (cases y)
      case (Inl err)
      then show ?thesis using assms p Inr ts r by (auto simp: updateInternal_def kept_not_lowered)
    next
      case y: (Inr oec)
      obtain opened es cx where oec: "oec = (opened, es, cx)" by (metis prod_cases3)
      define c3 where "c3 = fst (fold (absorb_entry E) es (c, False))"
      obtain b3 where f: "fold (absorb_entry E) es (c, False) = (c3, b3)" unfolding c3_def by (metis prod.collapse)
      have k3: "kept c c3" by (simp add: c3_def absorb_entry_kept)
      obtain z w3 where iv: "read_invalidations E opened c t2 s2 w2 = (z, w3)" by (metis surj_pair)
      show ?thesis
      proof (cases z)
        case (Inl err)
        then show ?thesis using assms p Inr ts r y oec f iv k3 by (auto simp: updateInternal_def kept_not_lowered)
      next
        case z: (Inr ivs)
        obtain c4 b4 where a: "absorb_invalidations ivs (c3, b3) = (c4, b4)" by (metis surj_pair)
        have "kept c c4" using k3 absorb_invalidations_kept(1) [of c ivs c3 b3] a by simp
        then have nl: "not_lowered c (c4\<lparr>col_source := advanceContext cx (col_source c4)\<rparr>)"
          by (rule not_lowered_trans [OF kept_not_lowered advance_not_lowered])
        show ?thesis using assms p Inr ts r y oec f iv z a nl
          by (cases b4) (auto simp: updateInternal_def Let_def intro: not_lowered_trans [OF nl kept_not_lowered] dest!: replayActions_kept)
      qed
    qed
  qed
qed

section \<open>How a synchronization goes\<close>

lemma as_ops_transact: "transact (as_ops T) t a r h tid pr w = Some (the (transact (as_ops T) t a r h tid pr w))"
  using transact_total [of "as_ops T" t a r h tid pr w] by (simp add: as_ops_def)

definition entry_sent :: "('v, 'x, 'a, 's) col_env \<Rightarrow> action_id \<Rightarrow> nat \<Rightarrow> ('v, 'a) collection \<Rightarrow> 's \<Rightarrow> 'v stale_failure option
    \<Rightarrow> ('v, 'a) collection \<Rightarrow> 's \<Rightarrow> bool" where
  \<comment> \<open>the log entry of the pending actions of \<open>c\<close> was added to a copy of exactly its staged blocks, and the result was transacted at
    its next revision with the priority of attempt \<open>k\<close>, which answered \<open>stale\<close>; the staged blocks themselves are still those of \<open>c\<close>\<close>
  "entry_sent E a k c w stale c' w' \<longleftrightarrow> (\<exists>c2 w2 tid c3 w3.
     on_tracker E (ce_openLog E (col_id c)) (c\<lparr>col_tracker := new_tracker (col_transforms c)\<rparr>) w = (Inr True, c2, w2)
     \<and> on_tracker E (ce_addActions E (col_id c) (col_pending c) a (getNextRev c) [] None) c2 w2 = (Inr tid, c3, w3)
     \<and> transact (as_ops (ce_transactor E)) (col_transforms c3) a (getNextRev c) (col_id c) tid (clampPriority (Some (Num (of_nat k)))) w3
         = Some (Inr stale, w')
     \<and> c' = c3\<lparr>col_tracker := col_tracker c\<rparr>)"

lemma sync_attempt_cases:
  assumes "sync_attempt E a fails c w = (x, c1, w1)"
  shows "kept c c1 \<and> (case x of Inl _ \<Rightarrow> True | Inr (stale, t) \<Rightarrow> entry_sent E a fails c w stale c1 w1)"
proof -
  define sc where "sc = c\<lparr>col_tracker := new_tracker (col_transforms c)\<rparr>"
  obtain y c2 w2 where o: "on_tracker E (ce_openLog E (col_id c)) sc w = (y, c2, w2)" by (metis prod_cases3)
  have k2: "kept c c2" using on_tracker_kept [OF o] by (simp add: sc_def)
  show ?thesis
  proof (cases "y = Inr True")
    case False
    then show ?thesis using assms o k2
      by (cases y) (auto simp: sync_attempt_def Let_def sc_def [symmetric] simp del: clampPriority.simps split: bool.splits)
  next
    case True
    obtain z c3 w3 where ad: "on_tracker E (ce_addActions E (col_id c) (col_pending c) a (getNextRev c) [] None) c2 w2 = (z, c3, w3)"
      by (metis prod_cases3)
    have k3: "kept c c3" using kept_trans [OF k2] on_tracker_kept [OF ad] by blast
    show ?thesis
    proof (cases z)
      case (Inl e)
      then show ?thesis using assms o True ad k3 by (auto simp: sync_attempt_def Let_def sc_def [symmetric] simp del: clampPriority.simps)
    next
      case (Inr tid)
      let ?pr = "clampPriority (Some (Num (of_nat fails)))"
      obtain u w4 where u: "the (transact (as_ops (ce_transactor E)) (col_transforms c3) a (getNextRev c) (col_id c) tid ?pr w3) = (u, w4)"
        by (metis surj_pair)
      then have "transact (as_ops (ce_transactor E)) (col_transforms c3) a (getNextRev c) (col_id c) tid ?pr w3 = Some (u, w4)"
        by (metis as_ops_transact)
      then show ?thesis using assms o True ad Inr u k3
        by (cases u) (auto simp: sync_attempt_def entry_sent_def Let_def sc_def [symmetric] simp del: clampPriority.simps)
    qed
  qed
qed

lemma sync_success_result:
  assumes "sync_success E a newRev (length (col_pending c)) t c w = (x, c', w')"
  shows "w' = w \<and> col_id c' = col_id c \<and> col_pending c' = []
    \<and> col_context c' = (if x = None then Some (committed_context (col_context c) a newRev) else col_context c)"
  using assms
  by (auto simp: sync_success_def replayActions_def applyCommittedToCache_def reset_tracker_def set_context_def
      split: prod.splits option.splits)

lemma sync_loop_cases [case_names idle stopped updating retried landed]:
  assumes "sync_loop E opts st a fails lr ls c w = (res, c', w')"
  obtains "\<not> hasUnsyncedChanges c" "res = None" "c' = c" "w' = w"
  | err where "hasUnsyncedChanges c" "res = Some err" "kept c c'" "col_pending c' = col_pending c" "col_tracker c' = col_tracker c"
  | err c1 w2 e where "hasUnsyncedChanges c" "res = Some err" "kept c c1" "col_pending c1 = col_pending c" "updateInternal E c1 w2 = (Some e, c', w')"
  | f c1 w1 w2 c3 w3 lr' ls' where "hasUnsyncedChanges c" "kept c c1" "col_pending c1 = col_pending c" "updateInternal E c1 w2 = (None, c3, w3)"
      "entry_sent E a fails c w (Some f) c1 w1" "backoff E opts fails w1 = (None, w2)"
      "fails + 1 < max_attempts opts" "sync_loop E opts st a (fails + 1) lr' ls' c3 w3 = (res, c', w')"
  | c1 t w1 x where "hasUnsyncedChanges c" "sync_attempt E a fails c w = (Inr (None, t), c1, w1)"
      "sync_success E a (getNextRev c) (length (col_pending c)) t c1 w1 = (x, c', w')" "res = map_option SyncFailed x"
proof -
  note unf = assms [unfolded sync_loop.simps [of E opts st a fails lr ls c w]]
  show thesis
  proof (cases "\<not> hasUnsyncedChanges c \<or> ce_aborted E w \<noteq> None \<or> past_deadline E opts st w")
    case True
    then show thesis using unf that(1,2) by (auto split: if_splits option.splits)
  next
    case False
    obtain x c1 w1 where at: "sync_attempt E a fails c w = (x, c1, w1)" by (metis prod_cases3)
    have k: "kept c c1" "col_pending c1 = col_pending c" "col_tracker c1 = col_tracker c"
      using sync_attempt_cases [OF at] sync_attempt_keeps [OF at] by auto
    consider (err) e where "x = Inl e" | (stale) f t where "x = Inr (Some f, t)" | (ok) t where "x = Inr (None, t)"
      by (cases x) (auto, metis option.exhaust)
    then show thesis
    proof cases
      case err
      then show thesis using unf False at k that(2) by auto
    next
      case (stale f t)
      obtain b w2 where bo: "backoff E opts fails w1 = (b, w2)" by (metis surj_pair)
      obtain u c3 w3 where up: "updateInternal E c1 w2 = (u, c3, w3)" by (metis prod_cases3)
      show thesis
      proof (cases "fails + 1 \<ge> max_attempts opts \<or> b \<noteq> None")
        case True
        then show thesis using unf False at stale bo k that(2) by (auto simp: Let_def split: if_splits)
      next
        case nb: False
        then show thesis using unf False at stale bo up k that(3) [of _ c1 w2] that(4) [of c1 w2 c3 w3 f w1]
            sync_attempt_cases [OF at]
          by (cases u) (auto simp: Let_def)
      qed
    next
      case (ok t)
      obtain y c2 w2 where s: "sync_success E a (getNextRev c) (length (col_pending c)) t c1 w1 = (y, c2, w2)" by (metis prod_cases3)
      have "(res, c', w') = (map_option SyncFailed y, c2, w2)"
      proof (cases y)
        case None
        then have "\<not> hasUnsyncedChanges c2" using sync_success_clears [OF s [unfolded None]] k by simp
        then show ?thesis using unf False at ok s None by (simp add: sync_loop.simps [of _ _ _ _ 0])
      qed (use unf False at ok s in auto)
      then show thesis using that(5) [OF _ at [unfolded ok], of y] s False by (cases y) auto
    qed
  qed
qed

inductive landed :: "('v, 'x, 'a, 's) col_env \<Rightarrow> sync_options \<Rightarrow> action_id \<Rightarrow> nat \<Rightarrow> ('v, 'a) collection \<Rightarrow> 's
    \<Rightarrow> ('v, 'a) collection \<Rightarrow> 's \<Rightarrow> bool" for E opts a where
  \<comment> \<open>from attempt \<open>k\<close> on \<open>c\<close>, refused attempts were each followed by an update, which replays the pending actions, and the attempt on
    \<open>c'\<close> was committed, with \<open>w'\<close> the world its commit left\<close>
  commits: "entry_sent E a k c w None c1 w' \<Longrightarrow> landed E opts a k c w c w'"
| retries: "entry_sent E a k c w (Some f) c1 w1 \<Longrightarrow> backoff E opts k w1 = (None, w2) \<Longrightarrow> updateInternal E c1 w2 = (None, c2, w3)
    \<Longrightarrow> landed E opts a (Suc k) c2 w3 c' w' \<Longrightarrow> landed E opts a k c w c' w'"

lemma update_keeps_pending:
  assumes "updateInternal E c w = (e, c', w')" and "ce_filterConflict E = None"
  shows "col_pending c' = col_pending c"
proof -
  have fold: "col_pending (fst (fold (absorb_entry E) es (c, b))) = col_pending c" for es c b
    using assms(2) by (induction es arbitrary: c b) (auto simp: absorb_entry_def doFilterConflict_def Let_def)
  show ?thesis using assms(1)
    by (auto simp: updateInternal_def Let_def split: prod.splits sum.splits if_splits dest!: replayActions_kept)
      (metis fold fst_conv absorb_invalidations_kept(2))+
qed

definition sync_outcome :: "('v, 'x, 'a, 's) col_env \<Rightarrow> sync_options \<Rightarrow> action_id \<Rightarrow> nat \<Rightarrow> ('v, 'a) collection \<Rightarrow> 's
    \<Rightarrow> sync_error option \<Rightarrow> ('v, 'a) collection \<Rightarrow> 's \<Rightarrow> bool" where
  "sync_outcome E opts a k c w res c' w' \<longleftrightarrow>
     (let commit = (\<lambda>c1. landed E opts a k c w c1 w' \<and> not_lowered c c1 \<and> col_pending c1 = col_pending c)
      in if res = None
         then \<not> hasUnsyncedChanges c'
            \<and> (\<exists>c1. commit c1 \<and> col_context c' = Some (committed_context (col_context c1) a (getNextRev c1)))
         else col_pending c' = col_pending c \<or> (\<exists>c1 e. commit c1 \<and> res = Some (SyncFailed e) \<and> col_context c' = col_context c1))"

lemma sync_outcome_retry:
  assumes "entry_sent E a k c w (Some f) c1 w1" "backoff E opts k w1 = (None, w2)" "updateInternal E c1 w2 = (None, c2, w3)"
    and "not_lowered c c2" "col_pending c2 = col_pending c" "sync_outcome E opts a (Suc k) c2 w3 res c' w'"
  shows "sync_outcome E opts a k c w res c' w'"
proof -
  note r = landed.retries [OF assms(1-3)] and n = not_lowered_trans [OF assms(4)]
  show ?thesis using assms(5,6) unfolding sync_outcome_def Let_def by (auto split: if_splits dest: r n)
qed

lemma sync_loop_result:
  assumes "sync_loop E opts st a fails lr ls c w = (res, c', w')"
  shows "not_lowered c c' \<and> (res = None \<longrightarrow> \<not> hasUnsyncedChanges c')
    \<and> (ce_filterConflict E = None \<and> col_pending c \<noteq> [] \<longrightarrow> sync_outcome E opts a fails c w res c' w')"
  using assms
proof (induction "max_attempts opts - fails" arbitrary: fails lr ls c w rule: less_induct)
  case less
  show ?case using less.prems
  proof (cases rule: sync_loop_cases)
    case idle
    then show ?thesis by (auto simp: kept_not_lowered hasUnsyncedChanges_def)
  next
    case (stopped err)
    then show ?thesis by (auto simp: kept_not_lowered sync_outcome_def)
  next
    case (updating err c1 w2 e)
    then show ?thesis using updateInternal_not_lowered [OF updating(5)] not_lowered_trans [OF kept_not_lowered [OF updating(3)]]
        update_keeps_pending [OF updating(5)] by (auto simp: sync_outcome_def)
  next
    case (retried f c1 w1 w2 c3 w3 lr' ls')
    have nl: "not_lowered c c3" using retried updateInternal_not_lowered kept_not_lowered not_lowered_trans by metis
    have pend: "ce_filterConflict E = None \<longrightarrow> col_pending c3 = col_pending c"
      using update_keeps_pending [OF retried(4)] retried(3) by simp
    have less': "max_attempts opts - (fails + 1) < max_attempts opts - fails" using retried(7) by linarith
    note ih = less.hyps [OF less' retried(8)]
    show ?thesis using ih pend not_lowered_trans [OF nl] sync_outcome_retry [OF retried(5,6,4) nl] by auto
  next
    case (landed c1 t w1 x)
    have k: "kept c c1" "col_pending c1 = col_pending c" and tr: "entry_sent E a fails c w None c1 w1"
      using sync_attempt_cases [OF landed(2)] sync_attempt_keeps [OF landed(2)] by auto
    note r = sync_success_result [OF landed(3) [folded k(2)]]
    have l: "landed E opts a fails c w c w'" using landed.commits [OF tr] r by simp
    have "not_lowered c c'" using r k(1) by (auto simp: not_lowered_def kept_def same_context_def getNextRev_def committed_context_def held_rev_def)
    moreover have "\<not> hasUnsyncedChanges c'" if "x = None"
      using sync_success_clears [OF landed(3) [unfolded that]] k(2) by simp
    moreover have "not_lowered c c" by (simp add: kept_not_lowered)
    ultimately show ?thesis using l r landed(4) kept_context [OF k(1)] by (auto simp: sync_outcome_def)
  qed
qed

section \<open>Properties\<close>

text \<open>C21. A revision that a collection holds is never given up: whatever the other peers answer, staging actions, taking in the changes of
  others and synchronizing, successful or not, leave the revision of the collection where it was or move it forward.\<close>

theorem revision_never_lowered:
  "not_lowered c (fst (snd (act E as c w))) \<and> not_lowered c (fst (snd (updateInternal E c w))) \<and> not_lowered c (fst (snd (updateAndSync E opts c w)))"
proof (intro conjI)
  obtain x c1 w1 where "internalTransact E as c w = (x, c1, w1)" by (metis prod_cases3)
  then show "not_lowered c (fst (snd (act E as c w)))"
    by (auto simp: act_def kept_not_lowered split: option.splits dest!: internalTransact_kept)
  obtain y c2 w2 where u: "updateInternal E c w = (y, c2, w2)" by (metis prod_cases3)
  then have nl: "not_lowered c c2" by (rule updateInternal_not_lowered)
  then show "not_lowered c (fst (snd (updateInternal E c w)))" by (simp add: u)
  obtain a w3 where d: "ce_draw E w2 = (a, w3)" by (metis surj_pair)
  obtain z c4 w4 where s: "sync_loop E opts (ce_now E w3) a 0 None None c2 w3 = (z, c4, w4)" by (metis prod_cases3)
  then have "not_lowered c2 c4" by (rule sync_loop_result [THEN conjunct1])
  then show "not_lowered c (fst (snd (updateAndSync E opts c w)))"
    using u nl d s not_lowered_trans [OF nl] by (auto simp: updateAndSync_def sync_def split: option.splits)
qed

text \<open>C20. What a synchronization of a collection with pending actions and no conflict filter does. When it succeeds, nothing is left
  staged, and the last thing done was the successful transaction of one log entry for exactly these actions together with the staged blocks: on
  the first attempt the blocks staged when it was called, on a later one the blocks that the update after each refused attempt staged anew for
  the same actions. The collection then holds the revision of that transaction. When it fails, the actions are still pending, unless the
  transaction had been committed and only the work after it (replaying actions, refreshing the cache) failed; the revision held is then not
  advanced.\<close>

theorem sync_commits_or_keeps_pending:
  assumes "sync E opts c w = (res, c', w')" and "ce_filterConflict E = None" and "col_pending c \<noteq> []" and "ce_draw E w = (a, w1)"
  shows "if res = None
    then \<not> hasUnsyncedChanges c'
      \<and> (\<exists>c1. landed E opts a 0 c w1 c1 w' \<and> not_lowered c c1 \<and> col_pending c1 = col_pending c
           \<and> col_context c' = Some (committed_context (col_context c1) a (getNextRev c1)))
    else col_pending c' = col_pending c
      \<or> (\<exists>c1 e. landed E opts a 0 c w1 c1 w' \<and> not_lowered c c1 \<and> col_pending c1 = col_pending c
           \<and> res = Some (SyncFailed e) \<and> col_context c' = col_context c1)"
proof -
  have "sync_loop E opts (ce_now E w1) a 0 None None c w1 = (res, c', w')" using assms(1,4) by (simp add: sync_def)
  from sync_loop_result [OF this] have "sync_outcome E opts a 0 c w1 res c' w'" using assms(2,3) by simp
  then show ?thesis unfolding sync_outcome_def Let_def by (auto split: if_splits)
qed

definition sample_itransactor :: "(block_id list \<Rightarrow> bool) \<Rightarrow> (block_id list \<Rightarrow> bool) \<Rightarrow> (nat, 'x, (string \<times> block_id list) list) itransactor" where
  \<comment> \<open>a transactor without blocks that logs what it is sent; the arguments are the pends and commits it accepts\<close>
  "sample_itransactor pends commits =
     (let stale = \<lparr>sf_reason = None, sf_missing = None, sf_pending = None, sf_conflict = Some True, sf_staleAt = None\<rparr>
      in \<lparr>it_get = \<lambda>ids cx w. (Inr [], w),
          it_pend = \<lambda>rq w. (let ids = blockIdsForTransforms (pr_transforms rq)
                           in (Inr (if pends ids then NPendSuccess [] ids else NPendStale stale), w @ [(''pend'', ids)])),
          it_commit = \<lambda>rq w. (Inr (if commits (nc_blockIds rq) then NCommitSuccess else NCommitStale stale), w @ [(''commit'', nc_blockIds rq)]),
          it_cancel = \<lambda>a ids w. (Inr (), w @ [(''cancel'', ids)]),
          it_queryClusterNominees = None\<rparr>)"

definition sample_block :: "block_id \<Rightarrow> nat block" where
  "sample_block i = \<lparr>header = \<lparr>hdr_id = i, hdr_type = ''T'', hdr_collectionId = ''c''\<rparr>, attrs = Map.empty\<rparr>"

definition sample_col_env :: "(nat, 'x, (string \<times> block_id list) list) itransactor \<Rightarrow> (nat, 'x, block_id, (string \<times> block_id list) list) col_env" where
  \<comment> \<open>an action inserts the block of its name, and the log of \<open>c\<close> is the block \<open>c/log\<close>\<close>
  "sample_col_env T =
     \<lparr>ce_transactor = T, ce_draw = \<lambda>w. (''act'', w), ce_now = \<lambda>w. 0, ce_aborted = \<lambda>w. None, ce_rand = \<lambda>w. (0, w), ce_sleep = \<lambda>d w. (None, w),
      ce_handler = \<lambda>a. Some (Insert (sample_block a) (Return ())), ce_filterConflict = None, ce_createHeaderBlock = \<lambda>i. Return (sample_block i),
      ce_tailId = \<lambda>b. None, ce_openLog = \<lambda>i. Return True, ce_getActionContext = \<lambda>i. Return None,
      ce_addActions = \<lambda>i as a r cs rs. Insert (sample_block (i @ ''/log'')) (Return (i @ ''/log'')),
      ce_getFrom = \<lambda>i r. Return ([], None), ce_getInvalidationsFrom = \<lambda>i r. Return [], ce_selectEntries = \<lambda>i f. Return []\<rparr>"

definition sample_collection :: "collection_id \<Rightarrow> block_id list \<Rightarrow> (nat, block_id) collection" where
  \<comment> \<open>a collection with staged blocks\<close>
  "sample_collection i bs =
     \<lparr>col_id = i, col_pending = bs, col_source = new_source i None [], col_cache = new_cache (\<lambda>_. None) DefaultMaxSize [] [],
      col_tracker = new_tracker \<lparr>inserts = map (\<lambda>b. (b, sample_block b)) bs, updates = [], deletes = []\<rparr>\<rparr>"

theorem sync_commits_or_keeps_pending_witness:
  "let E = sample_col_env (sample_itransactor (\<lambda>_. True) (\<lambda>_. True)) :: (nat, unit, block_id, (string \<times> block_id list) list) col_env;
       opts = \<lparr>sy_maxAttempts = None, sy_baseBackoffMs = None, sy_maxBackoffMs = None, sy_deadlineMs = None\<rparr>
   in \<exists>c' w'. sync E opts (sample_collection ''c'' [''x'']) [] = (None, c', w') \<and> \<not> hasUnsyncedChanges c'
        \<and> (\<exists>c1. landed E opts ''act'' 0 (sample_collection ''c'' [''x'']) [] c1 w' \<and> col_pending c1 = [''x''])
        \<and> w' = [(''pend'', [''x'', ''c/log'']), (''commit'', [''x'', ''c/log''])]"
proof -
  define E :: "(nat, unit, block_id, (string \<times> block_id list) list) col_env" where "E = sample_col_env (sample_itransactor (\<lambda>_. True) (\<lambda>_. True))"
  define opts where "opts = \<lparr>sy_maxAttempts = None, sy_baseBackoffMs = None, sy_maxBackoffMs = None, sy_deadlineMs = None\<rparr>"
  obtain res c' w' where s: "sync E opts (sample_collection ''c'' [''x'']) [] = (res, c', w')" by (metis prod_cases3)
  have "case sync E opts (sample_collection ''c'' [''x'']) [] of (None, _, w) \<Rightarrow> w = [(''pend'', [''x'', ''c/log'']), (''commit'', [''x'', ''c/log''])]
      | (Some _, _) \<Rightarrow> False"
    unfolding E_def opts_def by code_simp
  then have none: "res = None" "w' = [(''pend'', [''x'', ''c/log'']), (''commit'', [''x'', ''c/log''])]" using s by (auto split: option.splits)
  have env: "ce_filterConflict E = None" "ce_draw E [] = (''act'', [])" by (simp_all add: E_def sample_col_env_def)
  have pend: "col_pending (sample_collection ''c'' [''x'']) = [''x'']" by (simp add: sample_collection_def)
  then have "col_pending (sample_collection ''c'' [''x'']) \<noteq> []" by simp
  from sync_commits_or_keeps_pending [OF s env(1) this env(2)] show ?thesis
    unfolding E_def [symmetric] opts_def [symmetric] Let_def using s none pend by auto
qed

text \<open>The delay before a retry is at least half of the exponential value and never above the cap.\<close>

lemma jitteredBackoffMs_bounds:
  assumes "0 \<le> rnd" and "rnd < 1"
  shows "of_nat (min (b * 2 ^ n) cap) / 2 \<le> jitteredBackoffMs n b cap rnd \<and> jitteredBackoffMs n b cap rnd \<le> of_nat cap"
proof -
  let ?m = "of_nat (min (b * 2 ^ n) cap) :: rat"
  have m: "0 \<le> ?m" "?m \<le> of_nat cap" by (simp_all add: of_nat_le_iff [symmetric] del: of_nat_le_iff of_nat_min)
  have "?m * (1 / 2) \<le> ?m * (1 - 1 / 2 * rnd)" by (rule mult_left_mono) (use assms m in auto)
  moreover have "?m * (1 - 1 / 2 * rnd) \<le> ?m * 1" by (rule mult_left_mono) (use assms m in auto)
  ultimately show ?thesis using m(2) unfolding jitteredBackoffMs_def by linarith
qed

text \<open>Restoring a snapshot undoes whatever was staged since, on top of the revision the collection now holds.\<close>

lemma restore_snapshot:
  "snapshotPending (restorePending (snapshotPending c) c') = (snapshotPending c)\<lparr>sn_context := col_context c'\<rparr>"
  by (simp add: snapshotPending_def restorePending_def reset_tracker_def tracker_reset_def)

end
