(* ===== verification/Operations_Hash.thy ===== *)
theory Operations_Hash
  imports Transform_Ops Cluster_Record "HOL-Library.Multiset" "HOL-Library.Product_Lexorder"
begin

text \<open>
  The fingerprint of a transaction's operations: \<open>packages/db-core/src/transaction/operations-hash.ts\<close>. A coordinator
  sends it and a validator recomputes it, so it must depend on the operations only and not on the order they were
  collected in, and it must tell different operations apart.

  A JavaScript value is a \<open>jsval\<close>; \<open>JUndefined\<close> stands for \<open>undefined\<close>, functions and symbols. The text of a finite
  number, the JSON values of blocks and block operations and SHA-256 are the parameters of \<open>hash_env\<close>. Strings compare
  by the codes of their characters, as JavaScript compares code units.
\<close>

section \<open>Canonical JSON\<close>

datatype jsval = JNull | JUndefined | JBool bool | JNum jsnum | JStr string | JArr "jsval list" | JObj "(string \<times> jsval) list"

definition hex_digit :: "nat \<Rightarrow> char" where
  "hex_digit n = ''0123456789abcdef'' ! n"

definition escape_char :: "char \<Rightarrow> string" where
  "escape_char c =
     (if c = CHR 0x22 \<or> c = CHR 0x5C then [CHR 0x5C, c]
      else if c = CHR 0x08 then [CHR 0x5C, CHR ''b''] else if c = CHR 0x09 then [CHR 0x5C, CHR ''t'']
      else if c = CHR 0x0A then [CHR 0x5C, CHR ''n''] else if c = CHR 0x0C then [CHR 0x5C, CHR ''f'']
      else if c = CHR 0x0D then [CHR 0x5C, CHR ''r'']
      else if of_char c < (32 :: nat) then [CHR 0x5C, CHR ''u'', CHR ''0'', CHR ''0'', hex_digit (of_char c div 16), hex_digit (of_char c mod 16)]
      else [c])"

definition json_string :: "string \<Rightarrow> string" where
  \<comment> \<open>\<open>JSON.stringify\<close> of a string\<close>
  "json_string s = CHR 0x22 # concat (map escape_char s) @ [CHR 0x22]"

fun js_join :: "string list \<Rightarrow> string" where
  \<comment> \<open>\<open>xs.join(',')\<close>\<close>
  "js_join [] = []"
| "js_join [x] = x"
| "js_join (x # xs) = x @ '','' @ js_join xs"

fun defined :: "jsval \<Rightarrow> bool" where
  "defined JUndefined = False"
| "defined _ = True"

fun canonicalStringify :: "(rat \<Rightarrow> string) \<Rightarrow> jsval \<Rightarrow> string" where
  "canonicalStringify N JNull = ''null''"
| "canonicalStringify N JUndefined = ''null''"
| "canonicalStringify N (JBool b) = (if b then ''true'' else ''false'')"
| "canonicalStringify N (JNum (Num q)) = N q"
| "canonicalStringify N (JNum _) = ''null''"
| "canonicalStringify N (JStr s) = json_string s"
| "canonicalStringify N (JArr xs) = ''['' @ js_join (map (canonicalStringify N) xs) @ '']''"
| "canonicalStringify N (JObj kvs) =
     ''{'' @ js_join (map (\<lambda>(k, t). json_string k @ '':'' @ t)
                       (sort_key fst (map (\<lambda>(k, v). (k, canonicalStringify N v)) (filter (\<lambda>(k, v). defined v) kvs)))) @ ''}''"

section \<open>Operations\<close>

datatype 'v txn_operation =
    InsertOp collection_id block_id "'v block"
  | UpdateOp collection_id block_id "'v operation list"
  | DeleteOp collection_id block_id

fun op_key :: "'v txn_operation \<Rightarrow> string \<times> string \<times> nat" where
  \<comment> \<open>what \<open>compareOperations\<close> compares: collection, block, \<open>TYPE_RANK\<close>\<close>
  "op_key (InsertOp c b _) = (c, b, 0)"
| "op_key (UpdateOp c b _) = (c, b, 1)"
| "op_key (DeleteOp c b) = (c, b, 2)"

definition operations_of :: "collection_id \<times> 'v transforms \<Rightarrow> 'v txn_operation list" where
  "operations_of ct = (case ct of (c, t) \<Rightarrow>
     map (\<lambda>(b, blk). InsertOp c b blk) (inserts t) @ map (\<lambda>(b, ops). UpdateOp c b ops) (updates t) @ map (DeleteOp c) (deletes t))"

definition collectOperations :: "(collection_id \<times> 'v transforms) list \<Rightarrow> 'v txn_operation list" where
  "collectOperations ts = concat (map operations_of ts)"

record 'v hash_env =
  he_number :: "rat \<Rightarrow> string"
  he_block :: "'v block \<Rightarrow> jsval"
  he_operations :: "'v operation list \<Rightarrow> jsval"
  he_hashString :: "string \<Rightarrow> string"

fun op_json :: "'v hash_env \<Rightarrow> 'v txn_operation \<Rightarrow> jsval" where
  "op_json H (InsertOp c b blk) = JObj [(''type'', JStr ''insert''), (''collectionId'', JStr c), (''blockId'', JStr b), (''block'', he_block H blk)]"
| "op_json H (UpdateOp c b ops) = JObj [(''type'', JStr ''update''), (''collectionId'', JStr c), (''blockId'', JStr b), (''operations'', he_operations H ops)]"
| "op_json H (DeleteOp c b) = JObj [(''type'', JStr ''delete''), (''collectionId'', JStr c), (''blockId'', JStr b)]"

definition OPS_HASH_VERSION :: string where "OPS_HASH_VERSION = ''v1''"

definition OPS_HASH_PREFIX :: string where "OPS_HASH_PREFIX = ''ops.'' @ OPS_HASH_VERSION @ '':''"

definition opsHashVersion :: "string \<Rightarrow> string option" where
  "opsHashVersion token =
     (if take 4 token \<noteq> ''ops.'' then None
      else let version = takeWhile (\<lambda>c. c \<noteq> CHR '':'') (drop 4 token)
           in if version = [] \<or> length version = length (drop 4 token) then None else Some version)"

definition canonicalOperationsPayload :: "'v hash_env \<Rightarrow> 'v txn_operation list \<Rightarrow> string" where
  "canonicalOperationsPayload H ops = canonicalStringify (he_number H) (JArr (map (op_json H) (sort_key op_key ops)))"

definition hashOperations :: "'v hash_env \<Rightarrow> 'v txn_operation list \<Rightarrow> string" where
  "hashOperations H ops = OPS_HASH_PREFIX @ he_hashString H (canonicalOperationsPayload H ops)"

section \<open>Reading the text back\<close>

text \<open>
  The values with one text: \<open>normal\<close> keeps what the encoder keeps. Two normal values with the same text are the same,
  since each value's text ends where the next separator begins.
\<close>

fun normal :: "jsval \<Rightarrow> jsval" where
  "normal JNull = JNull"
| "normal JUndefined = JNull"
| "normal (JBool b) = JBool b"
| "normal (JNum (Num q)) = JNum (Num q)"
| "normal (JNum _) = JNull"
| "normal (JStr s) = JStr s"
| "normal (JArr xs) = JArr (map normal xs)"
| "normal (JObj kvs) = JObj (sort_key fst (map (\<lambda>(k, v). (k, normal v)) (filter (\<lambda>(k, v). defined v) kvs)))"

definition number_char :: "char \<Rightarrow> bool" where
  "number_char c \<longleftrightarrow> c \<in> set ''0123456789+-.eE''"

definition number_text :: "(rat \<Rightarrow> string) \<Rightarrow> bool" where
  \<comment> \<open>the texts of numbers: digits, signs, the point and the exponent mark, and first a digit or the minus sign\<close>
  "number_text N \<longleftrightarrow> inj N \<and> (\<forall>q. N q \<noteq> [] \<and> hd (N q) \<in> set ''0123456789-'' \<and> list_all number_char (N q))"

definition separated :: "string \<Rightarrow> bool" where
  "separated r \<longleftrightarrow> r = [] \<or> hd r \<in> set '',]}''"

fun enc :: "(rat \<Rightarrow> string) \<Rightarrow> jsval \<Rightarrow> string" where
  \<comment> \<open>the encoder on values that need no sorting and no filtering\<close>
  "enc N (JBool b) = (if b then ''true'' else ''false'')"
| "enc N (JNum (Num q)) = N q"
| "enc N (JStr s) = json_string s"
| "enc N (JArr xs) = ''['' @ js_join (map (enc N) xs) @ '']''"
| "enc N (JObj kvs) = ''{'' @ js_join (map (\<lambda>(k, v). json_string k @ '':'' @ enc N v) kvs) @ ''}''"
| "enc N _ = ''null''"

fun plain :: "jsval \<Rightarrow> bool" where
  "plain JUndefined = False"
| "plain (JNum (Num q)) = True"
| "plain (JNum _) = False"
| "plain (JArr xs) = list_all plain xs"
| "plain (JObj kvs) = list_all (\<lambda>(k, v). plain v) kvs"
| "plain _ = True"

lemma insort_key_map: "(\<And>x. f (g x) = f' x) \<Longrightarrow> insort_key f (g x) (map g xs) = map g (insort_key f' x xs)"
  by (induction xs) auto

lemma sort_key_map: "(\<And>x. f (g x) = f' x) \<Longrightarrow> sort_key f (map g xs) = map g (sort_key f' xs)"
  by (induction xs) (simp_all add: insort_key_map)

lemma canonicalStringify_enc: "canonicalStringify N v = enc N (normal v)"
proof (induction N v rule: canonicalStringify.induct)
  case (7 N xs)
  then show ?case by (simp cong: map_cong)
next
  case (8 N kvs)
  let ?ks = "sort_key fst (filter (\<lambda>(k, v). defined v) kvs)"
  have "map (\<lambda>x. json_string (fst x) @ '':'' @ canonicalStringify N (snd x)) ?ks
      = map (\<lambda>x. json_string (fst x) @ '':'' @ enc N (normal (snd x))) ?ks"
    using 8 by (intro map_cong) auto
  then have "js_join (map (\<lambda>x. json_string (fst x) @ '':'' @ canonicalStringify N (snd x)) ?ks)
      = js_join (map (\<lambda>x. json_string (fst x) @ '':'' @ enc N (normal (snd x))) ?ks)"
    by (rule arg_cong)
  then show ?case by (simp add: sort_key_map [where f' = fst] case_prod_beta comp_def)
qed auto

lemma plain_normal: "plain (normal v)"
  by (induction v rule: normal.induct) (auto simp: list_all_iff)

definition hex_value :: "char \<Rightarrow> nat" where
  "hex_value c = of_char c - (if of_char c < (58 :: nat) then 48 else 87)"

fun unescape :: "string \<Rightarrow> (char \<times> string) option" where
  "unescape (c # d # r) =
     (if c \<noteq> CHR 0x5C then Some (c, d # r)
      else if d = CHR ''u'' then (case r of _ # _ # h # l # r' \<Rightarrow> Some (char_of (16 * hex_value h + hex_value l), r') | _ \<Rightarrow> None)
      else Some (if d = CHR ''b'' then CHR 0x08 else if d = CHR ''t'' then CHR 0x09 else if d = CHR ''n'' then CHR 0x0A
                 else if d = CHR ''f'' then CHR 0x0C else if d = CHR ''r'' then CHR 0x0D else d, r))"
| "unescape [c] = Some (c, [])"
| "unescape [] = None"

lemma hex_value_digit: "n < 16 \<Longrightarrow> hex_value (hex_digit n) = n"
proof -
  assume "n < 16"
  then have "n \<in> set [0..<16]" by simp
  then show ?thesis by (auto simp: upt_rec hex_digit_def hex_value_def)
qed

lemma unescape_escape: "unescape (escape_char c @ x) = Some (c, x)"
proof -
  have "16 * (of_char c div 16) + of_char c mod 16 = (of_char c :: nat)" by simp
  then have u: "of_char c < (32 :: nat) \<Longrightarrow> char_of (16 * hex_value (hex_digit (of_char c div 16)) + hex_value (hex_digit (of_char c mod 16))) = c"
    by (simp add: hex_value_digit)
  show ?thesis by (cases x) (simp_all add: escape_char_def u)
qed

lemma escape_unique:
  "concat (map escape_char s) @ CHR 0x22 # r = concat (map escape_char s') @ CHR 0x22 # r' \<Longrightarrow> s = s' \<and> r = r'"
proof (induction s arbitrary: s')
  case Nil
  show ?case
  proof (cases s')
    case (Cons d ds)
    then have "hd (escape_char d @ concat (map escape_char ds) @ CHR 0x22 # r') = CHR 0x22" using Nil by (metis append.assoc append_Nil concat.simps(2) list.sel(1) list.simps(8) list.simps(9) concat.simps(1))
    then show ?thesis by (simp add: escape_char_def split: if_splits)
  qed (use Nil in simp)
next
  case (Cons c cs)
  show ?case
  proof (cases s')
    case Nil
    then have "hd (escape_char c @ concat (map escape_char cs) @ CHR 0x22 # r) = CHR 0x22" using Cons.prems by simp
    then show ?thesis by (simp add: escape_char_def split: if_splits)
  next
    case (Cons d ds)
    then have "escape_char c @ (concat (map escape_char cs) @ CHR 0x22 # r) = escape_char d @ (concat (map escape_char ds) @ CHR 0x22 # r')"
      using Cons.prems by simp
    then have "Some (c, concat (map escape_char cs) @ CHR 0x22 # r) = Some (d, concat (map escape_char ds) @ CHR 0x22 # r')"
      by (metis unescape_escape)
    then show ?thesis using Cons.IH [of ds] Cons by simp
  qed
qed

lemma json_string_unique: "json_string s @ r = json_string s' @ r' \<longleftrightarrow> s = s' \<and> r = r'"
  using escape_unique [of s r s' r'] by (auto simp: json_string_def)

fun items :: "string list \<Rightarrow> string \<Rightarrow> string" where
  \<comment> \<open>the texts after the first one, each with its comma\<close>
  "items [] R = R"
| "items (x # xs) R = CHR '','' # x @ items xs R"

lemma js_join_items: "js_join (x # xs) @ R = x @ items xs R"
  by (induction xs arbitrary: x) auto

lemma separated_simps [simp]:
  "separated []" "separated (CHR '','' # r)" "separated (CHR '']'' # r)" "separated (CHR ''}'' # r)"
  by (simp_all add: separated_def)

lemma separated_items: "c = CHR '']'' \<or> c = CHR ''}'' \<Longrightarrow> separated (items xs (c # r))"
  by (cases xs) auto

definition readable :: "('b \<Rightarrow> bool) \<Rightarrow> ('b \<Rightarrow> string) \<Rightarrow> 'b \<Rightarrow> bool" where
  \<comment> \<open>before a separator, the text of \<open>x\<close> is that of no other value\<close>
  "readable Q f x \<longleftrightarrow> (\<forall>y r s. Q y \<longrightarrow> separated r \<longrightarrow> separated s \<longrightarrow> f x @ r = f y @ s \<longrightarrow> x = y \<and> r = s)"

lemma items_unique:
  assumes "\<forall>x \<in> set xs. readable Q f x" and "list_all Q ys" and c: "c = CHR '']'' \<or> c = CHR ''}''"
    and "items (map f xs) (c # r) = items (map f ys) (c # s)"
  shows "xs = ys \<and> r = s"
  using assms(1,2,4)
proof (induction xs arbitrary: ys)
  case Nil
  then show ?case using c by (cases ys) auto
next
  case (Cons x xs)
  then obtain y ys' where ys: "ys = y # ys'" using c by (cases ys) auto
  then have eq: "f x @ items (map f xs) (c # r) = f y @ items (map f ys') (c # s)" using Cons.prems by simp
  have "readable Q f x" "Q y" using Cons.prems ys by auto
  then have "x = y" "items (map f xs) (c # r) = items (map f ys') (c # s)"
    using eq separated_items [OF c] unfolding readable_def by blast+
  then show ?case using Cons ys by auto
qed

lemma joined_unique:
  assumes "\<forall>x \<in> set xs. readable Q f x" and "list_all Q xs" and "list_all Q ys" and c: "c = CHR '']'' \<or> c = CHR ''}''"
    and hd: "\<And>x R. Q x \<Longrightarrow> \<not> separated (f x @ R)"
    and eq: "js_join (map f xs) @ c # r = js_join (map f ys) @ c # s"
  shows "xs = ys \<and> r = s"
proof (cases xs)
  case Nil
  have "c # S \<noteq> f y @ R" if "Q y" for y R S using hd [OF that, of R] c by (metis separated_simps(3,4))
  then show ?thesis using eq assms(3) Nil by (cases ys) (auto simp: js_join_items)
next
  case (Cons x xs')
  have "f y @ R \<noteq> c # S" if "Q y" for y R S using hd [OF that, of R] c by (metis separated_simps(3,4))
  then obtain y ys' where ys: "ys = y # ys'"
    using eq assms(2) Cons by (cases ys) (auto simp: js_join_items)
  have "f x @ items (map f xs') (c # r) = f y @ items (map f ys') (c # s)"
    using eq by (simp add: Cons ys js_join_items)
  moreover have "readable Q f x" "Q y" using assms(1,3) Cons ys by auto
  ultimately have "x = y" "items (map f xs') (c # r) = items (map f ys') (c # s)"
    using separated_items [OF c] unfolding readable_def by blast+
  then show ?thesis using items_unique [of xs' Q f ys' c r s] assms(1,3) c Cons ys by auto
qed

lemma number_prefix:
  assumes "number_text N" and "separated r" and "separated s" and "N p @ r = N q @ s"
  shows "p = q \<and> r = s"
proof -
  have stop: "takeWhile number_char (N q @ r) = N q" if "separated r" for q r
  proof -
    have "list_all number_char (N q)" using assms(1) by (simp add: number_text_def)
    moreover have "takeWhile number_char r = []"
      using that by (cases r) (auto simp: separated_def number_char_def)
    ultimately show ?thesis by (simp add: takeWhile_append list_all_iff)
  qed
  have "N p = N q" using stop [OF assms(2), of p] stop [OF assms(3), of q] assms(4) by simp
  then show ?thesis using assms(1,4) by (auto simp: number_text_def inj_def)
qed

fun lead :: "(rat \<Rightarrow> string) \<Rightarrow> jsval \<Rightarrow> char" where
  "lead N (JBool b) = (if b then CHR ''t'' else CHR ''f'')"
| "lead N (JNum (Num q)) = hd (N q)"
| "lead N (JStr s) = CHR 0x22"
| "lead N (JArr xs) = CHR ''[''"
| "lead N (JObj kvs) = CHR ''{''"
| "lead N _ = CHR ''n''"

lemma enc_lead: "number_text N \<Longrightarrow> enc N v @ R = lead N v # tl (enc N v) @ R"
  by (induction N v rule: lead.induct) (auto simp: number_text_def json_string_def)

lemma lead_number: "number_text N \<Longrightarrow> lead N (JNum (Num q)) \<in> set ''0123456789-''"
  by (simp add: number_text_def)

fun tag :: "jsval \<Rightarrow> nat" where
  "tag (JBool b) = (if b then 1 else 2)"
| "tag (JNum _) = 3"
| "tag (JStr s) = 4"
| "tag (JArr xs) = 5"
| "tag (JObj kvs) = 6"
| "tag _ = 0"

lemma lead_tag:
  assumes "number_text N" and "plain v"
  shows "tag v = (if lead N v = CHR ''t'' then 1 else if lead N v = CHR ''f'' then 2 else if lead N v \<in> set ''0123456789-'' then 3
             else if lead N v = CHR 0x22 then 4 else if lead N v = CHR ''['' then 5 else if lead N v = CHR ''{'' then 6 else 0)
    \<and> lead N v \<notin> set '',]}''"
proof (cases v)
  case (JNum x)
  then obtain q where x: "x = Num q" using assms(2) by (cases x) auto
  have "hd (N q) \<in> set ''0123456789-''" using lead_number [OF assms(1)] by simp
  moreover have "c \<in> set ''0123456789-'' \<Longrightarrow> c \<noteq> CHR ''t'' \<and> c \<noteq> CHR ''f'' \<and> c \<notin> set '',]}''" for c by auto
  ultimately show ?thesis using JNum x by simp
qed (use assms(2) in auto)

lemma enc_not_separated: "number_text N \<Longrightarrow> plain v \<Longrightarrow> \<not> separated (enc N v @ R)"
  using lead_tag [of N v] unfolding enc_lead separated_def by simp

lemma same_tag: "number_text N \<Longrightarrow> plain v \<Longrightarrow> plain w \<Longrightarrow> enc N v @ r = enc N w @ s \<Longrightarrow> tag v = tag w"
  using lead_tag [of N v] lead_tag [of N w] unfolding enc_lead by simp

lemma tag_cases:
  "tag v = 0 \<Longrightarrow> plain v \<Longrightarrow> v = JNull" "tag v = 1 \<Longrightarrow> v = JBool True" "tag v = 2 \<Longrightarrow> v = JBool False"
  "tag v = 3 \<Longrightarrow> plain v \<Longrightarrow> \<exists>q. v = JNum (Num q)" "tag v = 4 \<Longrightarrow> \<exists>s. v = JStr s" "tag v = 5 \<Longrightarrow> \<exists>xs. v = JArr xs" "tag v = 6 \<Longrightarrow> \<exists>kvs. v = JObj kvs"
  by (induction v rule: plain.induct; simp split: if_splits)+

lemma member_readable:
  assumes "readable plain (enc N) (snd kv)"
  shows "readable (\<lambda>(k, v). plain v) (\<lambda>(k, v). json_string k @ '':'' @ enc N v) kv"
  using assms by (force simp: readable_def json_string_unique split: prod.splits)

lemma member_not_separated: "\<not> separated ((\<lambda>(k, v). json_string k @ '':'' @ enc N v) kv @ R)"
  by (simp add: separated_def json_string_def split: prod.split)

lemma atom_readable:
  assumes N: "number_text N" and v: "plain v" and atom: "tag v \<in> {0, 1, 2, 4}"
  shows "readable plain (enc N) v"
  unfolding readable_def
proof (intro allI impI)
  fix w r s assume w: "plain w" and eq: "enc N v @ r = enc N w @ s"
  have t: "tag v = tag w" by (rule same_tag [OF N v w eq])
  from atom consider "tag v = 0" | "tag v = 1" | "tag v = 2" | "tag v = 4" by auto
  then show "v = w \<and> r = s"
  proof cases
    case 1
    then have "v = JNull" "w = JNull" using t v w tag_cases(1) by auto
    then show ?thesis using eq by simp
  next
    case 2
    then have "v = JBool True" "w = JBool True" using t tag_cases(2) by auto
    then show ?thesis using eq by simp
  next
    case 3
    then have "v = JBool False" "w = JBool False" using t tag_cases(3) by auto
    then show ?thesis using eq by simp
  next
    case 4
    then obtain a b where "v = JStr a" "w = JStr b" using t tag_cases(5) [of v] tag_cases(5) [of w] by auto
    then show ?thesis using eq by (simp add: json_string_unique)
  qed
qed

lemma enc_unique:
  assumes N: "number_text N"
  shows "plain v \<Longrightarrow> readable plain (enc N) v"
proof (induction v)
  case (JNum x)
  then obtain p where x: "x = Num p" by (cases x) auto
  show ?case unfolding readable_def
  proof (intro allI impI)
    fix w r s assume "plain w" "separated r" "separated s" and eq: "enc N (JNum x) @ r = enc N w @ s"
    then obtain q where "w = JNum (Num q)" using same_tag [OF N JNum.prems _ eq] tag_cases(4) [of w] by auto
    then show "JNum x = w \<and> r = s" using number_prefix [OF N \<open>separated r\<close> \<open>separated s\<close>, of p q] eq x by auto
  qed
next
  case (JArr xs)
  show ?case unfolding readable_def
  proof (intro allI impI)
    fix w r s assume w: "plain w" and eq: "enc N (JArr xs) @ r = enc N w @ s"
    then obtain ys where ys: "w = JArr ys" using same_tag [OF N JArr.prems _ eq] tag_cases(6) [of w] by auto
    then show "JArr xs = w \<and> r = s"
      using joined_unique [of xs plain "enc N" ys "CHR '']''" r s] JArr w eq enc_not_separated [OF N] by (auto simp: list_all_iff)
  qed
next
  case (JObj kvs)
  show ?case unfolding readable_def
  proof (intro allI impI)
    fix w r s assume w: "plain w" and eq: "enc N (JObj kvs) @ r = enc N w @ s"
    then obtain ks where ks: "w = JObj ks" using same_tag [OF N JObj.prems _ eq] tag_cases(7) [of w] by auto
    have "readable plain (enc N) (snd kv)" if "kv \<in> set kvs" for kv
      using JObj that by (cases kv) (auto simp: list_all_iff snds.simps)
    then show "JObj kvs = w \<and> r = s"
      using joined_unique [of kvs "\<lambda>(k, v). plain v" "\<lambda>(k, v). json_string k @ '':'' @ enc N v" ks "CHR ''}''" r s]
        member_readable member_not_separated JObj.prems w eq ks by auto
  qed
qed (rule atom_readable [OF N]; simp)+

lemma canonicalStringify_unique:
  assumes "number_text N" and "canonicalStringify N v = canonicalStringify N w"
  shows "normal v = normal w"
  using enc_unique [OF assms(1) plain_normal, of v] assms(2) plain_normal [of w]
  unfolding canonicalStringify_enc readable_def by (metis append_Nil2 separated_simps(1))

section \<open>The operations of a transaction\<close>

definition staged :: "(collection_id \<times> 'v transforms) list \<Rightarrow> bool" where
  \<comment> \<open>one entry per collection, and dictionaries of inserts and updates\<close>
  "staged ts \<longleftrightarrow> distinct (map fst ts) \<and> (\<forall>(c, t) \<in> set ts. transforms_dict t)"

definition json_faithful :: "'v hash_env \<Rightarrow> 'v txn_operation list \<Rightarrow> bool" where
  \<comment> \<open>the JSON of the blocks and updates at hand tells them apart\<close>
  "json_faithful H ops \<longleftrightarrow>
     inj_on (\<lambda>b. normal (he_block H b)) {b. \<exists>c i. InsertOp c i b \<in> set ops} \<and> (\<forall>c i b. InsertOp c i b \<in> set ops \<longrightarrow> defined (he_block H b))
     \<and> inj_on (\<lambda>us. normal (he_operations H us)) {us. \<exists>c i. UpdateOp c i us \<in> set ops} \<and> (\<forall>c i us. UpdateOp c i us \<in> set ops \<longrightarrow> defined (he_operations H us))"

lemma collected_key:
  assumes "staged ts" and "x \<in> set (collectOperations ts)" and "y \<in> set (collectOperations ts)" and "op_key x = op_key y"
  shows "x = y"
proof -
  have mem: "\<exists>c t. (c, t) \<in> set ts \<and> (case x of InsertOp c' i b \<Rightarrow> c' = c \<and> (i, b) \<in> set (inserts t)
      | UpdateOp c' i us \<Rightarrow> c' = c \<and> (i, us) \<in> set (updates t) | DeleteOp c' i \<Rightarrow> c' = c)"
    if "x \<in> set (collectOperations ts)" for x
    using that by (fastforce simp: collectOperations_def operations_of_def)
  obtain c t d u where "(c, t) \<in> set ts" "(d, u) \<in> set ts" and x: "case x of InsertOp c' i b \<Rightarrow> c' = c \<and> (i, b) \<in> set (inserts t)
      | UpdateOp c' i us \<Rightarrow> c' = c \<and> (i, us) \<in> set (updates t) | DeleteOp c' i \<Rightarrow> c' = c"
    and y: "case y of InsertOp c' i b \<Rightarrow> c' = d \<and> (i, b) \<in> set (inserts u)
      | UpdateOp c' i us \<Rightarrow> c' = d \<and> (i, us) \<in> set (updates u) | DeleteOp c' i \<Rightarrow> c' = d"
    using mem [OF assms(2)] mem [OF assms(3)] by blast
  moreover have "c = d" using x y assms(4) by (cases x; cases y) auto
  ultimately have "t = u" "transforms_dict t" using assms(1) by (auto simp: staged_def eq_key_imp_eq_value)
  then show ?thesis using x y assms(4)
    by (cases x; cases y) (auto simp: transforms_dict_def eq_key_imp_eq_value)
qed

lemma sorted_operations:
  assumes "staged ts" and "mset (collectOperations ts) = mset us"
  shows "sort_key op_key (collectOperations ts) = sort_key op_key us"
proof -
  have "inj_on op_key (set (collectOperations ts))" using collected_key [OF assms(1)] by (auto intro: inj_onI)
  then show ?thesis using assms(2) by (intro sort_key_inj_key_eq) auto
qed

lemma op_json_order:
  "''block'' < ''blockId''" "''blockId'' < ''collectionId''" "''collectionId'' < ''operations''" "''operations'' < ''type''" "''collectionId'' < ''type''"
  "''block'' < ''collectionId''" "''block'' < ''type''" "''blockId'' < ''operations''" "''blockId'' < ''type''"
  by code_simp+

lemma op_json_inj:
  assumes "json_faithful H ops" and "x \<in> set ops" and "y \<in> set ops" and "normal (op_json H x) = normal (op_json H y)"
  shows "x = y"
  using assms
  by (cases x; cases y) (auto simp: json_faithful_def inj_on_def op_json_order less_imp_le not_le leD order_less_imp_not_eq split: if_splits, blast)

section \<open>Properties\<close>

text \<open>C22. The operations hash agrees exactly when the operations do: two collected sets of operations, in whatever order of collections and
  blocks, have the same hash if and only if they are the same multiset of operations, as long as SHA-256 does not collide on the two
  payloads and JSON tells the blocks and updates at hand apart.\<close>

theorem operations_hash_iff_same_operations:
  assumes "number_text (he_number H)" and "staged ts" and "staged us" and "json_faithful H (collectOperations ts @ collectOperations us)"
    and "he_hashString H (canonicalOperationsPayload H (collectOperations ts)) = he_hashString H (canonicalOperationsPayload H (collectOperations us))
      \<longrightarrow> canonicalOperationsPayload H (collectOperations ts) = canonicalOperationsPayload H (collectOperations us)"
  shows "hashOperations H (collectOperations ts) = hashOperations H (collectOperations us)
    \<longleftrightarrow> mset (collectOperations ts) = mset (collectOperations us)"
proof
  let ?xs = "sort_key op_key (collectOperations ts)" and ?ys = "sort_key op_key (collectOperations us)"
  assume "hashOperations H (collectOperations ts) = hashOperations H (collectOperations us)"
  then have "canonicalOperationsPayload H (collectOperations ts) = canonicalOperationsPayload H (collectOperations us)"
    using assms(5) by (simp add: hashOperations_def)
  then have "normal (JArr (map (op_json H) ?xs)) = normal (JArr (map (op_json H) ?ys))"
    unfolding canonicalOperationsPayload_def by (rule canonicalStringify_unique [OF assms(1)])
  then have "map (\<lambda>x. normal (op_json H x)) ?xs = map (\<lambda>x. normal (op_json H x)) ?ys" by (simp add: comp_def)
  moreover have "inj_on (\<lambda>x. normal (op_json H x)) (set ?xs \<union> set ?ys)"
    using op_json_inj [OF assms(4)] by (auto intro!: inj_onI)
  ultimately have "?xs = ?ys" by (rule map_inj_on)
  then show "mset (collectOperations ts) = mset (collectOperations us)" by (metis mset_sort)
next
  assume "mset (collectOperations ts) = mset (collectOperations us)"
  then show "hashOperations H (collectOperations ts) = hashOperations H (collectOperations us)"
    using sorted_operations [OF assms(2)] by (simp add: hashOperations_def canonicalOperationsPayload_def)
qed

definition sample_hash_env :: "nat hash_env" where
  \<comment> \<open>numbers as their codes in unary, blocks as their ids, and no hashing\<close>
  "sample_hash_env = \<lparr>he_number = \<lambda>q. case quotient_of q of (n, d) \<Rightarrow> (if n < 0 then ''-'' else ''0'') @ replicate (nat \<bar>n\<bar>) (CHR ''1'') @ ''e'' @ replicate (nat d) (CHR ''1''),
     he_block = \<lambda>b. JStr (block_id_of b), he_operations = \<lambda>us. JArr (map (\<lambda>_. JNull) us), he_hashString = id\<rparr>"

lemma replicate_separated:
  assumes "replicate m x @ y # r = replicate n x @ y # s" and "x \<noteq> y"
  shows "m = n \<and> r = s"
  using assms
proof (induction m arbitrary: n)
  case 0
  then show ?case by (cases n) auto
next
  case (Suc m)
  then show ?case by (cases n) auto
qed

lemma sample_number_text: "number_text (he_number sample_hash_env)"
  unfolding number_text_def
proof (intro conjI allI)
  show "inj (he_number sample_hash_env)"
  proof (rule injI)
    fix p q assume eq: "he_number sample_hash_env p = he_number sample_hash_env q"
    obtain n d m k where p: "quotient_of p = (n, d)" and q: "quotient_of q = (m, k)" by (metis surj_pair)
    have "n < 0 \<longleftrightarrow> m < 0" using eq p q by (auto simp: sample_hash_env_def split: if_splits)
    moreover from this have "nat \<bar>n\<bar> = nat \<bar>m\<bar> \<and> replicate (nat d) (CHR ''1'') = replicate (nat k) (CHR ''1'')"
      using eq p q by (intro replicate_separated [where y = "CHR ''e''"]) (auto simp: sample_hash_env_def split: if_splits)
    ultimately have "n = m" "nat d = nat k" by (auto simp: replicate_eq_replicate)
    moreover have "0 < d" "0 < k" using p q by (simp_all add: quotient_of_denom_pos)
    ultimately have "n = m" "d = k" by linarith+
    then show "p = q" using quotient_of_div [OF p] quotient_of_div [OF q] by simp
  qed
qed (auto simp: sample_hash_env_def number_char_def list_all_iff split: prod.splits)

definition sample_staged :: "(collection_id \<times> nat transforms) list" where
  "sample_staged = [(''c'', \<lparr>inserts = [], updates = [(''b'', [])], deletes = [''a'']\<rparr>), (''d'', \<lparr>inserts = [], updates = [], deletes = [''x'']\<rparr>)]"

theorem operations_hash_iff_same_operations_witness:
  "hashOperations sample_hash_env (collectOperations sample_staged) = hashOperations sample_hash_env (collectOperations (rev sample_staged))
   \<and> hashOperations sample_hash_env (collectOperations sample_staged) \<noteq> hashOperations sample_hash_env (collectOperations (tl sample_staged))"
proof -
  have st: "staged sample_staged" "staged (rev sample_staged)" "staged (tl sample_staged)"
    by (simp_all add: sample_staged_def staged_def transforms_dict_def)
  have jf: "json_faithful sample_hash_env (collectOperations sample_staged @ collectOperations (rev sample_staged))"
    "json_faithful sample_hash_env (collectOperations sample_staged @ collectOperations (tl sample_staged))"
    by (simp_all add: sample_staged_def collectOperations_def operations_of_def json_faithful_def sample_hash_env_def inj_on_def)
  have "he_hashString sample_hash_env = id" by (simp add: sample_hash_env_def)
  then show ?thesis
    using operations_hash_iff_same_operations [OF sample_number_text st(1,2) jf(1)] operations_hash_iff_same_operations [OF sample_number_text st(1,3) jf(2)]
    by (simp add: sample_staged_def collectOperations_def operations_of_def)
qed

text \<open>The version of a hash can be read off it.\<close>

lemma opsHashVersion_hash: "opsHashVersion (hashOperations H ops) = Some OPS_HASH_VERSION"
  by (simp add: opsHashVersion_def hashOperations_def OPS_HASH_PREFIX_def OPS_HASH_VERSION_def Let_def)

end
