(* ===== verification/Transaction_Coordinator.thy ===== *)
theory Transaction_Coordinator
  imports Collection_Ops Operations_Hash
begin

text \<open>
  Transactions over several collections: \<open>packages/db-core/src/transaction/coordinator.ts\<close> and \<open>session.ts\<close>. The
  coordinator stages actions in its collections, appends a log entry to each collection that changed, and runs the
  phases gather, pend and commit over the transactor.

  Of an error the model keeps the start of its message, and the place it was thrown when the code tells places apart. The requests that
  a phase sends at the same time are sent in the order of the collections. The nominees of the gather phase are a field of
  the pend request that no receiver reads; the request leaves it out.
\<close>

section \<open>Transactions\<close>

record txn_stamp =
  st_peerId :: string
  st_timestamp :: nat
  st_schemaHash :: string
  st_engineId :: string
  st_expiration :: nat
  st_nonce :: string
  st_id :: string

record txn_body =
  tx_stamp :: txn_stamp
  tx_statements :: "string list"
  tx_reads :: "(block_id \<times> nat) list"
  tx_id :: string
  tx_signature :: "string option"

type_synonym txn = "txn_body transaction"

type_synonym 'a collection_actions = "collection_id \<times> 'a list"

datatype txn_error =
    TxnFailed string   \<comment> \<open>nothing was committed\<close>
  | CoordinatorPartialCommitError "collection_id list" "collection_id list"
  | CoordinatorStaleLossError "collection_id list"
  | CacheFailed string  \<comment> \<open>thrown while the committed changes were folded into the caches\<close>

record ('v, 'a) stamp_data =
  sd_order :: nat
  sd_preSnapshot :: "(collection_id \<times> 'v transforms) list"
  sd_actionBatches :: "'a collection_actions list list"

record ('v, 'a) txn_coordinator =
  tc_collections :: "(collection_id \<times> ('v, 'a) collection) list"
  tc_stampData :: "(string \<times> ('v, 'a) stamp_data) list"
  tc_nextStampOrder :: nat

record ('v, 'a, 's) txn_env =
  te_base :: "('v, txn, 'a, 's) col_env"  \<comment> \<open>the transactor, the clock, the abort signal and the random numbers of the coordinator\<close>
  te_collection :: "collection_id \<Rightarrow> ('v, txn, 'a, 's) col_env"
  te_tag :: "'a \<Rightarrow> string \<Rightarrow> 'a"  \<comment> \<open>\<open>{ ...action, transaction: stampId }\<close>\<close>
  te_hash :: "'v hash_env"

abbreviation te_transactor :: "('v, 'a, 's) txn_env \<Rightarrow> ('v, txn, 's) itransactor" where
  "te_transactor E \<equiv> ce_transactor (te_base E)"

fun message_of :: "error \<Rightarrow> string" where
  "message_of (TypeErr s) = s"
| "message_of (MissingBlockErr i) = ''Missing block ('' @ i @ '')''"
| "message_of (Err s) = s"

definition net_message :: "net_error \<Rightarrow> string" where
  "net_message e = message_of (net_error_of e)"

definition isTransactionExpired :: "nat \<Rightarrow> txn_stamp \<Rightarrow> bool" where
  "isTransactionExpired now st \<longleftrightarrow> now > st_expiration st"

definition put_collection :: "collection_id \<Rightarrow> ('v, 'a) collection \<Rightarrow> ('v, 'a) txn_coordinator \<Rightarrow> ('v, 'a) txn_coordinator" where
  "put_collection i c k = k\<lparr>tc_collections := AList.update i c (tc_collections k)\<rparr>"

section \<open>Staging\<close>

fun act_each :: "('v, 'a, 's) txn_env \<Rightarrow> string \<Rightarrow> collection_id \<Rightarrow> 'a list \<Rightarrow> ('v, 'a) collection \<Rightarrow> 's
    \<Rightarrow> error option \<times> ('v, 'a) collection \<times> 's" where
  "act_each E stamp i [] c w = (None, c, w)"
| "act_each E stamp i (a # as) c w =
     (case act (te_collection E i) [te_tag E a stamp] c w of
        (Some e, c', w') \<Rightarrow> (Some e, c', w')
      | (None, c', w') \<Rightarrow> act_each E stamp i as c' w')"

fun applyActionsRaw :: "('v, 'a, 's) txn_env \<Rightarrow> 'a collection_actions list \<Rightarrow> string \<Rightarrow> ('v, 'a) txn_coordinator \<Rightarrow> 's
    \<Rightarrow> error option \<times> ('v, 'a) txn_coordinator \<times> 's" where
  "applyActionsRaw E [] stamp k w = (None, k, w)"
| "applyActionsRaw E ((i, as) # rest) stamp k w =
     (case map_of (tc_collections k) i of
        None \<Rightarrow> (Some (Err (''Collection not found: '' @ i)), k, w)
      | Some c \<Rightarrow>
          (case act_each E stamp i as c w of
             (Some e, c', w') \<Rightarrow> (Some e, put_collection i c' k, w')
           | (None, c', w') \<Rightarrow> applyActionsRaw E rest stamp (put_collection i c' k) w'))"

definition tracker_snapshot :: "('v, 'a) txn_coordinator \<Rightarrow> (collection_id \<times> 'v transforms) list" where
  "tracker_snapshot k = map (\<lambda>(i, c). (i, col_transforms c)) (tc_collections k)"

definition track_stamp :: "string \<Rightarrow> ('v, 'a) txn_coordinator \<Rightarrow> ('v, 'a) txn_coordinator" where
  \<comment> \<open>the snapshot before the first actions of a stamp\<close>
  "track_stamp stamp k =
     (case map_of (tc_stampData k) stamp of
        Some _ \<Rightarrow> k
      | None \<Rightarrow> k\<lparr>tc_stampData := AList.update stamp \<lparr>sd_order = tc_nextStampOrder k, sd_preSnapshot = tracker_snapshot k, sd_actionBatches = []\<rparr> (tc_stampData k),
                  tc_nextStampOrder := tc_nextStampOrder k + 1\<rparr>)"

definition push_batch :: "string \<Rightarrow> 'a collection_actions list \<Rightarrow> ('v, 'a) txn_coordinator \<Rightarrow> ('v, 'a) txn_coordinator" where
  "push_batch stamp acts k =
     (case map_of (tc_stampData k) stamp of
        None \<Rightarrow> k
      | Some d \<Rightarrow> k\<lparr>tc_stampData := AList.update stamp (d\<lparr>sd_actionBatches := sd_actionBatches d @ [acts]\<rparr>) (tc_stampData k)\<rparr>)"

definition applyActions :: "('v, 'a, 's) txn_env \<Rightarrow> 'a collection_actions list \<Rightarrow> string \<Rightarrow> ('v, 'a) txn_coordinator \<Rightarrow> 's
    \<Rightarrow> error option \<times> ('v, 'a) txn_coordinator \<times> 's" where
  "applyActions E acts stamp k w = applyActionsRaw E acts stamp (push_batch stamp acts (track_stamp stamp k)) w"

section \<open>Rolling back\<close>

definition restore_trackers :: "(collection_id \<times> 'v transforms) list \<Rightarrow> ('v, 'a) txn_coordinator \<Rightarrow> ('v, 'a) txn_coordinator" where
  "restore_trackers snap k =
     fold (\<lambda>(i, t) k. case map_of (tc_collections k) i of Some c \<Rightarrow> put_collection i (reset_tracker t c) k | None \<Rightarrow> k) snap k"

fun apply_batches :: "('v, 'a, 's) txn_env \<Rightarrow> string \<Rightarrow> 'a collection_actions list list \<Rightarrow> ('v, 'a) txn_coordinator \<Rightarrow> 's
    \<Rightarrow> error option \<times> ('v, 'a) txn_coordinator \<times> 's" where
  "apply_batches E stamp [] k w = (None, k, w)"
| "apply_batches E stamp (b # bs) k w =
     (case applyActionsRaw E b stamp k w of
        (Some e, k', w') \<Rightarrow> (Some e, k', w')
      | (None, k', w') \<Rightarrow> apply_batches E stamp bs k' w')"

fun replay_stamps :: "('v, 'a, 's) txn_env \<Rightarrow> (string \<times> ('v, 'a) stamp_data) list \<Rightarrow> ('v, 'a) txn_coordinator \<Rightarrow> 's
    \<Rightarrow> error option \<times> ('v, 'a) txn_coordinator \<times> 's" where
  "replay_stamps E [] k w = (None, k, w)"
| "replay_stamps E ((stamp, d) # rest) k w =
     (case apply_batches E stamp (sd_actionBatches d)
             (k\<lparr>tc_stampData := AList.update stamp (d\<lparr>sd_preSnapshot := tracker_snapshot k\<rparr>) (tc_stampData k)\<rparr>) w of
        (Some e, k', w') \<Rightarrow> (Some e, k', w')
      | (None, k', w') \<Rightarrow> replay_stamps E rest k' w')"

definition earliest :: "('v, 'a) stamp_data \<Rightarrow> (string \<times> ('v, 'a) stamp_data) list \<Rightarrow> ('v, 'a) stamp_data" where
  "earliest d ds = fold (\<lambda>(_, x) best. if sd_order x < sd_order best then x else best) ds d"

definition rollback :: "('v, 'a, 's) txn_env \<Rightarrow> string \<Rightarrow> ('v, 'a) txn_coordinator \<Rightarrow> 's \<Rightarrow> error option \<times> ('v, 'a) txn_coordinator \<times> 's" where
  "rollback E stamp k w =
     (case map_of (tc_stampData k) stamp of
        None \<Rightarrow> (None, k, w)
      | Some d \<Rightarrow>
          (let k1 = k\<lparr>tc_stampData := AList.delete stamp (tc_stampData k)\<rparr>;
               toReplay = sort_key (\<lambda>(_, x). sd_order x) (tc_stampData k1)
           in replay_stamps E toReplay (restore_trackers (sd_preSnapshot (earliest d toReplay)) k1) w))"

section \<open>Reading and clearing the staged state\<close>

definition has_changes :: "'v transforms \<Rightarrow> bool" where
  "has_changes t \<longleftrightarrow> length (inserts t) + length (updates t) + length (deletes t) > 0"

definition getTransforms :: "('v, 'a) txn_coordinator \<Rightarrow> (collection_id \<times> 'v transforms) list" where
  "getTransforms k = filter (\<lambda>(i, t). has_changes t) (tracker_snapshot k)"

definition resetTransforms :: "('v, 'a) txn_coordinator \<Rightarrow> ('v, 'a) txn_coordinator" where
  "resetTransforms k = k\<lparr>tc_collections := map (\<lambda>(i, c). (i, reset_tracker emptyTransforms c)) (tc_collections k)\<rparr>"

definition coordinator_getReadDependencies :: "('v, 'a) txn_coordinator \<Rightarrow> (block_id \<times> nat) list" where
  "coordinator_getReadDependencies k = concat (map (\<lambda>(i, c). source_getReadDependencies (col_source c)) (tc_collections k))"

definition coordinator_clearReadDependencies :: "('v, 'a) txn_coordinator \<Rightarrow> ('v, 'a) txn_coordinator" where
  "coordinator_clearReadDependencies k =
     k\<lparr>tc_collections := map (\<lambda>(i, c). (i, c\<lparr>col_source := clearReadDependencies (col_source c)\<rparr>)) (tc_collections k)\<rparr>"

section \<open>The log entries\<close>

datatype apply_result = Applied block_id | ApplyFailed string | ApplyThrew string

definition applyActionsToCollection :: "('v, 'a, 's) txn_env \<Rightarrow> 'a collection_actions \<Rightarrow> txn \<Rightarrow> collection_id list \<Rightarrow> ('v, 'a) txn_coordinator \<Rightarrow> 's
    \<Rightarrow> apply_result \<times> ('v, 'a) txn_coordinator \<times> 's" where
  \<comment> \<open>the transforms of the result are those of the tracker, which the log entry has changed in place\<close>
  "applyActionsToCollection E ca t allIds k w = (case ca of (i, as) \<Rightarrow>
     (case map_of (tc_collections k) i of
        None \<Rightarrow> (ApplyFailed (''Collection not found: '' @ i), k, w)
      | Some c \<Rightarrow>
          (case on_tracker (te_collection E i) (ce_openLog (te_collection E i) i) c w of
             (Inl e, c1, w1) \<Rightarrow> (ApplyThrew (message_of e), put_collection i c1 k, w1)
           | (Inr False, c1, w1) \<Rightarrow> (ApplyFailed (''Log not found for collection '' @ i), put_collection i c1 k, w1)
           | (Inr True, c1, w1) \<Rightarrow>
               (case on_tracker (te_collection E i)
                       (ce_addActions (te_collection E i) i as (tx_id (tr_body t)) (getNextRev c1) allIds (Some (tx_reads (tr_body t)))) c1 w1 of
                  (Inl e, c2, w2) \<Rightarrow> (ApplyThrew (message_of e), put_collection i c2 k, w2)
                | (Inr tid, c2, w2) \<Rightarrow> (Applied tid, put_collection i c2 k, w2)))))"

section \<open>The phases\<close>

fun query_all :: "(block_id \<Rightarrow> 's \<Rightarrow> (net_error + string list) \<times> 's) \<Rightarrow> block_id list \<Rightarrow> 's \<Rightarrow> (net_error + string list list) \<times> 's" where
  \<comment> \<open>all queries are sent; the first error is the result\<close>
  "query_all q [] w = (Inr [], w)"
| "query_all q (b # bs) w =
     (case q b w of (x, w1) \<Rightarrow>
        (case query_all q bs w1 of (y, w2) \<Rightarrow>
           (case x of Inl e \<Rightarrow> Inl e | Inr ps \<Rightarrow> map_sum id (Cons ps) y, w2)))"

definition gatherPhase :: "('v, 'x, 's) itransactor \<Rightarrow> block_id list \<Rightarrow> 's \<Rightarrow> (net_error + string list option) \<times> 's" where
  "gatherPhase T criticalBlockIds w =
     (if length criticalBlockIds = 1 then (Inr None, w)
      else case it_queryClusterNominees T of
          None \<Rightarrow> (Inr None, w)
        | Some q \<Rightarrow> (case query_all q criticalBlockIds w of (x, w') \<Rightarrow> (map_sum id (\<lambda>rs. Some (js_set (concat rs))) x, w')))"

datatype pend_failure = PendRejectedError bool string | PendThrew string

fun is_conflict_pend :: "pend_failure \<Rightarrow> bool" where
  "is_conflict_pend (PendRejectedError c m) = c"
| "is_conflict_pend (PendThrew m) = False"

fun pend_message :: "pend_failure \<Rightarrow> string" where
  "pend_message (PendRejectedError c m) = m"
| "pend_message (PendThrew m) = m"

definition pend_request_of :: "txn \<Rightarrow> string \<Rightarrow> 'v transforms \<Rightarrow> nat \<Rightarrow> ('v, txn) net_pend_request" where
  "pend_request_of t hash tr r =
     \<lparr>pr_actionId = tx_id (tr_body t), pr_rev = Some r, pr_transforms = tr, pr_policy = Pol_r, pr_transaction = Some t,
      pr_operationsHash = Some hash, np_priority = None\<rparr>"

definition pendCollection :: "('v, 'a, 's) txn_env \<Rightarrow> ('v, 'a) txn_coordinator \<Rightarrow> txn \<Rightarrow> string \<Rightarrow> collection_id \<times> 'v transforms \<Rightarrow> 's
    \<Rightarrow> (pend_failure + block_id list) \<times> 's" where
  "pendCollection E k t hash ct w = (case ct of (i, tr) \<Rightarrow>
     (case map_of (tc_collections k) i of
        None \<Rightarrow> (Inl (PendThrew (''Collection not found: '' @ i)), w)
      | Some c \<Rightarrow>
          (case it_pend (te_transactor E) (pend_request_of t hash tr (getNextRev c)) w of
             (Inl e, w') \<Rightarrow> (Inl (PendThrew (net_message e)), w')
           | (Inr (NPendStale f), w') \<Rightarrow>
               (let conflict = isConflictFailure (sf_conflict f) (sf_missing f) (sf_pending f)
                in (Inl (PendRejectedError conflict (''Pend failed for collection '' @ i @ '': '' @ opt_or (sf_reason f) (if conflict then ''stale conflict'' else ''rejected''))), w'))
           | (Inr (NPendSuccess ps ids), w') \<Rightarrow> (Inr ids, w'))))"

fun pend_all :: "('v, 'a, 's) txn_env \<Rightarrow> ('v, 'a) txn_coordinator \<Rightarrow> txn \<Rightarrow> string \<Rightarrow> (collection_id \<times> 'v transforms) list \<Rightarrow> 's
    \<Rightarrow> (collection_id \<times> (pend_failure + block_id list)) list \<times> 's" where
  "pend_all E k t hash [] w = ([], w)"
| "pend_all E k t hash (ct # cts) w =
     (case pendCollection E k t hash ct w of (x, w1) \<Rightarrow>
        (case pend_all E k t hash cts w1 of (xs, w2) \<Rightarrow> ((fst ct, x) # xs, w2)))"

fun cancel_all :: "('v, 'x, 's) itransactor \<Rightarrow> action_id \<Rightarrow> (collection_id \<times> block_id list) list \<Rightarrow> 's \<Rightarrow> 's" where
  \<comment> \<open>a cancel that throws is swallowed\<close>
  "cancel_all T a [] w = w"
| "cancel_all T a ((i, ids) # rest) w = cancel_all T a rest (snd (it_cancel T a ids w))"

definition cancelPhase :: "('v, 'x, 's) itransactor \<Rightarrow> action_id \<Rightarrow> (collection_id \<times> block_id list) list \<Rightarrow> collection_id list \<Rightarrow> 's \<Rightarrow> 's" where
  "cancelPhase T a pended excluded w = cancel_all T a (filter (\<lambda>(i, _). i \<notin> set excluded) pended) w"

definition pended_of :: "(collection_id \<times> (pend_failure + block_id list)) list \<Rightarrow> (collection_id \<times> block_id list) list" where
  "pended_of xs = concat (map (\<lambda>(i, x). case x of Inr ids \<Rightarrow> [(i, ids)] | Inl _ \<Rightarrow> []) xs)"

definition pend_failures :: "(collection_id \<times> (pend_failure + block_id list)) list \<Rightarrow> pend_failure list" where
  "pend_failures xs = concat (map (\<lambda>(i, x). case x of Inl f \<Rightarrow> [f] | Inr _ \<Rightarrow> []) xs)"

definition pendPhase :: "('v, 'a, 's) txn_env \<Rightarrow> ('v, 'a) txn_coordinator \<Rightarrow> txn \<Rightarrow> string \<Rightarrow> (collection_id \<times> 'v transforms) list \<Rightarrow> 's
    \<Rightarrow> (string \<times> bool + (collection_id \<times> block_id list) list) \<times> 's" where
  \<comment> \<open>a failure has the message of the first one and whether it is a stale loss\<close>
  "pendPhase E k t hash cts w =
     (if cts = [] then (Inl (''No transforms to pend'', False), w)
      else case pend_all E k t hash cts w of (outcomes, w1) \<Rightarrow>
        (case pend_failures outcomes of
           [] \<Rightarrow> (Inr (pended_of outcomes), w1)
         | f # fs \<Rightarrow> (Inl (pend_message f, list_all is_conflict_pend (f # fs)),
                     cancelPhase (te_transactor E) (tx_id (tr_body t)) (pended_of outcomes) [] w1)))"

datatype commit_outcome = Committed | NotCommitted string bool  \<comment> \<open>the error and whether it is a stale loss\<close>

fun commit_tries :: "('v, 'x, 's) itransactor \<Rightarrow> nat \<Rightarrow> net_commit_request \<Rightarrow> collection_id \<Rightarrow> string \<Rightarrow> 's \<Rightarrow> commit_outcome \<times> 's" where
  "commit_tries T 0 rq i lastError w = (NotCommitted (''Commit failed for collection '' @ i @ '' after 3 attempts: '' @ lastError) False, w)"
| "commit_tries T (Suc n) rq i lastError w =
     (case it_commit T rq w of
        (Inr NCommitSuccess, w') \<Rightarrow> (Committed, w')
      | (Inr (NCommitStale f), w') \<Rightarrow> (NotCommitted (opt_or (sf_reason f) (''Stale commit for collection '' @ i)) True, w')
      | (Inl e, w') \<Rightarrow> commit_tries T n rq i (net_message e) w')"

definition commitCollection :: "('v, 'a, 's) txn_env \<Rightarrow> ('v, 'a) txn_coordinator \<Rightarrow> action_id \<Rightarrow> block_id list \<Rightarrow> collection_id \<times> block_id list \<Rightarrow> 's
    \<Rightarrow> commit_outcome \<times> 's" where
  "commitCollection E k a criticalBlockIds cb w = (case cb of (i, blockIds) \<Rightarrow>
     (case map_of (tc_collections k) i of
        None \<Rightarrow> (NotCommitted (''Collection not found: '' @ i) False, w)
      | Some c \<Rightarrow>
          (case List.find (\<lambda>b. b \<in> set blockIds) criticalBlockIds of
             None \<Rightarrow> (NotCommitted (''Log tail block not found for collection '' @ i) False, w)
           | Some [] \<Rightarrow> (NotCommitted (''Log tail block not found for collection '' @ i) False, w)
           | Some tid \<Rightarrow>
               commit_tries (te_transactor E) 3 \<lparr>nc_headerId = None, nc_tailId = tid, nc_blockIds = blockIds, nc_actionId = a, nc_rev = getNextRev c\<rparr> i [] w)))"

fun commit_all :: "('v, 'a, 's) txn_env \<Rightarrow> ('v, 'a) txn_coordinator \<Rightarrow> action_id \<Rightarrow> block_id list \<Rightarrow> (collection_id \<times> block_id list) list \<Rightarrow> 's
    \<Rightarrow> (collection_id \<times> commit_outcome) list \<times> 's" where
  "commit_all E k a crit [] w = ([], w)"
| "commit_all E k a crit (cb # cbs) w =
     (case commitCollection E k a crit cb w of (x, w1) \<Rightarrow>
        (case commit_all E k a crit cbs w1 of (xs, w2) \<Rightarrow> ((fst cb, x) # xs, w2)))"

fun is_committed :: "commit_outcome \<Rightarrow> bool" where
  "is_committed Committed = True"
| "is_committed (NotCommitted e s) = False"

fun is_stale_loss :: "commit_outcome \<Rightarrow> bool" where
  "is_stale_loss Committed = False"
| "is_stale_loss (NotCommitted e s) = s"

definition commit_ids :: "(commit_outcome \<Rightarrow> bool) \<Rightarrow> (collection_id \<times> commit_outcome) list \<Rightarrow> collection_id list" where
  "commit_ids P xs = map fst (filter (\<lambda>(i, x). P x) xs)"

definition commitPhase :: "('v, 'a, 's) txn_env \<Rightarrow> ('v, 'a) txn_coordinator \<Rightarrow> action_id \<Rightarrow> block_id list \<Rightarrow> (collection_id \<times> block_id list) list \<Rightarrow> 's
    \<Rightarrow> (collection_id list \<times> collection_id list \<times> bool) \<times> 's" where
  \<comment> \<open>committed and failed collections, and whether all failures are stale losses; it succeeds when no collection failed\<close>
  "commitPhase E k a crit pended w =
     (case commit_all E k a crit pended w of (xs, w') \<Rightarrow>
        ((commit_ids is_committed xs, commit_ids (\<lambda>x. \<not> is_committed x) xs, list_ex (\<lambda>(i, x). is_stale_loss x) xs \<and> list_all (\<lambda>(i, x). is_committed x \<or> is_stale_loss x) xs), w'))"

datatype coord_result =
    CoordSuccess
  | CoordThrew string
  | PendPhaseFailed string bool
  | CommitPhaseFailed "collection_id list" "collection_id list" bool

definition coordinateTransaction :: "('v, 'a, 's) txn_env \<Rightarrow> ('v, 'a) txn_coordinator \<Rightarrow> txn \<Rightarrow> string \<Rightarrow> (collection_id \<times> 'v transforms) list
    \<Rightarrow> (collection_id \<times> block_id) list \<Rightarrow> 's \<Rightarrow> coord_result \<times> 's" where
  "coordinateTransaction E k t hash cts criticalBlocks w =
     (let crit = map snd criticalBlocks
      in case gatherPhase (te_transactor E) crit w of
           (Inl e, w1) \<Rightarrow> (CoordThrew (net_message e), w1)
         | (Inr superclusterNominees, w1) \<Rightarrow>
             (case pendPhase E k t hash cts w1 of
                (Inl (m, stale), w2) \<Rightarrow> (PendPhaseFailed m stale, w2)
              | (Inr pended, w2) \<Rightarrow>
                  (case commitPhase E k (tx_id (tr_body t)) crit pended w2 of
                     ((committed, failed, stale), w3) \<Rightarrow>
                       (if failed = [] then (CoordSuccess, w3)
                        else (CommitPhaseFailed committed failed stale,
                              cancelPhase (te_transactor E) (tx_id (tr_body t)) pended committed w3)))))"

section \<open>Committing\<close>

definition participants :: "('v, 'a) txn_coordinator \<Rightarrow> collection_id list" where
  "participants k = map fst (filter (\<lambda>(i, c). has_changes (col_transforms c)) (tc_collections k))"

fun append_entries :: "('v, 'a, 's) txn_env \<Rightarrow> txn \<Rightarrow> collection_id list \<Rightarrow> collection_id list \<Rightarrow> ('v, 'a) txn_coordinator \<Rightarrow> 's
    \<Rightarrow> (string + (collection_id \<times> block_id) list) \<times> ('v, 'a) txn_coordinator \<times> 's" where
  \<comment> \<open>the loop that logs the pending actions of each participant\<close>
  "append_entries E t allIds [] k w = (Inr [], k, w)"
| "append_entries E t allIds (i # is) k w =
     (case applyActionsToCollection E (i, case map_of (tc_collections k) i of Some c \<Rightarrow> col_pending c | None \<Rightarrow> []) t allIds k w of
        (ApplyFailed m, k1, w1) \<Rightarrow> (Inl (''Transaction commit failed: '' @ m), k1, w1)
      | (ApplyThrew m, k1, w1) \<Rightarrow> (Inl m, k1, w1)
      | (Applied tid, k1, w1) \<Rightarrow>
          (case append_entries E t allIds is k1 w1 of
             (Inl m, k2, w2) \<Rightarrow> (Inl m, k2, w2)
           | (Inr rest, k2, w2) \<Rightarrow> (Inr ((i, tid) # rest), k2, w2)))"

definition transforms_of :: "('v, 'a) txn_coordinator \<Rightarrow> collection_id list \<Rightarrow> (collection_id \<times> 'v transforms) list" where
  "transforms_of k is = map (\<lambda>i. (i, case map_of (tc_collections k) i of Some c \<Rightarrow> col_transforms c | None \<Rightarrow> emptyTransforms)) is"

definition restore_all :: "('v, 'a) txn_coordinator \<Rightarrow> collection_id list \<Rightarrow> ('v, 'a) txn_coordinator \<Rightarrow> ('v, 'a) txn_coordinator" where
  \<comment> \<open>the snapshots are those of the first state\<close>
  "restore_all k0 is k =
     fold (\<lambda>i k. case (map_of (tc_collections k0) i, map_of (tc_collections k) i) of
                   (Some c0, Some c) \<Rightarrow> put_collection i (restorePending (snapshotPending c0) c) k | _ \<Rightarrow> k) is k"

definition finish_collection :: "action_id \<Rightarrow> ('v, 'a) collection \<Rightarrow> error option \<times> ('v, 'a) collection" where
  \<comment> \<open>the treatment of a collection that was committed\<close>
  "finish_collection a c =
     (case recordCommitted a c of (r, c1) \<Rightarrow>
        (case applyCommittedToCache (col_transforms c1) r c1 of
           (Some e, c2) \<Rightarrow> (Some e, c2)
         | (None, c2) \<Rightarrow> (None, clearPendingActions (reset_tracker emptyTransforms c2))))"

fun finish_all :: "('v, 'a) txn_coordinator \<Rightarrow> action_id \<Rightarrow> collection_id list \<Rightarrow> collection_id list \<Rightarrow> ('v, 'a) txn_coordinator \<Rightarrow> string option \<times> ('v, 'a) txn_coordinator" where
  \<comment> \<open>the loop after the phases: finish the committed collections and restore the others\<close>
  "finish_all k0 a committed [] k = (None, k)"
| "finish_all k0 a committed (i # is) k =
     (case map_of (tc_collections k) i of
        None \<Rightarrow> finish_all k0 a committed is k
      | Some c \<Rightarrow>
          (if i \<in> set committed then
             (case finish_collection a c of
                (Some e, c') \<Rightarrow> (Some (message_of e), put_collection i c' k)
              | (None, c') \<Rightarrow> finish_all k0 a committed is (put_collection i c' k))
           else finish_all k0 a committed is (restore_all k0 [i] k)))"

definition drop_stamp :: "string \<Rightarrow> ('v, 'a) txn_coordinator \<Rightarrow> ('v, 'a) txn_coordinator" where
  "drop_stamp stamp k = k\<lparr>tc_stampData := AList.delete stamp (tc_stampData k)\<rparr>"

definition conclude :: "txn \<Rightarrow> collection_id list \<Rightarrow> ('v, 'a) txn_coordinator \<Rightarrow> coord_result \<Rightarrow> ('v, 'a) txn_coordinator \<Rightarrow> txn_error option \<times> ('v, 'a) txn_coordinator" where
  \<comment> \<open>what \<open>commitOnce\<close> does with the result of the phases\<close>
  "conclude t is k0 res k =
     (case res of
        CoordThrew m \<Rightarrow> (Some (TxnFailed m), restore_all k0 is k)
      | PendPhaseFailed m stale \<Rightarrow>
          (Some (if stale then CoordinatorStaleLossError is else TxnFailed (''Transaction commit failed: '' @ m)), restore_all k0 is k)
      | CommitPhaseFailed committed failed stale \<Rightarrow>
          (if committed \<noteq> [] then
             (case finish_all k0 (tx_id (tr_body t)) committed is k of
                (Some m, k') \<Rightarrow> (Some (CacheFailed m), k')
              | (None, k') \<Rightarrow> (Some (CoordinatorPartialCommitError committed failed), drop_stamp (st_id (tx_stamp (tr_body t))) k'))
           else (Some (if stale then CoordinatorStaleLossError failed else TxnFailed ''Transaction commit failed: ''), restore_all k0 is k))
      | CoordSuccess \<Rightarrow>
          (case finish_all k0 (tx_id (tr_body t)) is is k of
             (Some m, k') \<Rightarrow> (Some (CacheFailed m), k')
           | (None, k') \<Rightarrow> (None, drop_stamp (st_id (tx_stamp (tr_body t))) k')))"

definition commitOnce :: "('v, 'a, 's) txn_env \<Rightarrow> txn \<Rightarrow> ('v, 'a) txn_coordinator \<Rightarrow> 's \<Rightarrow> txn_error option \<times> ('v, 'a) txn_coordinator \<times> 's" where
  "commitOnce E t k w =
     (let is = participants k
      in if isTransactionExpired (ce_now (te_base E) w) (tx_stamp (tr_body t)) then (Some (TxnFailed ''Transaction expired at ''), k, w)
         else if is = [] then (None, k, w)
         else case append_entries E t is is k w of
             (Inl m, k1, w1) \<Rightarrow> (Some (TxnFailed m), restore_all k is k1, w1)
           | (Inr criticalBlocks, k1, w1) \<Rightarrow>
               (let cts = transforms_of k1 is; hash = hashOperations (te_hash E) (collectOperations cts)
                in case coordinateTransaction E k1 t hash cts criticalBlocks w1 of
                     (res, w2) \<Rightarrow> (case conclude t is k res k1 of (x, k2) \<Rightarrow> (x, k2, w2))))"

fun update_collections :: "('v, 'a, 's) txn_env \<Rightarrow> collection_id list \<Rightarrow> ('v, 'a) txn_coordinator \<Rightarrow> 's \<Rightarrow> error option \<times> ('v, 'a) txn_coordinator \<times> 's" where
  "update_collections E [] k w = (None, k, w)"
| "update_collections E (i # is) k w =
     (case map_of (tc_collections k) i of
        None \<Rightarrow> update_collections E is k w
      | Some c \<Rightarrow>
          (case updateInternal (te_collection E i) c w of
             (Some e, c', w') \<Rightarrow> (Some e, put_collection i c' k, w')
           | (None, c', w') \<Rightarrow> update_collections E is (put_collection i c' k) w'))"

fun is_stale_loss_error :: "txn_error option \<Rightarrow> bool" where
  "is_stale_loss_error (Some (CoordinatorStaleLossError _)) = True"
| "is_stale_loss_error _ = False"

definition aged :: "nat \<Rightarrow> txn \<Rightarrow> txn" where
  "aged losses t = (if losses > 0 then t\<lparr>tr_priority := Some (Num (of_nat (clampPriority (Some (Num (of_nat losses))))))\<rparr> else t)"

function commit_retries :: "('v, 'a, 's) txn_env \<Rightarrow> sync_options \<Rightarrow> nat \<Rightarrow> nat \<Rightarrow> txn_error option \<Rightarrow> txn \<Rightarrow> ('v, 'a) txn_coordinator \<Rightarrow> 's
    \<Rightarrow> txn_error option \<times> ('v, 'a) txn_coordinator \<times> 's" where
  "commit_retries E opts startedAt losses lastLoss t k w =
     (case ce_aborted (te_base E) w of
        Some e \<Rightarrow> (Some (TxnFailed (message_of e)), k, w)
      | None \<Rightarrow>
        (if lastLoss \<noteq> None \<and> past_deadline (te_base E) opts startedAt w then (lastLoss, k, w)
         else case commitOnce E (aged losses t) k w of
            (x, k1, w1) \<Rightarrow>
              (if \<not> is_stale_loss_error x then (x, k1, w1)
               else if losses + 1 \<ge> max_attempts opts then (x, k1, w1)
               else case backoff (te_base E) opts losses w1 of
                   (Some e, w2) \<Rightarrow> (Some (TxnFailed (message_of e)), k1, w2)
                 | (None, w2) \<Rightarrow>
                     (case update_collections E (map fst (tc_collections k1)) k1 w2 of
                        (Some e, k3, w3) \<Rightarrow> (Some (TxnFailed (message_of e)), k3, w3)
                      | (None, k3, w3) \<Rightarrow> commit_retries E opts startedAt (losses + 1) x (aged losses t) k3 w3))))"
  by pat_completeness auto
termination by (relation "measure (\<lambda>(E, opts, _, losses, _). max_attempts opts - losses)") auto

declare commit_retries.simps [simp del]

definition commit :: "('v, 'a, 's) txn_env \<Rightarrow> sync_options \<Rightarrow> txn \<Rightarrow> ('v, 'a) txn_coordinator \<Rightarrow> 's \<Rightarrow> txn_error option \<times> ('v, 'a) txn_coordinator \<times> 's" where
  "commit E opts t k w = commit_retries E opts (ce_now (te_base E) w) 0 None t k w"

section \<open>Executing a complete transaction\<close>

datatype 'a engine_result =
    EngineFailed string  \<comment> \<open>empty without an error message\<close>
  | EngineThrew string
  | EngineNoActions
  | EngineActions "'a collection_actions list"

type_synonym ('v, 'a, 's) txn_engine = "txn \<Rightarrow> ('v, 'a) txn_coordinator \<Rightarrow> 's \<Rightarrow> 'a engine_result \<times> ('v, 'a) txn_coordinator \<times> 's"

datatype exec_result =
    ExecSuccess
  | ExecFailed string
  | ExecPartial "collection_id list" "collection_id list"
  | ExecThrew string

fun append_actions :: "('v, 'a, 's) txn_env \<Rightarrow> txn \<Rightarrow> collection_id list \<Rightarrow> 'a collection_actions list \<Rightarrow> (collection_id \<times> block_id) list
    \<Rightarrow> ('v, 'a) txn_coordinator \<Rightarrow> 's \<Rightarrow> (exec_result + (collection_id \<times> block_id) list) \<times> ('v, 'a) txn_coordinator \<times> 's" where
  "append_actions E t allIds [] crit k w = (Inr crit, k, w)"
| "append_actions E t allIds (ca # cas) crit k w =
     (case applyActionsToCollection E ca t allIds k w of
        (ApplyFailed m, k1, w1) \<Rightarrow> (Inl (ExecFailed m), k1, w1)
      | (ApplyThrew m, k1, w1) \<Rightarrow> (Inl (ExecThrew m), k1, w1)
      | (Applied tid, k1, w1) \<Rightarrow> append_actions E t allIds cas (AList.update (fst ca) tid crit) k1 w1)"

definition settle :: "action_id \<Rightarrow> collection_id list \<Rightarrow> ('v, 'a) txn_coordinator \<Rightarrow> ('v, 'a) txn_coordinator" where
  \<comment> \<open>\<open>recordCommitted\<close> and \<open>tracker.reset\<close>, once for every entry of the list\<close>
  "settle a is k =
     fold (\<lambda>i k. case map_of (tc_collections k) i of
                   Some c \<Rightarrow> put_collection i (reset_tracker emptyTransforms (snd (recordCommitted a c))) k | None \<Rightarrow> k) is k"

definition execute :: "('v, 'a, 's) txn_env \<Rightarrow> ('v, 'a, 's) txn_engine \<Rightarrow> txn \<Rightarrow> ('v, 'a) txn_coordinator \<Rightarrow> 's
    \<Rightarrow> exec_result \<times> ('v, 'a) txn_coordinator \<times> 's" where
  "execute E engine t k w =
     (let b = tr_body t; stamp = st_id (tx_stamp b)
      in if isTransactionExpired (ce_now (te_base E) w) (tx_stamp b) then (ExecFailed ''Transaction expired at '', k, w)
         else case engine t k w of
             (EngineThrew m, k1, w1) \<Rightarrow> (ExecThrew m, k1, w1)
           | (EngineFailed m, k1, w1) \<Rightarrow> (ExecFailed m, k1, w1)
           | (EngineNoActions, k1, w1) \<Rightarrow> (ExecSuccess, k1, w1)
           | (EngineActions [], k1, w1) \<Rightarrow> (ExecSuccess, k1, w1)
           | (EngineActions (ca # cas), k1, w1) \<Rightarrow>
               (let acts = ca # cas; is = map fst acts
                in case applyActions E acts stamp k1 w1 of
                     (Some e, k2, w2) \<Rightarrow> (ExecFailed (message_of e), k2, w2)
                   | (None, k2, w2) \<Rightarrow>
                       (case append_actions E t is acts [] k2 w2 of
                          (Inl r, k3, w3) \<Rightarrow> (r, k3, w3)
                        | (Inr crit, k3, w3) \<Rightarrow>
                            (let cts = transforms_of k3 (js_set is); hash = hashOperations (te_hash E) (collectOperations cts)
                             in case coordinateTransaction E k3 t hash cts crit w3 of
                                  (CoordThrew m, w4) \<Rightarrow> (ExecThrew m, k3, w4)
                                | (PendPhaseFailed m stale, w4) \<Rightarrow> (ExecFailed m, k3, w4)
                                | (CommitPhaseFailed committed failed stale, w4) \<Rightarrow>
                                    (ExecPartial committed failed, settle (tx_id b) (filter (\<lambda>i. i \<in> set committed) is) k3, w4)
                                | (CoordSuccess, w4) \<Rightarrow> (ExecSuccess, drop_stamp stamp (settle (tx_id b) is k3), w4)))))"

section \<open>Sessions\<close>

record txn_session =
  se_statements :: "string list"
  se_stamp :: txn_stamp
  se_committed :: bool
  se_rolledBack :: bool

record ('v, 'a, 's) session_env =
  sv_txn :: "('v, 'a, 's) txn_env"
  sv_engine :: "('v, 'a, 's) txn_engine"
  sv_signer :: "(string \<Rightarrow> string list \<Rightarrow> (block_id \<times> nat) list \<Rightarrow> string + string) option"
  sv_transactionId :: "string \<Rightarrow> string list \<Rightarrow> (block_id \<times> nat) list \<Rightarrow> string"

datatype session_result = SessionOk | SessionFailed string | SessionThrew txn_error

definition session_transaction :: "txn_session \<Rightarrow> string list \<Rightarrow> (block_id \<times> nat) list \<Rightarrow> string \<Rightarrow> string option \<Rightarrow> txn" where
  "session_transaction se stmts reads i sig =
     \<lparr>tr_priority = None, tr_body = \<lparr>tx_stamp = se_stamp se, tx_statements = stmts, tx_reads = reads, tx_id = i, tx_signature = sig\<rparr>\<rparr>"

definition session_execute :: "('v, 'a, 's) session_env \<Rightarrow> string \<Rightarrow> 'a collection_actions list option \<Rightarrow> txn_session \<Rightarrow> ('v, 'a) txn_coordinator \<Rightarrow> 's
    \<Rightarrow> session_result \<times> txn_session \<times> ('v, 'a) txn_coordinator \<times> 's" where
  "session_execute V statement actions se k w =
     (if se_committed se then (SessionFailed ''Transaction already committed'', se, k, w)
      else if se_rolledBack se then (SessionFailed ''Transaction already rolled back'', se, k, w)
      else case (case actions of Some as \<Rightarrow> (EngineActions as, k, w) | None \<Rightarrow> sv_engine V (session_transaction se [statement] [] ''temp'' None) k w) of
          (EngineThrew m, k1, w1) \<Rightarrow> (SessionFailed (''Failed to execute statement: '' @ m), se, k1, w1)
        | (EngineFailed m, k1, w1) \<Rightarrow> (SessionFailed (if m = [] then ''Failed to translate statement'' else m), se, k1, w1)
        | (EngineNoActions, k1, w1) \<Rightarrow> (SessionFailed ''Failed to translate statement'', se, k1, w1)
        | (EngineActions as, k1, w1) \<Rightarrow>
            (case applyActions (sv_txn V) as (st_id (se_stamp se)) k1 w1 of
               (Some e, k2, w2) \<Rightarrow> (SessionFailed (''Failed to execute statement: '' @ message_of e), se, k2, w2)
             | (None, k2, w2) \<Rightarrow> (SessionOk, se\<lparr>se_statements := se_statements se @ [statement]\<rparr>, k2, w2)))"

definition session_commit :: "('v, 'a, 's) session_env \<Rightarrow> sync_options \<Rightarrow> txn_session \<Rightarrow> ('v, 'a) txn_coordinator \<Rightarrow> 's
    \<Rightarrow> session_result \<times> txn_session \<times> ('v, 'a) txn_coordinator \<times> 's" where
  "session_commit V opts se k w =
     (if se_committed se then (SessionFailed ''Transaction already committed'', se, k, w)
      else if se_rolledBack se then (SessionFailed ''Transaction already rolled back'', se, k, w)
      else if isTransactionExpired (ce_now (te_base (sv_txn V)) w) (se_stamp se) then (SessionFailed ''Transaction expired at '', se, k, w)
      else let reads = coordinator_getReadDependencies k; stamp = st_id (se_stamp se);
               i = sv_transactionId V stamp (se_statements se) reads
           in case (case sv_signer V of None \<Rightarrow> Inr None | Some sign \<Rightarrow> map_sum id Some (sign stamp (se_statements se) reads)) of
                Inl m \<Rightarrow> (SessionFailed (''Failed to sign transaction: '' @ m), se, k, w)
              | Inr sig \<Rightarrow>
                  (case commit (sv_txn V) opts (session_transaction se (se_statements se) reads i sig) k w of
                     (Some e, k1, w1) \<Rightarrow> (SessionThrew e, se, k1, w1)
                   | (None, k1, w1) \<Rightarrow> (SessionOk, se\<lparr>se_committed := True\<rparr>, coordinator_clearReadDependencies k1, w1)))"

definition session_rollback :: "('v, 'a, 's) session_env \<Rightarrow> txn_session \<Rightarrow> ('v, 'a) txn_coordinator \<Rightarrow> 's
    \<Rightarrow> session_result \<times> txn_session \<times> ('v, 'a) txn_coordinator \<times> 's" where
  "session_rollback V se k w =
     (if se_committed se then (SessionThrew (TxnFailed ''Cannot rollback: transaction already committed''), se, k, w)
      else if se_rolledBack se then (SessionThrew (TxnFailed ''Transaction already rolled back''), se, k, w)
      else case rollback (sv_txn V) (st_id (se_stamp se)) k w of
          (Some e, k1, w1) \<Rightarrow> (SessionThrew (TxnFailed (message_of e)), se, k1, w1)
        | (None, k1, w1) \<Rightarrow> (SessionOk, se\<lparr>se_rolledBack := True, se_statements := []\<rparr>, coordinator_clearReadDependencies k1, w1))"

section \<open>What an attempt leaves of the collections\<close>

abbreviation col :: "('v, 'a) txn_coordinator \<Rightarrow> collection_id \<Rightarrow> ('v, 'a) collection option" where
  "col k \<equiv> map_of (tc_collections k)"

lemma col_put [simp]: "col (put_collection i c k) = (col k)(i \<mapsto> c)"
  by (simp add: put_collection_def)

lemma col_drop_stamp [simp]: "col (drop_stamp s k) = col k"
  by (simp add: drop_stamp_def)

definition logged :: "('v, 'a) txn_coordinator \<Rightarrow> ('v, 'a) txn_coordinator \<Rightarrow> bool" where
  \<comment> \<open>only the trackers, caches and read records of the collections changed\<close>
  "logged k k' \<longleftrightarrow> (\<forall>i. case col k i of None \<Rightarrow> col k' i = None
     | Some c \<Rightarrow> (\<exists>c'. col k' i = Some c' \<and> kept c c' \<and> col_pending c' = col_pending c))"

lemma logged_refl [simp]: "logged k k"
  by (auto simp: logged_def split: option.split)

lemma logged_None: "logged k k' \<Longrightarrow> col k i = None \<Longrightarrow> col k' i = None"
  and logged_Some: "logged k k' \<Longrightarrow> col k i = Some c \<Longrightarrow> \<exists>c'. col k' i = Some c' \<and> kept c c' \<and> col_pending c' = col_pending c"
  by (auto simp: logged_def dest: spec [of _ i])

lemma loggedI:
  assumes "\<And>i. col k i = None \<Longrightarrow> col k' i = None" and "\<And>i c. col k i = Some c \<Longrightarrow> \<exists>c'. col k' i = Some c' \<and> kept c c' \<and> col_pending c' = col_pending c"
  shows "logged k k'"
  using assms by (auto simp: logged_def split: option.split)

lemma logged_trans:
  assumes "logged k1 k2" and "logged k2 k3"
  shows "logged k1 k3"
proof (rule loggedI)
  show "col k3 i = None" if "col k1 i = None" for i using that assms logged_None by blast
  fix i c assume c: "col k1 i = Some c"
  obtain c2 where c2: "col k2 i = Some c2" "kept c c2" "col_pending c2 = col_pending c" using logged_Some [OF assms(1) c] by blast
  obtain c3 where "col k3 i = Some c3" "kept c2 c3" "col_pending c3 = col_pending c2" using logged_Some [OF assms(2) c2(1)] by blast
  then show "\<exists>c3. col k3 i = Some c3 \<and> kept c c3 \<and> col_pending c3 = col_pending c" using c2 kept_trans [OF c2(2)] by auto
qed

lemma logged_put:
  assumes "col k i = Some c" and "kept c c'" and "col_pending c' = col_pending c"
  shows "logged k (put_collection i c' k)"
  by (rule loggedI) (use assms in \<open>auto split: if_splits\<close>)

lemma applyActionsToCollection_logged:
  assumes "applyActionsToCollection E (i, as) t allIds k w = (x, k', w')"
  shows "logged k k' \<and> (\<forall>j. j \<noteq> i \<longrightarrow> col k' j = col k j)"
proof (cases "col k i")
  case None
  then show ?thesis using assms by (simp add: applyActionsToCollection_def)
next
  case (Some c)
  obtain y c1 w1 where o: "on_tracker (te_collection E i) (ce_openLog (te_collection E i) i) c w = (y, c1, w1)" by (metis prod_cases3)
  note k1 = on_tracker_kept [OF o]
  obtain z c2 w2 where a: "on_tracker (te_collection E i) (ce_addActions (te_collection E i) i as (tx_id (tr_body t)) (getNextRev c1) allIds
      (Some (tx_reads (tr_body t)))) c1 w1 = (z, c2, w2)" by (metis prod_cases3)
  have k2: "kept c c2" "col_pending c2 = col_pending c" using k1 on_tracker_kept [OF a] kept_trans by auto
  have "k' = put_collection i c1 k \<or> k' = put_collection i c2 k"
    using assms o a Some by (auto simp: applyActionsToCollection_def split: sum.splits bool.splits)
  then show ?thesis using logged_put [OF Some] k1 k2 by auto
qed

lemma append_entries_logged:
  "append_entries E t allIds is k w = (x, k', w') \<Longrightarrow> logged k k' \<and> (\<forall>j. j \<notin> set is \<longrightarrow> col k' j = col k j)
     \<and> (\<forall>crit. x = Inr crit \<longrightarrow> map fst crit = is)"
proof (induction E t allIds "is" k w arbitrary: x k' w' rule: append_entries.induct)
  case (2 E t allIds i "is" k w)
  let ?as = "case col k i of Some c \<Rightarrow> col_pending c | None \<Rightarrow> []"
  obtain y k1 w1 where a: "applyActionsToCollection E (i, ?as) t allIds k w = (y, k1, w1)" by (metis prod_cases3)
  note l1 = applyActionsToCollection_logged [OF a]
  show ?case
  proof (cases y)
    case (Applied tid)
    obtain z k2 w2 where r: "append_entries E t allIds is k1 w1 = (z, k2, w2)" by (metis prod_cases3)
    have ih: "logged k1 k2 \<and> (\<forall>j. j \<notin> set is \<longrightarrow> col k2 j = col k1 j) \<and> (\<forall>crit. z = Inr crit \<longrightarrow> map fst crit = is)"
      by (rule "2.IH" [OF a [symmetric] _ _ r]) (simp_all add: Applied)
    have "k' = k2" "\<forall>crit. x = Inr crit \<longrightarrow> (\<exists>rest. z = Inr rest \<and> crit = (i, tid) # rest)"
      using "2.prems" a Applied r by (cases z; auto)+
    then show ?thesis using ih l1 logged_trans by auto
  qed (use "2.prems" a l1 in auto)
qed auto

lemma restorePending_idem: "restorePending sn (restorePending sn c) = restorePending sn c"
  by (simp add: restorePending_def reset_tracker_def tracker_reset_def)

lemma col_restore_all:
  "col (restore_all k0 is k) i = (if i \<in> set is then
     (case (col k0 i, col k i) of (Some c0, Some c) \<Rightarrow> Some (restorePending (snapshotPending c0) c) | _ \<Rightarrow> col k i) else col k i)"
proof (induction "is" arbitrary: k)
  case Nil
  then show ?case by (simp add: restore_all_def)
next
  case (Cons j "is")
  have step: "restore_all k0 (j # is) k = restore_all k0 is (restore_all k0 [j] k)" by (simp add: restore_all_def)
  have one: "col (restore_all k0 [j] k) i = (if i = j then
     (case (col k0 i, col k i) of (Some c0, Some c) \<Rightarrow> Some (restorePending (snapshotPending c0) c) | _ \<Rightarrow> col k i) else col k i)"
    by (auto simp: restore_all_def split: option.splits)
  show ?case unfolding step Cons.IH one by (auto simp: restorePending_idem split: option.splits)
qed

definition as_before :: "('v, 'a) txn_coordinator \<Rightarrow> ('v, 'a) txn_coordinator \<Rightarrow> collection_id \<Rightarrow> bool" where
  \<comment> \<open>the staged blocks, the pending actions and the revision\<close>
  "as_before k k' i \<longleftrightarrow> map_option snapshotPending (col k' i) = map_option snapshotPending (col k i)"

lemma restored_as_before:
  assumes "logged k k1" and "\<And>j. j \<notin> set is \<Longrightarrow> col k1 j = col k j"
  shows "as_before k (restore_all k is k1) i"
proof (cases "col k i")
  case None
  then have "col k1 i = None" using assms(1) by (rule logged_None [rotated])
  then show ?thesis using None by (simp add: as_before_def col_restore_all)
next
  case (Some c)
  obtain c1 where c1: "col k1 i = Some c1" "kept c c1" using logged_Some [OF assms(1) Some] by blast
  then have "snapshotPending (restorePending (snapshotPending c) c1) = snapshotPending c"
    unfolding restore_snapshot kept_context [OF c1(2)] by (simp add: snapshotPending_def)
  then show ?thesis using Some c1 assms(2) [of i] by (auto simp: as_before_def col_restore_all)
qed

definition advanced :: "action_id \<Rightarrow> ('v, 'a) collection \<Rightarrow> ('v, 'a) collection \<Rightarrow> bool" where
  \<comment> \<open>nothing is staged any more and the action is recorded at the next revision\<close>
  "advanced a c c' \<longleftrightarrow> col_pending c' = [] \<and> col_transforms c' = emptyTransforms \<and> col_context c' = Some (committed_context (col_context c) a (getNextRev c))"

lemma finish_advanced: "finish_collection a c = (None, c') \<Longrightarrow> advanced a c c'"
  by (auto simp: finish_collection_def recordCommitted_def applyCommittedToCache_def clearPendingActions_def reset_tracker_def tracker_reset_def
      set_context_def advanced_def Let_def split: prod.splits option.splits)

lemma finish_all_result:
  assumes "finish_all k0 a committed is k = (None, k')" and "distinct is"
  shows "(if i \<in> set is \<and> i \<in> set committed then (\<forall>c. col k i = Some c \<longrightarrow> (\<exists>c'. col k' i = Some c' \<and> advanced a c c'))
     else col k' i = col (restore_all k0 (filter (\<lambda>i. i \<notin> set committed) is) k) i)"
  using assms
proof (induction k0 a committed "is" k arbitrary: k' rule: finish_all.induct)
  case (1 k0 a committed k)
  then show ?case by (simp add: restore_all_def)
next
  case (2 k0 a committed j "is" k)
  show ?case
  proof (cases "col k j")
    case None
    then show ?thesis using 2 by (auto simp: col_restore_all split: option.splits)
  next
    case (Some c)
    show ?thesis
    proof (cases "j \<in> set committed")
      case True
      then obtain c' where f: "finish_collection a c = (None, c')" using "2.prems" Some by (cases "finish_collection a c"; cases "fst (finish_collection a c)") auto
      have r: "finish_all k0 a committed is (put_collection j c' k) = (None, k')" using "2.prems" Some True f by simp
      have "j \<notin> set is" using "2.prems" by simp
      with "2.IH"(2) [OF Some True f [symmetric] refl r] "2.prems"(2) finish_advanced [OF f] Some True show ?thesis
        by (cases "i = j") (auto simp: col_restore_all split: option.splits)
    next
      case False
      have r: "finish_all k0 a committed is (restore_all k0 [j] k) = (None, k')" using "2.prems" Some False by simp
      from "2.IH"(3) [OF Some False r] "2.prems"(2) False show ?thesis
        by (cases "i = j") (auto simp: col_restore_all split: option.splits)
    qed
  qed
qed

section \<open>What the phases send and report\<close>

datatype 'v txn_request = ReqQuery block_id | ReqPend "('v, txn) net_pend_request" | ReqCommit net_commit_request | ReqCancel action_id "block_id list"

inductive txn_step :: "('v, txn, 's) itransactor \<Rightarrow> 'v txn_request \<Rightarrow> 's \<Rightarrow> 's \<Rightarrow> bool" for T where
  query: "it_queryClusterNominees T = Some q \<Longrightarrow> q b w = (x, w') \<Longrightarrow> txn_step T (ReqQuery b) w w'"
| pend: "it_pend T rq w = (x, w') \<Longrightarrow> txn_step T (ReqPend rq) w w'"
| commit: "it_commit T cr w = (x, w') \<Longrightarrow> txn_step T (ReqCommit cr) w w'"
| cancel: "it_cancel T a ids w = (x, w') \<Longrightarrow> txn_step T (ReqCancel a ids) w w'"

definition txn_run :: "('v, txn, 's) itransactor \<Rightarrow> ('v txn_request \<Rightarrow> bool) \<Rightarrow> 's \<Rightarrow> 's \<Rightarrow> bool" where
  "txn_run T A = (\<lambda>w w'. \<exists>r. A r \<and> txn_step T r w w')\<^sup>*\<^sup>*"

lemma txn_run_refl [simp]: "txn_run T A w w"
  by (simp add: txn_run_def)

lemma txn_run_step: "txn_step T r w w1 \<Longrightarrow> A r \<Longrightarrow> txn_run T A w1 w2 \<Longrightarrow> txn_run T A w w2"
  unfolding txn_run_def by (blast intro: converse_rtranclp_into_rtranclp)

lemma txn_run_trans: "txn_run T A w w1 \<Longrightarrow> txn_run T A w1 w2 \<Longrightarrow> txn_run T A w w2"
  unfolding txn_run_def by (rule rtranclp_trans)

lemma txn_run_mono: "txn_run T A w w' \<Longrightarrow> (\<And>r. A r \<Longrightarrow> B r) \<Longrightarrow> txn_run T B w w'"
  unfolding txn_run_def by (erule rtranclp_mono [THEN predicate2D, rotated]) blast

fun before_commit :: "'v txn_request \<Rightarrow> bool" where
  "before_commit (ReqQuery b) = True"
| "before_commit (ReqPend rq) = True"
| "before_commit _ = False"

fun cancels_of :: "action_id \<Rightarrow> 'v txn_request \<Rightarrow> bool" where
  "cancels_of a (ReqCancel b ids) \<longleftrightarrow> b = a"
| "cancels_of a _ = False"

fun commits_for :: "action_id \<Rightarrow> 'v txn_request \<Rightarrow> bool" where
  "commits_for a (ReqCommit cr) \<longleftrightarrow> nc_actionId cr = a"
| "commits_for a _ = False"

lemma query_all_run:
  assumes "it_queryClusterNominees T = Some q"
  shows "query_all q bs w = (x, w') \<Longrightarrow> txn_run T before_commit w w'"
proof (induction bs arbitrary: w x w')
  case (Cons b bs)
  obtain y w1 where y: "q b w = (y, w1)" by (metis surj_pair)
  obtain z w2 where z: "query_all q bs w1 = (z, w2)" by (metis surj_pair)
  have "w' = w2" using Cons.prems y z by (simp split: sum.splits)
  then show ?case using Cons.IH [OF z] txn_run_step [OF txn_step.query [OF assms y]] by simp
qed simp

lemma gatherPhase_run: "gatherPhase T crit w = (x, w') \<Longrightarrow> txn_run T before_commit w w'"
  by (auto simp: gatherPhase_def split: if_splits option.splits prod.splits intro: query_all_run)

definition pend_acknowledged :: "('v, 'a, 's) txn_env \<Rightarrow> ('v, 'a) txn_coordinator \<Rightarrow> txn \<Rightarrow> string \<Rightarrow> collection_id \<times> 'v transforms \<Rightarrow> block_id list \<Rightarrow> bool" where
  "pend_acknowledged E k t hash ct ids \<longleftrightarrow> (\<exists>c ps wa wb. col k (fst ct) = Some c
     \<and> it_pend (te_transactor E) (pend_request_of t hash (snd ct) (getNextRev c)) wa = (Inr (NPendSuccess ps ids), wb))"

lemma pendCollection_run:
  assumes "pendCollection E k t hash ct w = (x, w')"
  shows "txn_run (te_transactor E) before_commit w w' \<and> (case x of Inr ids \<Rightarrow> pend_acknowledged E k t hash ct ids | Inl _ \<Rightarrow> True)"
proof (cases "col k (fst ct)")
  case None
  then show ?thesis using assms by (auto simp: pendCollection_def split: prod.splits)
next
  case (Some c)
  obtain y w1 where p: "it_pend (te_transactor E) (pend_request_of t hash (snd ct) (getNextRev c)) w = (y, w1)" by (metis surj_pair)
  have "w' = w1" "\<forall>ids. x = Inr ids \<longrightarrow> (\<exists>ps. y = Inr (NPendSuccess ps ids))"
    using assms Some p by (auto simp: pendCollection_def Let_def split: prod.splits sum.splits net_pend_result.splits)
  then show ?thesis using txn_run_step [OF txn_step.pend [OF p]] p Some
    by (auto simp: pend_acknowledged_def split: sum.splits) blast
qed

lemma pend_all_run:
  "pend_all E k t hash cts w = (xs, w') \<Longrightarrow> txn_run (te_transactor E) before_commit w w' \<and> map fst xs = map fst cts
     \<and> list_all2 (\<lambda>ct (i, x). case x of Inr ids \<Rightarrow> pend_acknowledged E k t hash ct ids | Inl _ \<Rightarrow> True) cts xs"
proof (induction cts arbitrary: w xs w')
  case (Cons ct cts)
  obtain x w1 where x: "pendCollection E k t hash ct w = (x, w1)" by (metis surj_pair)
  obtain ys w2 where ys: "pend_all E k t hash cts w1 = (ys, w2)" by (metis surj_pair)
  show ?case using Cons.prems x ys pendCollection_run [OF x] Cons.IH [OF ys] txn_run_trans by auto
qed simp

lemma cancel_all_run: "txn_run T (cancels_of a) w (cancel_all T a xs w)"
proof (induction xs arbitrary: w)
  case (Cons x xs)
  obtain i ids where x: "x = (i, ids)" by (cases x)
  obtain y w1 where "it_cancel T a ids w = (y, w1)" by (metis surj_pair)
  from txn_run_step [OF txn_step.cancel [OF this] _ Cons] this show ?case by (simp add: x)
qed simp

lemma pended_complete:
  assumes "pend_failures xs = []"
  shows "map fst (pended_of xs) = map fst xs \<and> (\<forall>(i, x) \<in> set xs. \<exists>ids. x = Inr ids)"
  using assms
proof (induction xs)
  case (Cons y ys)
  obtain i x where y: "y = (i, x)" by (cases y)
  show ?case using Cons by (cases x) (auto simp: y pend_failures_def pended_of_def)
qed (simp add: pended_of_def)

lemma pendPhase_run:
  assumes "pendPhase E k t hash cts w = (x, w')"
  shows "\<exists>w1. txn_run (te_transactor E) before_commit w w1 \<and> (case x of
      Inl _ \<Rightarrow> txn_run (te_transactor E) (cancels_of (tx_id (tr_body t))) w1 w'
    | Inr pended \<Rightarrow> w' = w1 \<and> map fst pended = map fst cts \<and> (\<forall>ct \<in> set cts. \<exists>ids. pend_acknowledged E k t hash ct ids))"
proof (cases "cts = []")
  case True
  then show ?thesis using assms by (auto simp: pendPhase_def intro: exI [of _ w])
next
  case False
  obtain xs w1 where xs: "pend_all E k t hash cts w = (xs, w1)" by (metis surj_pair)
  note r = pend_all_run [OF xs]
  show ?thesis
  proof (cases "pend_failures xs")
    case Nil
    note c = pended_complete [OF Nil]
    have "\<exists>ids. pend_acknowledged E k t hash ct ids" if ct: "ct \<in> set cts" for ct
    proof -
      obtain n where n: "n < length cts" "ct = cts ! n" using ct by (auto simp: in_set_conv_nth)
      obtain i y where y: "xs ! n = (i, y)" by (metis surj_pair)
      have l: "length xs = length cts" using r by (metis length_map)
      then have "(i, y) \<in> set xs" using n y by (metis nth_mem)
      then obtain ids where "y = Inr ids" using c by blast
      then show ?thesis using list_all2_nthD [OF r [THEN conjunct2, THEN conjunct2] n(1)] n(2) y by auto
    qed
    moreover have "x = Inr (pended_of xs)" "w' = w1" using assms False xs Nil by (simp_all add: pendPhase_def)
    ultimately show ?thesis using r c by auto
  next
    case (Cons f fs)
    then have "\<exists>m. x = Inl m" "w' = cancelPhase (te_transactor E) (tx_id (tr_body t)) (pended_of xs) [] w1"
      using assms False xs by (auto simp add: pendPhase_def)
    then show ?thesis using r cancel_all_run unfolding cancelPhase_def by fastforce
  qed
qed

definition commit_acknowledged :: "('v, 'a, 's) txn_env \<Rightarrow> ('v, 'a) txn_coordinator \<Rightarrow> action_id \<Rightarrow> collection_id \<times> block_id list \<Rightarrow> bool" where
  "commit_acknowledged E k a cb \<longleftrightarrow> (\<exists>c cr wa wb. col k (fst cb) = Some c \<and> nc_actionId cr = a \<and> nc_rev cr = getNextRev c \<and> nc_blockIds cr = snd cb
     \<and> nc_tailId cr \<in> set (snd cb) \<and> it_commit (te_transactor E) cr wa = (Inr NCommitSuccess, wb))"

lemma commit_tries_run:
  "commit_tries T n cr i m w = (x, w') \<Longrightarrow> txn_run T (commits_for (nc_actionId cr)) w w' \<and> (is_committed x \<longrightarrow> (\<exists>wa wb. it_commit T cr wa = (Inr NCommitSuccess, wb)))"
proof (induction T n cr i m w rule: commit_tries.induct)
  case (2 T n cr i m w)
  obtain y w1 where y: "it_commit T cr w = (y, w1)" by (metis surj_pair)
  have run: "txn_run T (commits_for (nc_actionId cr)) w w2" if "txn_run T (commits_for (nc_actionId cr)) w1 w2" for w2
    by (rule txn_run_step [OF txn_step.commit [OF y] _ that]) simp
  show ?case
  proof (cases y)
    case (Inl e)
    then show ?thesis using 2 y run by auto
  next
    case (Inr r)
    then show ?thesis using "2.prems" y run [OF txn_run_refl] by (cases r) auto
  qed
qed auto

lemma commitCollection_run:
  assumes "commitCollection E k a crit cb w = (x, w')"
  shows "txn_run (te_transactor E) (commits_for a) w w' \<and> (is_committed x \<longrightarrow> commit_acknowledged E k a cb)"
proof (cases "col k (fst cb)")
  case None
  then show ?thesis using assms by (auto simp: commitCollection_def split: prod.splits)
next
  case (Some c)
  show ?thesis
  proof (cases "List.find (\<lambda>b. b \<in> set (snd cb)) crit")
    case None
    then show ?thesis using assms Some by (auto simp: commitCollection_def split: prod.splits)
  next
    case f: (Some tid)
    then have tid: "tid \<in> set (snd cb)" by (auto simp: find_Some_iff)
    define cr where "cr = \<lparr>nc_headerId = None, nc_tailId = tid, nc_blockIds = snd cb, nc_actionId = a, nc_rev = getNextRev c\<rparr>"
    show ?thesis
    proof (cases tid)
      case Nil
      then show ?thesis using assms Some f by (auto simp: commitCollection_def split: prod.splits)
    next
      case (Cons ch chs)
      then have "commit_tries (te_transactor E) 3 cr (fst cb) [] w = (x, w')"
        using assms Some f by (cases cb) (simp add: commitCollection_def cr_def)
      from commit_tries_run [OF this] tid Some show ?thesis
        unfolding commit_acknowledged_def by (intro conjI impI exI [of _ c] exI [of _ cr]) (auto simp: cr_def)
    qed
  qed
qed

lemma commit_all_run:
  "commit_all E k a crit cbs w = (xs, w') \<Longrightarrow> txn_run (te_transactor E) (commits_for a) w w' \<and> map fst xs = map fst cbs
     \<and> (\<forall>i \<in> set (commit_ids is_committed xs). \<exists>ids. commit_acknowledged E k a (i, ids))"
proof (induction cbs arbitrary: w xs w')
  case (Cons cb cbs)
  obtain x w1 where x: "commitCollection E k a crit cb w = (x, w1)" by (metis surj_pair)
  obtain ys w2 where ys: "commit_all E k a crit cbs w1 = (ys, w2)" by (metis surj_pair)
  have "xs = (fst cb, x) # ys" "w' = w2" using Cons.prems x ys by simp_all
  then show ?case using commitCollection_run [OF x] Cons.IH [OF ys] txn_run_trans
    by (cases cb) (auto simp: commit_ids_def)
qed (simp add: commit_ids_def)

lemma commit_ids_partition:
  "set (commit_ids P xs) \<union> set (commit_ids (\<lambda>x. \<not> P x) xs) = set (map fst xs)"
  "distinct (map fst xs) \<Longrightarrow> set (commit_ids P xs) \<inter> set (commit_ids (\<lambda>x. \<not> P x) xs) = {}"
  by (force simp: commit_ids_def, auto simp: commit_ids_def dest: eq_key_imp_eq_value)

lemma coordinateTransaction_cases:
  assumes "coordinateTransaction E k t hash cts criticalBlocks w = (res, w')" and "distinct (map fst cts)"
  shows "\<exists>w1. txn_run (te_transactor E) before_commit w w1 \<and> (case res of
      CoordThrew _ \<Rightarrow> w' = w1
    | PendPhaseFailed _ _ \<Rightarrow> txn_run (te_transactor E) (cancels_of (tx_id (tr_body t))) w1 w'
    | CoordSuccess \<Rightarrow> (\<forall>ct \<in> set cts. \<exists>ids. pend_acknowledged E k t hash ct ids) \<and> txn_run (te_transactor E) (commits_for (tx_id (tr_body t))) w1 w'
        \<and> (\<forall>i \<in> fst ` set cts. \<exists>ids. commit_acknowledged E k (tx_id (tr_body t)) (i, ids))
    | CommitPhaseFailed committed failed _ \<Rightarrow> (\<forall>ct \<in> set cts. \<exists>ids. pend_acknowledged E k t hash ct ids)
        \<and> set committed \<union> set failed = fst ` set cts \<and> set committed \<inter> set failed = {} \<and> failed \<noteq> []
        \<and> (\<forall>i \<in> set committed. \<exists>ids. commit_acknowledged E k (tx_id (tr_body t)) (i, ids))
        \<and> (\<exists>pended w3. map fst pended = map fst cts \<and> txn_run (te_transactor E) (commits_for (tx_id (tr_body t))) w1 w3
             \<and> w' = cancel_all (te_transactor E) (tx_id (tr_body t)) (filter (\<lambda>(i, _). i \<in> set failed) pended) w3))"
proof -
  let ?T = "te_transactor E" and ?a = "tx_id (tr_body t)" and ?crit = "map snd criticalBlocks"
  obtain g w1 where g: "gatherPhase ?T ?crit w = (g, w1)" by (metis surj_pair)
  note gr = gatherPhase_run [OF g]
  show ?thesis
  proof (cases g)
    case (Inl e)
    then show ?thesis using assms g gr by (auto simp: coordinateTransaction_def Let_def)
  next
    case (Inr n)
    obtain x w2 where x: "pendPhase E k t hash cts w1 = (x, w2)" by (metis surj_pair)
    from pendPhase_run [OF x] obtain wp where wp: "txn_run ?T before_commit w wp" and pr: "case x of Inl _ \<Rightarrow> txn_run ?T (cancels_of ?a) wp w2
      | Inr pended \<Rightarrow> w2 = wp \<and> map fst pended = map fst cts \<and> (\<forall>ct \<in> set cts. \<exists>ids. pend_acknowledged E k t hash ct ids)"
      using txn_run_trans [OF gr] by blast
    show ?thesis
    proof (cases x)
      case (Inl m)
      then show ?thesis using assms g Inr x wp pr by (auto simp: coordinateTransaction_def Let_def split: prod.splits)
    next
      case x': (Inr pended)
      obtain ys w3 where ys: "commit_all E k ?a ?crit pended w2 = (ys, w3)" by (metis surj_pair)
      note cr = commit_all_run [OF ys]
      let ?ok = "commit_ids is_committed ys" and ?bad = "commit_ids (\<lambda>x. \<not> is_committed x) ys"
      have keys: "map fst ys = map fst cts" "map fst pended = map fst cts" using cr pr x' by auto
      have part: "set ?ok \<union> set ?bad = fst ` set cts" "set ?ok \<inter> set ?bad = {}"
        using commit_ids_partition(1) [of is_committed ys] commit_ids_partition(2) [of ys is_committed] keys assms(2) by (auto simp flip: set_map)
      have filt: "filter (\<lambda>(i, _). i \<notin> set ?ok) pended = filter (\<lambda>(i, _). i \<in> set ?bad) pended"
      proof (rule filter_cong [OF refl])
        fix p assume "p \<in> set pended"
        then have "fst p \<in> fst ` set cts" using keys(2) by (metis image_eqI set_map)
        then show "(case p of (i, _) \<Rightarrow> i \<notin> set ?ok) = (case p of (i, _) \<Rightarrow> i \<in> set ?bad)" using part by (cases p) auto
      qed
      show ?thesis
      proof (cases "?bad = []")
        case True
        then have "res = CoordSuccess" "w' = w3" using assms(1) g Inr x x' ys by (auto simp: coordinateTransaction_def commitPhase_def Let_def)
        then show ?thesis using wp pr x' cr part True by (intro exI [of _ wp]) auto
      next
        case False
        then obtain st where "res = CommitPhaseFailed ?ok ?bad st" "w' = cancelPhase ?T ?a pended ?ok w3"
          using assms(1) g Inr x x' ys by (auto simp: coordinateTransaction_def commitPhase_def Let_def)
        then show ?thesis using wp pr x' cr part False keys(2) filt by (intro exI [of _ wp]) (auto simp: cancelPhase_def)
      qed
    qed
  qed
qed

lemma participants_distinct: "distinct (map fst (tc_collections k)) \<Longrightarrow> distinct (participants k)"
  by (simp add: participants_def distinct_map_filter)

lemma fst_transforms_of [simp]: "map fst (transforms_of k is) = is" "fst ` set (transforms_of k is) = set is"
  by (simp_all add: transforms_of_def comp_def image_image)

definition attempt_leaves :: "txn \<Rightarrow> ('v, 'a) txn_coordinator \<Rightarrow> txn_error option \<Rightarrow> ('v, 'a) txn_coordinator \<Rightarrow> collection_id \<Rightarrow> bool" where
  \<comment> \<open>what an attempt does to a collection, by its outcome\<close>
  "attempt_leaves t k res k' i \<longleftrightarrow>
     (let committed = (case res of None \<Rightarrow> participants k | Some (CoordinatorPartialCommitError cs fs) \<Rightarrow> cs | _ \<Rightarrow> [])
      in if i \<in> set committed then (\<exists>c c'. col k i = Some c \<and> col k' i = Some c' \<and> advanced (tx_id (tr_body t)) c c') else as_before k k' i)"

lemma participant_col: "i \<in> set (participants k) \<Longrightarrow> \<exists>c. col k i = Some c"
  by (auto simp: participants_def dest: weak_map_of_SomeI)

lemma advanced_kept: "kept c c1 \<Longrightarrow> advanced a c1 c' \<Longrightarrow> advanced a c c'"
  by (simp add: advanced_def getNextRev_def kept_context)

lemma finished_leaves:
  assumes fin: "finish_all k a committed is k1 = (None, k')" and "distinct is" and lg: "logged k k1" and out: "\<And>j. j \<notin> set is \<Longrightarrow> col k1 j = col k j"
    and sub: "set committed \<subseteq> set is" and is_cols: "\<And>i. i \<in> set is \<Longrightarrow> \<exists>c. col k i = Some c"
  shows "if i \<in> set committed then (\<exists>c c'. col k i = Some c \<and> col k' i = Some c' \<and> advanced a c c') else as_before k k' i"
proof (cases "i \<in> set committed")
  case True
  then obtain c where c: "col k i = Some c" using sub is_cols by blast
  obtain c1 where c1: "col k1 i = Some c1" "kept c c1" using logged_Some [OF lg c] by blast
  then show ?thesis using finish_all_result [OF fin assms(2), of i] True subsetD [OF sub True] c advanced_kept [OF c1(2)] by auto
next
  case False
  let ?r = "filter (\<lambda>i. i \<notin> set committed) is"
  have "col k' i = col (restore_all k ?r k1) i" using finish_all_result [OF fin assms(2), of i] False by simp
  also have "\<dots> = col (restore_all k is k1) i" using False by (simp add: col_restore_all)
  finally show ?thesis using False restored_as_before [where i = i, OF lg out] by (simp add: as_before_def)
qed

lemma commitOnce_leaves:
  assumes "commitOnce E t k w = (res, k', w')" and "distinct (map fst (tc_collections k))" and "\<And>m. res \<noteq> Some (CacheFailed m)"
  shows "attempt_leaves t k res k' i"
proof -
  let ?ps = "participants k"
  have same: "attempt_leaves t k res k i" if "res = None \<Longrightarrow> ?ps = []" "\<And>cs fs. res \<noteq> Some (CoordinatorPartialCommitError cs fs)"
    using that by (auto simp: attempt_leaves_def as_before_def split: option.splits txn_error.splits)
  show ?thesis
  proof (cases "isTransactionExpired (ce_now (te_base E) w) (tx_stamp (tr_body t)) \<or> ?ps = []")
    case True
    then show ?thesis using assms(1) same by (auto simp: commitOnce_def Let_def split: if_splits)
  next
    case False
    obtain x k1 w1 where ap: "append_entries E t ?ps ?ps k w = (x, k1, w1)" by (metis prod_cases3)
    note lg = append_entries_logged [OF ap]
    have undone: "attempt_leaves t k res (restore_all k ?ps k1) i" if "res \<noteq> None" "\<And>cs fs. res \<noteq> Some (CoordinatorPartialCommitError cs fs)"
      using that restored_as_before [of k k1 ?ps i] lg by (auto simp: attempt_leaves_def split: option.splits txn_error.splits)
    show ?thesis
    proof (cases x)
      case (Inl m)
      then show ?thesis using assms(1) False ap undone by (auto simp: commitOnce_def Let_def)
    next
      case (Inr crit)
      define cts where "cts = transforms_of k1 ?ps"
      obtain r w2 where r: "coordinateTransaction E k1 t (hashOperations (te_hash E) (collectOperations cts)) cts crit w1 = (r, w2)" by (metis surj_pair)
      have cc: "conclude t ?ps k r k1 = (res, k')" using assms(1) False ap Inr r by (auto simp: commitOnce_def Let_def cts_def split: prod.splits)
      have d: "distinct ?ps" using assms(2) by (rule participants_distinct)
      have ccases: "case r of CommitPhaseFailed committed failed _ \<Rightarrow> set committed \<subseteq> set ?ps | _ \<Rightarrow> True"
        using coordinateTransaction_cases [OF r] d by (auto simp: cts_def split: coord_result.splits)
      have fin: "attempt_leaves t k res (drop_stamp s k2) i"
        if "finish_all k (tx_id (tr_body t)) committed ?ps k1 = (None, k2)" "set committed \<subseteq> set ?ps"
          "res = None \<and> committed = ?ps \<or> (\<exists>fs. res = Some (CoordinatorPartialCommitError committed fs))"
        for s k2 committed
        using finished_leaves [OF that(1) d, of i] lg that(2,3) participant_col [of _ k] by (auto simp: attempt_leaves_def as_before_def Let_def)
      show ?thesis
      proof (cases r)
        case CoordSuccess
        then show ?thesis using cc fin [of ?ps] assms(3) by (auto simp: conclude_def split: prod.splits option.splits)
      next
        case (CoordThrew m)
        then show ?thesis using cc undone by (auto simp: conclude_def)
      next
        case (PendPhaseFailed m st)
        then show ?thesis using cc undone by (auto simp: conclude_def split: if_splits)
      next
        case (CommitPhaseFailed cs fs st)
        then show ?thesis using cc undone fin [of cs] ccases assms(3) by (auto simp: conclude_def split: prod.splits option.splits if_splits)
      qed
    qed
  qed
qed

lemma acknowledged_before: "logged k k1 \<Longrightarrow> commit_acknowledged E k1 a (i, ids) \<Longrightarrow> commit_acknowledged E k a (i, ids)"
proof (cases "col k i")
  case (Some c)
  assume lg: "logged k k1" and ack: "commit_acknowledged E k1 a (i, ids)"
  obtain c1 where "col k1 i = Some c1" "kept c c1" using logged_Some [OF lg Some] by blast
  then show ?thesis using ack Some kept_context [of c c1] by (auto simp: commit_acknowledged_def getNextRev_def)
qed (auto simp: commit_acknowledged_def dest: logged_None)

lemma commitOnce_acknowledged:
  assumes "commitOnce E t k w = (res, k', w')" and "distinct (map fst (tc_collections k))"
    and "i \<in> set (case res of None \<Rightarrow> participants k | Some (CoordinatorPartialCommitError cs fs) \<Rightarrow> cs | _ \<Rightarrow> [])"
  shows "\<exists>ids. commit_acknowledged E k (tx_id (tr_body t)) (i, ids)"
proof -
  let ?ps = "participants k"
  have n: "\<not> isTransactionExpired (ce_now (te_base E) w) (tx_stamp (tr_body t))" "?ps \<noteq> []"
    using assms(1,3) by (auto simp: commitOnce_def Let_def split: if_splits)
  obtain x k1 w1 where ap: "append_entries E t ?ps ?ps k w = (x, k1, w1)" by (metis prod_cases3)
  then obtain crit where x: "x = Inr crit" using assms(1,3) n by (cases x) (auto simp: commitOnce_def Let_def)
  define cts where "cts = transforms_of k1 ?ps"
  obtain r w2 where r: "coordinateTransaction E k1 t (hashOperations (te_hash E) (collectOperations cts)) cts crit w1 = (r, w2)" by (metis surj_pair)
  have cc: "conclude t ?ps k r k1 = (res, k')" using assms(1) n ap x r by (auto simp: commitOnce_def Let_def cts_def split: prod.splits)
  have "\<exists>ids. commit_acknowledged E k1 (tx_id (tr_body t)) (i, ids)"
    using coordinateTransaction_cases [OF r] participants_distinct [OF assms(2)] cc assms(3)
    by (cases r) (auto simp: conclude_def cts_def split: if_splits prod.splits option.splits)
  then show ?thesis using acknowledged_before append_entries_logged [OF ap] by blast
qed

section \<open>Staged actions\<close>

definition actions_for :: "('v, 'a, 's) txn_env \<Rightarrow> string \<Rightarrow> 'a collection_actions list \<Rightarrow> collection_id \<Rightarrow> 'a list" where
  "actions_for E stamp acts i = map (\<lambda>a. te_tag E a stamp) (concat (map snd (filter (\<lambda>(j, _). j = i) acts)))"

definition staged_on :: "('a list) \<Rightarrow> ('v, 'a) collection \<Rightarrow> ('v, 'a) collection \<Rightarrow> bool" where
  "staged_on as c c' \<longleftrightarrow> kept c c' \<and> col_pending c' = col_pending c @ as"

lemma staged_on_trans: "staged_on as c1 c2 \<Longrightarrow> staged_on bs c2 c3 \<Longrightarrow> staged_on (as @ bs) c1 c3"
  by (auto simp: staged_on_def intro: kept_trans)

lemma staged_on_refl [simp]: "staged_on [] c c"
  by (simp add: staged_on_def)

lemma act_each_staged: "act_each E stamp i as c w = (None, c', w') \<Longrightarrow> staged_on (map (\<lambda>a. te_tag E a stamp) as) c c'"
proof (induction E stamp i as c w rule: act_each.induct)
  case (2 E stamp i a as c w)
  obtain x c1 w1 where t: "internalTransact (te_collection E i) [te_tag E a stamp] c w = (x, c1, w1)" by (metis prod_cases3)
  note k = internalTransact_cases [OF t]
  have x: "x = None" using "2.prems" t by (cases x) (auto simp: act_def)
  define c2 where "c2 = c1\<lparr>col_pending := col_pending c1 @ [te_tag E a stamp]\<rparr>"
  have a: "act (te_collection E i) [te_tag E a stamp] c w = (None, c2, w1)" using t x by (simp add: act_def c2_def)
  have "staged_on [te_tag E a stamp] c c2" using k by (simp add: staged_on_def c2_def)
  moreover have "staged_on (map (\<lambda>a. te_tag E a stamp) as) c2 c'"
    using "2.IH" [OF a [symmetric]] "2.prems" a by simp
  ultimately show ?case using staged_on_trans by fastforce
qed simp

lemma put_same_keys: "col k i = Some c \<Longrightarrow> map fst (tc_collections (put_collection i c' k)) = map fst (tc_collections k)"
  by (auto simp: put_collection_def update_keys dest: map_of_SomeD intro: rev_image_eqI)

lemma applyActionsRaw_staged:
  "applyActionsRaw E acts stamp k w = (None, k', w') \<Longrightarrow>
     tc_stampData k' = tc_stampData k \<and> map fst (tc_collections k') = map fst (tc_collections k)
     \<and> (\<forall>c. col k i = Some c \<longrightarrow> (\<exists>c'. col k' i = Some c' \<and> staged_on (actions_for E stamp acts i) c c'))"
proof (induction E acts stamp k w rule: applyActionsRaw.induct)
  case (1 E stamp k w)
  then show ?case by (simp add: actions_for_def)
next
  case (2 E j as rest stamp k w)
  then obtain c where c: "col k j = Some c" by (cases "col k j") auto
  obtain x c1 w1 where a: "act_each E stamp j as c w = (x, c1, w1)" by (metis prod_cases3)
  have x: "x = None" using "2.prems" c a by (cases x) auto
  note st = act_each_staged [OF a [unfolded x]]
  have r: "applyActionsRaw E rest stamp (put_collection j c1 k) w1 = (None, k', w')" using "2.prems" c a x by simp
  note ih = "2.IH" [OF c a [symmetric] _ _ r, unfolded x, OF refl refl]
  have "\<exists>c'. col k' i = Some c' \<and> staged_on (actions_for E stamp ((j, as) # rest) i) d c'" if d: "col k i = Some d" for d
  proof (cases "i = j")
    case True
    then obtain c' where "col k' i = Some c'" "staged_on (actions_for E stamp rest i) c1 c'" using ih by auto
    then show ?thesis using staged_on_trans [OF st] True d c by (auto simp: actions_for_def)
  next
    case False
    then show ?thesis using ih d by (auto simp: actions_for_def)
  qed
  then show ?case using ih put_same_keys [OF c] by (simp add: put_collection_def)
qed

lemma col_restore_trackers:
  "distinct (map fst snap) \<Longrightarrow> col (restore_trackers snap k) i =
     (case col k i of None \<Rightarrow> None | Some c \<Rightarrow> (case map_of snap i of None \<Rightarrow> Some c | Some t \<Rightarrow> Some (reset_tracker t c)))"
proof (induction snap arbitrary: k)
  case Nil
  then show ?case by (simp add: restore_trackers_def split: option.split)
next
  case (Cons x snap)
  obtain j t where x: "x = (j, t)" by (cases x)
  let ?k = "case col k j of Some c \<Rightarrow> put_collection j (reset_tracker t c) k | None \<Rightarrow> k"
  have "restore_trackers (x # snap) k = restore_trackers snap ?k" by (simp add: restore_trackers_def x)
  moreover have "map_of snap j = None" using Cons.prems x by (simp add: map_of_eq_None_iff)
  ultimately show ?case using Cons x by (cases "i = j") (auto split: option.splits)
qed

lemma append_actions_error: "append_actions E t allIds cas crit k w = (Inl r, k', w') \<Longrightarrow> r \<noteq> ExecSuccess"
  by (induction E t allIds cas crit k w rule: append_actions.induct) (auto split: prod.splits apply_result.splits)

lemma restore_trackers_stamps [simp]: "tc_stampData (restore_trackers snap k) = tc_stampData k"
proof (induction snap arbitrary: k)
  case (Cons x snap)
  obtain j t where x: "x = (j, t)" by (cases x)
  let ?k = "case col k j of Some c \<Rightarrow> put_collection j (reset_tracker t c) k | None \<Rightarrow> k"
  have "restore_trackers (x # snap) k = restore_trackers snap ?k" by (simp add: restore_trackers_def x)
  then show ?case using Cons [of ?k] by (simp add: put_collection_def split: option.split)
qed (simp add: restore_trackers_def)

lemma append_actions_logged:
  "append_actions E t allIds cas crit k w = (x, k', w') \<Longrightarrow> logged k k'"
proof (induction E t allIds cas crit k w rule: append_actions.induct)
  case (2 E t allIds ca cas crit k w)
  obtain y k1 w1 where a: "applyActionsToCollection E ca t allIds k w = (y, k1, w1)" by (metis prod_cases3)
  have l: "logged k k1" using applyActionsToCollection_logged [of E "fst ca" "snd ca" t allIds k w y k1 w1] a by simp
  show ?case
  proof (cases y)
    case (Applied tid)
    then have "logged k1 k'" using "2.IH" [OF a [symmetric] Applied refl] "2.prems" a by auto
    then show ?thesis by (rule logged_trans [OF l])
  qed (use "2.prems" a l in auto)
qed simp

lemma settle_revisions:
  "col k i = Some c \<Longrightarrow> \<exists>c'. col (settle a is k) i = Some c' \<and> held_rev (col_context c') = held_rev (col_context c) + count_list is i \<and> col_pending c' = col_pending c"
proof (induction "is" arbitrary: k c)
  case Nil
  then show ?case by (simp add: settle_def)
next
  case (Cons j "is")
  let ?k = "case col k j of Some c \<Rightarrow> put_collection j (reset_tracker emptyTransforms (snd (recordCommitted a c))) k | None \<Rightarrow> k"
  have step: "settle a (j # is) k = settle a is ?k" by (simp add: settle_def)
  show ?case
  proof (cases "i = j")
    case True
    then have "col ?k i = Some (reset_tracker emptyTransforms (snd (recordCommitted a c)))" using Cons.prems by simp
    from Cons.IH [OF this] show ?thesis unfolding step using True
      by (auto simp: reset_tracker_def recordCommitted_def set_context_def getNextRev_def committed_context_def held_rev_def Let_def)
  next
    case False
    then have "col ?k i = Some c" using Cons.prems by (auto split: option.split)
    from Cons.IH [OF this] show ?thesis unfolding step using False by auto
  qed
qed

section \<open>A transaction over two collections\<close>

definition sample_txn_env :: "(block_id list \<Rightarrow> bool) \<Rightarrow> (block_id list \<Rightarrow> bool) \<Rightarrow> (nat, block_id, (string \<times> block_id list) list) txn_env" where
  "sample_txn_env pends commits =
     (let B = sample_col_env (sample_itransactor pends commits)
      in \<lparr>te_base = B, te_collection = \<lambda>i. B, te_tag = \<lambda>a s. a, te_hash = sample_hash_env\<rparr>)"

definition sample_txn :: txn where
  "sample_txn = \<lparr>tr_priority = None, tr_body =
     \<lparr>tx_stamp = \<lparr>st_peerId = ''p'', st_timestamp = 0, st_schemaHash = [], st_engineId = ''e'', st_expiration = 10, st_nonce = [], st_id = ''s''\<rparr>,
      tx_statements = [], tx_reads = [], tx_id = ''tx'', tx_signature = None\<rparr>\<rparr>"

definition sample_coordinator :: "(nat, block_id) txn_coordinator" where
  "sample_coordinator = \<lparr>tc_collections = [(''c'', sample_collection ''c'' [''x'']), (''d'', sample_collection ''d'' [''y''])], tc_stampData = [], tc_nextStampOrder = 0\<rparr>"

section \<open>Properties\<close>

text \<open>C40. An attempt to commit is all or nothing, or says what it did, as long as no error is thrown while the committed changes are folded
  into the read caches. After success every collection with staged changes has been acknowledged as committed at its next revision, holds
  this revision and has nothing staged; after a partial commit this is so for exactly the collections that the error names as committed. For every other
  collection, and for every collection after any other error, the staged blocks, the pending actions and the revision are what they were.\<close>

theorem commit_attempt_restores_what_it_did_not_commit:
  assumes "commitOnce E t k w = (res, k', w')" and "distinct (map fst (tc_collections k))" and "\<And>m. res \<noteq> Some (CacheFailed m)"
  shows "if i \<in> set (case res of None \<Rightarrow> participants k | Some (CoordinatorPartialCommitError cs fs) \<Rightarrow> cs | _ \<Rightarrow> [])
    then (\<exists>c c'. col k i = Some c \<and> col k' i = Some c' \<and> advanced (tx_id (tr_body t)) c c')
      \<and> (\<exists>ids. commit_acknowledged E k (tx_id (tr_body t)) (i, ids))
    else map_option snapshotPending (col k' i) = map_option snapshotPending (col k i)"
  using commitOnce_leaves [OF assms, of i] commitOnce_acknowledged [OF assms(1,2), of i] unfolding attempt_leaves_def as_before_def Let_def
  by (auto split: if_splits)

theorem commit_attempt_restores_what_it_did_not_commit_witness:
  "\<exists>k' w'. commitOnce (sample_txn_env (\<lambda>_. True) (\<lambda>ids. ''x'' \<in> set ids)) sample_txn sample_coordinator []
      = (Some (CoordinatorPartialCommitError [''c''] [''d'']), k', w')
    \<and> (\<exists>c'. col k' ''c'' = Some c' \<and> advanced ''tx'' (sample_collection ''c'' [''x'']) c')
    \<and> (\<exists>ids. commit_acknowledged (sample_txn_env (\<lambda>_. True) (\<lambda>ids. ''x'' \<in> set ids)) sample_coordinator ''tx'' (''c'', ids))
    \<and> map_option snapshotPending (col k' ''d'') = Some (snapshotPending (sample_collection ''d'' [''y'']))"
proof -
  let ?E = "sample_txn_env (\<lambda>_. True) (\<lambda>ids. ''x'' \<in> set ids)"
  obtain res k' w' where c: "commitOnce ?E sample_txn sample_coordinator [] = (res, k', w')" by (metis prod_cases3)
  have "case fst (commitOnce ?E sample_txn sample_coordinator []) of Some (CoordinatorPartialCommitError cs fs) \<Rightarrow> cs = [''c''] \<and> fs = [''d''] | _ \<Rightarrow> False"
    by code_simp
  then have res: "res = Some (CoordinatorPartialCommitError [''c''] [''d''])" using c by (auto split: option.splits txn_error.splits)
  have d: "distinct (map fst (tc_collections sample_coordinator))" by (simp add: sample_coordinator_def)
  note leaves = commit_attempt_restores_what_it_did_not_commit [OF c d]
  show ?thesis using leaves [of "''c''"] leaves [of "''d''"] c unfolding res by (auto simp: sample_coordinator_def sample_txn_def)
qed

fun no_commit :: "'v txn_request \<Rightarrow> bool" where
  "no_commit (ReqCommit cr) = False"
| "no_commit _ = True"

lemma before_commit_no_commit: "before_commit r \<Longrightarrow> no_commit r"
  by (cases r) simp_all

lemma cancels_no_commit: "cancels_of a r \<Longrightarrow> no_commit r"
  by (cases r) simp_all

text \<open>No commit is sent before every collection of the transaction has been pended: either the whole run sends no commit, or the pends
  of all collections are acknowledged and all that follows them are commits and cancels of the transaction.\<close>

theorem commit_needs_every_pend:
  assumes "coordinateTransaction E k t hash cts criticalBlocks w = (res, w')" and "distinct (map fst cts)"
  shows "txn_run (te_transactor E) no_commit w w'
    \<or> (\<exists>w1. txn_run (te_transactor E) before_commit w w1 \<and> (\<forall>ct \<in> set cts. \<exists>ids. pend_acknowledged E k t hash ct ids)
         \<and> txn_run (te_transactor E) (\<lambda>r. commits_for (tx_id (tr_body t)) r \<or> cancels_of (tx_id (tr_body t)) r) w1 w')"
proof -
  from coordinateTransaction_cases [OF assms] obtain w1 where w1: "txn_run (te_transactor E) before_commit w w1" and rest: "case res of
      CoordThrew _ \<Rightarrow> w' = w1
    | PendPhaseFailed _ _ \<Rightarrow> txn_run (te_transactor E) (cancels_of (tx_id (tr_body t))) w1 w'
    | CoordSuccess \<Rightarrow> (\<forall>ct \<in> set cts. \<exists>ids. pend_acknowledged E k t hash ct ids) \<and> txn_run (te_transactor E) (commits_for (tx_id (tr_body t))) w1 w'
    | CommitPhaseFailed _ _ _ \<Rightarrow> (\<forall>ct \<in> set cts. \<exists>ids. pend_acknowledged E k t hash ct ids)
        \<and> (\<exists>xs w3. txn_run (te_transactor E) (commits_for (tx_id (tr_body t))) w1 w3 \<and> w' = cancel_all (te_transactor E) (tx_id (tr_body t)) xs w3)"
    by (cases res) fastforce+
  have start: "txn_run (te_transactor E) no_commit w w1" using w1 by (rule txn_run_mono) (rule before_commit_no_commit)
  show ?thesis
  proof (cases res)
    case CoordSuccess
    then show ?thesis using w1 rest txn_run_mono [of "te_transactor E" "commits_for (tx_id (tr_body t))" w1 w'] by auto
  next
    case (CoordThrew m)
    then show ?thesis using start rest by simp
  next
    case (PendPhaseFailed m st)
    then have "txn_run (te_transactor E) no_commit w1 w'" using rest by (auto elim: txn_run_mono intro: cancels_no_commit)
    then show ?thesis using txn_run_trans [OF start] by blast
  next
    case (CommitPhaseFailed cs fs st)
    then obtain xs w3 where "txn_run (te_transactor E) (commits_for (tx_id (tr_body t))) w1 w3" "w' = cancel_all (te_transactor E) (tx_id (tr_body t)) xs w3"
      using rest by auto
    then have "txn_run (te_transactor E) (\<lambda>r. commits_for (tx_id (tr_body t)) r \<or> cancels_of (tx_id (tr_body t)) r) w1 w'"
      by (auto intro: txn_run_trans [OF txn_run_mono txn_run_mono [OF cancel_all_run]])
    then show ?thesis using w1 rest CommitPhaseFailed by auto
  qed
qed

theorem commit_needs_every_pend_witness:
  "\<exists>res w'. coordinateTransaction (sample_txn_env (\<lambda>ids. ''x'' \<in> set ids) (\<lambda>_. True)) sample_coordinator sample_txn ''h''
        (transforms_of sample_coordinator [''c'', ''d'']) [(''c'', ''x''), (''d'', ''y'')] [] = (res, w')
     \<and> w' = [(''pend'', [''x'']), (''pend'', [''y'']), (''cancel'', [''x''])]
     \<and> (txn_run (te_transactor (sample_txn_env (\<lambda>ids. ''x'' \<in> set ids) (\<lambda>_. True))) no_commit [] w' \<or>
        (\<forall>ct \<in> set (transforms_of sample_coordinator [''c'', ''d'']). \<exists>ids. pend_acknowledged (sample_txn_env (\<lambda>ids. ''x'' \<in> set ids) (\<lambda>_. True)) sample_coordinator sample_txn ''h'' ct ids))"
proof -
  let ?E = "sample_txn_env (\<lambda>ids. ''x'' \<in> set ids) (\<lambda>_. True)"
  obtain res w' where c: "coordinateTransaction ?E sample_coordinator sample_txn ''h'' (transforms_of sample_coordinator [''c'', ''d''])
      [(''c'', ''x''), (''d'', ''y'')] [] = (res, w')" by (metis surj_pair)
  have "snd (coordinateTransaction ?E sample_coordinator sample_txn ''h'' (transforms_of sample_coordinator [''c'', ''d''])
      [(''c'', ''x''), (''d'', ''y'')] []) = [(''pend'', [''x'']), (''pend'', [''y'']), (''cancel'', [''x''])]"
    by code_simp
  then show ?thesis using commit_needs_every_pend [OF c] c by auto
qed

text \<open>The phases report the truth about the commits: after success every collection was acknowledged as committed; after a failed
  commit phase the committed and the failed collections are the two parts of the transaction, the committed ones were acknowledged at their
  next revision, and what the failed ones had pended is cancelled.\<close>

theorem reported_commits_are_acknowledged:
  assumes "coordinateTransaction E k t hash cts criticalBlocks w = (res, w')" and "distinct (map fst cts)"
  shows "case res of
      CoordSuccess \<Rightarrow> (\<forall>i \<in> fst ` set cts. \<exists>ids. commit_acknowledged E k (tx_id (tr_body t)) (i, ids))
    | CommitPhaseFailed committed failed _ \<Rightarrow> set committed \<union> set failed = fst ` set cts \<and> set committed \<inter> set failed = {} \<and> failed \<noteq> []
        \<and> (\<forall>i \<in> set committed. \<exists>ids. commit_acknowledged E k (tx_id (tr_body t)) (i, ids))
        \<and> (\<exists>pended w1. map fst pended = map fst cts
             \<and> w' = cancel_all (te_transactor E) (tx_id (tr_body t)) (filter (\<lambda>(i, _). i \<in> set failed) pended) w1)
    | _ \<Rightarrow> True"
  using coordinateTransaction_cases [OF assms] by (cases res) auto

theorem reported_commits_are_acknowledged_witness:
  "\<exists>w'. coordinateTransaction (sample_txn_env (\<lambda>_. True) (\<lambda>ids. ''x'' \<in> set ids)) sample_coordinator sample_txn ''h''
        (transforms_of sample_coordinator [''c'', ''d'']) [(''c'', ''x''), (''d'', ''y'')] [] = (CommitPhaseFailed [''c''] [''d''] True, w')
     \<and> w' = [(''pend'', [''x'']), (''pend'', [''y'']), (''commit'', [''x'']), (''commit'', [''y'']), (''cancel'', [''y''])]
     \<and> (\<exists>ids. commit_acknowledged (sample_txn_env (\<lambda>_. True) (\<lambda>ids. ''x'' \<in> set ids)) sample_coordinator ''tx'' (''c'', ids))"
proof -
  let ?E = "sample_txn_env (\<lambda>_. True) (\<lambda>ids. ''x'' \<in> set ids)"
  let ?run = "coordinateTransaction ?E sample_coordinator sample_txn ''h'' (transforms_of sample_coordinator [''c'', ''d'']) [(''c'', ''x''), (''d'', ''y'')] []"
  have r: "?run = (CommitPhaseFailed [''c''] [''d''] True, [(''pend'', [''x'']), (''pend'', [''y'']), (''commit'', [''x'']), (''commit'', [''y'']), (''cancel'', [''y''])])"
    by code_simp
  from reported_commits_are_acknowledged [OF r] r show ?thesis by (auto simp: sample_txn_def)
qed

lemma track_stamp_first:
  assumes "tc_stampData k = []"
  shows "tc_stampData (push_batch stamp acts (track_stamp stamp k))
      = [(stamp, \<lparr>sd_order = tc_nextStampOrder k, sd_preSnapshot = tracker_snapshot k, sd_actionBatches = [acts]\<rparr>)]"
    and "tc_collections (push_batch stamp acts (track_stamp stamp k)) = tc_collections k"
  using assms by (simp_all add: push_batch_def track_stamp_def)

lemma fst_tracker_snapshot [simp]: "map fst (tracker_snapshot k) = map fst (tc_collections k)"
  by (auto simp: tracker_snapshot_def)

lemma map_of_tracker_snapshot: "map_of (tracker_snapshot k) i = map_option col_transforms (col k i)"
  by (simp add: tracker_snapshot_def map_of_map)

text \<open>Rolling back the only transaction that staged anything gives every collection its staged blocks back, and forgets the
  transaction; the actions it had staged stay in the queues of pending actions, from where the next commit of the collection logs them.\<close>

theorem rollback_restores_blocks_not_pending:
  assumes "applyActions E acts stamp k w = (None, k1, w1)" and "tc_stampData k = []" and "distinct (map fst (tc_collections k))"
  shows "\<exists>k2. rollback E stamp k1 w1 = (None, k2, w1) \<and> tc_stampData k2 = [] \<and> (\<forall>i c. col k i = Some c \<longrightarrow>
    (\<exists>c2. col k2 i = Some c2 \<and> col_transforms c2 = col_transforms c \<and> col_context c2 = col_context c
       \<and> col_pending c2 = col_pending c @ actions_for E stamp acts i))"
proof -
  let ?k = "push_batch stamp acts (track_stamp stamp k)"
  note first = track_stamp_first [OF assms(2), of stamp acts]
  have st: "tc_stampData k1 = tc_stampData ?k"
    and cols: "col k i = Some c \<Longrightarrow> \<exists>c'. col k1 i = Some c' \<and> staged_on (actions_for E stamp acts i) c c'" for i c
    using applyActionsRaw_staged [OF assms(1) [unfolded applyActions_def]] first(2) by auto
  let ?k2 = "restore_trackers (tracker_snapshot k) (k1\<lparr>tc_stampData := []\<rparr>)"
  have "rollback E stamp k1 w1 = (None, ?k2, w1)"
    by (simp add: rollback_def st first earliest_def)
  moreover have "tc_stampData ?k2 = []"
    by (simp add: restore_trackers_stamps)
  moreover have "\<exists>c2. col ?k2 i = Some c2 \<and> col_transforms c2 = col_transforms c \<and> col_context c2 = col_context c
       \<and> col_pending c2 = col_pending c @ actions_for E stamp acts i" if "col k i = Some c" for i c
    using cols [OF that] that assms(3)
    by (auto simp: col_restore_trackers map_of_tracker_snapshot staged_on_def reset_tracker_def tracker_reset_def dest: kept_context)
  ultimately show ?thesis by blast
qed

theorem rollback_restores_blocks_not_pending_witness:
  "\<exists>k1 k2 w1 c2. applyActions (sample_txn_env (\<lambda>_. True) (\<lambda>_. True)) [(''c'', [''y''])] ''s'' sample_coordinator [] = (None, k1, w1)
     \<and> rollback (sample_txn_env (\<lambda>_. True) (\<lambda>_. True)) ''s'' k1 w1 = (None, k2, w1) \<and> col k2 ''c'' = Some c2
     \<and> col_transforms c2 = col_transforms (sample_collection ''c'' [''x'']) \<and> col_pending c2 = [''x'', ''y'']"
proof -
  let ?E = "sample_txn_env (\<lambda>_. True) (\<lambda>_. True)"
  obtain x k1 w1 where a: "applyActions ?E [(''c'', [''y''])] ''s'' sample_coordinator [] = (x, k1, w1)" by (metis prod_cases3)
  have "case fst (applyActions ?E [(''c'', [''y''])] ''s'' sample_coordinator []) of None \<Rightarrow> True | Some _ \<Rightarrow> False" by code_simp
  then have n: "x = None" using a by (simp split: option.splits)
  have s: "tc_stampData sample_coordinator = []" "distinct (map fst (tc_collections sample_coordinator))"
      "col sample_coordinator ''c'' = Some (sample_collection ''c'' [''x''])" by (simp_all add: sample_coordinator_def)
  from rollback_restores_blocks_not_pending [OF a [unfolded n] s(1,2)] s(3) show ?thesis
    using a n by (force simp: actions_for_def sample_txn_env_def Let_def sample_collection_def)
qed

text \<open>When a transaction is executed with success, each of its collections was committed at its next revision, but its own
  record of the revision has moved once for every statement on it, and its pending actions are not cleared.\<close>

theorem execute_counts_revision_per_statement:
  assumes "execute E engine t k w = (ExecSuccess, k', w')" and "engine t k w = (EngineActions acts, k1, w1)" and "col k1 i = Some c"
  shows "\<exists>c'. col k' i = Some c' \<and> held_rev (col_context c') = held_rev (col_context c) + count_list (map fst acts) i
      \<and> col_pending c' = col_pending c @ actions_for E (st_id (tx_stamp (tr_body t))) acts i
      \<and> (i \<in> fst ` set acts \<longrightarrow> (\<exists>cr wa wb. nc_actionId cr = tx_id (tr_body t) \<and> nc_rev cr = held_rev (col_context c) + 1
            \<and> it_commit (te_transactor E) cr wa = (Inr NCommitSuccess, wb)))"
proof (cases acts)
  case Nil
  then show ?thesis using assms by (auto simp: execute_def Let_def actions_for_def split: if_splits)
next
  case (Cons ca cas)
  let ?s = "st_id (tx_stamp (tr_body t))" and ?a = "tx_id (tr_body t)"
  from assms(1,2) Cons obtain k2 w2 k3 w3 crit where ap: "applyActions E acts ?s k1 w1 = (None, k2, w2)"
    and lg: "append_actions E t (map fst acts) acts [] k2 w2 = (Inr crit, k3, w3)"
    and co: "coordinateTransaction E k3 t (hashOperations (te_hash E) (collectOperations (transforms_of k3 (js_set (map fst acts)))))
        (transforms_of k3 (js_set (map fst acts))) crit w3 = (CoordSuccess, w')"
    and k': "k' = drop_stamp ?s (settle ?a (map fst acts) k3)"
    by (auto simp: execute_def Let_def simp del: append_actions.simps dest: append_actions_error
        split: if_splits prod.splits option.splits sum.splits coord_result.splits)
  have "tc_collections (push_batch ?s acts (track_stamp ?s k1)) = tc_collections k1"
    by (simp add: push_batch_def track_stamp_def split: option.split)
  then obtain c2 where c2: "col k2 i = Some c2" "staged_on (actions_for E ?s acts i) c c2"
    using applyActionsRaw_staged [OF ap [unfolded applyActions_def], of i] assms(3) by auto
  obtain c3 where c3: "col k3 i = Some c3" "kept c2 c3" "col_pending c3 = col_pending c2"
    using logged_Some [OF append_actions_logged [OF lg] c2(1)] by blast
  have cx: "col_context c3 = col_context c" using c2(2) c3(2) kept_context by (metis staged_on_def)
  obtain c' where c': "col k' i = Some c'" "held_rev (col_context c') = held_rev (col_context c3) + count_list (map fst acts) i"
      "col_pending c' = col_pending c3"
    using settle_revisions [OF c3(1), of ?a "map fst acts"] by (auto simp: k')
  have "\<exists>cr wa wb. nc_actionId cr = ?a \<and> nc_rev cr = held_rev (col_context c) + 1 \<and> it_commit (te_transactor E) cr wa = (Inr NCommitSuccess, wb)"
    if "i \<in> fst ` set acts"
  proof -
    have "\<exists>ids. commit_acknowledged E k3 ?a (i, ids)"
      using coordinateTransaction_cases [OF co] that by auto
    then show ?thesis using c3(1) cx by (auto simp: commit_acknowledged_def getNextRev_def)
  qed
  then show ?thesis using c' c2(2) c3(3) cx by (auto simp: staged_on_def)
qed

definition sample_engine :: "'a collection_actions list \<Rightarrow> ('v, 'a, 's) txn_engine" where
  \<comment> \<open>an engine that translates every transaction to the same actions\<close>
  "sample_engine acts = (\<lambda>t k w. (EngineActions acts, k, w))"

theorem execute_counts_revision_per_statement_witness:
  "\<exists>k' w' c'. execute (sample_txn_env (\<lambda>_. True) (\<lambda>_. True)) (sample_engine [(''c'', [''y'']), (''c'', [''z''])]) sample_txn sample_coordinator [] = (ExecSuccess, k', w')
     \<and> col k' ''c'' = Some c' \<and> held_rev (col_context c') = 2 \<and> col_pending c' = [''x'', ''y'', ''z'']"
proof -
  let ?E = "sample_txn_env (\<lambda>_. True) (\<lambda>_. True)" and ?e = "sample_engine [(''c'', [''y'']), (''c'', [''z''])]"
  obtain res k' w' where x: "execute ?E ?e sample_txn sample_coordinator [] = (res, k', w')" by (metis prod_cases3)
  have "case fst (execute ?E ?e sample_txn sample_coordinator []) of ExecSuccess \<Rightarrow> True | _ \<Rightarrow> False" by code_simp
  then have "res = ExecSuccess" using x by (simp split: exec_result.splits)
  moreover have "col sample_coordinator ''c'' = Some (sample_collection ''c'' [''x''])" by (simp add: sample_coordinator_def)
  ultimately obtain c' where "col k' ''c'' = Some c'" "held_rev (col_context c') = held_rev (col_context (sample_collection ''c'' [''x''])) + 2"
      "col_pending c' = [''x''] @ [''y'', ''z'']"
    using execute_counts_revision_per_statement [of ?E ?e sample_txn sample_coordinator "[]" k' w' "[(''c'', [''y'']), (''c'', [''z''])]" sample_coordinator "[]" "''c''"] x
    by (auto simp: sample_engine_def actions_for_def sample_txn_env_def Let_def sample_collection_def)
  moreover have "held_rev (col_context (sample_collection ''c'' [''x''])) = 0" by code_simp
  ultimately show ?thesis using x \<open>res = ExecSuccess\<close> by auto
qed

end
