(* ===== verification/Spec2Isabelle.thy ===== *)
theory Spec2Isabelle
  imports Key_Encoding Tracker_Store Cache_Source Storage_Repo Chain_Blocks Action_Log BTree_Map Cluster_Coordinator Transaction_Coordinator
begin

text \<open>
  Optimystic is a distributed block database written in TypeScript. Collections keep their data in small
  blocks; a client stages changes to blocks and a cluster of peers agrees on them in two phases; every peer
  keeps a versioned store of the blocks it serves. This development models the block layer of
  \<open>packages/db-core\<close>, the storage and the consensus of \<open>packages/db-p2p\<close>, and the key framing of
  \<open>packages/quereus-plugin-optimystic\<close>, from the data structures up to a round of the cluster.

  \<^bold>\<open>From a client's change to a commit.\<close> A B-tree or a chain works on blocks through an \<open>Atomic\<close> scope, a
  \<open>Tracker\<close> records the changes as transforms, and a \<open>CacheSource\<close> serves the reads below it. The log of a
  collection is a chain of actions. A \<open>Collection\<close> stages actions this way and synchronizes them as one log entry: its \<open>TransactorSource\<close> pends and commits the transforms through a
  \<open>NetworkTransactor\<close>, which batches the blocks over the peers that coordinate them. There a \<open>ClusterCoordinator\<close> brings them to the peers of a block as a record to vote on; each \<open>ClusterMember\<close> validates, promises, commits and,
  when a majority has committed, applies the operations to its \<open>StorageRepo\<close>, which is made of one \<open>BlockStorage\<close>
  per block over a raw store.

  \<^bold>\<open>Theories and sources.\<close> State is passed explicitly; an operation that can throw returns a sum whose left side
  is the error, beside the state it leaves.

  \<^item> \<open>Opt_Prelude\<close>: lists, association lists as JavaScript maps and objects, and the shared rules.
  \<^item> \<open>Key_Encoding\<close> (\<open>schema/key-encoding.ts\<close>): strings of 16-bit code units; tuples are framed uniquely, in the order
    of the trees, and an index range holds exactly the tuples with its prefix.
  \<^item> \<open>Block_Ops\<close>, \<open>Transform_Ops\<close> (\<open>db-core/src/blocks\<close>, \<open>transform/helpers.ts\<close>): blocks, splices and transforms; merging two
    transforms is applying one after the other.
  \<^item> \<open>Tracker_Store\<close> (\<open>transform/tracker.ts\<close>, \<open>atomic.ts\<close>, \<open>atomic-proxy.ts\<close>): the interface of a block store is the locale
    \<open>block_store\<close>, met by transforms and by the tracker; an atomic scope that succeeds is transparent and one that
    throws changes nothing.
  \<^item> \<open>Lru_Map\<close>, \<open>Cache_Source\<close> (\<open>utility/lru-map.ts\<close>, \<open>transform/cache-source.ts\<close>, \<open>read-dependency-collector.ts\<close>): the
    cache under a tracker never changes what is read, as long as remote changes are announced (the relation
    \<open>cache_step\<close>); the read dependencies are exact.
  \<^item> \<open>Chain_Blocks\<close>, \<open>Action_Log\<close> (\<open>chain/chain.ts\<close>, \<open>log/log.ts\<close>): a chain refines a double-ended queue under the locale
    \<open>chain_hook\<close>, whose instance for the log gives the chain of block hashes; the queries of a log return exactly its
    actions, checkpoints and invalidations.
  \<^item> \<open>BTree_Ops\<close>, \<open>BTree_Map\<close> (\<open>btree/btree.ts\<close>): all operations over a store of nodes, and what search, insertion and
    \<open>drop\<close> do to the entries, for every comparator that is a total order (locale \<open>key_order\<close>).
  \<^item> \<open>Raw_Storage\<close>, \<open>Block_Storage\<close>, \<open>Storage_Repo\<close> (\<open>storage/memory-store-driver.ts\<close>, \<open>raw-store-codec.ts\<close>,
    \<open>block-storage.ts\<close>, \<open>storage-repo.ts\<close>): the memory driver refines one state per block (locale \<open>raw_storage\<close>); every
    revision that was readable stays readable through commits, pruning and recovery; latest revisions are monotone, retries of a
    commit are idempotent, stale commits write nothing, and only a late pend and a restore can make an action both pending and committed.
  \<^item> \<open>Cluster_Record\<close> (\<open>cluster/structs.ts\<close>, \<open>membership.ts\<close>, the pure part of \<open>cluster/cluster-repo.ts\<close>): votes, hashes,
    quorums, conflicts, the race rule, merging.
  \<^item> \<open>Cluster_Member\<close> (\<open>cluster/cluster-repo.ts\<close>): validation, admission, voting, execution, timers, recovery. The
    loop over the phases ends by itself, votes are neither lost nor invented, execution needs a majority of
    commits and happens once, a held transaction is defended against a rival, super-majorities overlap.
  \<^item> \<open>Cluster_Coordinator\<close> (\<open>repo/cluster-coordinator.ts\<close>): the phases of a transaction over an explicit network that may
    lose requests and responses, with retries and recovery. It sees a member through the locale
    \<open>delivery_service\<close>. Without losses every member executes the transaction.
  \<^item> \<open>Batch_Coordinator\<close>, \<open>Network_Transactor\<close> (\<open>utility/batch-coordinator.ts\<close>, \<open>transactor/network-transactor.ts\<close>): batches, their
    retries, pend, commit, cancel and get. The peers and the key network are arbitrary functions on a world; what an operation sends is a run
    of the step relation \<open>net_step\<close>, and the locale \<open>batch_run\<close> is what it relies on from the batches. A pend partitions its blocks, a
    commit sends a header that is not among its blocks, then the tail, then the rest, a read invents nothing, and all of them return.
  \<^item> \<open>Transactor_Source\<close> (\<open>transactor/transactor-source.ts\<close>): reads with their dependencies, and \<open>transact\<close> over the locale
    \<open>block_transactor\<close>, which the network transactor meets.
  \<^item> \<open>Collection_Ops\<close> (\<open>collection/collection.ts\<close>, \<open>utility/backoff.ts\<close>): collections over the tracker, the cache and the source. Action
    handlers and log operations are trees of store operations, performed by \<open>run_prog\<close>; the locale \<open>kept_source\<close> says what such code cannot
    touch. A revision is never given up, and \<open>sync\<close> reports success only for a committed entry of the staged actions and otherwise keeps what is
    pending, unless only the work after the commit failed.
  \<^item> \<open>Operations_Hash\<close> (\<open>transaction/operations-hash.ts\<close>): canonical JSON and the hash of a transaction's operations, which agree exactly
    when the operations do.
  \<^item> \<open>Transaction_Coordinator\<close> (\<open>transaction/coordinator.ts\<close>, \<open>session.ts\<close>): transactions over several collections, with the phases
    gather, pend and commit, retries, rollback and sessions. Nothing is committed before all collections are pended, what is reported as committed
    was acknowledged, and a failed attempt restores the collections it did not commit.

  \<^bold>\<open>Loops.\<close> Loops over lists are recursive functions. The descents of a B-tree and the walks along a chain need not
  end in a malformed store; they are partial functions with value \<open>None\<close> for a walk that does not return, and
  the theorems show that they return on well-formed trees and chains. Three loops carry a bound. The depth of the
  retries of a batch is an argument, and a depth above the timeouts is shown to be enough when failing calls take time. The forward
  probe of \<open>BlockStorage.recover\<close> is bounded by the number of recorded revisions, which it cannot exceed;
  the phase loop of a member has the bound 8 of the source, and three steps are shown to be enough. The retries of \<open>sync\<close> end
  because every failed round uses up an attempt and a successful one leaves nothing to synchronize; those of a transaction's commit because
  every lost round uses up an attempt.

  \<^bold>\<open>Parameters.\<close> Code outside the repository is an argument: hashes, keys and signatures (the record \<open>crypto\<close>),
  random ids, the restore and reconcile callbacks, transaction validators, the cluster lookup and the
  network-size estimate, the clock. The handlers and the log that a collection calls are arguments too: any code on a block store; so are the engine that translates
  the statements of a transaction, its id and its signature. The assumptions made about them are stated where they are used, e.g. that
  an honest member's signature verifies under the key of its peer id (\<open>honest\<close>).

  \<^bold>\<open>What the model shows to be wrong.\<close> Some theorems state behaviour that the code does not intend:
  a split branch of the B-tree loses entries; a tracker reads a stale block after an update was recorded on it; ids with
  a colon collide in the memory store; a range without an end is lost by the codec; a crash between two writes of a
  commit is not recovered when revisions are sparse; a lost promise can make a committed record
  unacceptable to all members; two conflicting transactions can both commit because a member drops
  its reservation when it signs the commit; a failed delivery makes the valid ones after it fail;
  a pend can succeed with a block that no peer holds; a failed pend leaves blocks pending; a commit can throw after the tail was
  committed; the header of a new collection is never committed first; a pend of an action that is already committed, and a restored
  archive, leave the action both pending and committed; rolling a transaction back leaves its actions in the queues of pending actions; executing a
  transaction advances a collection's revision once for every element of the engine's result.

  \<^bold>\<open>Not modelled.\<close> The tree and diary over a collection, the transaction validator and engines,
  and \<open>CoordinatorRepo\<close>, which compose the parts above, are not modelled; nor is \<open>getStatus\<close> of the network
  transactor, which only reads. Disputes are dormant in the code; a member's part in an invalidation is modelled. Cohort topics,
  reactivity and matchmaking are services beside the block layer. The persistent raw stores, the libp2p node, the
  query-engine plugins, the simulator, the reference peer and the test harnesses are input and output,
  composition or tools. Logging and the delays of timers are left out everywhere. What the code runs
  under a latch or one at a time per transaction is a single step; the orders in which the deliveries of
  different transactions and the changes of other writers arrive are free.
\<close>

end
